(* ===== verification/Zx_Prelude.thy ===== *)
theory Zx_Prelude
  imports Main "HOL-Library.Word"
begin

unbundle bit_operations_syntax

text \<open>
  Shared vocabulary of the development: machine integers at the width the kernel uses them,
  the status codes of \<^verbatim>\<open>zircon/errors.h\<close>, transfers between user and kernel memory, and
  the generic facts on lists and words that the component theories rely on.

  User memory is a partial function from offsets to bytes: an offset without a byte is an
  address whose access faults. A transfer from user memory stores bytes until the first
  fault and reports whether it was complete, so that code which rolls back after a fault
  is modelled together with the garbage that the fault leaves behind.
\<close>

section \<open>Integers, object ids and status codes\<close>

type_synonym byte = "8 word"
type_synonym u16 = "16 word"
type_synonym u32 = "32 word"
type_synonym u64 = "64 word"

type_synonym zx_signals = u32
type_synonym zx_rights = u32
type_synonym zx_koid = u64

text \<open>The status codes of \<^verbatim>\<open>system/public/zircon/errors.h\<close> that the modelled code returns.\<close>

datatype zx_status =
    ZX_OK
  | ZX_ERR_INTERNAL
  | ZX_ERR_NOT_SUPPORTED
  | ZX_ERR_NO_RESOURCES
  | ZX_ERR_NO_MEMORY
  | ZX_ERR_INTERNAL_INTR_RETRY
  | ZX_ERR_INTERNAL_INTR_KILLED
  | ZX_ERR_INVALID_ARGS
  | ZX_ERR_BAD_HANDLE
  | ZX_ERR_WRONG_TYPE
  | ZX_ERR_OUT_OF_RANGE
  | ZX_ERR_BUFFER_TOO_SMALL
  | ZX_ERR_BAD_STATE
  | ZX_ERR_TIMED_OUT
  | ZX_ERR_SHOULD_WAIT
  | ZX_ERR_CANCELED
  | ZX_ERR_PEER_CLOSED
  | ZX_ERR_NOT_FOUND
  | ZX_ERR_ALREADY_EXISTS
  | ZX_ERR_ALREADY_BOUND
  | ZX_ERR_UNAVAILABLE
  | ZX_ERR_ACCESS_DENIED

abbreviation (input) ZX_KOID_INVALID :: zx_koid where
  "ZX_KOID_INVALID \<equiv> 0"

section \<open>Widths\<close>

lemma unat_ucast_u64 [simp]: "unat (ucast (x :: u32) :: u64) = unat x"
proof -
  have "unat x < 2 ^ 64" by (rule less_trans [OF unsigned_less [where 'b = 32]]) simp
  then show ?thesis by (simp add: unsigned_ucast_eq take_bit_nat_eq_self)
qed

lemma unat_sub_of_nat:
  fixes w :: "'a::len word"
  assumes "m \<le> unat w"
  shows "unat (w - of_nat m) = unat w - m"
proof -
  have "m < 2 ^ LENGTH('a)" using assms unsigned_less [of w] by (rule le_less_trans)
  then have "unat (of_nat m :: 'a word) = m" by (simp add: unat_of_nat)
  with assms show ?thesis by (simp add: unat_sub_if')
qed

section \<open>Powers of two\<close>

lemma nat_and_pred_power: "0 < n \<Longrightarrow> n AND (n - 1) = 0 \<Longrightarrow> \<exists>k. n = 2 ^ k" for n :: nat
proof (induction n rule: less_induct)
  case (less n)
  show ?case
  proof (cases "even n")
    case True
    then obtain m where m: "n = 2 * m" by (rule evenE)
    with less.prems(1) have "n - 1 = 1 + 2 * (m - 1)" "0 < m" by auto
    then have "n AND (n - 1) = 2 * (m AND (m - 1))" unfolding and_nat_rec [of n] by (simp add: m)
    with less.prems(2) have "m AND (m - 1) = 0" by simp
    with less.IH [of m] m \<open>0 < m\<close> obtain k where "m = 2 ^ k" by auto
    with m have "n = 2 ^ Suc k" by simp
    then show ?thesis ..
  next
    case False
    then obtain m where m: "n = 2 * m + 1" by (rule oddE)
    then have "n AND (n - 1) = 2 * m" unfolding and_nat_rec [of n] by simp
    with less.prems(2) have "m = 0" by simp
    with m have "n = 2 ^ 0" by simp
    then show ?thesis ..
  qed
qed

lemma nat_power_and_pred: "(2 :: nat) ^ k AND (2 ^ k - 1) = 0"
  using take_bit_eq_mask [of k "2 ^ k :: nat"] by (simp add: mask_eq_exp_minus_1 take_bit_eq_mod)

section \<open>Signal words\<close>

text \<open>Some bit of the mask is set, the C++ condition \<open>s & m\<close>.\<close>

definition has_signal :: "u32 \<Rightarrow> u32 \<Rightarrow> bool" where
  "has_signal s m \<longleftrightarrow> s AND m \<noteq> 0"

lemma has_signal_bit: "has_signal s (push_bit n 1) \<longleftrightarrow> bit s n" if "n < 32"
proof -
  have "s AND push_bit n 1 = 0 \<longleftrightarrow> \<not> bit s n"
    using that by (simp add: push_bit_eq_mult and_exp_eq_0_iff_not_bit)
  then show ?thesis by (simp add: has_signal_def)
qed

lemma bit_push_bit_one [simp]:
  "bit (push_bit k (1 :: u32)) n \<longleftrightarrow> n = k \<and> k < 32"
  by (auto simp: bit_simps)

text \<open>The object signals of \<^verbatim>\<open>zircon/types.h\<close>, by bit position.\<close>

definition ZX_OBJECT_READABLE :: zx_signals where "ZX_OBJECT_READABLE = push_bit 0 1"
definition ZX_OBJECT_WRITABLE :: zx_signals where "ZX_OBJECT_WRITABLE = push_bit 1 1"
definition ZX_OBJECT_PEER_CLOSED :: zx_signals where "ZX_OBJECT_PEER_CLOSED = push_bit 2 1"
definition ZX_OBJECT_SIGNALED :: zx_signals where "ZX_OBJECT_SIGNALED = push_bit 3 1"
definition ZX_OBJECT_SIGNAL_4 :: zx_signals where "ZX_OBJECT_SIGNAL_4 = push_bit 4 1"
definition ZX_OBJECT_SIGNAL_5 :: zx_signals where "ZX_OBJECT_SIGNAL_5 = push_bit 5 1"
definition ZX_OBJECT_SIGNAL_6 :: zx_signals where "ZX_OBJECT_SIGNAL_6 = push_bit 6 1"
definition ZX_OBJECT_SIGNAL_7 :: zx_signals where "ZX_OBJECT_SIGNAL_7 = push_bit 7 1"
definition ZX_OBJECT_SIGNAL_8 :: zx_signals where "ZX_OBJECT_SIGNAL_8 = push_bit 8 1"
definition ZX_OBJECT_SIGNAL_9 :: zx_signals where "ZX_OBJECT_SIGNAL_9 = push_bit 9 1"
definition ZX_OBJECT_SIGNAL_10 :: zx_signals where "ZX_OBJECT_SIGNAL_10 = push_bit 10 1"
definition ZX_OBJECT_SIGNAL_11 :: zx_signals where "ZX_OBJECT_SIGNAL_11 = push_bit 11 1"
definition ZX_OBJECT_HANDLE_CLOSED :: zx_signals where "ZX_OBJECT_HANDLE_CLOSED = push_bit 23 1"

lemmas signal_defs =
  ZX_OBJECT_READABLE_def ZX_OBJECT_WRITABLE_def ZX_OBJECT_PEER_CLOSED_def ZX_OBJECT_SIGNALED_def
  ZX_OBJECT_SIGNAL_4_def ZX_OBJECT_SIGNAL_5_def ZX_OBJECT_SIGNAL_6_def ZX_OBJECT_SIGNAL_7_def
  ZX_OBJECT_SIGNAL_8_def ZX_OBJECT_SIGNAL_9_def ZX_OBJECT_SIGNAL_10_def ZX_OBJECT_SIGNAL_11_def
  ZX_OBJECT_HANDLE_CLOSED_def

text \<open>Reading and testing the signal constants, one bit each.\<close>

lemma signal_bits [simp]:
  "bit ZX_OBJECT_READABLE n \<longleftrightarrow> n = 0"
  "bit ZX_OBJECT_WRITABLE n \<longleftrightarrow> n = 1"
  "bit ZX_OBJECT_PEER_CLOSED n \<longleftrightarrow> n = 2"
  "bit ZX_OBJECT_SIGNALED n \<longleftrightarrow> n = 3"
  "bit ZX_OBJECT_SIGNAL_4 n \<longleftrightarrow> n = 4"
  "bit ZX_OBJECT_SIGNAL_5 n \<longleftrightarrow> n = 5"
  "bit ZX_OBJECT_SIGNAL_6 n \<longleftrightarrow> n = 6"
  "bit ZX_OBJECT_SIGNAL_7 n \<longleftrightarrow> n = 7"
  "bit ZX_OBJECT_SIGNAL_8 n \<longleftrightarrow> n = 8"
  "bit ZX_OBJECT_SIGNAL_9 n \<longleftrightarrow> n = 9"
  "bit ZX_OBJECT_SIGNAL_10 n \<longleftrightarrow> n = 10"
  "bit ZX_OBJECT_SIGNAL_11 n \<longleftrightarrow> n = 11"
  "bit ZX_OBJECT_HANDLE_CLOSED n \<longleftrightarrow> n = 23"
  unfolding signal_defs by (simp_all only: bit_push_bit_one) simp_all

lemma has_signal_bits [simp]:
  "has_signal s ZX_OBJECT_READABLE \<longleftrightarrow> bit s 0"
  "has_signal s ZX_OBJECT_WRITABLE \<longleftrightarrow> bit s 1"
  "has_signal s ZX_OBJECT_PEER_CLOSED \<longleftrightarrow> bit s 2"
  "has_signal s ZX_OBJECT_SIGNALED \<longleftrightarrow> bit s 3"
  "has_signal s ZX_OBJECT_SIGNAL_4 \<longleftrightarrow> bit s 4"
  "has_signal s ZX_OBJECT_SIGNAL_5 \<longleftrightarrow> bit s 5"
  "has_signal s ZX_OBJECT_SIGNAL_6 \<longleftrightarrow> bit s 6"
  "has_signal s ZX_OBJECT_SIGNAL_7 \<longleftrightarrow> bit s 7"
  "has_signal s ZX_OBJECT_SIGNAL_8 \<longleftrightarrow> bit s 8"
  "has_signal s ZX_OBJECT_SIGNAL_9 \<longleftrightarrow> bit s 9"
  "has_signal s ZX_OBJECT_SIGNAL_10 \<longleftrightarrow> bit s 10"
  "has_signal s ZX_OBJECT_SIGNAL_11 \<longleftrightarrow> bit s 11"
  "has_signal s ZX_OBJECT_HANDLE_CLOSED \<longleftrightarrow> bit s 23"
  unfolding signal_defs by (simp_all only: has_signal_bit [of 0] has_signal_bit [of 1]
    has_signal_bit [of 2] has_signal_bit [of 3] has_signal_bit [of 4] has_signal_bit [of 5]
    has_signal_bit [of 6] has_signal_bit [of 7] has_signal_bit [of 8] has_signal_bit [of 9]
    has_signal_bit [of 10] has_signal_bit [of 11] has_signal_bit [of 23])

section \<open>Copying bytes\<close>

text \<open>\<open>overwrite xs off ys\<close> is the array \<open>xs\<close> after \<open>memcpy(&xs[off], ys, length ys)\<close>;
  a copy that runs past the end is clipped, which the callers rule out.\<close>

definition overwrite :: "'a list \<Rightarrow> nat \<Rightarrow> 'a list \<Rightarrow> 'a list" where
  "overwrite xs off ys = take (length xs) (take off xs @ ys @ drop (off + length ys) xs)"

lemma length_overwrite [simp]: "length (overwrite xs off ys) = length xs"
  by (simp add: overwrite_def)

lemma nth_overwrite:
  assumes "off + length ys \<le> length xs" and "i < length xs"
  shows "overwrite xs off ys ! i = (if off \<le> i \<and> i < off + length ys then ys ! (i - off) else xs ! i)"
  using assms by (auto simp: overwrite_def nth_append)

lemma overwrite_Nil [simp]: "off \<le> length xs \<Longrightarrow> overwrite xs off [] = xs"
  by (simp add: overwrite_def)

type_synonym user_mem = "nat \<Rightarrow> byte option"

text \<open>\<open>user_in_ptr::copy_array_from_user\<close> at an offset: the bytes that reached the kernel
  buffer before the first fault.\<close>

primrec user_bytes :: "user_mem \<Rightarrow> nat \<Rightarrow> nat \<Rightarrow> byte list" where
  "user_bytes mem off 0 = []"
| "user_bytes mem off (Suc n) =
     (case mem off of None \<Rightarrow> [] | Some b \<Rightarrow> b # user_bytes mem (Suc off) n)"

text \<open>The transfer is complete exactly when no byte of the range faults.\<close>

definition user_readable :: "user_mem \<Rightarrow> nat \<Rightarrow> nat \<Rightarrow> bool" where
  "user_readable mem off n \<longleftrightarrow> length (user_bytes mem off n) = n"

lemma length_user_bytes: "length (user_bytes mem off n) \<le> n"
  by (induction n arbitrary: off) (auto split: option.splits)

lemma length_user_bytes_readable [simp]:
  "user_readable mem off n \<Longrightarrow> length (user_bytes mem off n) = n"
  by (simp add: user_readable_def)

lemma user_readable_0 [simp]: "user_readable mem off 0"
  by (simp add: user_readable_def)

lemma user_bytes_nth:
  "user_readable mem off n \<Longrightarrow> i < n \<Longrightarrow> mem (off + i) = Some (user_bytes mem off n ! i)"
proof (induction n arbitrary: off i)
  case (Suc n)
  then obtain b where b: "mem off = Some b"
    by (auto simp: user_readable_def split: option.splits)
  with Suc.prems have rd: "user_readable mem (Suc off) n"
    by (simp add: user_readable_def)
  show ?case
  proof (cases i)
    case (Suc j)
    with Suc.IH [OF rd, of j] Suc.prems b show ?thesis by simp
  qed (use b in simp)
qed simp

lemma user_readable_iff: "user_readable mem off n \<longleftrightarrow> (\<forall>i < n. mem (off + i) \<noteq> None)"
proof
  assume "user_readable mem off n"
  then show "\<forall>i < n. mem (off + i) \<noteq> None"
    by (auto simp: user_bytes_nth)
next
  show "\<forall>i < n. mem (off + i) \<noteq> None \<Longrightarrow> user_readable mem off n"
  proof (induction n arbitrary: off)
    case (Suc n)
    from Suc.prems obtain b where b: "mem off = Some b" by force
    have "\<forall>i < n. mem (Suc off + i) \<noteq> None"
    proof (intro allI impI)
      fix i assume "i < n"
      with Suc.prems have "mem (off + Suc i) \<noteq> None" by blast
      then show "mem (Suc off + i) \<noteq> None" by simp
    qed
    then have "user_readable mem (Suc off) n" by (rule Suc.IH)
    with b show ?case by (simp add: user_readable_def)
  qed simp
qed

lemma all_less_add:
  "(\<forall>i < m + n. P (off + i)) \<longleftrightarrow> (\<forall>i < m. P (off + i)) \<and> (\<forall>i < n. P (off + m + i))"
  for off m n :: nat
proof (intro iffI conjI allI impI; (elim conjE)?)
  fix i assume all: "\<forall>i < m + n. P (off + i)" and "i < n"
  then show "P (off + m + i)" by (metis add.assoc add_less_cancel_left)
next
  fix i
  assume lo: "\<forall>i < m. P (off + i)" and hi: "\<forall>i < n. P (off + m + i)" and i: "i < m + n"
  show "P (off + i)"
  proof (cases "i < m")
    case False
    with i have "i - m < n" by simp
    with hi have "P (off + m + (i - m))" by blast
    with False show ?thesis by simp
  qed (use lo in simp)
qed simp

lemma user_readable_mono: "user_readable mem off n \<Longrightarrow> m \<le> n \<Longrightarrow> user_readable mem off m"
  by (simp add: user_readable_iff)

lemma user_readable_add:
  "user_readable mem off (m + n) \<longleftrightarrow> user_readable mem off m \<and> user_readable mem (off + m) n"
  unfolding user_readable_iff by (rule all_less_add)

lemma user_bytes_add:
  "user_readable mem off m \<Longrightarrow>
   user_bytes mem off (m + n) = user_bytes mem off m @ user_bytes mem (off + m) n"
proof (induction m arbitrary: off)
  case (Suc m)
  then obtain b where b: "mem off = Some b"
    by (auto simp: user_readable_def split: option.splits)
  with Suc.prems have rd: "user_readable mem (Suc off) m"
    by (simp add: user_readable_def)
  from Suc.IH [OF rd] b show ?case by simp
qed simp

text \<open>User memory that holds exactly the given bytes from offset 0 on.\<close>

definition mem_of :: "byte list \<Rightarrow> user_mem" where
  "mem_of bs = (\<lambda>i. if i < length bs then Some (bs ! i) else None)"

lemma mem_of_readable: "off + n \<le> length bs \<Longrightarrow> user_readable (mem_of bs) off n"
  by (simp add: user_readable_iff mem_of_def)

lemma mem_of_bytes: "off + n \<le> length bs \<Longrightarrow> user_bytes (mem_of bs) off n = take n (drop off bs)"
proof (induction n arbitrary: off)
  case (Suc n)
  then have "drop off bs = bs ! off # drop (Suc off) bs"
    by (simp add: Cons_nth_drop_Suc)
  with Suc show ?case by (simp add: mem_of_def)
qed simp

text \<open>Writable user memory: the offsets that may be stored to.\<close>

type_synonym user_out = "nat \<Rightarrow> bool"

definition user_writable :: "user_out \<Rightarrow> nat \<Rightarrow> nat \<Rightarrow> bool" where
  "user_writable out off n \<longleftrightarrow> (\<forall>i < n. out (off + i))"

lemma user_writable_code [code]:
  "user_writable out off n \<longleftrightarrow> list_all (\<lambda>i. out (off + i)) [0..<n]"
  by (auto simp: user_writable_def list_all_iff)

lemma user_writable_add:
  "user_writable wr off (m + n) \<longleftrightarrow> user_writable wr off m \<and> user_writable wr (off + m) n"
  unfolding user_writable_def by (rule all_less_add)

text \<open>What a copy to user memory stores before the first unwritable byte.\<close>

definition user_stored :: "user_out \<Rightarrow> nat \<Rightarrow> byte list \<Rightarrow> byte list" where
  "user_stored wr off bs =
     take (length (takeWhile (\<lambda>i. wr (off + i)) [0..<length bs])) bs"

end
