(* ===== verification/Zx_Dispatcher.thy ===== *)
theory Zx_Dispatcher
  imports Zx_Prelude
begin

unbundle bit_operations_syntax

text \<open>
  The base class of every kernel object, \<^verbatim>\<open>kernel/object/dispatcher.cpp\<close> and
  \<^verbatim>\<open>include/object/dispatcher.h\<close>: object ids, the handle count, the signal word with its
  list of observers, and the solo and peered variants.

  C++ inheritance is record extension: \<open>'o dispatcher\<close> is extended by \<open>'o peered\<close>, which the
  channel, socket, FIFO and event pair theories extend further. The virtual methods of
  \<^verbatim>\<open>StateObserver\<close> are the fields of \<open>observer_ops\<close>: every operation that notifies
  observers takes that table, and threads a world \<open>'w\<close> on which the callbacks act.
\<close>

section \<open>State\<close>

record 'o dispatcher =
  d_koid :: zx_koid
  d_handle_count :: u32
  d_signals :: zx_signals
  d_observers :: "'o list"

type_synonym count_info = "(u64 \<times> zx_signals) list"

definition kNeedRemoval :: u32 where
  "kNeedRemoval = 1"

definition kHandled :: u32 where
  "kHandled = 2"

text \<open>The virtual methods of an observer. A handle and a port are named by the slot or
  address the kernel compares; \<open>observer_id\<close> is the address of the observer itself.\<close>

record ('o, 'w) observer_ops =
  OnInitialize :: "zx_signals \<Rightarrow> count_info option \<Rightarrow> 'o \<Rightarrow> 'w \<Rightarrow> u32 \<times> 'o \<times> 'w"
  OnStateChange :: "zx_signals \<Rightarrow> 'o \<Rightarrow> 'w \<Rightarrow> u32 \<times> 'o \<times> 'w"
  OnCancel :: "nat \<Rightarrow> 'o \<Rightarrow> 'w \<Rightarrow> u32 \<times> 'o \<times> 'w"
  OnCancelByKey :: "nat \<Rightarrow> nat \<Rightarrow> u64 \<Rightarrow> 'o \<Rightarrow> 'w \<Rightarrow> u32 \<times> 'o \<times> 'w"
  OnRemoved :: "'o \<Rightarrow> 'w \<Rightarrow> 'w"
  observer_id :: "'o \<Rightarrow> nat"

section \<open>Construction and the handle count\<close>

definition ZX_KOID_FIRST :: zx_koid where
  "ZX_KOID_FIRST = 1024"

definition GenerateKernelObjectId :: "zx_koid \<Rightarrow> zx_koid \<times> zx_koid" where
  "GenerateKernelObjectId global_koid = (global_koid, global_koid + 1)"

definition Dispatcher_new :: "zx_signals \<Rightarrow> zx_koid \<Rightarrow> 'o dispatcher \<times> zx_koid" where
  "Dispatcher_new signals global_koid =
     (let (k, g) = GenerateKernelObjectId global_koid in
      (\<lparr>d_koid = k, d_handle_count = 0, d_signals = signals, d_observers = []\<rparr>, g))"

definition increment_handle_count :: "('o, 'm) dispatcher_scheme \<Rightarrow> ('o, 'm) dispatcher_scheme" where
  "increment_handle_count d = d\<lparr>d_handle_count := d_handle_count d + 1\<rparr>"

definition decrement_handle_count ::
  "('o, 'm) dispatcher_scheme \<Rightarrow> bool \<times> ('o, 'm) dispatcher_scheme" where
  "decrement_handle_count d =
     (let d' = d\<lparr>d_handle_count := d_handle_count d - 1\<rparr> in (d_handle_count d' = 0, d'))"

section \<open>Observers\<close>

text \<open>The loops over the observer list visit the observers in list order, give each the
  callback's flags, and unlink and finalise those that ask for removal.\<close>

fun notify_observers ::
  "('o, 'w) observer_ops \<Rightarrow> zx_signals \<Rightarrow> 'o list \<Rightarrow> 'w \<Rightarrow> 'o list \<times> 'w" where
  "notify_observers ops s [] w = ([], w)"
| "notify_observers ops s (x # xs) w =
     (let (flags, x', w1) = OnStateChange ops s x w in
      if flags AND kNeedRemoval \<noteq> 0
      then notify_observers ops s xs (OnRemoved ops x' w1)
      else let (xs', w2) = notify_observers ops s xs w1 in (x' # xs', w2))"

definition new_signals :: "zx_signals \<Rightarrow> zx_signals \<Rightarrow> zx_signals \<Rightarrow> zx_signals" where
  "new_signals clear_mask set_mask s = (s AND NOT clear_mask) OR set_mask"

definition UpdateStateHelper ::
  "('o, 'w) observer_ops \<Rightarrow> zx_signals \<Rightarrow> zx_signals \<Rightarrow>
   ('o, 'm) dispatcher_scheme \<Rightarrow> 'w \<Rightarrow> ('o, 'm) dispatcher_scheme \<times> 'w" where
  "UpdateStateHelper ops clear_mask set_mask d w =
     (let previous_signals = d_signals d;
          s = new_signals clear_mask set_mask previous_signals;
          d1 = d\<lparr>d_signals := s\<rparr> in
      if previous_signals = s then (d1, w)
      else let (obs, w') = notify_observers ops s (d_observers d1) w in
           (d1\<lparr>d_observers := obs\<rparr>, w'))"

abbreviation UpdateStateLocked where
  "UpdateStateLocked \<equiv> UpdateStateHelper"

abbreviation UpdateState where
  "UpdateState \<equiv> UpdateStateHelper"

definition AddObserverHelper ::
  "('o, 'w) observer_ops \<Rightarrow> 'o \<Rightarrow> count_info option \<Rightarrow>
   ('o, 'm) dispatcher_scheme \<Rightarrow> 'w \<Rightarrow> ('o, 'm) dispatcher_scheme \<times> 'w" where
  "AddObserverHelper ops obs cinfo d w =
     (let (flags, obs', w1) = OnInitialize ops (d_signals d) cinfo obs w in
      if flags AND kNeedRemoval \<noteq> 0 then (d, OnRemoved ops obs' w1)
      else (d\<lparr>d_observers := obs' # d_observers d\<rparr>, w1))"

definition AddObserver ::
  "('o, 'w) observer_ops \<Rightarrow> bool \<Rightarrow> 'o \<Rightarrow>
   ('o, 'm) dispatcher_scheme \<Rightarrow> 'w \<Rightarrow> zx_status \<times> ('o, 'm) dispatcher_scheme \<times> 'w" where
  "AddObserver ops waitable obs d w =
     (if \<not> waitable then (ZX_ERR_NOT_SUPPORTED, d, w)
      else let (d', w') = AddObserverHelper ops obs None d w in (ZX_OK, d', w'))"

definition RemoveObserver ::
  "('o, 'w) observer_ops \<Rightarrow> nat \<Rightarrow>
   ('o, 'm) dispatcher_scheme \<Rightarrow> bool \<times> ('o, 'm) dispatcher_scheme" where
  "RemoveObserver ops oid d =
     (if oid \<in> observer_id ops ` set (d_observers d)
      then (True, d\<lparr>d_observers := filter (\<lambda>x. observer_id ops x \<noteq> oid) (d_observers d)\<rparr>)
      else (False, d))"

fun cancel_loop ::
  "('o, 'w) observer_ops \<Rightarrow> ('o \<Rightarrow> 'w \<Rightarrow> u32 \<times> 'o \<times> 'w) \<Rightarrow> 'o list \<Rightarrow> u32 \<Rightarrow> 'w \<Rightarrow>
   u32 \<times> 'o list \<times> 'w" where
  "cancel_loop ops f [] flags w = (flags, [], w)"
| "cancel_loop ops f (x # xs) flags w =
     (let (it_flags, x', w1) = f x w; flags' = flags OR it_flags in
      if it_flags AND kNeedRemoval \<noteq> 0
      then cancel_loop ops f xs flags' (OnRemoved ops x' w1)
      else let (fl, xs', w2) = cancel_loop ops f xs flags' w1 in (fl, x' # xs', w2))"

definition CancelWithFunc ::
  "('o, 'w) observer_ops \<Rightarrow> ('o \<Rightarrow> 'w \<Rightarrow> u32 \<times> 'o \<times> 'w) \<Rightarrow>
   ('o, 'm) dispatcher_scheme \<Rightarrow> 'w \<Rightarrow> u32 \<times> ('o, 'm) dispatcher_scheme \<times> 'w" where
  "CancelWithFunc ops f d w =
     (let (flags, obs, w') = cancel_loop ops f (d_observers d) 0 w in
      (flags AND NOT kNeedRemoval, d\<lparr>d_observers := obs\<rparr>, w'))"

definition Cancel ::
  "('o, 'w) observer_ops \<Rightarrow> nat \<Rightarrow>
   ('o, 'm) dispatcher_scheme \<Rightarrow> 'w \<Rightarrow> ('o, 'm) dispatcher_scheme \<times> 'w" where
  "Cancel ops handle d w = snd (CancelWithFunc ops (OnCancel ops handle) d w)"

definition CancelByKey ::
  "('o, 'w) observer_ops \<Rightarrow> nat \<Rightarrow> nat \<Rightarrow> u64 \<Rightarrow>
   ('o, 'm) dispatcher_scheme \<Rightarrow> 'w \<Rightarrow> bool \<times> ('o, 'm) dispatcher_scheme \<times> 'w" where
  "CancelByKey ops handle port key d w =
     (let (flags, r) = CancelWithFunc ops (OnCancelByKey ops handle port key) d w in
      (flags AND kHandled \<noteq> 0, r))"

section \<open>Solo dispatchers\<close>

definition ZX_USER_SIGNAL_ALL :: zx_signals where
  "ZX_USER_SIGNAL_ALL = 0xff000000"

definition signals_allowed :: "zx_signals \<Rightarrow> zx_signals \<Rightarrow> zx_signals \<Rightarrow> bool" where
  "signals_allowed extra clear_mask set_mask \<longleftrightarrow>
     (let allowed = ZX_USER_SIGNAL_ALL OR extra in
      set_mask AND NOT allowed = 0 \<and> clear_mask AND NOT allowed = 0)"

definition Solo_user_signal_self ::
  "('o, 'w) observer_ops \<Rightarrow> bool \<Rightarrow> zx_signals \<Rightarrow> zx_signals \<Rightarrow> zx_signals \<Rightarrow>
   ('o, 'm) dispatcher_scheme \<Rightarrow> 'w \<Rightarrow> zx_status \<times> ('o, 'm) dispatcher_scheme \<times> 'w" where
  "Solo_user_signal_self ops waitable extra clear_mask set_mask d w =
     (if \<not> waitable then (ZX_ERR_NOT_SUPPORTED, d, w)
      else if \<not> signals_allowed extra clear_mask set_mask then (ZX_ERR_INVALID_ARGS, d, w)
      else let (d', w') = UpdateState ops clear_mask set_mask d w in (ZX_OK, d', w'))"

section \<open>Peered dispatchers\<close>

text \<open>The two endpoints share one lock, held by the \<^verbatim>\<open>PeerHolder\<close>, so every operation is a
  function on the pair. A non-null \<open>peer\<close> pointer is always the other endpoint of the pair.\<close>

datatype side = E0 | E1

fun other :: "side \<Rightarrow> side" where
  "other E0 = E1"
| "other E1 = E0"

record 'o peered = "'o dispatcher" +
  p_peer :: bool
  p_peer_koid :: zx_koid

definition Peered_user_signal_self ::
  "('o, 'w) observer_ops \<Rightarrow> zx_signals \<Rightarrow> side \<Rightarrow> zx_signals \<Rightarrow> zx_signals \<Rightarrow>
   (side \<Rightarrow> ('o, 'm) peered_scheme) \<Rightarrow> 'w \<Rightarrow>
   zx_status \<times> (side \<Rightarrow> ('o, 'm) peered_scheme) \<times> 'w" where
  "Peered_user_signal_self ops extra s clear_mask set_mask p w =
     (if \<not> signals_allowed extra clear_mask set_mask then (ZX_ERR_INVALID_ARGS, p, w)
      else let (d, w') = UpdateStateLocked ops clear_mask set_mask (p s) w in
           (ZX_OK, p(s := d), w'))"

definition Peered_user_signal_peer ::
  "('o, 'w) observer_ops \<Rightarrow> zx_signals \<Rightarrow> side \<Rightarrow> zx_signals \<Rightarrow> zx_signals \<Rightarrow>
   (side \<Rightarrow> ('o, 'm) peered_scheme) \<Rightarrow> 'w \<Rightarrow>
   zx_status \<times> (side \<Rightarrow> ('o, 'm) peered_scheme) \<times> 'w" where
  "Peered_user_signal_peer ops extra s clear_mask set_mask p w =
     (if \<not> signals_allowed extra clear_mask set_mask then (ZX_ERR_INVALID_ARGS, p, w)
      else if \<not> p_peer (p s) then (ZX_ERR_PEER_CLOSED, p, w)
      else let (d, w') = UpdateStateLocked ops clear_mask set_mask (p (other s)) w in
           (ZX_OK, p(other s := d), w'))"

text \<open>\<open>on_zero_handles\<close> clears both peer pointers around the two hooks of the subclass.\<close>

definition Peered_on_zero_handles ::
  "(side \<Rightarrow> (side \<Rightarrow> ('o, 'm) peered_scheme) \<Rightarrow> 'w \<Rightarrow> (side \<Rightarrow> ('o, 'm) peered_scheme) \<times> 'w) \<Rightarrow>
   (side \<Rightarrow> (side \<Rightarrow> ('o, 'm) peered_scheme) \<Rightarrow> 'w \<Rightarrow> (side \<Rightarrow> ('o, 'm) peered_scheme) \<times> 'w) \<Rightarrow>
   side \<Rightarrow> (side \<Rightarrow> ('o, 'm) peered_scheme) \<Rightarrow> 'w \<Rightarrow> (side \<Rightarrow> ('o, 'm) peered_scheme) \<times> 'w" where
  "Peered_on_zero_handles on_zero_handles_locked OnPeerZeroHandlesLocked s p w =
     (let had_peer = p_peer (p s);
          p1 = p(s := (p s)\<lparr>p_peer := False\<rparr>);
          (p2, w2) = on_zero_handles_locked s p1 w in
      if had_peer
      then OnPeerZeroHandlesLocked (other s)
             (p2(other s := (p2 (other s))\<lparr>p_peer := False\<rparr>)) w2
      else (p2, w2))"

definition PeerHasClosed :: "side \<Rightarrow> (side \<Rightarrow> ('o, 'm) peered_scheme) \<Rightarrow> bool" where
  "PeerHasClosed s p \<longleftrightarrow> \<not> p_peer (p s)"

section \<open>What a state update does\<close>

text \<open>A state update rewrites the signal word and the observer list and nothing else. The two
  auxiliary functions name the new observer list and the world left by the callbacks, so that
  simplification sees a plain record update.\<close>

definition updated_observers ::
  "('o, 'w) observer_ops \<Rightarrow> zx_signals \<Rightarrow> zx_signals \<Rightarrow> zx_signals \<Rightarrow> 'o list \<Rightarrow> 'w \<Rightarrow> 'o list" where
  "updated_observers ops c t s obs w =
     (if new_signals c t s = s then obs else fst (notify_observers ops (new_signals c t s) obs w))"

definition updated_world ::
  "('o, 'w) observer_ops \<Rightarrow> zx_signals \<Rightarrow> zx_signals \<Rightarrow> zx_signals \<Rightarrow> 'o list \<Rightarrow> 'w \<Rightarrow> 'w" where
  "updated_world ops c t s obs w =
     (if new_signals c t s = s then w else snd (notify_observers ops (new_signals c t s) obs w))"

lemma UpdateStateHelper_eq:
  "UpdateStateHelper ops c t d w =
     (d\<lparr>d_signals := new_signals c t (d_signals d),
        d_observers := updated_observers ops c t (d_signals d) (d_observers d) w\<rparr>,
      updated_world ops c t (d_signals d) (d_observers d) w)"
  by (auto simp: UpdateStateHelper_def updated_observers_def updated_world_def Let_def
      split: prod.splits)

lemma bit_new_signals [simp]:
  "bit (new_signals c t s) n \<longleftrightarrow> bit s n \<and> \<not> bit c n \<or> bit t n"
  by (auto simp: new_signals_def bit_simps dest: bit_imp_le_length)

lemma bit_ZX_USER_SIGNAL_ALL: "bit ZX_USER_SIGNAL_ALL n \<longleftrightarrow> 24 \<le> n \<and> n < 32"
proof -
  have eq: "ZX_USER_SIGNAL_ALL = push_bit 24 (mask 8)"
    by (simp add: ZX_USER_SIGNAL_ALL_def mask_eq_exp_minus_1)
  have "bit (push_bit 24 (mask 8) :: u32) n \<longleftrightarrow> 24 \<le> n \<and> n < 32"
    by (auto simp: bit_push_bit_iff bit_mask_iff simp del: mask_numeral)
  then show ?thesis unfolding eq .
qed

lemma signals_allowed_bits:
  assumes "signals_allowed extra c t" and "bit c n \<or> bit t n"
  shows "24 \<le> n \<or> bit extra n"
proof (rule ccontr)
  assume n: "\<not> (24 \<le> n \<or> bit extra n)"
  have *: "bit m n \<Longrightarrow> m AND NOT (ZX_USER_SIGNAL_ALL OR extra) \<noteq> 0" for m :: u32
  proof
    assume "bit m n" and "m AND NOT (ZX_USER_SIGNAL_ALL OR extra) = 0"
    then have "\<not> bit (m AND NOT (ZX_USER_SIGNAL_ALL OR extra)) n" by simp
    with n \<open>bit m n\<close> show False
      by (auto simp: bit_simps bit_ZX_USER_SIGNAL_ALL dest: bit_imp_le_length)
  qed
  with assms show False by (auto simp: signals_allowed_def Let_def)
qed

lemma new_signals_allowed:
  assumes "signals_allowed extra c t" and "n < 24" and "\<not> bit extra n"
  shows "bit (new_signals c t s) n = bit s n"
  using signals_allowed_bits [OF assms(1), of n] assms(2,3) by auto

section \<open>The peer protocol\<close>

text \<open>Both peer pointers are set by \<open>Init\<close> and cleared together: the peers are linked.\<close>

definition peers_linked :: "(side \<Rightarrow> ('o, 'm) peered_scheme) \<Rightarrow> bool" where
  "peers_linked p \<longleftrightarrow> p_peer (p E0) = p_peer (p E1)"

lemma other_other [simp]: "other (other s) = s"
  by (cases s) auto

lemma other_neq [simp]: "other s \<noteq> s" "s \<noteq> other s"
  by (cases s; simp)+

lemma side_cases: "t = s \<or> t = other s"
  by (cases s; cases t) auto

lemma peers_linked_other: "peers_linked p \<Longrightarrow> p_peer (p (other s)) = p_peer (p s)"
  by (cases s) (auto simp: peers_linked_def)

text \<open>What \<open>PeeredDispatcher\<close> asks of its subclasses: the hooks leave the peer pointers alone.\<close>

locale peered_class =
  fixes on_zero :: "side \<Rightarrow> (side \<Rightarrow> ('o, 'm) peered_scheme) \<Rightarrow> 'w \<Rightarrow> (side \<Rightarrow> ('o, 'm) peered_scheme) \<times> 'w"
    and on_peer_zero :: "side \<Rightarrow> (side \<Rightarrow> ('o, 'm) peered_scheme) \<Rightarrow> 'w \<Rightarrow> (side \<Rightarrow> ('o, 'm) peered_scheme) \<times> 'w"
  assumes on_zero_peer: "p_peer (fst (on_zero s p w) t) = p_peer (p t)"
    and on_peer_zero_peer: "p_peer (fst (on_peer_zero s p w) t) = p_peer (p t)"
begin

lemma on_zero_handles_closes:
  assumes "peers_linked p"
  shows "\<not> p_peer (fst (Peered_on_zero_handles on_zero on_peer_zero s p w) t)"
proof -
  obtain p2 w2 where p2: "on_zero s (p(s := (p s)\<lparr>p_peer := False\<rparr>)) w = (p2, w2)"
    by fastforce
  have keep: "p_peer (p2 u) = p_peer ((p(s := (p s)\<lparr>p_peer := False\<rparr>)) u)" for u
    using on_zero_peer [of s "p(s := (p s)\<lparr>p_peer := False\<rparr>)" w u] by (simp add: p2)
  show ?thesis
  proof (cases "p_peer (p s)")
    case True
    then show ?thesis
      using side_cases [of t s] by (auto simp: Peered_on_zero_handles_def p2 on_peer_zero_peer keep)
  next
    case False
    with assms have "\<not> p_peer (p (other s))" by (simp add: peers_linked_other)
    with False show ?thesis
      using side_cases [of t s] by (auto simp: Peered_on_zero_handles_def p2 keep)
  qed
qed

lemma on_zero_handles_linked:
  "peers_linked p \<Longrightarrow> peers_linked (fst (Peered_on_zero_handles on_zero on_peer_zero s p w))"
  by (simp add: peers_linked_def [of "fst _"] on_zero_handles_closes)

end

section \<open>Properties\<close>

text \<open>An observer table for objects without observers, used in the examples.\<close>

definition idle_observer_ops :: "(unit, unit) observer_ops" where
  "idle_observer_ops =
     \<lparr>OnInitialize = \<lambda>_ _ x w. (0, x, w), OnStateChange = \<lambda>_ x w. (0, x, w),
      OnCancel = \<lambda>_ x w. (0, x, w), OnCancelByKey = \<lambda>_ _ _ x w. (0, x, w),
      OnRemoved = \<lambda>_ w. w, observer_id = \<lambda>_. 0\<rparr>"

text \<open>C33. A user signal, on the object itself or on its peer, never changes a signal bit outside
  the user bits 24 to 31 and the extra bits the object class allows: a program cannot forge or
  clear the kernel's own signals. Requests that try are rejected and change nothing.\<close>

theorem user_signal_confined:
  fixes p :: "side \<Rightarrow> ('o, 'm) peered_scheme" and d :: "('o, 'n) dispatcher_scheme"
  assumes "n < 24" "\<not> bit extra n"
  shows "bit (d_signals (fst (snd (Solo_user_signal_self ops waitable extra c t d w)))) n = bit (d_signals d) n \<and>
    bit (d_signals (fst (snd (Peered_user_signal_self ops extra s c t p w)) u)) n = bit (d_signals (p u)) n \<and>
    bit (d_signals (fst (snd (Peered_user_signal_peer ops extra s c t p w)) u)) n = bit (d_signals (p u)) n"
  using new_signals_allowed [OF _ assms]
  by (simp add: Solo_user_signal_self_def Peered_user_signal_self_def Peered_user_signal_peer_def
      UpdateStateHelper_eq)

theorem user_signal_confined_witness:
  "\<not> bit (d_signals (fst (snd (Solo_user_signal_self idle_observer_ops True ZX_OBJECT_SIGNALED 0
     (push_bit 24 1 OR ZX_OBJECT_SIGNALED) (fst (Dispatcher_new 0 1024)) ())))) 2"
  using user_signal_confined [of 2 ZX_OBJECT_SIGNALED idle_observer_ops True 0
      "push_bit 24 1 OR ZX_OBJECT_SIGNALED" "fst (Dispatcher_new 0 1024)" "()", THEN conjunct1]
  by (simp add: Dispatcher_new_def GenerateKernelObjectId_def)

end
