(* ===== verification/Zx_Deleter.thy ===== *)
theory Zx_Deleter
  imports Zx_Prelude "HOL-Library.Multiset"
begin

text \<open>
  The recycling of kernel objects, \<^verbatim>\<open>SafeDeleter\<close> of \<^verbatim>\<open>kernel/object/dispatcher.cpp\<close>. Deleting an
  object may drop the last reference to others; the deleter turns that recursion into a
  loop over a list of pending objects. The theory shows that the loop ends and deletes each
  object exactly once.
\<close>

section \<open>The recursion-free deleter\<close>

text \<open>A dying object together with the objects whose last reference it holds, in the order
  its destructor drops them. With a deleter installed, \<open>Delete\<close> only queues; without one it
  installs a deleter and deletes until nothing is pending.\<close>

datatype kobj = KObj (kobj_id: nat) (kobj_last_refs: "kobj list")

definition SafeDeleter_push :: "kobj \<Rightarrow> kobj list \<Rightarrow> kobj list" where
  "SafeDeleter_push kobj pending = kobj # pending"

definition delete_kobj :: "kobj \<Rightarrow> kobj list \<Rightarrow> kobj list" where
  "delete_kobj k pending = fold SafeDeleter_push (kobj_last_refs k) pending"

lemma delete_kobj_eq: "delete_kobj k pending = rev (kobj_last_refs k) @ pending"
proof -
  have "fold SafeDeleter_push cs ps = rev cs @ ps" for cs ps
    by (induction cs arbitrary: ps) (auto simp: SafeDeleter_push_def)
  then show ?thesis by (simp add: delete_kobj_def)
qed

function SafeDeleter_loop :: "kobj \<Rightarrow> kobj list \<Rightarrow> nat list" where
  "SafeDeleter_loop k pending =
     kobj_id k # (case delete_kobj k pending of
                    [] \<Rightarrow> []
                  | next # rest \<Rightarrow> SafeDeleter_loop next rest)"
  by pat_completeness auto
termination
proof (relation "measure (\<lambda>(k, ps). size k + sum_list (map size ps))"; clarsimp simp: delete_kobj_eq)
  fix k :: kobj and ps nxt rest
  assume "rev (kobj_last_refs k) @ ps = nxt # rest"
  then have "sum_list (map size (rev (kobj_last_refs k) @ ps)) = size nxt + sum_list (map size rest)"
    by simp
  moreover have "sum_list (map size (kobj_last_refs k)) < size k"
    by (cases k) (simp add: size_list_conv_sum_list)
  ultimately show "size nxt + sum_list (map size rest) < size k + sum_list (map size ps)"
    by (simp add: sum_list_rev flip: rev_map)
qed

declare SafeDeleter_loop.simps [simp del]

definition SafeDeleter_Delete :: "kobj list option \<Rightarrow> kobj \<Rightarrow> kobj list option \<times> nat list" where
  "SafeDeleter_Delete deleter k =
     (case deleter of
        Some pending \<Rightarrow> (Some (SafeDeleter_push k pending), [])
      | None \<Rightarrow> (None, SafeDeleter_loop k []))"

fun kobj_ids :: "kobj \<Rightarrow> nat multiset" where
  "kobj_ids (KObj i cs) = add_mset i (\<Sum>c \<leftarrow> cs. kobj_ids c)"

section \<open>The deleter deletes everything once\<close>

lemma SafeDeleter_loop_mset:
  "mset (SafeDeleter_loop k pending) = kobj_ids k + (\<Sum>p \<leftarrow> pending. kobj_ids p)"
proof (induction k pending rule: SafeDeleter_loop.induct)
  case (1 k pending)
  have split: "kobj_ids k = add_mset (kobj_id k) (\<Sum>c \<leftarrow> kobj_last_refs k. kobj_ids c)"
    by (cases k) simp
  have total: "(\<Sum>p \<leftarrow> delete_kobj k pending. kobj_ids p) =
      (\<Sum>c \<leftarrow> kobj_last_refs k. kobj_ids c) + (\<Sum>p \<leftarrow> pending. kobj_ids p)"
    by (simp add: delete_kobj_eq sum_list_rev flip: rev_map)
  show ?case
  proof (cases "delete_kobj k pending")
    case Nil
    with total show ?thesis by (simp add: SafeDeleter_loop.simps [of k] split)
  next
    case (Cons nxt rest)
    with "1.IH" [OF Cons] total show ?thesis
      by (simp add: SafeDeleter_loop.simps [of k] split)
  qed
qed

text \<open>C34. An outermost \<open>SafeDeleter::Delete\<close> returns, leaves no deleter installed, and deletes
  the object and everything that only it kept alive, each exactly once, however deep the
  chain of last references is.\<close>

theorem SafeDeleter_Delete_once:
  "fst (SafeDeleter_Delete None k) = None \<and> mset (snd (SafeDeleter_Delete None k)) = kobj_ids k"
  by (simp add: SafeDeleter_Delete_def SafeDeleter_loop_mset)

end
