(* ===== verification/Zx_Fifo.thy ===== *)
theory Zx_Fifo
  imports Zx_Dispatcher
begin

unbundle bit_operations_syntax

text \<open>
  FIFOs, \<^verbatim>\<open>kernel/object/fifo_dispatcher.cpp\<close>: a pair of endpoints, each with a ring buffer of
  a power-of-two number of fixed-size elements, indexed by free-running 32-bit counters
  \<open>f_head\<close> and \<open>f_tail\<close>. The counters and the index arithmetic keep their machine width.

  A copy loop whose chunk is empty would not make progress; such a loop, and a call through a
  null peer pointer, is the value \<open>None\<close>. The lemmas show that neither happens on a
  well-formed endpoint, and that the ring buffer implements a bounded queue of elements.
\<close>

section \<open>State and construction\<close>

abbreviation ZX_FIFO_READABLE :: zx_signals where
  "ZX_FIFO_READABLE \<equiv> ZX_OBJECT_READABLE"

abbreviation ZX_FIFO_WRITABLE :: zx_signals where
  "ZX_FIFO_WRITABLE \<equiv> ZX_OBJECT_WRITABLE"

abbreviation ZX_FIFO_PEER_CLOSED :: zx_signals where
  "ZX_FIFO_PEER_CLOSED \<equiv> ZX_OBJECT_PEER_CLOSED"

record 'o fifo = "'o peered" +
  f_elem_count :: u32
  f_elem_size :: u32
  f_mask :: u32
  f_head :: u32
  f_tail :: u32
  f_data :: "byte list"

definition Fifo_kMaxSizeBytes :: u64 where
  "Fifo_kMaxSizeBytes = 4096"

definition Fifo_new :: "u32 \<Rightarrow> u32 \<Rightarrow> byte list \<Rightarrow> zx_koid \<Rightarrow> 'o fifo \<times> zx_koid" where
  "Fifo_new count elem_size data global_koid =
     (let (k, g) = GenerateKernelObjectId global_koid in
      (\<lparr>d_koid = k, d_handle_count = 0, d_signals = ZX_FIFO_WRITABLE, d_observers = [],
        p_peer = False, p_peer_koid = ZX_KOID_INVALID,
        f_elem_count = count, f_elem_size = elem_size, f_mask = count - 1,
        f_head = 0, f_tail = 0, f_data = data\<rparr>, g))"

definition Fifo_Init :: "'o fifo \<Rightarrow> 'o fifo \<Rightarrow> 'o fifo" where
  "Fifo_Init other_end f = f\<lparr>p_peer := True, p_peer_koid := d_koid other_end\<rparr>"

text \<open>\<open>ac i\<close> tells whether the \<open>i\<close>-th allocation succeeds; \<open>uninit s i\<close> is the \<open>i\<close>-th byte found
  in the freshly allocated buffer of endpoint \<open>s\<close>.\<close>

definition Fifo_Create ::
  "(nat \<Rightarrow> bool) \<Rightarrow> (side \<Rightarrow> nat \<Rightarrow> byte) \<Rightarrow> u64 \<Rightarrow> u64 \<Rightarrow> zx_koid \<Rightarrow>
   (zx_status + (side \<Rightarrow> 'o fifo)) \<times> zx_koid" where
  "Fifo_Create ac uninit count elemsize global_koid =
     (if count = 0 \<or> elemsize = 0 \<or> count AND (count - 1) \<noteq> 0 \<or>
         count > Fifo_kMaxSizeBytes \<or> elemsize > Fifo_kMaxSizeBytes \<or>
         count * elemsize > Fifo_kMaxSizeBytes
      then (Inl ZX_ERR_OUT_OF_RANGE, global_koid)
      else if \<not> ac 0 then (Inl ZX_ERR_NO_MEMORY, global_koid)
      else if \<not> ac 1 then (Inl ZX_ERR_NO_MEMORY, global_koid)
      else if \<not> ac 2 then (Inl ZX_ERR_NO_MEMORY, global_koid)
      else
        let buf = (\<lambda>s. map (uninit s) [0..<unat (count * elemsize)]);
            (fifo0, g1) = Fifo_new (ucast count) (ucast elemsize) (buf E0) global_koid in
        if \<not> ac 3 then (Inl ZX_ERR_NO_MEMORY, g1)
        else if \<not> ac 4 then (Inl ZX_ERR_NO_MEMORY, g1)
        else
          let (fifo1, g2) = Fifo_new (ucast count) (ucast elemsize) (buf E1) g1;
              fifo0' = Fifo_Init fifo1 fifo0;
              fifo1' = Fifo_Init fifo0' fifo1 in
          (Inr (\<lambda>s. case s of E0 \<Rightarrow> fifo0' | E1 \<Rightarrow> fifo1'), g2))"

definition Fifo_UserSignalSelfLocked ::
  "('o, 'w) observer_ops \<Rightarrow> u32 \<Rightarrow> u32 \<Rightarrow> side \<Rightarrow> (side \<Rightarrow> 'o fifo) \<Rightarrow> 'w \<Rightarrow>
   zx_status \<times> (side \<Rightarrow> 'o fifo) \<times> 'w" where
  "Fifo_UserSignalSelfLocked ops clear_mask set_mask s p w =
     (let (f, w') = UpdateStateLocked ops clear_mask set_mask (p s) w in
      (ZX_OK, p(s := f), w'))"

definition Fifo_on_zero_handles_locked ::
  "side \<Rightarrow> (side \<Rightarrow> 'o fifo) \<Rightarrow> 'w \<Rightarrow> (side \<Rightarrow> 'o fifo) \<times> 'w" where
  "Fifo_on_zero_handles_locked s p w = (p, w)"

definition Fifo_OnPeerZeroHandlesLocked ::
  "('o, 'w) observer_ops \<Rightarrow> side \<Rightarrow> (side \<Rightarrow> 'o fifo) \<Rightarrow> 'w \<Rightarrow> (side \<Rightarrow> 'o fifo) \<times> 'w" where
  "Fifo_OnPeerZeroHandlesLocked ops s p w =
     (let (f, w') = UpdateStateLocked ops ZX_FIFO_WRITABLE ZX_FIFO_PEER_CLOSED (p s) w in
      (p(s := f), w'))"

definition Fifo_on_zero_handles ::
  "('o, 'w) observer_ops \<Rightarrow> side \<Rightarrow> (side \<Rightarrow> 'o fifo) \<Rightarrow> 'w \<Rightarrow> (side \<Rightarrow> 'o fifo) \<times> 'w" where
  "Fifo_on_zero_handles ops =
     Peered_on_zero_handles Fifo_on_zero_handles_locked (Fifo_OnPeerZeroHandlesLocked ops)"

section \<open>Writing\<close>

text \<open>One iteration of the copy loop moves the elements up to the end of the array or the end
  of the request, whichever comes first. The chunk is computed once for both directions.\<close>

definition Fifo_to_copy :: "u32 \<Rightarrow> u32 \<Rightarrow> u64 \<Rightarrow> u64" where
  "Fifo_to_copy elem_count offset count =
     (let n = elem_count - offset in if count > ucast n then ucast n else count)"

lemma Fifo_to_copy_le: "Fifo_to_copy ec offset count \<le> count"
  by (auto simp: Fifo_to_copy_def Let_def)

function (sequential) Fifo_copy_in ::
  "user_mem \<Rightarrow> nat \<Rightarrow> u64 \<Rightarrow> 'o fifo \<Rightarrow> (zx_status \<times> 'o fifo) option" where
  "Fifo_copy_in mem ptr count f =
     (if count = 0 then Some (ZX_OK, f)
      else
        let offset = f_head f AND f_mask f;
            to_copy = Fifo_to_copy (f_elem_count f) offset count;
            len = unat (to_copy * ucast (f_elem_size f));
            f1 = f\<lparr>f_data := overwrite (f_data f) (unat (offset * f_elem_size f))
                               (user_bytes mem ptr len)\<rparr> in
        if to_copy = 0 then None
        else if \<not> user_readable mem ptr len then Some (ZX_ERR_INVALID_ARGS, f1)
        else Fifo_copy_in mem (ptr + len) (count - to_copy)
               (f1\<lparr>f_head := f_head f + ucast to_copy\<rparr>))"
  by pat_completeness auto
termination
  by (relation "measure (\<lambda>(mem, ptr, count, f). unat count)")
     (auto simp: unat_sub_if' Fifo_to_copy_le word_le_nat_alt [symmetric] unat_gt_0)

declare Fifo_copy_in.simps [simp del]

definition Fifo_WriteSelfLocked ::
  "('o, 'w) observer_ops \<Rightarrow> user_mem \<Rightarrow> side \<Rightarrow> u64 \<Rightarrow> nat \<Rightarrow> u64 \<Rightarrow>
   (side \<Rightarrow> 'o fifo) \<Rightarrow> 'w \<Rightarrow> ((zx_status + u64) \<times> (side \<Rightarrow> 'o fifo) \<times> 'w) option" where
  "Fifo_WriteSelfLocked ops mem s elem_size ptr count p w =
     (let f = p s in
      if elem_size \<noteq> ucast (f_elem_size f) then Some (Inl ZX_ERR_OUT_OF_RANGE, p, w)
      else if count = 0 then Some (Inl ZX_ERR_OUT_OF_RANGE, p, w)
      else
        let old_head = f_head f;
            avail = ucast (f_elem_count f - (f_head f - f_tail f)) :: u64 in
        if avail = 0 then Some (Inl ZX_ERR_SHOULD_WAIT, p, w)
        else
          let was_empty = (avail = ucast (f_elem_count f)) in
          case Fifo_copy_in mem ptr (if count > avail then avail else count) f of
            None \<Rightarrow> None
          | Some (status, f1) \<Rightarrow>
              if status \<noteq> ZX_OK
              then Some (Inl ZX_ERR_INVALID_ARGS, p(s := f1\<lparr>f_head := old_head\<rparr>), w)
              else
                let (f2, w2) = (if was_empty then UpdateStateLocked ops 0 ZX_FIFO_READABLE f1 w
                                else (f1, w));
                    p2 = p(s := f2);
                    actual = ucast (f_head f2 - old_head) in
                if f_elem_count f2 = f_head f2 - f_tail f2
                then if \<not> p_peer f2 then None
                     else let (g, w3) = UpdateStateLocked ops ZX_FIFO_WRITABLE 0 (p2 (other s)) w2
                          in Some (Inr actual, p2(other s := g), w3)
                else Some (Inr actual, p2, w2))"

definition Fifo_WriteFromUser ::
  "('o, 'w) observer_ops \<Rightarrow> user_mem \<Rightarrow> side \<Rightarrow> u64 \<Rightarrow> nat \<Rightarrow> u64 \<Rightarrow>
   (side \<Rightarrow> 'o fifo) \<Rightarrow> 'w \<Rightarrow> ((zx_status + u64) \<times> (side \<Rightarrow> 'o fifo) \<times> 'w) option" where
  "Fifo_WriteFromUser ops mem s elem_size ptr count p w =
     (if \<not> p_peer (p s) then Some (Inl ZX_ERR_PEER_CLOSED, p, w)
      else Fifo_WriteSelfLocked ops mem (other s) elem_size ptr count p w)"

section \<open>Reading\<close>

text \<open>The result carries the bytes stored to the user buffer, in order.\<close>

function (sequential) Fifo_copy_out ::
  "user_out \<Rightarrow> nat \<Rightarrow> u64 \<Rightarrow> 'o fifo \<Rightarrow> (zx_status \<times> byte list \<times> 'o fifo) option" where
  "Fifo_copy_out wr ptr count f =
     (if count = 0 then Some (ZX_OK, [], f)
      else
        let offset = f_tail f AND f_mask f;
            to_copy = Fifo_to_copy (f_elem_count f) offset count;
            len = unat (to_copy * ucast (f_elem_size f));
            bytes = take len (drop (unat (offset * f_elem_size f)) (f_data f)) in
        if to_copy = 0 then None
        else if \<not> user_writable wr ptr len
        then Some (ZX_ERR_INVALID_ARGS, user_stored wr ptr bytes, f)
        else case Fifo_copy_out wr (ptr + len) (count - to_copy)
                    (f\<lparr>f_tail := f_tail f + ucast to_copy\<rparr>) of
               None \<Rightarrow> None
             | Some (status, rest, f') \<Rightarrow> Some (status, bytes @ rest, f'))"
  by pat_completeness auto
termination
  by (relation "measure (\<lambda>(wr, ptr, count, f). unat count)")
     (auto simp: unat_sub_if' Fifo_to_copy_le word_le_nat_alt [symmetric] unat_gt_0)

declare Fifo_copy_out.simps [simp del]

definition Fifo_ReadToUser ::
  "('o, 'w) observer_ops \<Rightarrow> user_out \<Rightarrow> side \<Rightarrow> u64 \<Rightarrow> nat \<Rightarrow> u64 \<Rightarrow>
   (side \<Rightarrow> 'o fifo) \<Rightarrow> 'w \<Rightarrow>
   ((zx_status + u64) \<times> byte list \<times> (side \<Rightarrow> 'o fifo) \<times> 'w) option" where
  "Fifo_ReadToUser ops wr s elem_size ptr count p w =
     (let f = p s in
      if elem_size \<noteq> ucast (f_elem_size f) then Some (Inl ZX_ERR_OUT_OF_RANGE, [], p, w)
      else if count = 0 then Some (Inl ZX_ERR_OUT_OF_RANGE, [], p, w)
      else
        let old_tail = f_tail f;
            avail = ucast (f_head f - f_tail f) :: u64 in
        if avail = 0
        then Some (Inl (if p_peer f then ZX_ERR_SHOULD_WAIT else ZX_ERR_PEER_CLOSED), [], p, w)
        else
          let was_full = (avail = ucast (f_elem_count f)) in
          case Fifo_copy_out wr ptr (if count > avail then avail else count) f of
            None \<Rightarrow> None
          | Some (status, out, f1) \<Rightarrow>
              if status \<noteq> ZX_OK
              then Some (Inl ZX_ERR_INVALID_ARGS, out, p(s := f1\<lparr>f_tail := old_tail\<rparr>), w)
              else
                let p1 = p(s := f1);
                    (p2, w2) = (if was_full \<and> p_peer f1
                                then let (g, w') = UpdateStateLocked ops 0 ZX_FIFO_WRITABLE
                                                     (p1 (other s)) w
                                     in (p1(other s := g), w')
                                else (p1, w));
                    (p3, w3) = (if f_head f1 - f_tail f1 = 0
                                then let (g, w') = UpdateStateLocked ops ZX_FIFO_READABLE 0 (p2 s) w2
                                     in (p2(s := g), w')
                                else (p2, w2)) in
                Some (Inr (ucast (f_tail f1 - old_tail)), out, p3, w3))"

section \<open>The ring buffer as a queue\<close>

definition slot :: "nat \<Rightarrow> byte list \<Rightarrow> nat \<Rightarrow> byte list" where
  "slot es data j = take es (drop (j * es) data)"

definition ring_elems :: "nat \<Rightarrow> nat \<Rightarrow> byte list \<Rightarrow> nat \<Rightarrow> nat \<Rightarrow> byte list list" where
  "ring_elems n es data t len = map (\<lambda>i. slot es data ((t + i) mod n)) [0..<len]"

abbreviation fifo_len :: "'o fifo \<Rightarrow> nat" where
  "fifo_len f \<equiv> unat (f_head f - f_tail f)"

definition fifo_queue :: "'o fifo \<Rightarrow> byte list list" where
  "fifo_queue f = ring_elems (unat (f_elem_count f)) (unat (f_elem_size f)) (f_data f)
                    (unat (f_tail f)) (fifo_len f)"

definition fifo_wf :: "'o fifo \<Rightarrow> bool" where
  "fifo_wf f \<longleftrightarrow>
     f_elem_count f \<noteq> 0 \<and> f_elem_count f AND (f_elem_count f - 1) = 0 \<and>
     f_mask f = f_elem_count f - 1 \<and> f_elem_size f \<noteq> 0 \<and>
     unat (f_elem_count f) * unat (f_elem_size f) \<le> 4096 \<and>
     length (f_data f) = unat (f_elem_count f) * unat (f_elem_size f) \<and>
     fifo_len f \<le> unat (f_elem_count f)"

lemma length_fifo_queue [simp]: "length (fifo_queue f) = fifo_len f"
  by (simp add: fifo_queue_def ring_elems_def)

lemma fifo_queue_Nil: "fifo_queue f = [] \<longleftrightarrow> fifo_len f = 0"
  by (metis length_0_conv length_fifo_queue)

lemma slot_nth: "i < es \<Longrightarrow> j * es + i < length data \<Longrightarrow> slot es data j ! i = data ! (j * es + i)"
  by (simp add: slot_def)

lemma slot_overwrite_outside:
  assumes "j < k \<or> k + m \<le> j" "length ys \<le> m * es" "k * es + length ys \<le> length data"
  shows "slot es (overwrite data (k * es) ys) j = slot es data j"
proof (rule nth_equalityI)
  fix i assume i: "i < length (slot es (overwrite data (k * es) ys) j)"
  with assms(3) have len: "i < es" "j * es + i < length data" by (auto simp: slot_def)
  have "j * es + i < k * es \<or> k * es + length ys \<le> j * es + i"
    using assms(1)
  proof
    assume "j < k"
    then have "(j + 1) * es \<le> k * es" by (intro mult_le_mono1) simp
    with len show ?thesis by (simp add: algebra_simps)
  next
    assume "k + m \<le> j"
    then have "(k + m) * es \<le> j * es" by (intro mult_le_mono1)
    with assms(2) show ?thesis by (simp add: algebra_simps)
  qed
  with len assms(3) show "slot es (overwrite data (k * es) ys) j ! i = slot es data j ! i"
    by (elim disjE) (simp_all add: slot_nth nth_overwrite)
qed (simp add: slot_def)

lemma slot_overwrite_inside:
  assumes "k \<le> j" "j < k + m" "length ys = m * es" "(k + m) * es \<le> length data"
  shows "slot es (overwrite data (k * es) ys) j = slot es ys (j - k)"
proof -
  obtain d where j: "j = k + d" and d: "d < m" using assms(1,2) by (metis add_less_cancel_left le_Suc_ex)
  have "(d + 1) * es \<le> m * es" "(k + d + 1) * es \<le> (k + m) * es"
    using d by (intro mult_le_mono1; simp)+
  then have fit: "d * es + es \<le> length ys" "(k + d) * es + es \<le> length data"
    using assms(3,4) by simp_all
  show ?thesis
  proof (rule nth_equalityI)
    show "length (slot es (overwrite data (k * es) ys) j) = length (slot es ys (j - k))"
      using fit assms(3,4) by (simp add: slot_def j)
    fix i assume "i < length (slot es (overwrite data (k * es) ys) j)"
    then have "i < es" by (simp add: slot_def)
    with fit assms(3,4) show "slot es (overwrite data (k * es) ys) j ! i = slot es ys (j - k) ! i"
      by (simp add: slot_nth nth_overwrite j add_mult_distrib)
  qed
qed

text \<open>Positions less than a lap apart are the same only when they are equal.\<close>

lemma ring_pos_inj: "(a :: nat) mod n = b mod n \<Longrightarrow> a \<le> b \<Longrightarrow> b - a < n \<Longrightarrow> a = b"
  using mod_eq_dvd_iff_nat [of a b n] nat_dvd_not_less [of "b - a" n] by (cases "a = b") auto

lemma ring_pos_add:
  assumes "(t mod n :: nat) + d < n"
  shows "(t + d) mod n = t mod n + d"
  using assms mod_add_left_eq [of t n d] by simp

lemma ring_elems_cong:
  assumes "\<And>i. i < len \<Longrightarrow> slot es data' ((t + i) mod n) = slot es data ((t + i) mod n)"
  shows "ring_elems n es data' t len = ring_elems n es data t len"
  using assms by (simp add: ring_elems_def)

lemma ring_write_keeps:
  assumes "len + m \<le> n" "(t + len) mod n + m \<le> n" "length ys \<le> m * es"
    "((t + len) mod n + m) * es \<le> length data"
  shows "ring_elems n es (overwrite data ((t + len) mod n * es) ys) t len = ring_elems n es data t len"
proof (rule ring_elems_cong, rule slot_overwrite_outside)
  fix i assume i: "i < len"
  show "(t + i) mod n < (t + len) mod n \<or> (t + len) mod n + m \<le> (t + i) mod n"
  proof (rule ccontr)
    assume neg: "\<not> ?thesis"
    define d where "d = (t + i) mod n - (t + len) mod n"
    with neg have d: "d < m" "(t + i) mod n = (t + len) mod n + d" by auto
    moreover have "(t + len + d) mod n = (t + len) mod n + d"
      by (rule ring_pos_add) (use d(1) assms(2) in linarith)
    ultimately have "(t + i) mod n = (t + len + d) mod n" by (simp only:)
    moreover have "t + len + d - (t + i) < n" using d(1) i assms(1) by arith
    ultimately show False using ring_pos_inj [of "t + i" n "t + len + d"] i by simp
  qed
  show "length ys \<le> m * es" by fact
  show "(t + len) mod n * es + length ys \<le> length data"
    using assms(3,4) by (simp add: add_mult_distrib)
qed

lemma ring_write_appends:
  assumes "len + m \<le> n" "(t + len) mod n + m \<le> n" "length ys = m * es"
    "((t + len) mod n + m) * es \<le> length data"
  shows "ring_elems n es (overwrite data ((t + len) mod n * es) ys) t (len + m) =
         ring_elems n es data t len @ map (slot es ys) [0..<m]"
proof -
  let ?data = "overwrite data ((t + len) mod n * es) ys"
  have "slot es ?data ((t + (len + i)) mod n) = slot es ys i" if i: "i < m" for i
  proof -
    have "(t + (len + i)) mod n = (t + len) mod n + i"
      unfolding add.assoc [symmetric] by (rule ring_pos_add) (use i assms(2) in linarith)
    then show ?thesis
      using slot_overwrite_inside [OF _ _ assms(3,4), of "(t + len) mod n + i"] i
      by (simp only: le_add1 add_less_cancel_left diff_add_inverse)
  qed
  then have "map (\<lambda>i. slot es ?data ((t + i) mod n)) [len..<len + m] = map (slot es ys) [0..<m]"
    by (intro nth_equalityI [where 'a = "byte list"]) simp_all
  moreover have "map (\<lambda>i. slot es ?data ((t + i) mod n)) [0..<len] = ring_elems n es data t len"
    using ring_write_keeps [OF assms(1,2) eq_refl [OF assms(3)] assms(4)]
    by (simp only: ring_elems_def)
  ultimately show ?thesis
    by (simp add: ring_elems_def upt_add_eq_append [of 0 len m])
qed

lemma ring_elems_take:
  "k \<le> len \<Longrightarrow> take k (ring_elems n es data t len) = ring_elems n es data t k"
  by (simp add: ring_elems_def take_map)

lemma ring_elems_drop:
  assumes "k \<le> len"
  shows "drop k (ring_elems n es data t len) = ring_elems n es data (t + k) (len - k)"
  using assms by (auto simp: ring_elems_def add.assoc intro!: nth_equalityI [where 'a = "byte list"])

lemma concat_slots:
  "m * es \<le> length data \<Longrightarrow> concat (map (slot es data) [0..<m]) = take (m * es) data"
proof (induction m)
  case (Suc m)
  then have "concat (map (slot es data) [0..<m]) = take (m * es) data" by simp
  then show ?case
    using take_add [of "m * es" es data] by (simp add: slot_def [of _ _ m] add.commute)
qed simp

lemma slot_drop: "slot es (drop (k * es) data) i = slot es data (k + i)"
  by (simp add: slot_def add_mult_distrib add.commute)

lemma ring_read_chunk:
  assumes "t mod n + m \<le> n" "n * es \<le> length data"
  shows "take (m * es) (drop (t mod n * es) data) = concat (ring_elems n es data t m)"
proof -
  have "(t mod n + m) * es \<le> n * es" using assms(1) by (rule mult_le_mono1)
  with assms(2) have fit: "m * es \<le> length (drop (t mod n * es) data)"
    by (simp add: add_mult_distrib)
  have "(t + i) mod n = t mod n + i" if "i < m" for i
    using that assms(1) by (intro ring_pos_add) simp
  then have "ring_elems n es data t m = map (slot es (drop (t mod n * es) data)) [0..<m]"
    by (simp add: ring_elems_def slot_drop)
  with concat_slots [OF fit] show ?thesis by simp
qed

section \<open>Index arithmetic\<close>

text \<open>The test \<open>count & (count - 1)\<close> of \<open>Create\<close> accepts exactly the powers of two.\<close>

lemma unat_and_pred: "w \<noteq> 0 \<Longrightarrow> unat (w AND (w - 1)) = unat w AND (unat w - 1)"
  by (simp add: unsigned_and_eq unat_minus_one)

lemma word_and_pred_power:
  assumes "w \<noteq> 0" "w AND (w - 1) = 0"
  shows "\<exists>k. unat (w :: 'a::len word) = 2 ^ k"
proof (rule nat_and_pred_power)
  show "0 < unat w" using assms(1) by (simp add: unat_gt_0)
  show "unat w AND (unat w - 1) = 0"
    using unat_and_pred [OF assms(1)] assms(2) by simp
qed

lemma ring_index:
  assumes "c \<noteq> 0" "c AND (c - 1) = (0 :: u32)"
  shows "unat (x AND (c - 1)) = unat x mod unat c"
proof -
  obtain k where k: "unat c = 2 ^ k" using word_and_pred_power [OF assms] by blast
  have c: "c = 2 ^ k" using arg_cong [OF k, of "of_nat :: nat \<Rightarrow> u32"] by simp
  have "x AND (c - 1) = take_bit k x"
    by (simp add: c take_bit_eq_mask mask_eq_exp_minus_1)
  then show ?thesis by (simp only: unsigned_take_bit_eq) (simp only: take_bit_eq_mod k)
qed

lemma fifo_wf_bounds:
  assumes "fifo_wf f"
  shows "0 < unat (f_elem_count f)" "0 < unat (f_elem_size f)" "unat (f_elem_count f) \<le> 4096"
    "unat (f_elem_size f) \<le> 4096" "unat (f_elem_count f) dvd 2 ^ 32"
proof -
  have prod: "unat (f_elem_count f) * unat (f_elem_size f) \<le> 4096"
    using assms by (simp add: fifo_wf_def)
  show pos: "0 < unat (f_elem_count f)" "0 < unat (f_elem_size f)"
    using assms by (simp_all add: fifo_wf_def unat_gt_0)
  have "unat (f_elem_count f) * 1 \<le> unat (f_elem_count f) * unat (f_elem_size f)"
    "1 * unat (f_elem_size f) \<le> unat (f_elem_count f) * unat (f_elem_size f)"
    using pos by (intro mult_le_mono; simp)+
  with prod show le: "unat (f_elem_count f) \<le> 4096" "unat (f_elem_size f) \<le> 4096" by linarith+
  obtain k where k: "unat (f_elem_count f) = 2 ^ k"
    using assms word_and_pred_power [of "f_elem_count f"] by (auto simp: fifo_wf_def)
  with le(1) have "(2 :: nat) ^ k \<le> 2 ^ 12" by simp
  then have "k \<le> 12" by (simp only: power_increasing_iff)
  then show "unat (f_elem_count f) dvd 2 ^ 32" unfolding k by (intro le_imp_power_dvd) simp
qed

lemma fifo_head_index:
  assumes "fifo_wf f"
  shows "unat (f_head f AND f_mask f) = (unat (f_tail f) + fifo_len f) mod unat (f_elem_count f)"
proof -
  have "unat (f_head f) = unat (f_tail f + (f_head f - f_tail f))" by simp
  also have "\<dots> = (unat (f_tail f) + fifo_len f) mod 2 ^ 32"
    by (simp only: unat_word_ariths(1)) simp
  finally have "unat (f_head f) mod unat (f_elem_count f) =
      (unat (f_tail f) + fifo_len f) mod unat (f_elem_count f)"
    using fifo_wf_bounds(5) [OF assms] by (simp only: mod_mod_cancel)
  with assms ring_index [of "f_elem_count f" "f_head f"] show ?thesis
    by (simp add: fifo_wf_def)
qed

lemma fifo_tail_index:
  assumes "fifo_wf f"
  shows "unat (f_tail f AND f_mask f) = unat (f_tail f) mod unat (f_elem_count f)"
  using assms ring_index [of "f_elem_count f" "f_tail f"] by (simp add: fifo_wf_def)

text \<open>The machine values of one loop iteration, as natural numbers: nothing wraps.\<close>

lemma fifo_chunk:
  fixes count :: u64 and offset :: u32
  assumes "fifo_wf f" "unat offset < unat (f_elem_count f)"
  defines "m \<equiv> Fifo_to_copy (f_elem_count f) offset count"
  shows "unat m = min (unat count) (unat (f_elem_count f) - unat offset)"
    and "unat (m * ucast (f_elem_size f)) = unat m * unat (f_elem_size f)"
    and "unat (offset * f_elem_size f) = unat offset * unat (f_elem_size f)"
    and "unat (count - m) = unat count - unat m"
    and "(ucast m :: u32) = of_nat (unat m)"
proof -
  have sub: "unat (f_elem_count f - offset) = unat (f_elem_count f) - unat offset"
    using assms(2) by (simp add: unat_sub_if')
  show m: "unat m = min (unat count) (unat (f_elem_count f) - unat offset)"
    unfolding m_def Fifo_to_copy_def Let_def by (auto simp: word_less_nat_alt sub)
  have "unat m * unat (f_elem_size f) \<le> unat (f_elem_count f) * unat (f_elem_size f)"
    "unat offset * unat (f_elem_size f) \<le> unat (f_elem_count f) * unat (f_elem_size f)"
    using assms(2) by (simp_all add: m min.coboundedI2)
  moreover have "unat (f_elem_count f) * unat (f_elem_size f) \<le> 4096"
    using assms(1) by (simp add: fifo_wf_def)
  ultimately have "unat m * unat (f_elem_size f) \<le> 4096" "unat offset * unat (f_elem_size f) \<le> 4096"
    by linarith+
  then show "unat (m * ucast (f_elem_size f)) = unat m * unat (f_elem_size f)"
    "unat (offset * f_elem_size f) = unat offset * unat (f_elem_size f)"
    by (simp_all add: unat_word_ariths(2))
  show "unat (count - m) = unat count - unat m"
    using Fifo_to_copy_le [of "f_elem_count f" offset count]
    by (simp add: m_def unat_sub_if' word_le_nat_alt)
  show "(ucast m :: u32) = of_nat (unat m)" by simp
qed

section \<open>The copy loops\<close>

definition chunks :: "nat \<Rightarrow> nat \<Rightarrow> byte list \<Rightarrow> byte list list" where
  "chunks es n bs = map (slot es bs) [0..<n]"

lemma chunks_append:
  assumes "length xs = m * es"
  shows "chunks es (m + k) (xs @ ys) = chunks es m xs @ chunks es k ys"
proof -
  have "slot es (xs @ ys) i = slot es xs i" if "i < m" for i
  proof -
    have "(i + 1) * es \<le> m * es" using that by (intro mult_le_mono1) simp
    then show ?thesis using assms by (simp add: slot_def)
  qed
  moreover have "slot es (xs @ ys) (m + i) = slot es ys i" for i
    using assms by (simp add: slot_def add_mult_distrib)
  ultimately show ?thesis
    by (auto simp: chunks_def upt_add_eq_append [of 0 m k] intro!: nth_equalityI [where 'a = "byte list"])
qed

lemma fifo_len_advance:
  assumes "fifo_wf f" "fifo_len f + m \<le> unat (f_elem_count f)"
  shows "unat (f_head f + of_nat m - f_tail f) = fifo_len f + m"
proof -
  have small: "fifo_len f + m < 2 ^ 32" using assms(2) fifo_wf_bounds(3) [OF assms(1)] by simp
  have "f_head f + of_nat m - f_tail f = (f_head f - f_tail f) + of_nat m" by simp
  also have "unat \<dots> = fifo_len f + m"
    using small by (simp add: unat_word_ariths(1) unat_of_nat)
  finally show ?thesis .
qed

lemma fifo_append_chunk:
  fixes f :: "'o fifo"
  defines "os \<equiv> unat (f_head f AND f_mask f)" and "es \<equiv> unat (f_elem_size f)"
  assumes wf: "fifo_wf f" and m: "os + m \<le> unat (f_elem_count f)" "fifo_len f + m \<le> unat (f_elem_count f)"
    and ys: "length ys = m * es"
  defines "f' \<equiv> f\<lparr>f_data := overwrite (f_data f) (os * es) ys, f_head := f_head f + of_nat m\<rparr>"
  shows "fifo_wf f'" "fifo_queue f' = fifo_queue f @ chunks es m ys" "fifo_len f' = fifo_len f + m"
proof -
  show len: "fifo_len f' = fifo_len f + m"
    using fifo_len_advance [OF wf m(2)] by (simp add: f'_def)
  have data: "length (f_data f) = unat (f_elem_count f) * es" using wf by (simp add: fifo_wf_def es_def)
  have os: "os = (unat (f_tail f) + fifo_len f) mod unat (f_elem_count f)"
    using fifo_head_index [OF wf] by (simp add: os_def)
  have fit: "(os + m) * es \<le> length (f_data f)"
    unfolding data using m(1) by (rule mult_le_mono1)
  show "fifo_wf f'"
    using wf len m(2) by (simp add: fifo_wf_def f'_def)
  show "fifo_queue f' = fifo_queue f @ chunks es m ys"
    unfolding fifo_queue_def len
    using ring_write_appends [OF m(2) m(1) [unfolded os] ys fit [unfolded os]]
    by (simp add: f'_def os chunks_def es_def)
qed

lemma fifo_overwrite_free:
  fixes f :: "'o fifo"
  defines "os \<equiv> unat (f_head f AND f_mask f)" and "es \<equiv> unat (f_elem_size f)"
  assumes wf: "fifo_wf f" and m: "os + m \<le> unat (f_elem_count f)" "fifo_len f + m \<le> unat (f_elem_count f)"
    and ys: "length ys \<le> m * es"
  defines "f' \<equiv> f\<lparr>f_data := overwrite (f_data f) (os * es) ys\<rparr>"
  shows "fifo_wf f'" "fifo_queue f' = fifo_queue f"
proof -
  have data: "length (f_data f) = unat (f_elem_count f) * es" using wf by (simp add: fifo_wf_def es_def)
  have os: "os = (unat (f_tail f) + fifo_len f) mod unat (f_elem_count f)"
    using fifo_head_index [OF wf] by (simp add: os_def)
  have fit: "(os + m) * es \<le> length (f_data f)"
    unfolding data using m(1) by (rule mult_le_mono1)
  show "fifo_wf f'" using wf by (simp add: fifo_wf_def f'_def)
  show "fifo_queue f' = fifo_queue f"
    using ring_write_keeps [OF m(2) m(1) [unfolded os] ys fit [unfolded os]]
    by (simp add: fifo_queue_def f'_def os es_def)
qed

lemma fifo_rollback:
  assumes "fifo_wf f" "fifo_len f + m \<le> unat (f_elem_count f)"
  shows "fifo_queue (f\<lparr>f_data := data\<rparr>) =
         take (fifo_len f) (fifo_queue (f\<lparr>f_head := f_head f + of_nat m, f_data := data\<rparr>))"
  using fifo_len_advance [OF assms] by (simp add: fifo_queue_def ring_elems_take)

lemma fifo_offset_less: "fifo_wf f \<Longrightarrow> unat (x AND f_mask f) < unat (f_elem_count f)"
  using ring_index [of "f_elem_count f" x] fifo_wf_bounds(1) [of f] by (simp add: fifo_wf_def)

lemma Fifo_copy_in_step:
  fixes f :: "'o fifo" and count :: u64 and mem :: user_mem and ptr :: nat
  defines "os \<equiv> unat (f_head f AND f_mask f)" and "es \<equiv> unat (f_elem_size f)"
  defines "m \<equiv> min (unat count) (unat (f_elem_count f) - os)"
  defines "f1 \<equiv> f\<lparr>f_data := overwrite (f_data f) (os * es) (user_bytes mem ptr (m * es))\<rparr>"
  assumes "fifo_wf f" "count \<noteq> 0"
  shows "0 < m" "os + m \<le> unat (f_elem_count f)"
    and "Fifo_copy_in mem ptr count f =
      (if \<not> user_readable mem ptr (m * es) then Some (ZX_ERR_INVALID_ARGS, f1)
       else Fifo_copy_in mem (ptr + m * es) (count - of_nat m) (f1\<lparr>f_head := f_head f + of_nat m\<rparr>))"
proof -
  have os: "os < unat (f_elem_count f)" using fifo_offset_less [OF assms(5)] by (simp add: os_def)
  with assms(6) show pos: "0 < m" "os + m \<le> unat (f_elem_count f)"
    by (simp_all add: m_def unat_gt_0)
  note c = fifo_chunk(1,2,4,5) [OF assms(5) os [unfolded os_def], of count]
    fifo_chunk(3) [OF assms(5) os [unfolded os_def]]
  note c = c [folded os_def es_def, folded m_def]
  have eq: "Fifo_to_copy (f_elem_count f) (f_head f AND f_mask f) count = of_nat m"
    using arg_cong [OF c(1), of "of_nat :: nat \<Rightarrow> u64"] by simp
  note c = c [unfolded eq]
  have "of_nat m \<noteq> (0 :: u64)" using c(1) pos(1) by auto
  moreover have "unat (of_nat m * ucast (f_elem_size f) :: u64) = m * es" using c(1,2) by simp
  moreover have "(ucast (of_nat m :: u64) :: u32) = of_nat m" using c(1,4) by simp
  ultimately show "Fifo_copy_in mem ptr count f =
      (if \<not> user_readable mem ptr (m * es) then Some (ZX_ERR_INVALID_ARGS, f1)
       else Fifo_copy_in mem (ptr + m * es) (count - of_nat m) (f1\<lparr>f_head := f_head f + of_nat m\<rparr>))"
    unfolding Fifo_copy_in.simps [of mem ptr count f] Let_def eq c(5) f1_def using assms(6) by simp
qed

lemma Fifo_copy_in_ok:
  fixes f :: "'o fifo"
  assumes "fifo_wf f" "fifo_len f + unat count \<le> unat (f_elem_count f)"
    "user_readable mem ptr (unat count * unat (f_elem_size f))"
  shows "\<exists>data. let f' = f\<lparr>f_data := data, f_head := f_head f + of_nat (unat count)\<rparr> in
    Fifo_copy_in mem ptr count f = Some (ZX_OK, f') \<and> fifo_wf f' \<and>
    fifo_queue f' = fifo_queue f @ chunks (unat (f_elem_size f)) (unat count)
                      (user_bytes mem ptr (unat count * unat (f_elem_size f)))"
  using assms
proof (induction "unat count" arbitrary: ptr count f rule: less_induct)
  case less
  show ?case
  proof (cases "count = 0")
    case True
    with less.prems(1) show ?thesis
      by (intro exI [of _ "f_data f"]) (simp add: Fifo_copy_in.simps chunks_def)
  next
    case False
    define es m where "es = unat (f_elem_size f)"
      and "m = min (unat count) (unat (f_elem_count f) - unat (f_head f AND f_mask f))"
    define k where "k = unat count - m"
    have km: "unat count = m + k" "unat (count - of_nat m) = k"
      by (simp_all add: k_def m_def unat_sub_of_nat)
    note step = Fifo_copy_in_step [OF less.prems(1) False, folded es_def m_def]
    have rd: "user_readable mem ptr (m * es)" "user_readable mem (ptr + m * es) (k * es)"
      using less.prems(3) by (simp_all add: km(1) add_mult_distrib user_readable_add flip: es_def)
    let ?ys = "user_bytes mem ptr (m * es)"
    define f1 where "f1 = f\<lparr>f_data := overwrite (f_data f) (unat (f_head f AND f_mask f) * es) ?ys,
      f_head := f_head f + of_nat m\<rparr>"
    have f1: "fifo_wf f1" "fifo_queue f1 = fifo_queue f @ chunks es m ?ys" "fifo_len f1 = fifo_len f + m"
      using fifo_append_chunk [OF less.prems(1), of m ?ys] step(2) less.prems(2) rd(1) km(1)
      by (simp_all add: f1_def es_def)
    have "\<exists>data. let f' = f1\<lparr>f_data := data, f_head := f_head f1 + of_nat k\<rparr> in
      Fifo_copy_in mem (ptr + m * es) (count - of_nat m) f1 = Some (ZX_OK, f') \<and> fifo_wf f' \<and>
      fifo_queue f' = fifo_queue f1 @ chunks es k (user_bytes mem (ptr + m * es) (k * es))"
      using less.hyps [of "count - of_nat m" f1 "ptr + m * es"] step(1) f1 less.prems(2) rd(2) km
      by (simp add: f1_def es_def add.assoc)
    then obtain data where "let f' = f1\<lparr>f_data := data, f_head := f_head f1 + of_nat k\<rparr> in
      Fifo_copy_in mem (ptr + m * es) (count - of_nat m) f1 = Some (ZX_OK, f') \<and> fifo_wf f' \<and>
      fifo_queue f' = fifo_queue f1 @ chunks es k (user_bytes mem (ptr + m * es) (k * es))" ..
    with step(3) rd(1) f1(2) show ?thesis
      by (intro exI [of _ data])
         (simp add: Let_def f1_def km(1) add_mult_distrib user_bytes_add chunks_append add.assoc
           flip: es_def)
  qed
qed

lemma Fifo_copy_in_fault:
  fixes f :: "'o fifo"
  assumes "fifo_wf f" "fifo_len f + unat count \<le> unat (f_elem_count f)"
    "\<not> user_readable mem ptr (unat count * unat (f_elem_size f))"
  shows "\<exists>data h. Fifo_copy_in mem ptr count f = Some (ZX_ERR_INVALID_ARGS, f\<lparr>f_data := data, f_head := h\<rparr>) \<and>
    fifo_wf (f\<lparr>f_data := data\<rparr>) \<and> fifo_queue (f\<lparr>f_data := data\<rparr>) = fifo_queue f"
  using assms
proof (induction "unat count" arbitrary: ptr count f rule: less_induct)
  case less
  have False if "count = 0" using that less.prems(3) by simp
  then have "count \<noteq> 0" by blast
  define es m where "es = unat (f_elem_size f)"
    and "m = min (unat count) (unat (f_elem_count f) - unat (f_head f AND f_mask f))"
  define k where "k = unat count - m"
  have km: "unat count = m + k" "unat (count - of_nat m) = k"
    by (simp_all add: k_def m_def unat_sub_of_nat)
  note step = Fifo_copy_in_step [OF less.prems(1) \<open>count \<noteq> 0\<close>, folded es_def m_def]
  let ?ys = "user_bytes mem ptr (m * es)"
  define data1 where "data1 = overwrite (f_data f) (unat (f_head f AND f_mask f) * es) ?ys"
  have len: "fifo_len f + m \<le> unat (f_elem_count f)" using less.prems(2) km(1) by simp
  show ?case
  proof (cases "user_readable mem ptr (m * es)")
    case False
    have "fifo_wf (f\<lparr>f_data := data1\<rparr>)" "fifo_queue (f\<lparr>f_data := data1\<rparr>) = fifo_queue f"
      using fifo_overwrite_free [OF less.prems(1) step(2) len, of ?ys] length_user_bytes
      by (simp_all add: data1_def es_def)
    with False step(3) show ?thesis
      by (intro exI [of _ data1] exI [of _ "f_head f"]) (simp add: data1_def)
  next
    case True
    define f1 where "f1 = f\<lparr>f_data := data1, f_head := f_head f + of_nat m\<rparr>"
    have f1: "fifo_wf f1" "fifo_queue f1 = fifo_queue f @ chunks es m ?ys" "fifo_len f1 = fifo_len f + m"
      using fifo_append_chunk [OF less.prems(1) step(2) len, of ?ys] True
      by (simp_all add: f1_def es_def data1_def)
    have "\<not> user_readable mem (ptr + m * es) (k * es)"
      using less.prems(3) True by (simp add: km(1) add_mult_distrib user_readable_add flip: es_def)
    then obtain data h where d: "Fifo_copy_in mem (ptr + m * es) (count - of_nat m) f1 =
        Some (ZX_ERR_INVALID_ARGS, f1\<lparr>f_data := data, f_head := h\<rparr>)"
      "fifo_wf (f1\<lparr>f_data := data\<rparr>)" "fifo_queue (f1\<lparr>f_data := data\<rparr>) = fifo_queue f1"
      using less.hyps [of "count - of_nat m" f1 "ptr + m * es"] step(1) f1 less.prems(2) km
      by (auto simp: f1_def es_def add.assoc)
    have "fifo_queue (f\<lparr>f_data := data\<rparr>) = take (fifo_len f) (fifo_queue (f1\<lparr>f_data := data\<rparr>))"
      using fifo_rollback [OF less.prems(1) len, of data] by (simp add: f1_def)
    with d f1(2) have "fifo_queue (f\<lparr>f_data := data\<rparr>) = fifo_queue f" by simp
    moreover have "fifo_wf (f\<lparr>f_data := data\<rparr>)"
      using less.prems(1) d(2) by (simp add: fifo_wf_def f1_def)
    ultimately show ?thesis
      using step(3) True d(1) by (intro exI [of _ data] exI [of _ h]) (simp add: f1_def data1_def)
  qed
qed

lemma fifo_take_chunk:
  fixes f :: "'o fifo"
  defines "os \<equiv> unat (f_tail f AND f_mask f)" and "es \<equiv> unat (f_elem_size f)"
  assumes wf: "fifo_wf f" and m: "os + m \<le> unat (f_elem_count f)" "m \<le> fifo_len f"
  defines "f' \<equiv> f\<lparr>f_tail := f_tail f + of_nat m\<rparr>"
  shows "fifo_wf f'" "fifo_queue f' = drop m (fifo_queue f)" "fifo_len f' = fifo_len f - m"
    "take (m * es) (drop (os * es) (f_data f)) = concat (take m (fifo_queue f))"
proof -
  let ?n = "unat (f_elem_count f)"
  show len: "fifo_len f' = fifo_len f - m"
    using unat_sub_of_nat [OF m(2)] by (simp add: f'_def algebra_simps)
  show "fifo_wf f'" using wf len m(2) by (auto simp: fifo_wf_def f'_def)
  have os: "os = unat (f_tail f) mod ?n" using fifo_tail_index [OF wf] by (simp add: os_def)
  have "?n * es \<le> length (f_data f)" using wf by (simp add: fifo_wf_def es_def)
  from ring_read_chunk [OF m(1) [unfolded os] this] m(2)
  show "take (m * es) (drop (os * es) (f_data f)) = concat (take m (fifo_queue f))"
    by (simp add: fifo_queue_def ring_elems_take os es_def)
  have "m < 2 ^ 32" using m(1) fifo_wf_bounds(3) [OF wf] by simp
  then have "unat (f_tail f + of_nat m) = (unat (f_tail f) + m) mod 2 ^ 32"
    by (simp add: unat_word_ariths(1) unat_of_nat)
  then have "unat (f_tail f + of_nat m) mod ?n = (unat (f_tail f) + m) mod ?n"
    using fifo_wf_bounds(5) [OF wf] by (simp only: mod_mod_cancel)
  then have "(unat (f_tail f + of_nat m) + i) mod ?n = (unat (f_tail f) + m + i) mod ?n" for i
    by (rule mod_add_cong) simp
  then have "ring_elems ?n es (f_data f) (unat (f_tail f + of_nat m)) k =
      ring_elems ?n es (f_data f) (unat (f_tail f) + m) k" for k
    by (simp only: ring_elems_def)
  with m(2) len show "fifo_queue f' = drop m (fifo_queue f)"
    by (simp add: fifo_queue_def ring_elems_drop f'_def es_def)
qed

lemma Fifo_copy_out_step:
  fixes f :: "'o fifo" and count :: u64 and wr :: user_out and ptr :: nat
  defines "os \<equiv> unat (f_tail f AND f_mask f)" and "es \<equiv> unat (f_elem_size f)"
  defines "m \<equiv> min (unat count) (unat (f_elem_count f) - os)"
  defines "bytes \<equiv> take (m * es) (drop (os * es) (f_data f))"
  assumes "fifo_wf f" "count \<noteq> 0"
  shows "0 < m" "os + m \<le> unat (f_elem_count f)"
    and "Fifo_copy_out wr ptr count f =
      (if \<not> user_writable wr ptr (m * es)
       then Some (ZX_ERR_INVALID_ARGS, user_stored wr ptr bytes, f)
       else case Fifo_copy_out wr (ptr + m * es) (count - of_nat m)
                   (f\<lparr>f_tail := f_tail f + of_nat m\<rparr>) of
              None \<Rightarrow> None
            | Some (status, rest, f') \<Rightarrow> Some (status, bytes @ rest, f'))"
proof -
  have os: "os < unat (f_elem_count f)" using fifo_offset_less [OF assms(5)] by (simp add: os_def)
  with assms(6) show pos: "0 < m" "os + m \<le> unat (f_elem_count f)"
    by (simp_all add: m_def unat_gt_0)
  note c = fifo_chunk(1,2,4,5) [OF assms(5) os [unfolded os_def], of count]
    fifo_chunk(3) [OF assms(5) os [unfolded os_def]]
  note c = c [folded os_def es_def, folded m_def]
  have eq: "Fifo_to_copy (f_elem_count f) (f_tail f AND f_mask f) count = of_nat m"
    using arg_cong [OF c(1), of "of_nat :: nat \<Rightarrow> u64"] by simp
  note c = c [unfolded eq]
  have "of_nat m \<noteq> (0 :: u64)" using c(1) pos(1) by auto
  moreover have len: "unat (of_nat m * ucast (f_elem_size f) :: u64) = m * es" using c(1,2) by simp
  moreover have "(ucast (of_nat m :: u64) :: u32) = of_nat m" using c(1,4) by simp
  ultimately show "Fifo_copy_out wr ptr count f =
      (if \<not> user_writable wr ptr (m * es)
       then Some (ZX_ERR_INVALID_ARGS, user_stored wr ptr bytes, f)
       else case Fifo_copy_out wr (ptr + m * es) (count - of_nat m)
                   (f\<lparr>f_tail := f_tail f + of_nat m\<rparr>) of
              None \<Rightarrow> None
            | Some (status, rest, f') \<Rightarrow> Some (status, bytes @ rest, f'))"
    unfolding Fifo_copy_out.simps [of wr ptr count f] Let_def eq c(5) len bytes_def using assms(6) by simp
qed

lemma Fifo_copy_out_ok:
  fixes f :: "'o fifo"
  assumes "fifo_wf f" "unat count \<le> fifo_len f"
    "user_writable wr ptr (unat count * unat (f_elem_size f))"
  shows "let f' = f\<lparr>f_tail := f_tail f + of_nat (unat count)\<rparr> in
    Fifo_copy_out wr ptr count f = Some (ZX_OK, concat (take (unat count) (fifo_queue f)), f') \<and>
    fifo_wf f' \<and> fifo_queue f' = drop (unat count) (fifo_queue f)"
  using assms
proof (induction "unat count" arbitrary: ptr count f rule: less_induct)
  case less
  show ?case
  proof (cases "count = 0")
    case True
    with less.prems(1) show ?thesis by (simp add: Fifo_copy_out.simps)
  next
    case False
    define es m where "es = unat (f_elem_size f)"
      and "m = min (unat count) (unat (f_elem_count f) - unat (f_tail f AND f_mask f))"
    define k where "k = unat count - m"
    have km: "unat count = m + k" "unat (count - of_nat m) = k"
      by (simp_all add: k_def m_def unat_sub_of_nat)
    note step = Fifo_copy_out_step [OF less.prems(1) False, folded es_def m_def]
    have wr: "user_writable wr ptr (m * es)" "user_writable wr (ptr + m * es) (k * es)"
      using less.prems(3) by (simp_all add: km(1) add_mult_distrib user_writable_add flip: es_def)
    have m: "m \<le> fifo_len f" using less.prems(2) km(1) by simp
    define f1 where "f1 = f\<lparr>f_tail := f_tail f + of_nat m\<rparr>"
    note f1 = fifo_take_chunk [OF less.prems(1) step(2) m, folded f1_def es_def]
    have "let f' = f1\<lparr>f_tail := f_tail f1 + of_nat k\<rparr> in
      Fifo_copy_out wr (ptr + m * es) (count - of_nat m) f1 = Some (ZX_OK, concat (take k (fifo_queue f1)), f') \<and>
      fifo_wf f' \<and> fifo_queue f' = drop k (fifo_queue f1)"
      using less.hyps [of "count - of_nat m" f1 "ptr + m * es"] step(1) f1 less.prems(2) wr(2) km
      by (simp add: f1_def es_def)
    with step(3) wr(1) f1 show ?thesis
      by (simp add: Let_def f1_def [symmetric] km(1) take_add)
         (simp add: f1_def add_ac)
  qed
qed

lemma Fifo_copy_out_fault:
  fixes f :: "'o fifo"
  assumes "fifo_wf f" "unat count \<le> fifo_len f"
    "\<not> user_writable wr ptr (unat count * unat (f_elem_size f))"
  shows "\<exists>out t. Fifo_copy_out wr ptr count f = Some (ZX_ERR_INVALID_ARGS, out, f\<lparr>f_tail := t\<rparr>)"
  using assms
proof (induction "unat count" arbitrary: ptr count f rule: less_induct)
  case less
  have "count \<noteq> 0" using less.prems(3) by (auto simp: user_writable_def)
  define es m where "es = unat (f_elem_size f)"
    and "m = min (unat count) (unat (f_elem_count f) - unat (f_tail f AND f_mask f))"
  define k where "k = unat count - m"
  have km: "unat count = m + k" "unat (count - of_nat m) = k"
    by (simp_all add: k_def m_def unat_sub_of_nat)
  note step = Fifo_copy_out_step [OF less.prems(1) \<open>count \<noteq> 0\<close>, folded es_def m_def]
  have m: "m \<le> fifo_len f" using less.prems(2) km(1) by simp
  show ?case
  proof (cases "user_writable wr ptr (m * es)")
    case False
    with step(3) show ?thesis by (auto intro: exI [of _ "f_tail f"])
  next
    case True
    define f1 where "f1 = f\<lparr>f_tail := f_tail f + of_nat m\<rparr>"
    note f1 = fifo_take_chunk [OF less.prems(1) step(2) m, folded f1_def es_def]
    have "\<not> user_writable wr (ptr + m * es) (k * es)"
      using less.prems(3) True by (simp add: km(1) add_mult_distrib user_writable_add flip: es_def)
    moreover have "k \<le> fifo_len f - m" "unat (f_elem_size f1) = es"
      using less.prems(2) km(1) by (simp_all add: f1_def es_def)
    ultimately have "\<exists>out t. Fifo_copy_out wr (ptr + m * es) (count - of_nat m) f1 =
        Some (ZX_ERR_INVALID_ARGS, out, f1\<lparr>f_tail := t\<rparr>)"
      by (intro less.hyps) (use step(1) f1(1,3) km in simp_all)
    then obtain out t where "Fifo_copy_out wr (ptr + m * es) (count - of_nat m) f1 =
        Some (ZX_ERR_INVALID_ARGS, out, f1\<lparr>f_tail := t\<rparr>)" by blast
    with True step(3) show ?thesis by (auto simp: f1_def intro: exI [of _ t])
  qed
qed

section \<open>The pair as two bounded queues\<close>

text \<open>The signals of an endpoint report its queue and the room at its peer.\<close>

definition fifo_end_inv :: "side \<Rightarrow> (side \<Rightarrow> 'o fifo) \<Rightarrow> bool" where
  "fifo_end_inv s p \<longleftrightarrow>
     fifo_wf (p s) \<and>
     (bit (d_signals (p s)) 0 \<longleftrightarrow> fifo_queue (p s) \<noteq> []) \<and>
     (p_peer (p s) \<longrightarrow>
        \<not> bit (d_signals (p s)) 2 \<and>
        (bit (d_signals (p s)) 1 \<longleftrightarrow>
           length (fifo_queue (p (other s))) < unat (f_elem_count (p s))))"

definition fifo_pair_inv :: "(side \<Rightarrow> 'o fifo) \<Rightarrow> bool" where
  "fifo_pair_inv p \<longleftrightarrow>
     f_elem_count (p E1) = f_elem_count (p E0) \<and> f_elem_size (p E1) = f_elem_size (p E0) \<and>
     peers_linked p \<and> fifo_end_inv E0 p \<and> fifo_end_inv E1 p"

text \<open>What a write and a read do to a bounded queue of elements.\<close>

definition fifo_write_spec ::
  "nat \<Rightarrow> nat \<Rightarrow> user_mem \<Rightarrow> nat \<Rightarrow> nat \<Rightarrow> nat \<Rightarrow> byte list list \<Rightarrow>
   (zx_status + nat) \<times> byte list list" where
  "fifo_write_spec cap es mem elem_size ptr count q =
     (if elem_size \<noteq> es \<or> count = 0 then (Inl ZX_ERR_OUT_OF_RANGE, q)
      else if length q = cap then (Inl ZX_ERR_SHOULD_WAIT, q)
      else let n = min count (cap - length q) in
           if user_readable mem ptr (n * es)
           then (Inr n, q @ chunks es n (user_bytes mem ptr (n * es)))
           else (Inl ZX_ERR_INVALID_ARGS, q))"

definition fifo_read_spec ::
  "bool \<Rightarrow> nat \<Rightarrow> user_out \<Rightarrow> nat \<Rightarrow> nat \<Rightarrow> nat \<Rightarrow> byte list list \<Rightarrow>
   (zx_status + byte list list) \<times> byte list list" where
  "fifo_read_spec has_peer es wr elem_size ptr count q =
     (if elem_size \<noteq> es \<or> count = 0 then (Inl ZX_ERR_OUT_OF_RANGE, q)
      else if q = [] then (Inl (if has_peer then ZX_ERR_SHOULD_WAIT else ZX_ERR_PEER_CLOSED), q)
      else let n = min count (length q) in
           if user_writable wr ptr (n * es) then (Inr (take n q), drop n q)
           else (Inl ZX_ERR_INVALID_ARGS, q))"

lemma fifo_pair_inv_side:
  "fifo_pair_inv p \<longleftrightarrow>
     f_elem_count (p (other s)) = f_elem_count (p s) \<and> f_elem_size (p (other s)) = f_elem_size (p s) \<and>
     p_peer (p (other s)) = p_peer (p s) \<and> fifo_end_inv s p \<and> fifo_end_inv (other s) p"
  by (cases s) (auto simp: fifo_pair_inv_def peers_linked_def)

lemma fifo_dispatcher_fields [simp]:
  "fifo_wf (f\<lparr>d_signals := x\<rparr>) = fifo_wf f"
  "fifo_wf (f\<lparr>d_observers := os\<rparr>) = fifo_wf f"
  "fifo_wf (f\<lparr>p_peer := b\<rparr>) = fifo_wf f"
  "fifo_queue (f\<lparr>d_signals := x\<rparr>) = fifo_queue f"
  "fifo_queue (f\<lparr>d_observers := os\<rparr>) = fifo_queue f"
  "fifo_queue (f\<lparr>p_peer := b\<rparr>) = fifo_queue f"
  by (simp_all add: fifo_wf_def fifo_queue_def)

lemma Fifo_WriteSelfLocked_refines:
  fixes p :: "side \<Rightarrow> 'o fifo" and count :: u64
  assumes inv: "fifo_pair_inv p" and peer: "p_peer (p s)"
  defines "q \<equiv> fifo_queue (p s)" and "cap \<equiv> unat (f_elem_count (p s))"
    and "es \<equiv> unat (f_elem_size (p s))"
  shows "\<exists>r p' w'. Fifo_WriteSelfLocked ops mem s elem_size ptr count p w = Some (r, p', w') \<and>
    fifo_pair_inv p' \<and> fifo_queue (p' (other s)) = fifo_queue (p (other s)) \<and>
    (map_sum id unat r, fifo_queue (p' s)) = fifo_write_spec cap es mem (unat elem_size) ptr (unat count) q"
proof -
  have e: "f_elem_count (p (other s)) = f_elem_count (p s)" "f_elem_size (p (other s)) = f_elem_size (p s)"
    "p_peer (p (other s)) = p_peer (p s)" "fifo_end_inv s p" "fifo_end_inv (other s) p"
    using inv fifo_pair_inv_side [of p s] by auto
  then have wf: "fifo_wf (p s)" by (simp add: fifo_end_inv_def)
  have len: "fifo_len (p s) \<le> cap" using wf by (simp add: fifo_wf_def cap_def)
  have avail: "unat (f_elem_count (p s) - (f_head (p s) - f_tail (p s))) = cap - length q"
    using len by (simp add: unat_sub_if' cap_def q_def)
  have size: "elem_size = ucast (f_elem_size (p s)) \<longleftrightarrow> unat elem_size = es"
    by (simp add: word_unat_eq_iff es_def)
  have word: "ucast x = (0 :: u64) \<longleftrightarrow> unat x = 0" "ucast x = (ucast y :: u64) \<longleftrightarrow> unat x = unat y"
    for x y :: u32 by (simp_all add: word_unat_eq_iff)
  show ?thesis
  proof (cases "unat elem_size \<noteq> es \<or> count = 0 \<or> length q = cap")
    case True
    with inv avail show ?thesis
      by (auto simp: Fifo_WriteSelfLocked_def fifo_write_spec_def Let_def size word unat_eq_0 q_def)
  next
    case False
    define av where "av = (ucast (f_elem_count (p s) - (f_head (p s) - f_tail (p s))) :: u64)"
    define cnt where "cnt = (if count > av then av else count)"
    define n where "n = min (unat count) (cap - length q)"
    have av: "unat av = cap - length q" by (simp add: av_def avail)
    then have cnt: "unat cnt = n" by (auto simp: cnt_def n_def word_less_nat_alt)
    have fits: "fifo_len (p s) + unat cnt \<le> unat (f_elem_count (p s))"
      using len by (simp add: cnt n_def cap_def q_def)
    have empty: "av = ucast (f_elem_count (p s)) \<longleftrightarrow> q = []"
      using av len fifo_wf_bounds(1) [OF wf] by (auto simp: word_unat_eq_iff cap_def q_def fifo_queue_Nil)
    have av0: "av \<noteq> 0" using False av len by (auto simp: q_def cap_def unat_eq_0)
    note W = Fifo_WriteSelfLocked_def Let_def size av_def [symmetric] cnt_def [symmetric]
    show ?thesis
    proof (cases "user_readable mem ptr (n * es)")
      case True
      note ok = Fifo_copy_in_ok [OF wf fits, of mem ptr, unfolded cnt, folded es_def]
      from ok [OF True] obtain data where data: "let f' = (p s)\<lparr>f_data := data, f_head := f_head (p s) + of_nat n\<rparr>
        in Fifo_copy_in mem ptr cnt (p s) = Some (ZX_OK, f') \<and> fifo_wf f' \<and>
           fifo_queue f' = q @ chunks es n (user_bytes mem ptr (n * es))"
        by (auto simp: Let_def q_def)
      define f' where "f' = (p s)\<lparr>f_data := data, f_head := f_head (p s) + of_nat n\<rparr>"
      have f': "Fifo_copy_in mem ptr cnt (p s) = Some (ZX_OK, f')" "fifo_wf f'"
        "fifo_queue f' = q @ chunks es n (user_bytes mem ptr (n * es))"
        using data by (simp_all add: f'_def Let_def)
      have len': "fifo_len f' = length q + n" using arg_cong [OF f'(3), of length] by (simp add: chunks_def)
      have keep: "f_elem_count f' = f_elem_count (p s)" "f_elem_size f' = f_elem_size (p s)"
        "p_peer f' = p_peer (p s)" "d_signals f' = d_signals (p s)" "f_tail f' = f_tail (p s)"
        "unat (f_head f' - f_head (p s)) = n"
        using fits fifo_wf_bounds(3) [OF wf] by (simp_all add: f'_def cnt unat_of_nat)
      have full: "f_elem_count (p s) = f_head f' - f_tail (p s) \<longleftrightarrow> length q + n = cap"
        using len' by (auto simp: word_unat_eq_iff keep cap_def)
      have n0: "0 < n" using False len by (auto simp: n_def unat_gt_0 q_def)
      then have ne: "fifo_queue f' \<noteq> []" using len' by (simp add: fifo_queue_Nil)
      have room: "length q < cap" using False len by (simp add: q_def)
      have spec: "fifo_write_spec cap es mem (unat elem_size) ptr (unat count) q = (Inr n, fifo_queue f')"
        using False True f'(3) by (simp add: fifo_write_spec_def n_def [symmetric] unat_eq_0)
      show ?thesis
        using e False av0 f'(1,2) ne room len' n0 peer fits unfolding W fifo_pair_inv_side [of _ s] spec
        by (auto simp: fifo_end_inv_def empty full keep UpdateStateHelper_eq cnt q_def cap_def fifo_queue_Nil)
    next
      case no: False
      from Fifo_copy_in_fault [OF wf fits, of mem ptr] no obtain data h where
        "Fifo_copy_in mem ptr cnt (p s) = Some (ZX_ERR_INVALID_ARGS, (p s)\<lparr>f_data := data, f_head := h\<rparr>)"
        "fifo_wf ((p s)\<lparr>f_data := data\<rparr>)" "fifo_queue ((p s)\<lparr>f_data := data\<rparr>) = q"
        by (auto simp: cnt es_def q_def)
      with e False av0 no show ?thesis
        unfolding W fifo_pair_inv_side [of _ s]
        by (simp add: fifo_end_inv_def fifo_write_spec_def n_def q_def unat_eq_0)
    qed
  qed
qed

lemma Fifo_ReadToUser_refines:
  fixes p :: "side \<Rightarrow> 'o fifo" and count :: u64 and s :: side
  assumes inv: "fifo_pair_inv p"
  defines "q \<equiv> fifo_queue (p s)" and "es \<equiv> unat (f_elem_size (p s))"
  shows "\<exists>r out p' w'. Fifo_ReadToUser ops wr s elem_size ptr count p w = Some (r, out, p', w') \<and>
    fifo_pair_inv p' \<and> fifo_queue (p' (other s)) = fifo_queue (p (other s)) \<and>
    (case fifo_read_spec (p_peer (p s)) es wr (unat elem_size) ptr (unat count) q of
       (Inl e, q') \<Rightarrow> r = Inl e \<and> fifo_queue (p' s) = q'
     | (Inr xs, q') \<Rightarrow> r = Inr (of_nat (length xs)) \<and> out = concat xs \<and> fifo_queue (p' s) = q')"
proof -
  have e: "f_elem_count (p (other s)) = f_elem_count (p s)" "f_elem_size (p (other s)) = f_elem_size (p s)"
    "p_peer (p (other s)) = p_peer (p s)" "fifo_end_inv s p" "fifo_end_inv (other s) p"
    using inv fifo_pair_inv_side [of p s] by auto
  then have wf: "fifo_wf (p s)" by (simp add: fifo_end_inv_def)
  have len: "fifo_len (p s) \<le> unat (f_elem_count (p s))" using wf by (simp add: fifo_wf_def)
  have size: "elem_size = ucast (f_elem_size (p s)) \<longleftrightarrow> unat elem_size = es"
    by (simp add: word_unat_eq_iff es_def)
  define av where "av = (ucast (f_head (p s) - f_tail (p s)) :: u64)"
  have av: "unat av = length q" by (simp add: av_def q_def)
  have av0: "av = 0 \<longleftrightarrow> q = []" using av by (metis length_0_conv unat_eq_0)
  have was_full: "av = ucast (f_elem_count (p s)) \<longleftrightarrow> fifo_len (p s) = unat (f_elem_count (p s))"
    using av by (simp add: word_unat_eq_iff q_def)
  define cnt where "cnt = (if count > av then av else count)"
  define n where "n = min (unat count) (length q)"
  have cnt: "unat cnt = n" using av by (auto simp: cnt_def n_def word_less_nat_alt)
  have fits: "unat cnt \<le> fifo_len (p s)" by (simp add: cnt n_def q_def)
  note R = Fifo_ReadToUser_def Let_def size av_def [symmetric] cnt_def [symmetric]
  consider "unat elem_size \<noteq> es \<or> count = 0 \<or> q = []"
    | (ok) "unat elem_size = es" "count \<noteq> 0" "q \<noteq> []" "user_writable wr ptr (n * es)"
    | (fault) "unat elem_size = es" "count \<noteq> 0" "q \<noteq> []" "\<not> user_writable wr ptr (n * es)"
    by blast
  then show ?thesis
  proof cases
    case 1
    with inv show ?thesis unfolding R by (auto simp: fifo_read_spec_def unat_eq_0 av0 q_def)
  next
    case ok
    define f' where "f' = (p s)\<lparr>f_tail := f_tail (p s) + of_nat n\<rparr>"
    have f': "Fifo_copy_out wr ptr cnt (p s) = Some (ZX_OK, concat (take n q), f')" "fifo_wf f'"
      "fifo_queue f' = drop n q"
      using Fifo_copy_out_ok [OF wf fits, of wr ptr] ok(4) by (simp_all add: cnt es_def q_def f'_def Let_def)
    have len': "fifo_len f' = length q - n" using arg_cong [OF f'(3), of length] by simp
    have keep: "f_elem_count f' = f_elem_count (p s)" "f_elem_size f' = f_elem_size (p s)"
      "p_peer f' = p_peer (p s)" "d_signals f' = d_signals (p s)" "f_head f' = f_head (p s)"
      "f_tail f' - f_tail (p s) = of_nat n"
      by (simp_all add: f'_def)
    have "f_head (p s) - f_tail f' = 0 \<longleftrightarrow> length q = n"
      using len' by (simp only: keep unat_eq_0 [symmetric] n_def) auto
    then have drained: "f_head (p s) = f_tail f' \<longleftrightarrow> length q = n" by simp
    have small: "n \<le> 4096" using fits len fifo_wf_bounds(3) [OF wf] by (simp add: cnt)
    have actual: "ucast (of_nat n :: u32) = (of_nat n :: u64)"
      using small by (simp add: word_unat_eq_iff unat_of_nat)
    have n0: "0 < n" "n \<le> length q" using ok by (auto simp: n_def unat_gt_0)
    have spec: "fifo_read_spec (p_peer (p s)) es wr (unat elem_size) ptr (unat count) q = (Inr (take n q), drop n q)"
      using ok by (simp add: fifo_read_spec_def n_def [symmetric] unat_eq_0)
    show ?thesis
      using e ok av0 f'(1,2) len' n0 len unfolding R fifo_pair_inv_side [of _ s] spec
      by (auto simp: fifo_end_inv_def was_full drained keep UpdateStateHelper_eq q_def actual
          fifo_queue_Nil f'(3))
  next
    case fault
    from Fifo_copy_out_fault [OF wf fits, of wr ptr] fault(4) obtain out t where
      "Fifo_copy_out wr ptr cnt (p s) = Some (ZX_ERR_INVALID_ARGS, out, (p s)\<lparr>f_tail := t\<rparr>)"
      by (auto simp: cnt es_def)
    moreover have spec: "fifo_read_spec (p_peer (p s)) es wr (unat elem_size) ptr (unat count) q =
        (Inl ZX_ERR_INVALID_ARGS, q)"
      using fault by (simp add: fifo_read_spec_def n_def [symmetric] unat_eq_0)
    ultimately show ?thesis
      using inv fault av0 unfolding R spec by (simp add: q_def fun_upd_idem)
  qed
qed

section \<open>Creation and closing\<close>

lemma Fifo_Create_guard:
  fixes count elemsize :: u64
  assumes "\<not> (count = 0 \<or> elemsize = 0 \<or> count AND (count - 1) \<noteq> 0 \<or>
         count > Fifo_kMaxSizeBytes \<or> elemsize > Fifo_kMaxSizeBytes \<or>
         count * elemsize > Fifo_kMaxSizeBytes)"
  shows "unat (ucast count :: u32) = unat count" "unat (ucast elemsize :: u32) = unat elemsize"
    "unat (count * elemsize) = unat count * unat elemsize" "unat count * unat elemsize \<le> 4096"
    "(ucast count :: u32) AND (ucast count - 1) = 0"
proof -
  have le: "unat count \<le> 4096" "unat elemsize \<le> 4096" "unat (count * elemsize) \<le> 4096"
    using assms by (auto simp: Fifo_kMaxSizeBytes_def word_less_nat_alt)
  show uc: "unat (ucast count :: u32) = unat count" "unat (ucast elemsize :: u32) = unat elemsize"
    using le by (simp_all add: unsigned_ucast_eq take_bit_nat_eq_self)
  have "unat count * unat elemsize \<le> 4096 * 4096" using le by (intro mult_le_mono)
  then show eq: "unat (count * elemsize) = unat count * unat elemsize"
    by (simp add: unat_word_ariths(2))
  with le(3) show "unat count * unat elemsize \<le> 4096" by simp
  have nz: "count \<noteq> 0" "count AND (count - 1) = 0" using assms by auto
  then have "unat count AND (unat count - 1) = 0" using unat_and_pred [of count] by simp
  moreover have "(ucast count :: u32) \<noteq> 0" using nz(1) uc(1) by (metis unat_eq_0)
  ultimately have "unat ((ucast count :: u32) AND (ucast count - 1)) = 0"
    using unat_and_pred [of "ucast count :: u32"] uc(1) by simp
  then show "(ucast count :: u32) AND (ucast count - 1) = 0" by (simp only: unat_eq_0)
qed

interpretation fifo_peered: peered_class
  Fifo_on_zero_handles_locked "Fifo_OnPeerZeroHandlesLocked ops"
  by unfold_locales
     (auto simp: Fifo_on_zero_handles_locked_def Fifo_OnPeerZeroHandlesLocked_def UpdateStateHelper_eq)

lemma Fifo_Create_range_iff:
  fixes count elemsize :: u64
  shows "(count = 0 \<or> elemsize = 0 \<or> count AND (count - 1) \<noteq> 0 \<or>
         count > Fifo_kMaxSizeBytes \<or> elemsize > Fifo_kMaxSizeBytes \<or>
         count * elemsize > Fifo_kMaxSizeBytes) \<longleftrightarrow>
       \<not> ((\<exists>k. unat count = 2 ^ k) \<and> 0 < unat elemsize \<and> unat count * unat elemsize \<le> 4096)"
    (is "?guard \<longleftrightarrow> \<not> ?good")
proof
  show "?guard \<Longrightarrow> \<not> ?good"
  proof
    assume g: ?guard and good: ?good
    from good obtain k where k: "unat count = 2 ^ k" by blast
    from k have nz: "count \<noteq> 0" by (metis power_not_zero unat_0 zero_neq_numeral)
    have "unat (count AND (count - 1)) = 0"
      using unat_and_pred [OF nz] nat_power_and_pred [of k] by (simp only: k)
    then have "count AND (count - 1) = 0" by (simp only: unat_eq_0)
    moreover have "unat count * 1 \<le> unat count * unat elemsize" "1 * unat elemsize \<le> unat count * unat elemsize"
      using good k by (intro mult_le_mono; simp)+
    then have "unat count \<le> 4096" "unat elemsize \<le> 4096" using good by linarith+
    moreover have "unat (count * elemsize) \<le> 4096"
      using good by (simp add: unat_word_ariths(2))
    ultimately show False
      using g nz good by (auto simp: Fifo_kMaxSizeBytes_def word_less_nat_alt)
  qed
  show "\<not> ?good \<Longrightarrow> ?guard"
  proof (rule ccontr)
    assume bad: "\<not> ?good" and ng: "\<not> ?guard"
    from ng have "count \<noteq> 0" "count AND (count - 1) = 0" "elemsize \<noteq> 0" by auto
    with bad Fifo_Create_guard(4) [OF ng] word_and_pred_power [of count] show False
      by (simp add: unat_gt_0)
  qed
qed

definition fifo_example :: "side \<Rightarrow> unit fifo" where
  "fifo_example = projr (fst (Fifo_Create (\<lambda>_. True) (\<lambda>_ _. 0) 2 1 1024))"

lemma fifo_example_inv: "fifo_pair_inv fifo_example"
  by code_simp

lemma fifo_example_peer: "p_peer (fifo_example E0)"
  by code_simp

section \<open>Properties\<close>

text \<open>\<open>FifoDispatcher::Create\<close> rejects exactly the geometries that are not a power-of-two number of
  non-empty elements of at most 4096 bytes in all, as natural numbers: the 64-bit product in
  the guard cannot wrap around past it.\<close>

theorem Fifo_Create_range:
  "fst (Fifo_Create ac uninit count elemsize g :: (zx_status + (side \<Rightarrow> 'o fifo)) \<times> zx_koid) = Inl ZX_ERR_OUT_OF_RANGE \<longleftrightarrow>
     \<not> ((\<exists>k. unat count = 2 ^ k) \<and> 0 < unat elemsize \<and> unat count * unat elemsize \<le> 4096)"
  unfolding Fifo_Create_range_iff [symmetric] 
  by (simp add: Fifo_Create_def Fifo_new_def GenerateKernelObjectId_def Let_def)

text \<open>A successful \<open>Create\<close> gives two empty, mutually linked endpoints that satisfy the pair
  invariant, with the requested geometry.\<close>

theorem Fifo_Create_ok:
  fixes p :: "side \<Rightarrow> 'o fifo"
  assumes "fst (Fifo_Create ac uninit count elemsize g) = Inr p"
  shows "fifo_pair_inv p \<and> p_peer (p s) \<and> p_peer_koid (p s) = d_koid (p (other s)) \<and>
    fifo_queue (p s) = [] \<and> unat (f_elem_count (p s)) = unat count \<and> unat (f_elem_size (p s)) = unat elemsize"
proof -
  have ng: "\<not> (count = 0 \<or> elemsize = 0 \<or> count AND (count - 1) \<noteq> 0 \<or>
         count > Fifo_kMaxSizeBytes \<or> elemsize > Fifo_kMaxSizeBytes \<or>
         count * elemsize > Fifo_kMaxSizeBytes)"
    using assms by (intro notI) (simp add: Fifo_Create_def)
  note c = Fifo_Create_guard [OF ng]
  have nz: "(ucast count :: u32) \<noteq> 0" "(ucast elemsize :: u32) \<noteq> 0"
    using ng c(1,2) by (metis unat_eq_0)+
  have eqs: "f_elem_count (p t) = ucast count" "f_elem_size (p t) = ucast elemsize"
    "f_mask (p t) = ucast count - 1" "f_head (p t) = 0" "f_tail (p t) = 0" "p_peer (p t)"
    "length (f_data (p t)) = unat count * unat elemsize" "d_signals (p t) = ZX_FIFO_WRITABLE"
    "p_peer_koid (p t) = d_koid (p (other t))" for t
    using assms c(3) by (auto simp: Fifo_Create_def Fifo_new_def Fifo_Init_def GenerateKernelObjectId_def
        Let_def split: if_splits side.splits)
  have "fifo_wf (p t)" "fifo_queue (p t) = []" for t
    using c(1,2,4,5) nz by (simp_all add: fifo_wf_def eqs fifo_queue_Nil)
  then show ?thesis
    using nz ng c(1,2) by (auto simp: fifo_pair_inv_def fifo_end_inv_def peers_linked_def eqs unat_gt_0)
qed

theorem Fifo_Create_ok_witness:
  "fst (Fifo_Create (\<lambda>_. True) (\<lambda>_ _. 0) 2 1 1024) = Inr fifo_example \<and> fifo_pair_inv fifo_example"
proof -
  have eq: "fst (Fifo_Create (\<lambda>_. True) (\<lambda>_ _. 0) 2 1 1024) = Inr fifo_example"
    by (simp add: fifo_example_def Fifo_Create_def Fifo_kMaxSizeBytes_def Fifo_new_def
        GenerateKernelObjectId_def Let_def)
  with Fifo_Create_ok [OF eq, of E0] show ?thesis by simp
qed

text \<open>C11. \<open>FifoDispatcher::WriteFromUser\<close> on a connected endpoint always returns, keeps the pair
  invariant, leaves its own queue alone, and does to the queue of its peer exactly what a
  bounded queue prescribes: it rejects a wrong element size or an empty request, waits when the
  queue is full, appends as many whole elements as fit, and changes nothing when the user
  memory faults, also when the fault hits the second chunk after a wrap-around.\<close>

theorem Fifo_WriteFromUser_correct:
  fixes p :: "side \<Rightarrow> 'o fifo"
  assumes "fifo_pair_inv p" "p_peer (p s)"
  shows "\<exists>r p' w'. Fifo_WriteFromUser ops mem s elem_size ptr count p w = Some (r, p', w') \<and>
    fifo_pair_inv p' \<and> fifo_queue (p' s) = fifo_queue (p s) \<and>
    (map_sum id unat r, fifo_queue (p' (other s))) =
      fifo_write_spec (unat (f_elem_count (p (other s)))) (unat (f_elem_size (p (other s)))) mem
        (unat elem_size) ptr (unat count) (fifo_queue (p (other s)))"
proof -
  have "p_peer (p (other s))" using assms by (simp add: fifo_pair_inv_side [of _ s])
  with Fifo_WriteSelfLocked_refines [OF assms(1), of "other s"] assms(2) show ?thesis
    by (simp add: Fifo_WriteFromUser_def)
qed

theorem Fifo_WriteFromUser_correct_witness:
  "\<exists>p' w'. Fifo_WriteFromUser idle_observer_ops (mem_of [7, 8, 9]) E0 1 0 3 fifo_example () =
     Some (Inr 2, p', w') \<and> fifo_pair_inv p' \<and> fifo_queue (p' E1) = [[7], [8]]"
proof -
  have spec: "fifo_write_spec (unat (f_elem_count (fifo_example E1))) (unat (f_elem_size (fifo_example E1)))
      (mem_of [7, 8, 9]) (unat (1 :: u64)) 0 (unat (3 :: u64)) (fifo_queue (fifo_example E1)) =
      (Inr 2, [[7], [8]])"
    by code_simp
  have r: "map_sum id unat r = Inr 2 \<Longrightarrow> r = (Inr 2 :: zx_status + u64)" for r
    by (cases r) (auto simp: word_unat_eq_iff)
  show ?thesis
    using Fifo_WriteFromUser_correct [OF fifo_example_inv fifo_example_peer, of idle_observer_ops
        "mem_of [7, 8, 9]" 1 0 3 "()"] unfolding other.simps spec by (auto dest: r)
qed

text \<open>C13. \<open>FifoDispatcher::ReadToUser\<close> always returns, keeps the pair invariant and the peer's
  queue, and takes from the front of its own queue what a bounded queue prescribes: the
  elements reach the user buffer in order, an empty queue reports whether the peer is still
  there, and a fault of the user buffer leaves the queue as it was.\<close>

theorem Fifo_ReadToUser_correct:
  fixes p :: "side \<Rightarrow> 'o fifo"
  assumes "fifo_pair_inv p"
  shows "\<exists>r out p' w'. Fifo_ReadToUser ops wr s elem_size ptr count p w = Some (r, out, p', w') \<and>
    fifo_pair_inv p' \<and> fifo_queue (p' (other s)) = fifo_queue (p (other s)) \<and>
    (case fifo_read_spec (p_peer (p s)) (unat (f_elem_size (p s))) wr (unat elem_size) ptr (unat count)
            (fifo_queue (p s)) of
       (Inl e, q') \<Rightarrow> r = Inl e \<and> fifo_queue (p' s) = q'
     | (Inr xs, q') \<Rightarrow> r = Inr (of_nat (length xs)) \<and> out = concat xs \<and> fifo_queue (p' s) = q')"
  by (rule Fifo_ReadToUser_refines [OF assms])

theorem Fifo_ReadToUser_correct_witness:
  "\<exists>r out p' w'. Fifo_ReadToUser idle_observer_ops (\<lambda>_. True) E0 1 0 3 fifo_example () =
     Some (Inl ZX_ERR_SHOULD_WAIT, out, p', w') \<and> fifo_queue (p' E0) = []"
proof -
  have spec: "fifo_read_spec (p_peer (fifo_example E0)) (unat (f_elem_size (fifo_example E0))) (\<lambda>_. True)
      (unat (1 :: u64)) 0 (unat (3 :: u64)) (fifo_queue (fifo_example E0)) = (Inl ZX_ERR_SHOULD_WAIT, [])"
    by code_simp
  show ?thesis
    using Fifo_ReadToUser_correct [OF fifo_example_inv, of idle_observer_ops "\<lambda>_. True" E0 1 0 3 "()"]
    unfolding spec by auto
qed

text \<open>When the last handle of an endpoint closes, its peer keeps what was queued for it, is
  marked \<open>PEER_CLOSED\<close> and loses \<open>WRITABLE\<close>; both endpoints are unlinked and keep the invariant.\<close>

theorem Fifo_on_zero_handles_correct:
  fixes p :: "side \<Rightarrow> 'o fifo"
  assumes "fifo_pair_inv p" "p_peer (p s)" "Fifo_on_zero_handles ops s p w = (p', w')"
  shows "fifo_pair_inv p' \<and> \<not> p_peer (p' t) \<and> fifo_queue (p' t) = fifo_queue (p t) \<and>
    bit (d_signals (p' (other s))) 2 \<and> \<not> bit (d_signals (p' (other s))) 1"
proof -
  have "peers_linked p" using assms(1) by (simp add: fifo_pair_inv_def)
  then have closed: "\<not> p_peer (p' t)" for t
    using fifo_peered.on_zero_handles_closes [of p ops s w t] assms(3)
    by (simp add: Fifo_on_zero_handles_def)
  define obs where "obs = updated_observers ops ZX_FIFO_WRITABLE ZX_FIFO_PEER_CLOSED
    (d_signals (p (other s))) (d_observers (p (other s))) w"
  have p': "p' = p(s := (p s)\<lparr>p_peer := False\<rparr>,
     other s := (p (other s))\<lparr>p_peer := False,
       d_signals := new_signals ZX_FIFO_WRITABLE ZX_FIFO_PEER_CLOSED (d_signals (p (other s))),
       d_observers := obs\<rparr>)"
    using assms(2,3) by (auto simp: Fifo_on_zero_handles_def Peered_on_zero_handles_def
        Fifo_on_zero_handles_locked_def Fifo_OnPeerZeroHandlesLocked_def UpdateStateHelper_eq obs_def)
  have "fifo_pair_inv p'"
    using assms(1) unfolding fifo_pair_inv_side [of _ s] by (simp add: fifo_end_inv_def p')
  moreover have "fifo_queue (p' t) = fifo_queue (p t)"
    using side_cases [of t s] by (auto simp: p')
  ultimately show ?thesis using closed by (simp add: p')
qed

theorem Fifo_on_zero_handles_correct_witness:
  "bit (d_signals (fst (Fifo_on_zero_handles idle_observer_ops E0 fifo_example ()) E1)) 2"
proof -
  obtain p' w' where eq: "Fifo_on_zero_handles idle_observer_ops E0 fifo_example () = (p', w')"
    by (rule prod.exhaust)
  show ?thesis
    using Fifo_on_zero_handles_correct [OF fifo_example_inv fifo_example_peer eq] by (simp add: eq)
qed

end
