(* ===== verification/Zx_Mbuf.thy ===== *)
theory Zx_Mbuf
  imports Zx_Prelude
begin

text \<open>
  The byte store of a socket endpoint, \<^verbatim>\<open>kernel/object/mbuf.cpp\<close>: a chain of fixed-size buffers
  with a free list, read and written either as a byte stream or as a sequence of datagrams.

  A buffer carries its address, so that the pointer \<open>head_\<close> and its comparisons are modelled as
  addresses; \<open>c_next\<close> is the next address the allocator hands out, and the argument \<open>ac\<close> tells
  for which addresses the allocation succeeds. Sizes are natural numbers: the invariant
  \<open>chain_wf\<close> bounds them by \<open>kSizeMax\<close>, far below the 32-bit fields, and shows that no subtraction
  goes below zero.
\<close>

section \<open>State\<close>

definition kHeaderSize :: nat where
  "kHeaderSize = 8 + 4 * 4"

definition kMallocSize :: nat where
  "kMallocSize = 2048 - 16"

definition kPayloadSize :: nat where
  "kPayloadSize = kMallocSize - kHeaderSize"

definition kSizeMax :: nat where
  "kSizeMax = 128 * kPayloadSize"

record mbuf =
  mb_addr :: nat
  mb_off :: nat
  mb_len :: nat
  mb_pkt_len :: nat
  mb_data :: "byte list"

record mbufchain =
  c_freelist :: "mbuf list"
  c_tail :: "mbuf list"
  c_head :: "nat option"
  c_size :: nat
  c_next :: nat

definition MBufChain_new :: mbufchain where
  "MBufChain_new = \<lparr>c_freelist = [], c_tail = [], c_head = None, c_size = 0, c_next = 0\<rparr>"

definition MBuf_new :: "nat \<Rightarrow> mbuf" where
  "MBuf_new a = \<lparr>mb_addr = a, mb_off = 0, mb_len = 0, mb_pkt_len = 0, mb_data = replicate kPayloadSize 0\<rparr>"

definition MBuf_rem :: "mbuf \<Rightarrow> nat" where
  "MBuf_rem b = kPayloadSize - (mb_off b + mb_len b)"

definition MBufChain_is_full :: "mbufchain \<Rightarrow> bool" where
  "MBufChain_is_full c \<longleftrightarrow> c_size c \<ge> kSizeMax"

definition MBufChain_is_empty :: "mbufchain \<Rightarrow> bool" where
  "MBufChain_is_empty c \<longleftrightarrow> c_size c = 0"

definition MBufChain_size :: "bool \<Rightarrow> mbufchain \<Rightarrow> nat" where
  "MBufChain_size datagram c =
     (if datagram \<and> c_size c \<noteq> 0 then mb_pkt_len (hd (c_tail c)) else c_size c)"

definition MBufChain_max_size :: nat where
  "MBufChain_max_size = kSizeMax"

section \<open>The free list\<close>

definition AllocMBuf :: "(nat \<Rightarrow> bool) \<Rightarrow> mbufchain \<Rightarrow> mbuf option \<times> mbufchain" where
  "AllocMBuf ac c =
     (case c_freelist c of
        [] \<Rightarrow> if ac (c_next c) then (Some (MBuf_new (c_next c)), c\<lparr>c_next := c_next c + 1\<rparr>)
              else (None, c)
      | b # bs \<Rightarrow> (Some b, c\<lparr>c_freelist := bs\<rparr>))"

definition FreeMBuf :: "mbuf \<Rightarrow> mbufchain \<Rightarrow> mbufchain" where
  "FreeMBuf b c = c\<lparr>c_freelist := b\<lparr>mb_off := 0, mb_len := 0\<rparr> # c_freelist c\<rparr>"

fun FreeMBufs :: "mbuf list \<Rightarrow> mbufchain \<Rightarrow> mbufchain" where
  "FreeMBufs [] c = c"
| "FreeMBufs (b # bs) c = FreeMBufs bs (FreeMBuf b c)"

text \<open>\<open>MBufChain_pop_front\<close> is the sequence both loops of \<open>ReadHelper\<close> end with: unlink the front
  buffer, forget it if it is the one being written, and recycle it.\<close>

definition MBufChain_pop_front :: "mbufchain \<Rightarrow> mbufchain" where
  "MBufChain_pop_front c =
     (let b = hd (c_tail c);
          c1 = c\<lparr>c_size := c_size c - mb_len b\<rparr>;
          c2 = (if c_head c1 = Some (mb_addr b) then c1\<lparr>c_head := None\<rparr> else c1) in
      FreeMBuf b (c2\<lparr>c_tail := tl (c_tail c2)\<rparr>))"

lemma c_tail_pop_front [simp]: "c_tail (MBufChain_pop_front c) = tl (c_tail c)"
  by (simp add: MBufChain_pop_front_def FreeMBuf_def Let_def)

section \<open>Reading\<close>

text \<open>The loop of \<open>ReadHelper\<close> when it consumes. The result says whether the loop ran to its end
  (a fault of the user buffer returns at once), the position, and the bytes stored.\<close>

function MBuf_read_loop ::
  "user_out \<Rightarrow> nat \<Rightarrow> nat \<Rightarrow> bool \<Rightarrow> nat \<Rightarrow> mbufchain \<Rightarrow> bool \<times> nat \<times> byte list \<times> mbufchain" where
  "MBuf_read_loop wr dst len datagram pos c =
     (case c_tail c of
        [] \<Rightarrow> (True, pos, [], c)
      | b # rest \<Rightarrow>
          if \<not> pos < len then (True, pos, [], c)
          else
            let copy_len = min (mb_len b) (len - pos);
                src = take copy_len (drop (mb_off b) (mb_data b)) in
            if \<not> user_writable wr (dst + pos) copy_len
            then (False, pos, user_stored wr (dst + pos) src, c)
            else
              let b1 = b\<lparr>mb_off := mb_off b + copy_len, mb_len := mb_len b - copy_len\<rparr>;
                  c1 = c\<lparr>c_tail := b1 # rest, c_size := c_size c - copy_len\<rparr>;
                  c2 = (if mb_len b1 = 0 \<or> datagram then MBufChain_pop_front c1 else c1);
                  (done, p, out, c3) = MBuf_read_loop wr dst len datagram (pos + copy_len) c2 in
              (done, p, src @ out, c3))"
  by pat_completeness auto
termination
  by (relation "measures [\<lambda>(wr, dst, len, dg, pos, c). length (c_tail c), \<lambda>(wr, dst, len, dg, pos, c). len - pos]")
     auto

declare MBuf_read_loop.simps [simp del]

text \<open>Draining the body buffers of a datagram.\<close>

function MBuf_drain :: "mbufchain \<Rightarrow> mbufchain" where
  "MBuf_drain c =
     (if c_tail c \<noteq> [] \<and> mb_pkt_len (hd (c_tail c)) = 0 then MBuf_drain (MBufChain_pop_front c) else c)"
  by pat_completeness auto
termination
  by (relation "measure (\<lambda>c. length (c_tail c))") auto

declare MBuf_drain.simps [simp del]

definition MBuf_clip :: "bool \<Rightarrow> nat \<Rightarrow> mbufchain \<Rightarrow> nat" where
  "MBuf_clip datagram len c =
     (if datagram \<and> len > mb_pkt_len (hd (c_tail c)) then mb_pkt_len (hd (c_tail c)) else len)"

definition MBufChain_Read ::
  "user_out \<Rightarrow> nat \<Rightarrow> nat \<Rightarrow> bool \<Rightarrow> mbufchain \<Rightarrow> nat \<times> byte list \<times> mbufchain" where
  "MBufChain_Read wr dst len datagram c =
     (if c_size c = 0 then (0, [], c)
      else
        let (done, pos, out, c1) = MBuf_read_loop wr dst (MBuf_clip datagram len c) datagram 0 c in
        (pos, out, if done \<and> datagram then MBuf_drain c1 else c1))"

text \<open>The same loop on a constant chain moves the iterator instead.\<close>

fun MBuf_peek_loop ::
  "user_out \<Rightarrow> nat \<Rightarrow> nat \<Rightarrow> nat \<Rightarrow> mbuf list \<Rightarrow> nat \<times> byte list" where
  "MBuf_peek_loop wr dst len pos [] = (pos, [])"
| "MBuf_peek_loop wr dst len pos (b # bs) =
     (if \<not> pos < len then (pos, [])
      else
        let copy_len = min (mb_len b) (len - pos);
            src = take copy_len (drop (mb_off b) (mb_data b)) in
        if \<not> user_writable wr (dst + pos) copy_len then (pos, user_stored wr (dst + pos) src)
        else let (p, out) = MBuf_peek_loop wr dst len (pos + copy_len) bs in (p, src @ out))"

definition MBufChain_Peek :: "user_out \<Rightarrow> nat \<Rightarrow> nat \<Rightarrow> bool \<Rightarrow> mbufchain \<Rightarrow> nat \<times> byte list" where
  "MBufChain_Peek wr dst len datagram c =
     (if c_size c = 0 then (0, [])
      else MBuf_peek_loop wr dst (MBuf_clip datagram len c) 0 (c_tail c))"

section \<open>Writing\<close>

text \<open>\<open>tail_.insert_after\<close> at the buffer with the given address.\<close>

fun MBuf_insert_after :: "nat \<Rightarrow> mbuf \<Rightarrow> mbuf list \<Rightarrow> mbuf list" where
  "MBuf_insert_after a x [] = []"
| "MBuf_insert_after a x (b # bs) =
     (if mb_addr b = a then b # x # bs else b # MBuf_insert_after a x bs)"

fun MBuf_update :: "nat \<Rightarrow> (mbuf \<Rightarrow> mbuf) \<Rightarrow> mbuf list \<Rightarrow> mbuf list" where
  "MBuf_update a f [] = []"
| "MBuf_update a f (b # bs) = (if mb_addr b = a then f b # bs else b # MBuf_update a f bs)"

definition MBufChain_link :: "mbuf \<Rightarrow> mbufchain \<Rightarrow> mbufchain" where
  "MBufChain_link b c =
     c\<lparr>c_tail := (case c_head c of
                   None \<Rightarrow> b # c_tail c
                 | Some a \<Rightarrow> MBuf_insert_after a b (c_tail c)),
       c_head := Some (mb_addr b)\<rparr>"

fun MBuf_alloc_bufs :: "(nat \<Rightarrow> bool) \<Rightarrow> nat \<Rightarrow> mbuf list \<Rightarrow> mbufchain \<Rightarrow> mbuf list option \<times> mbufchain" where
  "MBuf_alloc_bufs ac 0 bufs c = (Some bufs, c)"
| "MBuf_alloc_bufs ac (Suc need) bufs c =
     (case AllocMBuf ac c of
        (None, c') \<Rightarrow> (None, FreeMBufs bufs c')
      | (Some b, c') \<Rightarrow> MBuf_alloc_bufs ac need (b # bufs) c')"

text \<open>Filling the buffers from user memory: the buffers as they are left, and whether all copies
  succeeded.\<close>

fun MBuf_fill :: "user_mem \<Rightarrow> nat \<Rightarrow> nat \<Rightarrow> nat \<Rightarrow> mbuf list \<Rightarrow> bool \<times> mbuf list" where
  "MBuf_fill mem src len pos [] = (True, [])"
| "MBuf_fill mem src len pos (b # bs) =
     (let copy_len = min kPayloadSize (len - pos);
          b1 = b\<lparr>mb_data := overwrite (mb_data b) 0 (user_bytes mem (src + pos) copy_len)\<rparr> in
      if \<not> user_readable mem (src + pos) copy_len then (False, b1 # bs)
      else let (ok, bs') = MBuf_fill mem src len (pos + copy_len) bs in
           (ok, b1\<lparr>mb_len := mb_len b1 + copy_len\<rparr> # bs'))"

definition WriteDatagram ::
  "(nat \<Rightarrow> bool) \<Rightarrow> user_mem \<Rightarrow> nat \<Rightarrow> nat \<Rightarrow> mbufchain \<Rightarrow> (zx_status + nat) \<times> mbufchain" where
  "WriteDatagram ac mem src len c =
     (if len = 0 then (Inl ZX_ERR_INVALID_ARGS, c)
      else if len > kSizeMax then (Inl ZX_ERR_OUT_OF_RANGE, c)
      else if len + c_size c > kSizeMax then (Inl ZX_ERR_SHOULD_WAIT, c)
      else
        case MBuf_alloc_bufs ac (1 + (len - 1) div kPayloadSize) [] c of
          (None, c1) \<Rightarrow> (Inl ZX_ERR_SHOULD_WAIT, c1)
        | (Some bufs, c1) \<Rightarrow>
            case MBuf_fill mem src len 0 bufs of
              (False, bufs1) \<Rightarrow> (Inl ZX_ERR_INVALID_ARGS, FreeMBufs bufs1 c1)
            | (True, bufs1) \<Rightarrow>
                let bufs2 = (hd bufs1)\<lparr>mb_pkt_len := len\<rparr> # tl bufs1;
                    c2 = fold MBufChain_link bufs2 c1 in
                (Inr len, c2\<lparr>c_size := c_size c2 + len\<rparr>))"

text \<open>The loop of \<open>WriteStream\<close>. Each iteration writes into the buffer \<open>head_\<close> points to, after
  linking a fresh one if it is full.\<close>

definition MBuf_head :: "mbufchain \<Rightarrow> mbuf" where
  "MBuf_head c = hd (filter (\<lambda>b. Some (mb_addr b) = c_head c) (c_tail c))"

definition MBuf_stream_room :: "(nat \<Rightarrow> bool) \<Rightarrow> mbufchain \<Rightarrow> mbufchain option \<times> mbufchain" where
  "MBuf_stream_room ac c =
     (if MBuf_rem (MBuf_head c) = 0
      then case AllocMBuf ac c of
             (None, c') \<Rightarrow> (None, c')
           | (Some b, c') \<Rightarrow> (Some (MBufChain_link b c'), c')
      else (Some c, c))"

definition MBuf_append :: "nat \<Rightarrow> byte list \<Rightarrow> nat \<Rightarrow> mbufchain \<Rightarrow> mbufchain" where
  "MBuf_append a bs n c =
     c\<lparr>c_tail := MBuf_update a (\<lambda>b. b\<lparr>mb_data := overwrite (mb_data b) (mb_off b + mb_len b) bs,
                                        mb_len := mb_len b + n\<rparr>) (c_tail c),
       c_size := c_size c + n\<rparr>"

function WriteStream_loop ::
  "(nat \<Rightarrow> bool) \<Rightarrow> user_mem \<Rightarrow> nat \<Rightarrow> nat \<Rightarrow> nat \<Rightarrow> mbufchain \<Rightarrow> (nat \<times> mbufchain) option" where
  "WriteStream_loop ac mem src len pos c =
     (if \<not> pos < len then Some (pos, c)
      else
        case MBuf_stream_room ac c of
          (None, c') \<Rightarrow> Some (pos, c')
        | (Some c1, _) \<Rightarrow>
            let rem = MBuf_rem (MBuf_head c1);
                copy_len0 = min rem (len - pos);
                copy_len = (if c_size c1 + copy_len0 > kSizeMax then kSizeMax - c_size c1 else copy_len0);
                a = mb_addr (MBuf_head c1) in
            if c_size c1 + copy_len0 > kSizeMax \<and> copy_len = 0 then Some (pos, c1)
            else if \<not> user_readable mem (src + pos) copy_len
            then Some (pos, MBuf_append a (user_bytes mem (src + pos) copy_len) 0 c1)
            else if copy_len = 0 then None
            else WriteStream_loop ac mem src len (pos + copy_len)
                   (MBuf_append a (user_bytes mem (src + pos) copy_len) copy_len c1))"
  by pat_completeness auto
termination
  by (relation "measure (\<lambda>(ac, mem, src, len, pos, c). len - pos)") (auto simp: Let_def)

declare WriteStream_loop.simps [simp del]

definition WriteStream ::
  "(nat \<Rightarrow> bool) \<Rightarrow> user_mem \<Rightarrow> nat \<Rightarrow> nat \<Rightarrow> mbufchain \<Rightarrow> ((zx_status + nat) \<times> mbufchain) option" where
  "WriteStream ac mem src len c =
     (let (ready, c1) =
            (if c_head c = None
             then case AllocMBuf ac c of
                    (None, c') \<Rightarrow> (False, c')
                  | (Some b, c') \<Rightarrow> (True, c'\<lparr>c_tail := b # c_tail c', c_head := Some (mb_addr b)\<rparr>)
             else (True, c)) in
      if \<not> ready then Some (Inl ZX_ERR_SHOULD_WAIT, c1)
      else
        case WriteStream_loop ac mem src len 0 c1 of
          None \<Rightarrow> None
        | Some (pos, c2) \<Rightarrow> Some (if pos = 0 then Inl ZX_ERR_SHOULD_WAIT else Inr pos, c2))"

section \<open>The invariant\<close>

definition mbuf_ok :: "mbuf \<Rightarrow> bool" where
  "mbuf_ok b \<longleftrightarrow> mb_off b + mb_len b \<le> kPayloadSize \<and> length (mb_data b) = kPayloadSize"

definition mbuf_bytes :: "mbuf \<Rightarrow> byte list" where
  "mbuf_bytes b = take (mb_len b) (drop (mb_off b) (mb_data b))"

abbreviation bufs_len :: "mbuf list \<Rightarrow> nat" where
  "bufs_len bs \<equiv> sum_list (map mb_len bs)"

abbreviation bufs_bytes :: "mbuf list \<Rightarrow> byte list" where
  "bufs_bytes bs \<equiv> concat (map mbuf_bytes bs)"

text \<open>The structure of a chain from which the buffers \<open>hs\<close> are held outside, and the accounting
  of its size.\<close>

definition chain_struct :: "mbuf list \<Rightarrow> mbufchain \<Rightarrow> bool" where
  "chain_struct hs c \<longleftrightarrow>
     list_all mbuf_ok (c_tail c @ c_freelist c @ hs) \<and>
     list_all (\<lambda>b. mb_off b = 0 \<and> mb_len b = 0) (c_freelist c) \<and>
     distinct (map mb_addr (c_tail c @ c_freelist c @ hs)) \<and>
     list_all (\<lambda>b. mb_addr b < c_next c) (c_tail c @ c_freelist c @ hs) \<and>
     c_head c = (if c_tail c = [] then None else Some (mb_addr (last (c_tail c))))"

definition chain_wf :: "mbufchain \<Rightarrow> bool" where
  "chain_wf c \<longleftrightarrow> chain_struct [] c \<and> c_size c = bufs_len (c_tail c) \<and> c_size c \<le> kSizeMax"

definition chain_bytes :: "mbufchain \<Rightarrow> byte list" where
  "chain_bytes c = bufs_bytes (c_tail c)"

lemma length_mbuf_bytes [simp]: "mbuf_ok b \<Longrightarrow> length (mbuf_bytes b) = mb_len b"
  by (auto simp: mbuf_ok_def mbuf_bytes_def)

lemma length_bufs_bytes: "list_all mbuf_ok bs \<Longrightarrow> length (bufs_bytes bs) = bufs_len bs"
  by (induction bs) auto

lemma chain_wf_bytes: "chain_wf c \<Longrightarrow> length (chain_bytes c) = c_size c"
  by (simp add: chain_wf_def chain_struct_def chain_bytes_def length_bufs_bytes)

lemma kPayloadSize_pos [simp]: "0 < kPayloadSize"
  by (simp add: kPayloadSize_def kMallocSize_def kHeaderSize_def)

lemma kPayloadSize_one [simp]: "Suc 0 \<le> kPayloadSize" "min kPayloadSize (Suc 0) = Suc 0"
  by (simp_all add: kPayloadSize_def kMallocSize_def kHeaderSize_def)

lemma chain_struct_free:
  "chain_struct (b # hs) c \<Longrightarrow> chain_struct hs (FreeMBuf b c)"
  by (auto simp: chain_struct_def FreeMBuf_def mbuf_ok_def)

lemma chain_struct_free_list:
  "chain_struct (bs @ hs) c \<Longrightarrow> chain_struct hs (FreeMBufs bs c)"
  by (induction bs arbitrary: c) (auto dest: chain_struct_free)

lemma FreeMBufs_tail [simp]:
  "c_tail (FreeMBufs bs c) = c_tail c" "c_size (FreeMBufs bs c) = c_size c"
  by (induction bs arbitrary: c) (auto simp: FreeMBuf_def)

lemma chain_struct_pop:
  assumes "chain_struct hs c" "c_tail c \<noteq> []"
  shows "chain_struct hs (MBufChain_pop_front c)"
proof -
  obtain b rest where t: "c_tail c = b # rest" using assms(2) by (cases "c_tail c") auto
  have "c_head c = Some (mb_addr b) \<longleftrightarrow> rest = []"
    using assms(1) by (cases rest rule: rev_cases) (auto simp: chain_struct_def t)
  with assms(1) show ?thesis
    by (auto simp: chain_struct_def MBufChain_pop_front_def FreeMBuf_def Let_def t mbuf_ok_def)
qed

lemma chain_wf_pop:
  assumes "chain_wf c" "c_tail c \<noteq> []"
  shows "chain_wf (MBufChain_pop_front c)"
  using chain_struct_pop [of "[]" c] assms
  by (cases "c_tail c") (auto simp: chain_wf_def MBufChain_pop_front_def FreeMBuf_def Let_def)

lemma chain_wf_drain: "chain_wf c \<Longrightarrow> chain_wf (MBuf_drain c)"
  by (induction c rule: MBuf_drain.induct) (subst MBuf_drain.simps, auto simp: chain_wf_pop)

lemma MBuf_drain_tail:
  "list_all (\<lambda>b. mb_pkt_len b = 0) bs \<Longrightarrow> rest = [] \<or> mb_pkt_len (hd rest) \<noteq> 0 \<Longrightarrow>
   c_tail c = bs @ rest \<Longrightarrow> c_tail (MBuf_drain c) = rest"
proof (induction bs arbitrary: c)
  case Nil
  then show ?case by (subst MBuf_drain.simps) auto
next
  case (Cons b bs)
  then have "c_tail (MBuf_drain (MBufChain_pop_front c)) = rest" by simp
  with Cons.prems show ?case by (subst MBuf_drain.simps) simp
qed

section \<open>Reading\<close>

text \<open>One iteration: the front buffer gives up \<open>n\<close> bytes.\<close>

definition MBuf_consume :: "nat \<Rightarrow> mbufchain \<Rightarrow> mbufchain" where
  "MBuf_consume n c =
     c\<lparr>c_tail := (hd (c_tail c))\<lparr>mb_off := mb_off (hd (c_tail c)) + n,
                              mb_len := mb_len (hd (c_tail c)) - n\<rparr> # tl (c_tail c),
       c_size := c_size c - n\<rparr>"

lemma c_tail_consume: "c_tail c = b # rest \<Longrightarrow>
  c_tail (MBuf_consume n c) = b\<lparr>mb_off := mb_off b + n, mb_len := mb_len b - n\<rparr> # rest"
  by (simp add: MBuf_consume_def)

lemma chain_wf_consume:
  assumes "chain_wf c" "c_tail c = b # rest" "n \<le> mb_len b"
  shows "chain_wf (MBuf_consume n c)" "chain_bytes (MBuf_consume n c) = drop n (chain_bytes c)"
    "take n (drop (mb_off b) (mb_data b)) = take n (chain_bytes c)"
proof -
  have ok: "mbuf_ok b" using assms(1,2) by (simp add: chain_wf_def chain_struct_def)
  show "chain_wf (MBuf_consume n c)"
    using assms ok by (auto simp: chain_wf_def chain_struct_def MBuf_consume_def mbuf_ok_def)
  have "n \<le> length (mbuf_bytes b)" using ok assms(3) by simp
  then show "chain_bytes (MBuf_consume n c) = drop n (chain_bytes c)"
    using assms(2,3) by (simp add: chain_bytes_def MBuf_consume_def mbuf_bytes_def drop_take add.commute)
  show "take n (drop (mb_off b) (mb_data b)) = take n (chain_bytes c)"
    using \<open>n \<le> length (mbuf_bytes b)\<close> assms(2,3)
    by (simp add: chain_bytes_def) (simp add: mbuf_bytes_def min_absorb1)
qed

lemma chain_bytes_pop:
  assumes "c_tail c = b # rest" "mb_len b = 0"
  shows "chain_bytes (MBufChain_pop_front c) = chain_bytes c"
  using assms by (simp add: chain_bytes_def mbuf_bytes_def)

lemma MBuf_read_loop_stop: "\<not> pos < len \<Longrightarrow> MBuf_read_loop wr dst len dg pos c = (True, pos, [], c)"
  by (subst MBuf_read_loop.simps) (simp split: list.split)

lemma MBuf_read_loop_Nil: "c_tail c = [] \<Longrightarrow> MBuf_read_loop wr dst len dg pos c = (True, pos, [], c)"
  by (subst MBuf_read_loop.simps) simp

lemma MBuf_read_loop_step:
  assumes "c_tail c = b # rest" "pos < len"
  defines "n \<equiv> min (mb_len b) (len - pos)"
  shows "MBuf_read_loop wr dst len dg pos c =
    (if \<not> user_writable wr (dst + pos) n
     then (False, pos, user_stored wr (dst + pos) (take n (drop (mb_off b) (mb_data b))), c)
     else let (done, p, out, c') = MBuf_read_loop wr dst len dg (pos + n)
                (if n = mb_len b \<or> dg then MBufChain_pop_front (MBuf_consume n c) else MBuf_consume n c) in
          (done, p, take n (drop (mb_off b) (mb_data b)) @ out, c'))"
proof -
  have "mb_len b - n = 0 \<longleftrightarrow> n = mb_len b" by (auto simp: n_def)
  then show ?thesis
    unfolding MBuf_read_loop.simps [of wr dst len dg pos c] n_def [symmetric]
    using assms(2) by (simp add: Let_def MBuf_consume_def assms(1) flip: n_def)
qed

lemma MBuf_read_loop_stream:
  assumes "chain_wf c" "pos \<le> len" "MBuf_read_loop wr dst len False pos c = (done, p, out, c')"
  shows "chain_wf c' \<and> pos \<le> p \<and> p - pos \<le> c_size c \<and>
    chain_bytes c' = drop (p - pos) (chain_bytes c) \<and>
    take (p - pos) out = take (p - pos) (chain_bytes c) \<and>
    (done \<longrightarrow> length out = p - pos \<and> p - pos = min (len - pos) (c_size c)) \<and>
    (user_writable wr (dst + pos) (min (len - pos) (c_size c)) \<longrightarrow> done)"
  using assms
proof (induction "c_tail c" arbitrary: c pos out)
  case Nil
  then have "c_size c = 0" by (simp add: chain_wf_def flip: Nil.hyps)
  with Nil show ?case by (auto simp: MBuf_read_loop_Nil)
next
  case (Cons b rest)
  note t = Cons.hyps(2) [symmetric]
  show ?case
  proof (cases "pos < len")
    case False
    with Cons.prems show ?thesis by (auto simp: MBuf_read_loop_stop)
  next
    case True
    define n where "n = min (mb_len b) (len - pos)"
    note step = MBuf_read_loop_step [OF t True, of wr dst False, folded n_def]
    have n: "n \<le> mb_len b" by (simp add: n_def)
    note cw = chain_wf_consume [OF Cons.prems(1) t n]
    have size: "c_size (MBuf_consume n c) = c_size c - n" "mb_len b \<le> c_size c"
      using Cons.prems(1) by (auto simp: MBuf_consume_def chain_wf_def t)
    have ln: "length (take n (chain_bytes c)) = n"
      using chain_wf_bytes [OF Cons.prems(1)] n size(2) by simp
    show ?thesis
    proof (cases "user_writable wr (dst + pos) n")
      case False
      then have "\<not> user_writable wr (dst + pos) (min (len - pos) (c_size c))"
        using size(2) by (auto simp: user_writable_def n_def)
      with False Cons.prems step show ?thesis by auto
    next
      case wr: True
      define c2 where "c2 = (if n = mb_len b then MBufChain_pop_front (MBuf_consume n c) else MBuf_consume n c)"
      obtain out' where out: "out = take n (chain_bytes c) @ out'"
        and rec: "MBuf_read_loop wr dst len False (pos + n) c2 = (done, p, out', c')"
        using Cons.prems(3) step wr cw(3) by (auto simp: c2_def split: prod.splits)
      have c2: "chain_wf c2" "chain_bytes c2 = drop n (chain_bytes c)" "c_size c2 = c_size c - n"
      proof -
        show w: "chain_wf c2"
          using cw(1) chain_wf_pop [OF cw(1)] c_tail_consume [OF t, of n] by (auto simp: c2_def)
        show b: "chain_bytes c2 = drop n (chain_bytes c)"
          using cw(2) chain_bytes_pop [OF c_tail_consume [OF t, of n]] by (auto simp: c2_def)
        show "c_size c2 = c_size c - n"
          using chain_wf_bytes [OF w] chain_wf_bytes [OF Cons.prems(1)] b by simp
      qed
      have wr': "user_writable wr (dst + (pos + n)) (min (len - (pos + n)) (c_size c - n))"
        if "user_writable wr (dst + pos) (min (len - pos) (c_size c))"
      proof -
        have "min (len - pos) (c_size c) = n + min (len - (pos + n)) (c_size c - n)"
        proof -
          have "n \<le> len - pos" "n \<le> c_size c" using n size(2) by (simp_all add: n_def)
          then show ?thesis by arith
        qed
        with that show ?thesis by (simp add: user_writable_add add.assoc)
      qed
      have IH: "chain_wf c' \<and> pos + n \<le> p \<and> p - (pos + n) \<le> c_size c2 \<and>
        chain_bytes c' = drop (p - (pos + n)) (chain_bytes c2) \<and>
        take (p - (pos + n)) out' = take (p - (pos + n)) (chain_bytes c2) \<and>
        (done \<longrightarrow> length out' = p - (pos + n) \<and> p - (pos + n) = min (len - (pos + n)) (c_size c2)) \<and>
        (user_writable wr (dst + (pos + n)) (min (len - (pos + n)) (c_size c2)) \<longrightarrow> done)"
      proof (cases "n = mb_len b")
        case True
        then have "rest = c_tail c2" using c_tail_consume [OF t, of n] by (simp add: c2_def)
        from Cons.hyps(1) [OF this c2(1) _ rec] \<open>pos < len\<close> show ?thesis by (simp add: n_def)
      next
        case False
        then have "\<not> pos + n < len" by (auto simp: n_def)
        with rec c2(1) show ?thesis by (auto simp: MBuf_read_loop_stop)
      qed
      then obtain k where p: "p = pos + n + k" using le_Suc_ex by blast
      have diff: "p - pos = n + k" "p - (pos + n) = k" by (simp_all add: p)
      have le: "n \<le> len - pos" "n \<le> c_size c" using n size(2) by (simp_all add: n_def)
      note IH = IH [unfolded diff c2(2,3)]
      have bytes: "chain_bytes c' = drop (n + k) (chain_bytes c)"
        using IH by (simp add: add.commute)
      have "take (n + k) out = take n (chain_bytes c) @ take k out'"
        unfolding out take_append ln by (simp only: diff_add_inverse take_take) simp
      with IH have outs: "take (n + k) out = take (n + k) (chain_bytes c)"
        by (simp only: take_add)
      have fin: "done \<longrightarrow> length out = n + k \<and> n + k = min (len - pos) (c_size c)"
      proof
        assume "done"
        with IH have "length out' = k" "k = min (len - (pos + n)) (c_size c - n)" by blast+
        then show "length out = n + k \<and> n + k = min (len - pos) (c_size c)"
          unfolding out length_append ln using le by arith
      qed
      have "k \<le> c_size c - n" using IH by blast
      then have "pos \<le> p" "n + k \<le> c_size c" using le by (simp_all add: p)
      with IH wr' bytes outs fin show ?thesis unfolding diff by blast
    qed
  qed
qed

section \<open>Datagrams\<close>

abbreviation is_body :: "mbuf \<Rightarrow> bool" where
  "is_body b \<equiv> mb_pkt_len b = 0"

text \<open>A chain in datagram mode is a sequence of packets: a buffer with the packet's length,
  followed by body buffers.\<close>

function packets :: "mbuf list \<Rightarrow> byte list list" where
  "packets [] = []"
| "packets (b # bs) = bufs_bytes (b # takeWhile is_body bs) # packets (dropWhile is_body bs)"
  by pat_completeness auto
termination
  by (relation "measure length") (auto simp: le_imp_less_Suc length_dropWhile_le)

function dgram_ok :: "mbuf list \<Rightarrow> bool" where
  "dgram_ok [] = True"
| "dgram_ok (b # bs) \<longleftrightarrow>
     0 < mb_pkt_len b \<and> mb_pkt_len b = bufs_len (b # takeWhile is_body bs) \<and> dgram_ok (dropWhile is_body bs)"
  by pat_completeness auto
termination
  by (relation "measure length") (auto simp: le_imp_less_Suc length_dropWhile_le)

lemma takeWhile_stop: "\<not> P h \<Longrightarrow> takeWhile P (xs @ h # ys) = takeWhile P xs"
  by (induction xs) auto

lemma dropWhile_stop: "\<not> P h \<Longrightarrow> dropWhile P (xs @ h # ys) = dropWhile P xs @ h # ys"
  by (induction xs) auto

lemma packets_append: "\<not> is_body h \<Longrightarrow> packets (xs @ h # ys) = packets xs @ packets (h # ys)"
  by (induction xs rule: packets.induct) (auto simp: takeWhile_stop dropWhile_stop)

lemma dgram_ok_append:
  "\<not> is_body h \<Longrightarrow> dgram_ok (xs @ h # ys) \<longleftrightarrow> dgram_ok xs \<and> dgram_ok (h # ys)"
  by (induction xs rule: packets.induct) (auto simp: takeWhile_stop dropWhile_stop)



text \<open>The loop in datagram mode, on any chain: it stops after a number of whole buffers, at a fault before one of
  them.\<close>

lemma MBuf_read_loop_dgram_any:
  assumes "chain_wf c" "pos \<le> len" "MBuf_read_loop wr dst len True pos c = (done, p, out, c')"
  shows "\<exists>k \<le> length (c_tail c). chain_wf c' \<and> c_tail c' = drop k (c_tail c) \<and>
    (\<forall>j < k. bufs_len (take j (c_tail c)) < len - pos) \<and>
    p = pos + min (len - pos) (bufs_len (take k (c_tail c))) \<and> user_writable wr (dst + pos) (p - pos) \<and>
    take (p - pos) out = take (p - pos) (bufs_bytes (c_tail c)) \<and>
    (if done then length out = p - pos \<and> (len - pos \<le> bufs_len (take k (c_tail c)) \<or> k = length (c_tail c))
     else k < length (c_tail c) \<and> bufs_len (take k (c_tail c)) < len - pos \<and>
       \<not> user_writable wr (dst + pos) (min (len - pos) (bufs_len (take (Suc k) (c_tail c)))))"
  using assms
proof (induction "c_tail c" arbitrary: c pos out)
  case Nil
  then show ?case by (auto simp: MBuf_read_loop_Nil user_writable_def intro!: exI [of _ 0])
next
  case (Cons b rest)
  note t = Cons.hyps(2) [symmetric]
  show ?case
  proof (cases "pos < len")
    case False
    with Cons.prems show ?thesis by (auto simp: MBuf_read_loop_stop user_writable_def intro!: exI [of _ 0])
  next
    case True
    define n where "n = min (mb_len b) (len - pos)"
    note step = MBuf_read_loop_step [OF t True, of wr dst True, folded n_def]
    have n: "n \<le> mb_len b" "n \<le> len - pos" by (simp_all add: n_def)
    note cw = chain_wf_consume [OF Cons.prems(1) t n(1)]
    have ok: "mbuf_ok b" using Cons.prems(1) by (simp add: chain_wf_def chain_struct_def t)
    have src: "take n (drop (mb_off b) (mb_data b)) = take n (mbuf_bytes b)"
      using n(1) by (simp add: mbuf_bytes_def min_absorb1)
    show ?thesis
    proof (cases "user_writable wr (dst + pos) n")
      case False
      with Cons.prems step True t show ?thesis by (intro exI [of _ 0]) (auto simp: n_def min.commute user_writable_def [of _ _ 0])
    next
      case wr: True
      define c2 where "c2 = MBufChain_pop_front (MBuf_consume n c)"
      have c2: "chain_wf c2" "rest = c_tail c2"
        using chain_wf_pop [OF cw(1)] c_tail_consume [OF t, of n] by (simp_all add: c2_def)
      obtain out' where out: "out = take n (mbuf_bytes b) @ out'"
        and rec: "MBuf_read_loop wr dst len True (pos + n) c2 = (done, p, out', c')"
        using Cons.prems(3) step wr src by (auto simp: c2_def split: prod.splits)
      show ?thesis
      proof (cases "len - pos \<le> mb_len b")
        case True
        then have "pos + n = len" using \<open>pos < len\<close> by (simp add: n_def)
        then have r: "done" "p = len" "out' = []" "c' = c2" using rec by (simp_all add: MBuf_read_loop_stop)
        then show ?thesis using c2 True \<open>pos + n = len\<close> ok t \<open>pos < len\<close> n wr
          by (intro exI [of _ 1]) (auto simp: out n_def min_absorb1 min_absorb2)
      next
        case False
        then have nb: "n = mb_len b" "take n (mbuf_bytes b) = mbuf_bytes b" using ok by (simp_all add: n_def)
        have le: "pos + n \<le> len" using n True by simp
        define d where "d = len - (pos + n)"
        have d: "len - pos = n + d" using le by (simp add: d_def)
        from Cons.hyps(1) [OF c2(2,1) le rec] obtain k where k: "k \<le> length rest" "chain_wf c'" "c_tail c' = drop k rest"
          and j: "\<And>j. j < k \<Longrightarrow> bufs_len (take j rest) < d" and p: "p = pos + n + min d (bufs_len (take k rest))"
          and w: "user_writable wr (dst + (pos + n)) (p - (pos + n))"
          and o': "take (p - (pos + n)) out' = take (p - (pos + n)) (bufs_bytes rest)"
          and e: "if done then length out' = p - (pos + n) \<and> (d \<le> bufs_len (take k rest) \<or> k = length rest)
             else k < length rest \<and> bufs_len (take k rest) < d \<and>
               \<not> user_writable wr (dst + (pos + n)) (min d (bufs_len (take (Suc k) rest)))"
          unfolding c2(2) [symmetric] d_def by blast
        define m where "m = p - (pos + n)"
        have pm: "p - pos = n + m" "m = min d (bufs_len (take k rest))" using p by (simp_all add: m_def)
        have lb: "length (mbuf_bytes b) = n" using ok nb by simp
        have "bufs_len (take i (c_tail c)) < n + d" if "i < Suc k" for i
          using that j False d nb(1) by (cases i) (auto simp: t)
        moreover have "user_writable wr (dst + pos) (n + m)" using wr w by (simp add: user_writable_add m_def add.assoc)
        moreover have "take (n + m) out = take (n + m) (bufs_bytes (c_tail c))"
          using o' lb by (simp add: out nb(2) t m_def)
        moreover have "\<not> user_writable wr (dst + pos) (min (n + d) (bufs_len (take (Suc (Suc k)) (c_tail c))))"
          if "\<not> user_writable wr (dst + (pos + n)) (min d (bufs_len (take (Suc k) rest)))"
        proof -
          have "min (n + d) (bufs_len (take (Suc (Suc k)) (c_tail c))) = n + min d (bufs_len (take (Suc k) rest))"
            by (simp add: t nb(1))
          with that show ?thesis by (simp add: user_writable_add add.assoc)
        qed
        ultimately show ?thesis unfolding d pm(1)
          using k e p pm(2) lb d nb(1) by (intro exI [of _ "Suc k"]) (auto simp: t out nb(2) m_def)
      qed
    qed
  qed
qed



lemma bufs_len_take_mono: "i \<le> j \<Longrightarrow> bufs_len (take i bs) \<le> bufs_len (take j bs)"
  by (induction bs arbitrary: i j) (auto simp: take_Cons' split: if_splits)


text \<open>A packet whose last buffer is taken for the head of a packet: a read that ends before that buffer leaves it.\<close>

lemma MBuf_drain_dropWhile: "c_tail (MBuf_drain c) = dropWhile is_body (c_tail c)"
proof (rule MBuf_drain_tail)
  show "list_all is_body (takeWhile is_body (c_tail c))" by (auto simp: list_all_iff dest: set_takeWhileD)
  show "dropWhile is_body (c_tail c) = [] \<or> \<not> is_body (hd (dropWhile is_body (c_tail c)))"
    using hd_dropWhile [of is_body "c_tail c"] by blast
qed simp

lemma MBufChain_Read_stale:
  assumes "chain_wf c" "c_tail c = b # bs" "mb_pkt_len b = c_size c" "\<not> is_body (last (c_tail c))"
    "0 < n" "n \<le> bufs_len (butlast (c_tail c))" "user_writable wr dst n"
  shows "\<exists>i c'. MBufChain_Read wr dst n True c = (n, take n (chain_bytes c), c') \<and> chain_wf c' \<and>
    c_tail c' = drop i (c_tail c) \<and> i < length (c_tail c) \<and> n \<le> bufs_len (take i (c_tail c)) \<and> \<not> is_body (hd (c_tail c'))"
proof -
  let ?t = "c_tail c"
  have size: "c_size c = bufs_len ?t" "?t \<noteq> []" using assms(1,2) by (simp_all add: chain_wf_def)
  have "n \<le> c_size c"
    using assms(6) size bufs_len_take_mono [of "length ?t - 1" "length ?t" ?t] by (simp add: butlast_conv_take)
  then have clip: "MBuf_clip True n c = n" "c_size c \<noteq> 0" using assms(2,3,5) by (auto simp: MBuf_clip_def)
  obtain d p out c1 where lp: "MBuf_read_loop wr dst n True 0 c = (d, p, out, c1)" by (metis prod_cases4)
  obtain k where k: "k \<le> length ?t" "chain_wf c1" "c_tail c1 = drop k ?t" "\<forall>j < k. bufs_len (take j ?t) < n"
    "p = min n (bufs_len (take k ?t))" "take p out = take p (bufs_bytes ?t)"
    and e: "if d then length out = p \<and> (n \<le> bufs_len (take k ?t) \<or> k = length ?t)
      else k < length ?t \<and> bufs_len (take k ?t) < n \<and> \<not> user_writable wr dst (min n (bufs_len (take (Suc k) ?t)))"
    using MBuf_read_loop_dgram_any [OF assms(1) _ lp] unfolding add_0 add_0_right diff_zero by blast
  have d: d using e assms(7) by (auto simp: user_writable_def split: if_splits)
  have kl: "k < length ?t"
    using k(1,4) assms(6) size(2) by (cases "k = length ?t") (auto simp: butlast_conv_take not_less [symmetric])
  with d e k(5,6) have r: "p = n" "out = take n (bufs_bytes ?t)" "n \<le> bufs_len (take k ?t)" by auto
  define i where "i = k + length (takeWhile is_body (drop k ?t))"
  have dr: "dropWhile is_body (drop k ?t) = drop i ?t" by (simp add: dropWhile_eq_drop i_def add.commute)
  have "last ?t \<in> set (drop k ?t)" using kl by (metis drop_eq_Nil last_drop last_in_set not_le)
  then have ne: "drop i ?t \<noteq> []" using assms(4) unfolding dr [symmetric] by (auto simp only: dropWhile_eq_Nil_conv)
  then have "\<not> is_body (hd (drop i ?t))" unfolding dr [symmetric] by (rule hd_dropWhile)
  moreover have "n \<le> bufs_len (take i ?t)" using r(3) bufs_len_take_mono [of k i ?t] by (simp add: i_def)
  ultimately show ?thesis
    using lp r d clip chain_wf_drain [OF k(2)] MBuf_drain_dropWhile [of c1] k(3) dr ne
    by (intro exI [of _ i] exI [of _ "MBuf_drain c1"]) (simp add: MBufChain_Read_def chain_bytes_def)
qed

lemma MBufChain_Read_progress:
  assumes "chain_wf c" "c_tail c \<noteq> []" "\<not> is_body (hd (c_tail c))" "c_size c \<noteq> 0" "0 < m"
  shows "0 < fst (MBufChain_Read (\<lambda>_. True) dst m True c)"
proof -
  obtain d p out c1 where lp: "MBuf_read_loop (\<lambda>_. True) dst (MBuf_clip True m c) True 0 c = (d, p, out, c1)"
    by (metis prod_cases4)
  have "0 < MBuf_clip True m c" "bufs_len (c_tail c) \<noteq> 0" using assms by (auto simp: MBuf_clip_def chain_wf_def)
  then have "0 < p" using MBuf_read_loop_dgram_any [OF assms(1) _ lp]
    by (auto simp: user_writable_def split: if_splits simp del: sum_list_eq_0_iff)
  then show ?thesis using lp assms(4) by (simp add: MBufChain_Read_def)
qed

section \<open>Writing datagrams\<close>

lemma AllocMBuf_struct:
  assumes "chain_struct hs c"
  shows "case AllocMBuf ac c of
      (None, c') \<Rightarrow> c' = c
    | (Some b, c') \<Rightarrow> chain_struct (b # hs) c' \<and> mb_off b = 0 \<and> mb_len b = 0 \<and>
        c_tail c' = c_tail c \<and> c_size c' = c_size c \<and> c_head c' = c_head c \<and>
        (list_all is_body (c_freelist c) \<longrightarrow> is_body b \<and> list_all is_body (c_freelist c'))"
proof (cases "c_freelist c")
  case Nil
  have "\<forall>b \<in> set (c_tail c) \<union> set hs. mb_addr b < c_next c"
    using assms by (auto simp: chain_struct_def list_all_iff)
  then have "c_next c \<notin> mb_addr ` set (c_tail c)" "c_next c \<notin> mb_addr ` set hs"
    by fastforce+
  with assms Nil show ?thesis
    by (auto simp: AllocMBuf_def MBuf_new_def chain_struct_def mbuf_ok_def list_all_iff less_SucI)
next
  case (Cons b bs)
  with assms show ?thesis by (auto simp: AllocMBuf_def chain_struct_def)
qed

lemma MBuf_alloc_bufs_struct:
  assumes "chain_struct (bufs @ hs) c" "list_all (\<lambda>b. mb_off b = 0 \<and> mb_len b = 0) bufs"
  shows "case MBuf_alloc_bufs ac need bufs c of
      (None, c') \<Rightarrow> chain_struct hs c' \<and> c_tail c' = c_tail c \<and> c_size c' = c_size c
    | (Some bufs', c') \<Rightarrow> chain_struct (bufs' @ hs) c' \<and> length bufs' = length bufs + need \<and>
        list_all (\<lambda>b. mb_off b = 0 \<and> mb_len b = 0) bufs' \<and>
        c_tail c' = c_tail c \<and> c_size c' = c_size c \<and> c_head c' = c_head c \<and>
        (list_all is_body bufs \<and> list_all is_body (c_freelist c) \<longrightarrow> list_all is_body bufs')"
  using assms
proof (induction need arbitrary: bufs c)
  case 0
  then show ?case by simp
next
  case (Suc need)
  have al: "case AllocMBuf ac c of
      (None, c') \<Rightarrow> c' = c
    | (Some b, c') \<Rightarrow> chain_struct (b # bufs @ hs) c' \<and> mb_off b = 0 \<and> mb_len b = 0 \<and>
        c_tail c' = c_tail c \<and> c_size c' = c_size c \<and> c_head c' = c_head c \<and>
        (list_all is_body (c_freelist c) \<longrightarrow> is_body b \<and> list_all is_body (c_freelist c'))"
    using Suc.prems(1) by (rule AllocMBuf_struct)
  show ?case
  proof (cases "AllocMBuf ac c")
    case (Pair r c')
    show ?thesis
    proof (cases r)
      case None
      with al Pair Suc.prems(1) show ?thesis by (simp add: chain_struct_free_list)
    next
      case (Some b)
      with al Pair have b: "chain_struct ((b # bufs) @ hs) c'" "mb_off b = 0 \<and> mb_len b = 0"
        "c_tail c' = c_tail c" "c_size c' = c_size c" "c_head c' = c_head c"
        "list_all is_body (c_freelist c) \<longrightarrow> is_body b \<and> list_all is_body (c_freelist c')"
        by auto
      from Suc.IH [OF b(1)] b(2) Suc.prems(2)
      show ?thesis
        using b(3-) Some Pair by (auto split: prod.splits option.splits)
    qed
  qed
qed

text \<open>The buffer that is allocated first becomes the last one of the packet.\<close>

lemma MBuf_alloc_bufs_last:
  "MBuf_alloc_bufs ac need bufs c = (Some bufs', c') \<Longrightarrow> bufs \<noteq> [] \<Longrightarrow> last bufs' = last bufs"
  by (induction need arbitrary: bufs c) (fastforce split: prod.splits option.splits)+

lemma MBuf_alloc_bufs_stale:
  "MBuf_alloc_bufs ac (Suc need) [] c = (Some bufs, c') \<Longrightarrow> c_freelist c = f # fs \<Longrightarrow> last bufs = f"
  using MBuf_alloc_bufs_last [of ac need "[f]"] by (simp add: AllocMBuf_def)

definition same_buf :: "mbuf \<Rightarrow> mbuf \<Rightarrow> bool" where
  "same_buf b b' \<longleftrightarrow> mb_addr b' = mb_addr b \<and> mb_pkt_len b' = mb_pkt_len b \<and> (mbuf_ok b \<longrightarrow> mbuf_ok b')"

lemma MBuf_fill_same:
  "list_all (\<lambda>b. mb_off b = 0 \<and> mb_len b = 0) bufs \<Longrightarrow>
   list_all2 same_buf bufs (snd (MBuf_fill mem src len pos bufs))"
proof (induction bufs arbitrary: pos)
  case (Cons b bs)
  have "list_all2 same_buf bs bs" by (simp add: list.rel_refl_strong same_buf_def)
  moreover have "same_buf b (b\<lparr>mb_data := overwrite (mb_data b) 0 xs\<rparr>)"
    "n \<le> kPayloadSize \<Longrightarrow> same_buf b (b\<lparr>mb_data := overwrite (mb_data b) 0 xs, mb_len := mb_len b + n\<rparr>)"
    for xs n using Cons.prems by (auto simp: same_buf_def mbuf_ok_def)
  ultimately show ?case
    using Cons by (simp add: Let_def case_prod_beta)
qed simp

lemma MBuf_fill_bytes:
  assumes "list_all (\<lambda>b. mb_off b = 0 \<and> mb_len b = 0 \<and> mbuf_ok b) bufs"
    "pos \<le> len" "len - pos \<le> length bufs * kPayloadSize"
  shows "fst (MBuf_fill mem src len pos bufs) = user_readable mem (src + pos) (len - pos) \<and>
    (user_readable mem (src + pos) (len - pos) \<longrightarrow>
       bufs_bytes (snd (MBuf_fill mem src len pos bufs)) = user_bytes mem (src + pos) (len - pos) \<and>
       bufs_len (snd (MBuf_fill mem src len pos bufs)) = len - pos)"
  using assms
proof (induction bufs arbitrary: pos)
  case Nil
  then show ?case by simp
next
  case (Cons b bs)
  define n where "n = min kPayloadSize (len - pos)"
  have n: "n \<le> len - pos" "n \<le> kPayloadSize" by (simp_all add: n_def)
  then have eq: "n + (len - (pos + n)) = len - pos" by simp
  have rd: "user_readable mem (src + pos) (len - pos) \<longleftrightarrow>
      user_readable mem (src + pos) n \<and> user_readable mem (src + (pos + n)) (len - (pos + n))"
    using user_readable_add [of mem "src + pos" n "len - (pos + n)"] by (simp only: eq add.assoc)
  have bytes: "user_readable mem (src + pos) n \<Longrightarrow> user_bytes mem (src + pos) (len - pos) =
      user_bytes mem (src + pos) n @ user_bytes mem (src + (pos + n)) (len - (pos + n))"
    using user_bytes_add [of mem "src + pos" n "len - (pos + n)"] by (simp only: eq add.assoc)
  have "len - (pos + n) \<le> length bs * kPayloadSize" using Cons.prems(3) by (auto simp: n_def)
  moreover have "pos + n \<le> len" using Cons.prems(2) n(1) by simp
  ultimately have IH: "fst (MBuf_fill mem src len (pos + n) bs) = user_readable mem (src + (pos + n)) (len - (pos + n)) \<and>
    (user_readable mem (src + (pos + n)) (len - (pos + n)) \<longrightarrow>
       bufs_bytes (snd (MBuf_fill mem src len (pos + n) bs)) = user_bytes mem (src + (pos + n)) (len - (pos + n)) \<and>
       bufs_len (snd (MBuf_fill mem src len (pos + n) bs)) = len - (pos + n))"
    using Cons.IH [of "pos + n"] Cons.prems(1) by simp
  have mb: "user_readable mem (src + pos) n \<Longrightarrow>
     mbuf_bytes (b\<lparr>mb_data := overwrite (mb_data b) 0 (user_bytes mem (src + pos) n), mb_len := n\<rparr>) =
     user_bytes mem (src + pos) n"
    using n(2) Cons.prems(1) by (simp add: overwrite_def mbuf_ok_def mbuf_bytes_def)
  show ?case
    using IH mb bytes Cons.prems(1) n(1)
    by (auto simp: Let_def rd n_def [symmetric] split: prod.splits)
qed

lemma MBuf_insert_after_last:
  "distinct (map mb_addr bs) \<Longrightarrow> bs \<noteq> [] \<Longrightarrow> MBuf_insert_after (mb_addr (last bs)) x bs = bs @ [x]"
  by (induction bs) auto

lemma MBufChain_link_struct:
  assumes "chain_struct (b # hs) c"
  shows "chain_struct hs (MBufChain_link b c)" "c_tail (MBufChain_link b c) = c_tail c @ [b]"
    "c_size (MBufChain_link b c) = c_size c"
proof -
  show t: "c_tail (MBufChain_link b c) = c_tail c @ [b]" "c_size (MBufChain_link b c) = c_size c"
    using assms by (auto simp: MBufChain_link_def chain_struct_def MBuf_insert_after_last split: if_splits)
  show "chain_struct hs (MBufChain_link b c)"
    using assms unfolding chain_struct_def t by (auto simp: MBufChain_link_def)
qed

lemma fold_link_struct:
  "chain_struct (bs @ hs) c \<Longrightarrow>
   chain_struct hs (fold MBufChain_link bs c) \<and> c_tail (fold MBufChain_link bs c) = c_tail c @ bs \<and>
   c_size (fold MBufChain_link bs c) = c_size c"
  by (induction bs arbitrary: c) (simp_all add: MBufChain_link_struct)

lemma chain_struct_same:
  assumes "chain_struct bs c" "list_all2 same_buf bs bs'"
  shows "chain_struct bs' c"
proof -
  have "map mb_addr bs' = map mb_addr bs \<and> (list_all mbuf_ok bs \<longrightarrow> list_all mbuf_ok bs') \<and>
      list_all (\<lambda>b. mb_addr b < c_next c) bs' = list_all (\<lambda>b. mb_addr b < c_next c) bs"
    using assms(2) by (induction rule: list_all2_induct) (auto simp: same_buf_def)
  with assms(1) show ?thesis by (simp add: chain_struct_def)
qed

lemma same_bodies: "list_all2 same_buf bs bs' \<Longrightarrow> list_all is_body bs' = list_all is_body bs"
  by (induction rule: list_all2_induct) (auto simp: same_buf_def)

lemma need_bufs: "0 < len \<Longrightarrow> len \<le> (1 + (len - 1) div kPayloadSize) * kPayloadSize"
  using dividend_less_div_times [OF kPayloadSize_pos, of "len - 1"] by (simp add: algebra_simps)

text \<open>What a datagram write leaves behind, on every path.\<close>

lemma WriteDatagram_cases:
  assumes "chain_wf c" "WriteDatagram ac mem src len c = (r, c')"
  shows "chain_wf c' \<and>
    (case r of
       Inl e \<Rightarrow> c_tail c' = c_tail c \<and> c_size c' = c_size c
     | Inr n \<Rightarrow> n = len \<and> 0 < len \<and> c_size c' = c_size c + len \<and>
         (\<exists>h body. c_tail c' = c_tail c @ h # body \<and> mb_pkt_len h = len \<and>
            length body = (len - 1) div kPayloadSize \<and>
            bufs_bytes (h # body) = user_bytes mem src len \<and> bufs_len (h # body) = len \<and>
            (list_all is_body (c_freelist c) \<longrightarrow> list_all is_body body) \<and>
            (\<forall>f fs. c_freelist c = f # fs \<and> body \<noteq> [] \<longrightarrow> mb_pkt_len (last body) = mb_pkt_len f)))"
proof (cases "len = 0 \<or> len > kSizeMax \<or> len + c_size c > kSizeMax")
  case True
  with assms show ?thesis by (auto simp: WriteDatagram_def split: if_splits)
next
  case False
  define need where "need = 1 + (len - 1) div kPayloadSize"
  have st: "chain_struct ([] @ []) c" using assms(1) by (simp add: chain_wf_def)
  note al = MBuf_alloc_bufs_struct [OF st, where ac = ac and need = need, simplified]
  obtain b c1 where bc: "MBuf_alloc_bufs ac need [] c = (b, c1)" by (rule prod.exhaust)
  show ?thesis
  proof (cases b)
    case None
    with al bc False assms show ?thesis
      by (auto simp: WriteDatagram_def need_def chain_wf_def)
  next
    case (Some bufs)
    with al bc have bufs: "chain_struct bufs c1" "length bufs = need"
      "list_all (\<lambda>b. mb_off b = 0 \<and> mb_len b = 0) bufs" "c_tail c1 = c_tail c" "c_size c1 = c_size c"
      "list_all is_body (c_freelist c) \<longrightarrow> list_all is_body bufs"
      by auto
    obtain ok bufs1 where fl: "MBuf_fill mem src len 0 bufs = (ok, bufs1)" by (rule prod.exhaust)
    have same: "list_all2 same_buf bufs bufs1" using MBuf_fill_same [OF bufs(3), of mem src len 0] fl by simp
    have st1: "chain_struct bufs1 c1" using bufs(1) same by (rule chain_struct_same)
    have zero: "list_all (\<lambda>b. mb_off b = 0 \<and> mb_len b = 0 \<and> mbuf_ok b) bufs"
      using bufs(1,3) by (auto simp: chain_struct_def list_all_iff)
    have fill: "ok = user_readable mem src len"
      "ok \<longrightarrow> bufs_bytes bufs1 = user_bytes mem src len \<and> bufs_len bufs1 = len"
      using MBuf_fill_bytes [OF zero, of 0 len mem src] need_bufs [of len] False fl bufs(2)
      by (auto simp: need_def)
    show ?thesis
    proof (cases ok)
      case no: False
      have "chain_wf (FreeMBufs bufs1 c1)"
        using chain_struct_free_list [of bufs1 "[]" c1] st1 bufs assms(1) by (simp add: chain_wf_def)
      with assms(2) no False bc Some fl bufs show ?thesis
        by (auto simp: WriteDatagram_def need_def)
    next
      case yes: True
      obtain h body where hb: "bufs1 = h # body"
        using same bufs(2) by (cases bufs1) (auto simp: need_def)
      define h' where "h' = h\<lparr>mb_pkt_len := len\<rparr>"
      define c2 where "c2 = fold MBufChain_link (h' # body) c1"
      have "chain_struct (h' # body) c1" using st1 by (simp add: chain_struct_def hb h'_def mbuf_ok_def)
      then have c2: "chain_struct [] c2" "c_tail c2 = c_tail c @ h' # body" "c_size c2 = c_size c"
        using fold_link_struct [of "h' # body" "[]" c1] bufs by (simp_all add: c2_def)
      have res: "r = Inr len" "c' = c2\<lparr>c_size := c_size c2 + len\<rparr>"
        using assms(2) yes False bc Some fl by (auto simp: WriteDatagram_def need_def hb h'_def c2_def Let_def)
      have body: "length body = (len - 1) div kPayloadSize"
        "list_all is_body (c_freelist c) \<longrightarrow> list_all is_body body"
        using bufs(2,6) list_all2_lengthD [OF same] same_bodies [OF same] by (auto simp: hb need_def)
      have stale: "mb_pkt_len (last body) = mb_pkt_len f" if "c_freelist c = f # fs" "body \<noteq> []" for f fs
      proof -
        have "last bufs = f" using MBuf_alloc_bufs_stale [OF _ that(1)] bc Some by (simp add: need_def)
        moreover have "same_buf (last bufs) (last bufs1)"
          using list_all2_nthD [OF same, of "length bufs - 1"] list_all2_lengthD [OF same] hb
          by (cases "bufs = []") (simp_all add: last_conv_nth del: last.simps)
        ultimately show ?thesis using that(2) by (simp add: hb same_buf_def)
      qed
      have bytes: "bufs_bytes (h' # body) = user_bytes mem src len" "bufs_len (h' # body) = len"
        using fill(2) yes by (simp_all add: hb h'_def mbuf_bytes_def [of "_\<lparr>mb_pkt_len := _\<rparr>"] flip: mbuf_bytes_def)
      have "chain_wf c'"
        using c2 False bytes(2) assms(1) by (simp add: res chain_wf_def chain_struct_def)
      then show ?thesis
        using res c2 False body bytes stale by (auto simp: h'_def)
    qed
  qed
qed

section \<open>Writing a stream\<close>

lemma MBuf_update_last:
  "distinct (map mb_addr (bs @ [b])) \<Longrightarrow> MBuf_update (mb_addr b) f (bs @ [b]) = bs @ [f b]"
  by (induction bs) auto

lemma MBuf_head_last:
  assumes "chain_struct hs c" "c_tail c = bs @ [b]"
  shows "MBuf_head c = b"
proof -
  have "mb_addr b \<notin> mb_addr ` set bs" using assms by (simp add: chain_struct_def)
  then have "filter (\<lambda>x. mb_addr x = mb_addr b) bs = []"
    unfolding filter_empty_conv by (metis image_eqI)
  then show ?thesis using assms by (simp add: MBuf_head_def chain_struct_def)
qed

lemma MBuf_append_wf:
  assumes "chain_wf c" "c_tail c = bs @ [b]" "mb_off b + mb_len b + n \<le> kPayloadSize"
    "c_size c + n \<le> kSizeMax" "length ys = n"
  shows "chain_wf (MBuf_append (mb_addr b) ys n c)"
    "chain_bytes (MBuf_append (mb_addr b) ys n c) = chain_bytes c @ ys"
    "c_tail (MBuf_append (mb_addr b) ys n c) \<noteq> []"
proof -
  define b' where "b' = b\<lparr>mb_data := overwrite (mb_data b) (mb_off b + mb_len b) ys, mb_len := mb_len b + n\<rparr>"
  have st: "chain_struct [] c" using assms(1) by (simp add: chain_wf_def)
  then have t: "c_tail (MBuf_append (mb_addr b) ys n c) = bs @ [b']"
    using MBuf_update_last [of bs b] assms(2) by (simp add: MBuf_append_def chain_struct_def b'_def)
  have ok: "mbuf_ok b" using st assms(2) by (simp add: chain_struct_def)
  have "mbuf_bytes b' = mbuf_bytes b @ ys"
  proof (rule nth_equalityI)
    show "length (mbuf_bytes b') = length (mbuf_bytes b @ ys)"
      using ok assms(3,5) by (auto simp: mbuf_bytes_def b'_def mbuf_ok_def)
    fix i assume "i < length (mbuf_bytes b')"
    then show "mbuf_bytes b' ! i = (mbuf_bytes b @ ys) ! i"
      using ok assms(3,5)
      by (auto simp: mbuf_bytes_def b'_def mbuf_ok_def nth_append nth_overwrite)
  qed
  then show "chain_bytes (MBuf_append (mb_addr b) ys n c) = chain_bytes c @ ys"
    by (simp add: chain_bytes_def t assms(2))
  show "chain_wf (MBuf_append (mb_addr b) ys n c)"
    using assms(1,3,4) ok unfolding chain_wf_def chain_struct_def t
    by (auto simp: assms(2) MBuf_append_def b'_def mbuf_ok_def)
  show "c_tail (MBuf_append (mb_addr b) ys n c) \<noteq> []" by (simp add: t)
qed

lemma MBuf_append_fault:
  assumes "chain_wf c" "c_tail c = bs @ [b]" "mb_off b + mb_len b + length ys \<le> kPayloadSize"
  shows "chain_wf (MBuf_append (mb_addr b) ys 0 c)"
    "chain_bytes (MBuf_append (mb_addr b) ys 0 c) = chain_bytes c"
proof -
  define b' where "b' = b\<lparr>mb_data := overwrite (mb_data b) (mb_off b + mb_len b) ys\<rparr>"
  have st: "chain_struct [] c" using assms(1) by (simp add: chain_wf_def)
  then have t: "c_tail (MBuf_append (mb_addr b) ys 0 c) = bs @ [b']"
    using MBuf_update_last [of bs b] assms(2) by (simp add: MBuf_append_def chain_struct_def b'_def)
  have ok: "mbuf_ok b" using st assms(2) by (simp add: chain_struct_def)
  have "mbuf_bytes b' = mbuf_bytes b"
    using ok assms(3) by (auto simp: mbuf_bytes_def b'_def mbuf_ok_def nth_overwrite intro!: nth_equalityI)
  then show "chain_bytes (MBuf_append (mb_addr b) ys 0 c) = chain_bytes c"
    by (simp add: chain_bytes_def t assms(2))
  show "chain_wf (MBuf_append (mb_addr b) ys 0 c)"
    using assms(1,3) ok unfolding chain_wf_def chain_struct_def t
    by (auto simp: assms(2) MBuf_append_def b'_def mbuf_ok_def)
qed

lemma MBuf_stream_room_ok:
  assumes "chain_wf c" "c_tail c \<noteq> []" "MBuf_stream_room ac c = (r, c')"
  shows "(case r of None \<Rightarrow> c' = c
     | Some c1 \<Rightarrow> chain_wf c1 \<and> chain_bytes c1 = chain_bytes c \<and> c_size c1 = c_size c \<and>
         (\<exists>bs b. c_tail c1 = bs @ [b] \<and> MBuf_head c1 = b \<and> 0 < MBuf_rem b)) \<and>
    (list_all ac [c_next c..<c_next c + 1] \<longrightarrow> r \<noteq> None)"
proof -
  obtain bs b where t: "c_tail c = bs @ [b]" using assms(2) by (cases "c_tail c" rule: rev_cases) auto
  have st: "chain_struct [] c" using assms(1) by (simp add: chain_wf_def)
  note hd = MBuf_head_last [OF st t]
  show ?thesis
  proof (cases "MBuf_rem b = 0")
    case False
    with assms hd t show ?thesis by (auto simp: MBuf_stream_room_def)
  next
    case True
    obtain x c2 where al: "AllocMBuf ac c = (x, c2)" by (rule prod.exhaust)
    note a = AllocMBuf_struct [OF st, of ac, unfolded al]
    show ?thesis
    proof (cases x)
      case None
      with a True assms(3) hd al show ?thesis
        by (auto simp: MBuf_stream_room_def AllocMBuf_def split: list.splits if_splits)
    next
      case (Some y)
      with a have y: "chain_struct [y] c2" "mb_off y = 0" "mb_len y = 0" "c_tail c2 = c_tail c" "c_size c2 = c_size c"
        by auto
      note l = MBufChain_link_struct [OF y(1)]
      have "chain_wf (MBufChain_link y c2)"
        using l y assms(1) by (simp add: chain_wf_def)
      moreover have "chain_bytes (MBufChain_link y c2) = chain_bytes c"
        using l(2) y by (simp add: chain_bytes_def mbuf_bytes_def [of y])
      moreover have "MBuf_head (MBufChain_link y c2) = y" by (rule MBuf_head_last [OF l(1,2)])
      ultimately show ?thesis
        using l y True assms(3) hd al Some by (auto simp: MBuf_stream_room_def MBuf_rem_def)
    qed
  qed
qed

lemma WriteStream_loop_ok:
  assumes "chain_wf c" "c_tail c \<noteq> []" "pos \<le> len"
  shows "\<exists>p c'. WriteStream_loop ac mem src len pos c = Some (p, c') \<and> chain_wf c' \<and> pos \<le> p \<and> p \<le> len \<and>
    user_readable mem (src + pos) (p - pos) \<and>
    chain_bytes c' = chain_bytes c @ user_bytes mem (src + pos) (p - pos) \<and>
    ((\<forall>a. ac a) \<and> user_readable mem (src + pos) (len - pos) \<longrightarrow>
       p - pos = min (len - pos) (kSizeMax - c_size c))"
  using assms
proof (induction "len - pos" arbitrary: pos c rule: less_induct)
  case less
  have full: "c_size c \<le> kSizeMax" using less.prems(1) by (simp add: chain_wf_def)
  show ?case
  proof (cases "pos < len")
    case False
    then show ?thesis using less.prems
      by (intro exI [of _ pos] exI [of _ c]) (simp add: WriteStream_loop.simps)
  next
    case True
    obtain r c0 where room: "MBuf_stream_room ac c = (r, c0)" by (rule prod.exhaust)
    note rm = MBuf_stream_room_ok [OF less.prems(1,2) room]
    show ?thesis
    proof (cases r)
      case None
      with rm room True less.prems show ?thesis
        by (intro exI [of _ pos] exI [of _ c]) (auto simp: WriteStream_loop.simps [of _ _ _ _ pos])
    next
      case (Some c1)
      with rm obtain bs b where c1: "chain_wf c1" "chain_bytes c1 = chain_bytes c" "c_size c1 = c_size c"
        "c_tail c1 = bs @ [b]" "MBuf_head c1 = b" "0 < MBuf_rem b" by auto
      define n0 where "n0 = min (MBuf_rem b) (len - pos)"
      define n where "n = (if c_size c1 + n0 > kSizeMax then kSizeMax - c_size c1 else n0)"
      have n0: "0 < n0" "n0 \<le> len - pos" using c1(6) True by (simp_all add: n0_def)
      have n: "n \<le> n0" "c_size c1 + n \<le> kSizeMax" "n = 0 \<longleftrightarrow> c_size c = kSizeMax"
        using full n0 by (auto simp: n_def c1(3))
      have fit: "mb_off b + mb_len b + n \<le> kPayloadSize"
        using n(1) c1(6) unfolding n0_def MBuf_rem_def by linarith
      have stop: "c_size c1 + n0 > kSizeMax \<and> n = 0 \<longleftrightarrow> n = 0" using n n0 c1(3) by auto
      have step: "WriteStream_loop ac mem src len pos c =
        (if n = 0 then Some (pos, c1)
         else if \<not> user_readable mem (src + pos) n
         then Some (pos, MBuf_append (mb_addr b) (user_bytes mem (src + pos) n) 0 c1)
         else WriteStream_loop ac mem src len (pos + n)
                (MBuf_append (mb_addr b) (user_bytes mem (src + pos) n) n c1))"
        using True unfolding WriteStream_loop.simps [of ac mem src len pos c] room Some
        by (simp only: prod.case option.case Let_def c1(5) n0_def [symmetric] n_def [symmetric] stop)
          simp
      consider "n = 0" | (fault) "0 < n" "\<not> user_readable mem (src + pos) n"
        | (ok) "0 < n" "user_readable mem (src + pos) n" by blast
      then show ?thesis
      proof cases
        case 1
        with step c1 n(3) less.prems(3) show ?thesis
          by (intro exI [of _ pos] exI [of _ c1]) simp
      next
        case fault
        have "mb_off b + mb_len b + length (user_bytes mem (src + pos) n) \<le> kPayloadSize"
          using fit length_user_bytes [of mem "src + pos" n] by linarith
        note f = MBuf_append_fault [OF c1(1,4) this]
        have "\<not> user_readable mem (src + pos) (len - pos)"
          using fault(2) user_readable_mono [of mem "src + pos" "len - pos" n] n(1) n0(2) by auto
        with f step fault c1(2) less.prems(3) show ?thesis by auto
      next
        case ok
        define c2 where "c2 = MBuf_append (mb_addr b) (user_bytes mem (src + pos) n) n c1"
        have "length (user_bytes mem (src + pos) n) = n" using ok(2) by simp
        note f = MBuf_append_wf [OF c1(1,4) fit n(2) this, folded c2_def]
        have nle: "n \<le> len - pos" using n(1) n0(2) by simp
        then have le: "pos + n \<le> len" "len - (pos + n) < len - pos" using less.prems(3) ok(1) True by auto
        obtain p c' where IH: "WriteStream_loop ac mem src len (pos + n) c2 = Some (p, c')" "chain_wf c'"
          "pos + n \<le> p" "p \<le> len" "user_readable mem (src + (pos + n)) (p - (pos + n))"
          "chain_bytes c' = chain_bytes c2 @ user_bytes mem (src + (pos + n)) (p - (pos + n))"
          "(\<forall>a. ac a) \<and> user_readable mem (src + (pos + n)) (len - (pos + n)) \<longrightarrow>
             p - (pos + n) = min (len - (pos + n)) (kSizeMax - c_size c2)"
          using less.hyps [OF le(2) f(1,3) le(1)] by blast
        have sz: "c_size c2 = c_size c + n" by (simp add: c2_def MBuf_append_def c1(3))
        have eq: "p - pos = n + (p - (pos + n))" "len - pos = n + (len - (pos + n))" using IH(3) nle by auto
        have rd: "user_readable mem (src + pos) (p - pos)"
          unfolding eq user_readable_add using ok(2) IH(5) by (simp add: add.assoc)
        have bytes: "chain_bytes c' = chain_bytes c @ user_bytes mem (src + pos) (p - pos)"
          unfolding eq user_bytes_add [OF ok(2)] IH(6) f(2) c1(2) by (simp add: add.assoc)
        have all: "(\<forall>a. ac a) \<and> user_readable mem (src + pos) (len - pos) \<longrightarrow>
           p - pos = min (len - pos) (kSizeMax - c_size c)"
        proof -
          have "n + min a (kSizeMax - (c_size c + n)) = min (n + a) (kSizeMax - c_size c)" for a
            using n(2) c1(3) by linarith
          then show ?thesis using IH(7) unfolding sz eq user_readable_add by (simp add: add.assoc)
        qed
        show ?thesis
          using step ok IH(1,2,3,4) rd bytes all by (intro exI [of _ p] exI [of _ c']) (simp add: c2_def)
      qed
    qed
  qed
qed

lemma WriteStream_appends:
  assumes "chain_wf c"
  shows "\<exists>r c' n. WriteStream ac mem src len c = Some (r, c') \<and> chain_wf c' \<and> n \<le> len \<and>
    r = (if n = 0 then Inl ZX_ERR_SHOULD_WAIT else Inr n) \<and>
    chain_bytes c' = chain_bytes c @ user_bytes mem src n \<and> user_readable mem src n \<and>
    ((\<forall>a. ac a) \<and> user_readable mem src len \<longrightarrow> n = min len (kSizeMax - length (chain_bytes c)))"
proof -
  have size: "length (chain_bytes c) = c_size c" by (rule chain_wf_bytes [OF assms])
  have st: "chain_struct [] c" using assms by (simp add: chain_wf_def)
  show ?thesis
  proof (cases "c_tail c = []")
    case False
    then obtain h where "c_head c = Some h" using st by (simp add: chain_struct_def)
    moreover obtain p c' where "WriteStream_loop ac mem src len 0 c = Some (p, c')" "chain_wf c'" "p \<le> len"
      "chain_bytes c' = chain_bytes c @ user_bytes mem src p" "user_readable mem src p"
      "(\<forall>a. ac a) \<and> user_readable mem src len \<longrightarrow> p = min len (kSizeMax - c_size c)"
      using WriteStream_loop_ok [OF assms False, of 0 len ac mem src] by auto
    ultimately show ?thesis
      by (intro exI [of _ "if p = 0 then Inl ZX_ERR_SHOULD_WAIT else Inr p"] exI [of _ c'] exI [of _ p])
         (simp add: WriteStream_def size)
  next
    case True
    then have hd: "c_head c = None" using st by (simp add: chain_struct_def)
    obtain x c2 where al: "AllocMBuf ac c = (x, c2)" by (rule prod.exhaust)
    note a = AllocMBuf_struct [OF st, of ac, unfolded al]
    show ?thesis
    proof (cases x)
      case None
      then have "\<not> ac (c_next c)" using al by (simp add: AllocMBuf_def split: list.splits if_splits)
      with None a al hd assms show ?thesis by (auto simp: WriteStream_def)
    next
      case (Some y)
      with a have y: "chain_struct [y] c2" "mb_off y = 0" "mb_len y = 0" "c_tail c2 = []" "c_size c2 = c_size c"
        "c_head c2 = None" using True hd by auto
      define c3 where "c3 = c2\<lparr>c_tail := y # c_tail c2, c_head := Some (mb_addr y)\<rparr>"
      have "chain_struct [] c3" using y(1,4) by (auto simp: chain_struct_def c3_def)
      moreover have "c_size c = 0" using assms True by (simp add: chain_wf_def)
      ultimately have "chain_wf c3" using y by (simp add: chain_wf_def c3_def)
      moreover have "chain_bytes c3 = chain_bytes c"
        using y True by (simp add: chain_bytes_def c3_def mbuf_bytes_def)
      moreover have "c_tail c3 \<noteq> []" "c_size c3 = c_size c" using y by (simp_all add: c3_def)
      ultimately obtain p c' where "WriteStream_loop ac mem src len 0 c3 = Some (p, c')" "chain_wf c'" "p \<le> len"
        "chain_bytes c' = chain_bytes c @ user_bytes mem src p" "user_readable mem src p"
        "(\<forall>a. ac a) \<and> user_readable mem src len \<longrightarrow> p = min len (kSizeMax - c_size c)"
        using WriteStream_loop_ok [of c3 0 len ac mem src] by auto
      then show ?thesis
        using al Some hd
        by (intro exI [of _ "if p = 0 then Inl ZX_ERR_SHOULD_WAIT else Inr p"] exI [of _ c'] exI [of _ p])
           (simp add: WriteStream_def size c3_def)
    qed
  qed
qed

lemma c_size_pop_consume:
  "c_size (MBufChain_pop_front c) = c_size c - mb_len (hd (c_tail c))"
  "c_size (MBuf_consume n c) = c_size c - n"
  by (simp_all add: MBuf_consume_def MBufChain_pop_front_def FreeMBuf_def Let_def)

lemma MBuf_read_loop_wf:
  assumes "chain_wf c" "MBuf_read_loop wr dst len dg pos c = (d, p, out, c')"
  shows "chain_wf c' \<and> pos \<le> p \<and> c_size c' + (p - pos) \<le> c_size c"
  using assms
proof (induction "c_tail c" arbitrary: c pos out)
  case Nil
  then show ?case by (simp add: MBuf_read_loop_Nil)
next
  case (Cons b rest)
  note t = Cons.hyps(2) [symmetric]
  show ?case
  proof (cases "pos < len")
    case False
    with Cons.prems show ?thesis by (simp add: MBuf_read_loop_stop)
  next
    case True
    define n where "n = min (mb_len b) (len - pos)"
    define c2 where "c2 = (if n = mb_len b \<or> dg then MBufChain_pop_front (MBuf_consume n c) else MBuf_consume n c)"
    note step = MBuf_read_loop_step [OF t True, of wr dst dg, folded n_def, folded c2_def]
    have n: "n \<le> mb_len b" "mb_len b \<le> c_size c" using Cons.prems(1) by (auto simp: n_def chain_wf_def t)
    note cw = chain_wf_consume(1) [OF Cons.prems(1) t n(1)]
    show ?thesis
    proof (cases "user_writable wr (dst + pos) n")
      case False
      with step Cons.prems show ?thesis by simp
    next
      case wr: True
      then obtain out' where rec: "MBuf_read_loop wr dst len dg (pos + n) c2 = (d, p, out', c')"
        using step Cons.prems by (auto split: prod.splits)
      have c2: "chain_wf c2" "c_size c2 + n \<le> c_size c"
        using cw chain_wf_pop [OF cw] c_tail_consume [OF t, of n] n
        by (auto simp: c2_def c_size_pop_consume)
      have "chain_wf c' \<and> pos + n \<le> p \<and> c_size c' + (p - (pos + n)) \<le> c_size c2"
      proof (cases "n = mb_len b \<or> dg")
        case True
        then have "rest = c_tail c2" using c_tail_consume [OF t, of n] by (auto simp: c2_def)
        from Cons.hyps(1) [OF this c2(1) rec] show ?thesis .
      next
        case False
        then have "\<not> pos + n < len" by (auto simp: n_def)
        with rec c2(1) show ?thesis by (simp add: MBuf_read_loop_stop)
      qed
      then have "chain_wf c'" "pos + n \<le> p" "c_size c' + (p - (pos + n)) \<le> c_size c2" by blast+
      with c2(2) show ?thesis by linarith
    qed
  qed
qed

lemma MBuf_drain_size: "c_size (MBuf_drain c) \<le> c_size c"
proof (induction c rule: MBuf_drain.induct)
  case (1 c)
  have "c_size (MBufChain_pop_front c) \<le> c_size c"
    by (simp add: MBufChain_pop_front_def FreeMBuf_def Let_def)
  with 1 show ?case by (subst MBuf_drain.simps) (auto intro: le_trans)
qed

text \<open>What the socket relies on: the accounting of a read and of a write.\<close>

lemma MBufChain_Read_size:
  assumes "chain_wf c" "MBufChain_Read wr dst len dg c = (st, out, c')"
  shows "chain_wf c'" "c_size c' + st \<le> c_size c" "\<not> dg \<Longrightarrow> c_size c' + st = c_size c"
proof -
  have "chain_wf c' \<and> c_size c' + st \<le> c_size c \<and> (\<not> dg \<longrightarrow> c_size c' + st = c_size c)"
  proof (cases "c_size c = 0")
    case True
    with assms show ?thesis by (simp add: MBufChain_Read_def)
  next
    case False
    define l where "l = MBuf_clip dg len c"
    obtain d p o1 c1 where L: "MBuf_read_loop wr dst l dg 0 c = (d, p, o1, c1)" by (metis prod_cases4)
    with assms(2) False have st: "st = p" "c' = (if d \<and> dg then MBuf_drain c1 else c1)"
      by (auto simp: MBufChain_Read_def l_def [symmetric])
    have g: "chain_wf c1" "c_size c1 + p \<le> c_size c" using MBuf_read_loop_wf [OF assms(1) L] by auto
    have "c_size c1 + p = c_size c" if "\<not> dg"
      using MBuf_read_loop_stream [OF assms(1), of 0 l wr dst d p o1 c1] L that
        chain_wf_bytes [OF g(1)] chain_wf_bytes [OF assms(1)] by auto
    with g show ?thesis
      using chain_wf_drain [OF g(1)] MBuf_drain_size [of c1] by (auto simp: st)
  qed
  then show "chain_wf c'" "c_size c' + st \<le> c_size c" "\<not> dg \<Longrightarrow> c_size c' + st = c_size c" by auto
qed

lemma MBufChain_Write_size:
  assumes "chain_wf c"
  shows "\<exists>r c'. (if dg then Some (WriteDatagram ac mem src len c) else WriteStream ac mem src len c) = Some (r, c') \<and>
    chain_wf c' \<and>
    (case r of Inl e \<Rightarrow> c_size c' = c_size c | Inr st \<Rightarrow> 0 < st \<and> c_size c' = c_size c + st)"
proof (cases dg)
  case True
  obtain r c' where "WriteDatagram ac mem src len c = (r, c')" by (rule prod.exhaust)
  with WriteDatagram_cases [OF assms this] True show ?thesis by (auto split: sum.splits)
next
  case False
  obtain r c' n where w: "WriteStream ac mem src len c = Some (r, c')" "chain_wf c'"
    "r = (if n = 0 then Inl ZX_ERR_SHOULD_WAIT else Inr n)"
    "chain_bytes c' = chain_bytes c @ user_bytes mem src n" "user_readable mem src n"
    using WriteStream_appends [OF assms, of ac mem src len] by auto
  have "c_size c' = c_size c + n"
    using arg_cong [OF w(4), of length] w(5) chain_wf_bytes [OF w(2)] chain_wf_bytes [OF assms] by simp
  with w False show ?thesis by auto
qed

lemma MBufChain_Read_prefix:
  assumes "chain_wf c" "MBufChain_Read wr dst len False c = (n, out, c')"
  shows "chain_wf c' \<and> chain_bytes c' = drop n (chain_bytes c) \<and> take n out = take n (chain_bytes c) \<and>
    (user_writable wr dst (min len (length (chain_bytes c))) \<longrightarrow>
       n = min len (length (chain_bytes c)) \<and> out = take n (chain_bytes c))"
proof -
  note size = chain_wf_bytes [OF assms(1)]
  show ?thesis
  proof (cases "c_size c = 0")
    case True
    with assms size show ?thesis by (auto simp: MBufChain_Read_def)
  next
    case False
    with assms(2) obtain d where "MBuf_read_loop wr dst len False 0 c = (d, n, out, c')"
      by (auto simp: MBufChain_Read_def MBuf_clip_def split: prod.splits)
    from MBuf_read_loop_stream [OF assms(1) _ this] size show ?thesis
      by (auto simp: take_all_iff)
  qed
qed

section \<open>Properties\<close>

text \<open>C20. \<open>MBufChain::WriteStream\<close> always returns and keeps the chain well formed. What it appends
  is a prefix of the user data, whose length it reports, or nothing, in which case it asks the
  caller to wait; with memory to allocate and a readable buffer, that prefix is everything up
  to the capacity \<open>kSizeMax\<close>.\<close>

theorem WriteStream_correct:
  assumes "chain_wf c"
  shows "\<exists>r c' n. WriteStream ac mem src len c = Some (r, c') \<and> chain_wf c' \<and> n \<le> len \<and>
    r = (if n = 0 then Inl ZX_ERR_SHOULD_WAIT else Inr n) \<and>
    chain_bytes c' = chain_bytes c @ user_bytes mem src n \<and> user_readable mem src n \<and>
    ((\<forall>a. ac a) \<and> user_readable mem src len \<longrightarrow> n = min len (kSizeMax - length (chain_bytes c)))"
  by (rule WriteStream_appends [OF assms])

lemma MBufChain_new_wf: "chain_wf MBufChain_new"
  by (simp add: chain_wf_def chain_struct_def MBufChain_new_def)

theorem WriteStream_correct_witness:
  "\<exists>c'. WriteStream (\<lambda>_. True) (mem_of [1, 2, 3]) 0 3 MBufChain_new = Some (Inr 3, c') \<and>
     chain_bytes c' = [1, 2, 3]"
proof -
  have rd: "user_readable (mem_of [1, 2, 3]) 0 3" by (rule mem_of_readable) simp
  have bytes: "user_bytes (mem_of [1, 2, 3]) 0 3 = [1, 2, 3]" by code_simp
  have k: "3 \<le> kSizeMax" "chain_bytes MBufChain_new = []"
    by (simp_all add: kSizeMax_def kPayloadSize_def kMallocSize_def kHeaderSize_def chain_bytes_def MBufChain_new_def)
  show ?thesis
    using WriteStream_correct [OF MBufChain_new_wf, of "\<lambda>_. True" "mem_of [1, 2, 3]" 0 3] rd bytes k
    by (auto simp: min_absorb1)
qed

text \<open>C21. In stream mode \<open>MBufChain::Read\<close> removes a prefix of the stored bytes and delivers exactly
  that prefix; when the user buffer is writable the prefix is as long as both the request and
  the chain allow. The chain stays well formed also when the user buffer faults.\<close>

theorem MBufChain_Read_stream:
  assumes "chain_wf c" "MBufChain_Read wr dst len False c = (n, out, c')"
  shows "chain_wf c' \<and> chain_bytes c' = drop n (chain_bytes c) \<and> take n out = take n (chain_bytes c) \<and>
    (user_writable wr dst (min len (length (chain_bytes c))) \<longrightarrow>
       n = min len (length (chain_bytes c)) \<and> out = take n (chain_bytes c))"
  by (rule MBufChain_Read_prefix [OF assms])

theorem MBufChain_Read_stream_witness:
  "chain_wf MBufChain_new \<and> chain_bytes (snd (snd (MBufChain_Read (\<lambda>_. True) 0 5 False MBufChain_new))) = []"
proof -
  have eq: "MBufChain_Read (\<lambda>_. True) 0 5 False MBufChain_new = (0, [], MBufChain_new)"
    by (simp add: MBufChain_Read_def MBufChain_new_def)
  show ?thesis
    using MBufChain_Read_stream [OF MBufChain_new_wf eq] MBufChain_new_wf
    by (simp add: eq) (simp add: chain_bytes_def MBufChain_new_def)
qed

text \<open>C22. \<open>MBufChain::WriteDatagram\<close> is atomic: when it fails, the stored datagrams are as before and
  the buffers are back on the free list. When it succeeds the whole datagram has been appended
  as one packet, provided it fits one buffer or no recycled buffer carries an old packet length.\<close>

theorem WriteDatagram_correct:
  assumes "chain_wf c" "dgram_ok (c_tail c)" "WriteDatagram ac mem src len c = (r, c')"
  shows "chain_wf c' \<and>
    (case r of
       Inl e \<Rightarrow> packets (c_tail c') = packets (c_tail c) \<and> c_size c' = c_size c
     | Inr n \<Rightarrow> n = len \<and> 0 < len \<and> c_size c' = c_size c + len \<and>
         (len \<le> kPayloadSize \<or> list_all is_body (c_freelist c) \<longrightarrow>
            dgram_ok (c_tail c') \<and> packets (c_tail c') = packets (c_tail c) @ [user_bytes mem src len]))"
proof (cases r)
  case (Inl e)
  with WriteDatagram_cases [OF assms(1,3)] show ?thesis by simp
next
  case (Inr n)
  with WriteDatagram_cases [OF assms(1,3)] obtain h body where
    w: "chain_wf c'" "n = len" "0 < len" "c_size c' = c_size c + len" and
    hb: "c_tail c' = c_tail c @ h # body" "mb_pkt_len h = len" "length body = (len - 1) div kPayloadSize"
      "bufs_bytes (h # body) = user_bytes mem src len" "bufs_len (h # body) = len"
      "list_all is_body (c_freelist c) \<longrightarrow> list_all is_body body"
    by auto
  have one: "body = []" if "len \<le> kPayloadSize"
  proof -
    have "len - 1 < kPayloadSize" using that kPayloadSize_pos by linarith
    with hb(3) show ?thesis by simp
  qed
  have "dgram_ok (c_tail c') \<and> packets (c_tail c') = packets (c_tail c) @ [user_bytes mem src len]"
    if "len \<le> kPayloadSize \<or> list_all is_body (c_freelist c)"
  proof -
    have "list_all is_body body" using that one hb(6) by auto
    then have tw: "takeWhile is_body body = body" "dropWhile is_body body = []"
      by (auto simp: list_all_iff)
    have nb: "\<not> is_body h" using w(3) hb(2) by simp
    show ?thesis
      unfolding hb(1) packets_append [OF nb] dgram_ok_append [OF nb] packets.simps dgram_ok.simps tw
      using hb(2,4,5) w(3) assms(2) by simp
  qed
  with w Inr show ?thesis by simp
qed

lemma dgram_ok_new: "dgram_ok (c_tail MBufChain_new)" "list_all is_body (c_freelist MBufChain_new)"
  "packets (c_tail MBufChain_new) = []"
  by (simp_all add: MBufChain_new_def)

theorem WriteDatagram_correct_witness:
  "\<exists>c'. WriteDatagram (\<lambda>_. True) (mem_of [1, 2, 3]) 0 3 MBufChain_new = (Inr 3, c') \<and>
     packets (c_tail c') = [[1, 2, 3]]"
proof -
  obtain r c' where eq: "WriteDatagram (\<lambda>_. True) (mem_of [1, 2, 3]) 0 3 MBufChain_new = (r, c')"
    by (rule prod.exhaust)
  have "3 \<le> kSizeMax" "3 \<le> kPayloadSize" "user_readable (mem_of [1, 2, 3]) 0 3"
    by (simp_all add: kSizeMax_def kPayloadSize_def kMallocSize_def kHeaderSize_def mem_of_readable)
  then have "r = Inr 3"
    using eq by (simp add: WriteDatagram_def MBufChain_new_def AllocMBuf_def Let_def min_absorb2 split: if_splits)
  moreover have "user_bytes (mem_of [1, 2, 3]) 0 3 = [1, 2, 3]" by code_simp
  ultimately show ?thesis
    using WriteDatagram_correct [OF MBufChain_new_wf dgram_ok_new(1) eq] dgram_ok_new eq by simp
qed


text \<open>The chain after writing one datagram of \<open>n\<close> bytes, for the examples.\<close>

definition dgram_example :: "nat \<Rightarrow> mbufchain \<Rightarrow> mbufchain" where
  "dgram_example n c = snd (WriteDatagram (\<lambda>_. True) (\<lambda>_. Some 7) 0 n c)"

lemma user_example: "user_readable (\<lambda>_. Some 7) off n" "user_bytes (\<lambda>_. Some 7) off n = replicate n 7"
proof -
  show "user_bytes (\<lambda>_. Some 7) off n = replicate n 7" by (induction n arbitrary: off) auto
  then show "user_readable (\<lambda>_. Some 7) off n" by (simp add: user_readable_def)
qed

definition buf1 :: mbuf where
  "buf1 = \<lparr>mb_addr = 0, mb_off = 0, mb_len = 1, mb_pkt_len = 1, mb_data = 7 # replicate (kPayloadSize - 1) 0\<rparr>"

lemma dgram_example_1:
  "dgram_example 1 MBufChain_new =
     \<lparr>c_freelist = [], c_tail = [buf1], c_head = Some 0, c_size = 1, c_next = 1\<rparr>"
proof -
  have k: "1 \<le> kSizeMax" "min kPayloadSize 1 = 1" "(0 :: nat) div kPayloadSize = 0"
    by (simp_all add: kSizeMax_def kPayloadSize_def kMallocSize_def kHeaderSize_def)
  have ow: "overwrite (replicate kPayloadSize 0) 0 [7] = 7 # replicate (kPayloadSize - 1) (0 :: byte)"
    using kPayloadSize_pos by (cases kPayloadSize) (simp_all add: overwrite_def)
  show ?thesis
    using k ow by (simp add: dgram_example_def WriteDatagram_def MBufChain_new_def AllocMBuf_def MBuf_new_def
        user_example MBufChain_link_def Let_def buf1_def)
qed


definition read1 :: "mbufchain \<Rightarrow> nat \<times> byte list \<times> mbufchain" where
  "read1 c = MBufChain_Read (\<lambda>_. True) 0 1 True c"

lemma read1_example:
  "read1 (dgram_example 1 MBufChain_new) =
     (1, [7], \<lparr>c_freelist = [buf1\<lparr>mb_len := 0\<rparr>], c_tail = [], c_head = None, c_size = 0, c_next = 1\<rparr>)"
  unfolding dgram_example_1
  by (simp add: read1_def MBufChain_Read_def MBuf_clip_def buf1_def MBuf_read_loop.simps MBuf_drain.simps
      MBufChain_pop_front_def FreeMBuf_def user_writable_def Let_def)

lemma dgram_example_2:
  "dgram_example (kPayloadSize + 1) (snd (snd (read1 (dgram_example 1 MBufChain_new)))) =
     \<lparr>c_freelist = [],
      c_tail = [\<lparr>mb_addr = 1, mb_off = 0, mb_len = kPayloadSize, mb_pkt_len = kPayloadSize + 1,
                 mb_data = replicate kPayloadSize 7\<rparr>, buf1],
      c_head = Some 0, c_size = kPayloadSize + 1, c_next = 2\<rparr>"
proof -
  have k: "kPayloadSize + 1 \<le> kSizeMax" "min kPayloadSize (kPayloadSize + 1) = kPayloadSize"
    "min kPayloadSize 1 = 1" "Suc kPayloadSize \<le> kSizeMax"
    by (simp_all add: kSizeMax_def kPayloadSize_def kMallocSize_def kHeaderSize_def)
  have ow: "overwrite (replicate kPayloadSize 0) 0 (replicate kPayloadSize 7) = replicate kPayloadSize (7 :: byte)"
    "overwrite (7 # replicate (kPayloadSize - Suc 0) 0) 0 [7] = 7 # replicate (kPayloadSize - Suc 0) (0 :: byte)"
    by (simp_all add: overwrite_def)
  show ?thesis
    unfolding read1_example unfolding dgram_example_def
    using k ow by (simp add: WriteDatagram_def AllocMBuf_def MBuf_new_def user_example MBufChain_link_def
        Let_def buf1_def numeral_2_eq_2)
qed

lemma bufs_len_le: "list_all mbuf_ok bs \<Longrightarrow> bufs_len bs \<le> length bs * kPayloadSize"
  by (induction bs) (auto simp: mbuf_ok_def)

lemma bufs_bytes_drop:
  "list_all mbuf_ok bs \<Longrightarrow> bufs_bytes (drop i bs) = drop (bufs_len (take i bs)) (bufs_bytes bs)"
  by (induction bs arbitrary: i) (auto simp: drop_Cons' take_Cons')

text \<open>C24. A buffer that once headed a datagram keeps its old packet length on the free list. When it is at the
  front of that list, the next datagram of more than one buffer has it as its last buffer, and ends early:
  whenever such a datagram is written to an empty chain and read into a buffer at least \<open>kPayloadSize\<close> bytes
  shorter than it, the read delivers its front, but a tail of the datagram stays in the chain as if
  it were a datagram of its own, and the next read delivers bytes of it, although the rest of
  a partially read datagram is to be discarded.\<close>

theorem datagram_truncation_leaves_bytes:
  assumes "chain_wf c" "c_tail c = []" "c_freelist c = f # fs" "mb_pkt_len f \<noteq> 0"
    and "WriteDatagram ac mem src len c = (Inr len, c1)" "MBufChain_Read wr dst n True c1 = (r, out, c2)"
    and "0 < n" "n + kPayloadSize \<le> len" "user_writable wr dst n"
  shows "r = n \<and> out = take n (user_bytes mem src len) \<and>
    (\<exists>j. n \<le> j \<and> j < len \<and> chain_bytes c2 = drop j (user_bytes mem src len)) \<and>
    MBufChain_size True c2 \<noteq> 0 \<and> (\<forall>m > 0. 0 < fst (MBufChain_Read (\<lambda>_. True) 0 m True c2))"
proof -
  from WriteDatagram_cases [OF assms(1,5)] assms(2,3) obtain h body where
    wf: "chain_wf c1" and t: "c_tail c1 = h # body" and h: "mb_pkt_len h = len"
    and body: "length body = (len - 1) div kPayloadSize" "bufs_bytes (h # body) = user_bytes mem src len"
      "bufs_len (h # body) = len" "body \<noteq> [] \<longrightarrow> mb_pkt_len (last body) = mb_pkt_len f"
    by auto
  have ok: "list_all mbuf_ok (c_tail c1)" using wf by (simp add: chain_wf_def chain_struct_def)
  have "kPayloadSize \<le> len - 1" using assms(7,8) by linarith
  then have ne: "body \<noteq> []" using kPayloadSize_pos body(1) div_greater_zero_iff [of "len - 1" kPayloadSize] by auto
  have csz: "c_size c1 = len" using wf body(3) by (simp add: chain_wf_def t)
  let ?pre = "butlast (c_tail c1)"
  have pre: "bufs_len ?pre + mb_len (last body) = len"
    using ne body(3) unfolding t by (cases body rule: rev_cases) simp_all
  have "mb_len (last body) \<le> kPayloadSize"
    using ok last_in_set [OF ne] by (auto simp: t list_all_iff mbuf_ok_def)
  then have le: "n \<le> bufs_len ?pre" using pre assms(8) by linarith
  have "list_all mbuf_ok ?pre" using ok by (auto simp: list_all_iff dest: in_set_butlastD)
  moreover have "length ?pre = (len - 1) div kPayloadSize" unfolding t length_butlast using body(1) by simp
  ultimately have "bufs_len ?pre \<le> (len - 1) div kPayloadSize * kPayloadSize" using bufs_len_le [of ?pre] by (simp only:)
  then have lt: "bufs_len ?pre < len"
    using div_times_less_eq_dividend [of "len - 1" kPayloadSize] assms(7,8) by linarith
  obtain i where r: "r = n" "out = take n (chain_bytes c1)" "chain_wf c2" "c_tail c2 = drop i (c_tail c1)"
    "i < length (c_tail c1)" "n \<le> bufs_len (take i (c_tail c1))" "\<not> is_body (hd (c_tail c2))"
    using MBufChain_Read_stale [OF wf t _ _ assms(7) le assms(9)] assms(4,6) h csz body(4) ne t by auto
  have j: "bufs_len (take i (c_tail c1)) < len"
    using bufs_len_take_mono [of i "length (c_tail c1) - 1" "c_tail c1"] lt r(5) unfolding butlast_conv_take by linarith
  have bytes: "chain_bytes c2 = drop (bufs_len (take i (c_tail c1))) (user_bytes mem src len)"
    using bufs_bytes_drop [OF ok, of i] body(2) by (simp only: chain_bytes_def r(4)) (simp only: t)
  have "bufs_len (take i (c_tail c1)) + bufs_len (c_tail c2) = len"
    unfolding r(4) using body(3) by (simp only: t sum_list_append [symmetric] map_append [symmetric] append_take_drop_id)
  then have "c_size c2 \<noteq> 0" using r(3) j unfolding chain_wf_def by linarith
  moreover have "chain_bytes c1 = user_bytes mem src len" using body(2) unfolding chain_bytes_def t .
  ultimately show ?thesis
    using r bytes j MBufChain_Read_progress [OF r(3), of _ 0]
    by (auto simp: t MBufChain_size_def intro!: exI [of _ "bufs_len (take i (c_tail c1))"])
qed

theorem datagram_truncation_leaves_bytes_witness:
  "let c1 = dgram_example (kPayloadSize + 1) (snd (snd (read1 (dgram_example 1 MBufChain_new)))); (r, out, c2) = read1 c1 in
     r = 1 \<and> out = [7] \<and> MBufChain_size True c2 \<noteq> 0"
proof -
  let ?c = "snd (snd (read1 (dgram_example 1 MBufChain_new)))"
  let ?c1 = "dgram_example (kPayloadSize + 1) ?c"
  have "chain_wf ?c" "c_tail ?c = []" "c_freelist ?c = [buf1\<lparr>mb_len := 0\<rparr>]" "mb_pkt_len (buf1\<lparr>mb_len := 0\<rparr>) \<noteq> 0"
    using kPayloadSize_pos unfolding read1_example by (simp_all add: chain_wf_def chain_struct_def mbuf_ok_def buf1_def)
  moreover have "WriteDatagram (\<lambda>_. True) (\<lambda>_. Some 7) 0 (kPayloadSize + 1) ?c = (Inr (kPayloadSize + 1), ?c1)"
  proof (rule prod_eqI)
    have "Suc kPayloadSize \<le> kSizeMax" by (simp add: kSizeMax_def kPayloadSize_def kMallocSize_def kHeaderSize_def)
    then show "fst (WriteDatagram (\<lambda>_. True) (\<lambda>_. Some 7) 0 (kPayloadSize + 1) ?c) = fst (Inr (kPayloadSize + 1), ?c1)"
      unfolding read1_example
      by (simp add: WriteDatagram_def AllocMBuf_def MBuf_new_def user_example MBufChain_link_def Let_def numeral_2_eq_2)
  qed (simp add: dgram_example_def)
  moreover obtain r out c2 where "read1 ?c1 = (r, out, c2)" by (rule prod_cases3)
  ultimately show ?thesis
    using datagram_truncation_leaves_bytes [of ?c "buf1\<lparr>mb_len := 0\<rparr>" "[]" "\<lambda>_. True" "\<lambda>_. Some 7" 0 "kPayloadSize + 1" ?c1
        "\<lambda>_. True" 0 1 r out c2]
    by (simp add: read1_def user_writable_def user_example)
qed

lemma MBuf_peek_loop_stop: "\<not> pos < len \<Longrightarrow> MBuf_peek_loop wr dst len pos bs = (pos, [])"
  by (cases bs) auto

lemma MBuf_peek_read_loop:
  "MBuf_read_loop wr dst len dg pos c = (d, p, out, c') \<Longrightarrow>
   MBuf_peek_loop wr dst len pos (c_tail c) = (p, out)"
proof (induction "c_tail c" arbitrary: c pos out)
  case Nil
  then show ?case by (simp add: MBuf_read_loop_Nil)
next
  case (Cons b rest)
  note t = Cons.hyps(2) [symmetric]
  show ?case
  proof (cases "pos < len")
    case False
    with Cons.prems t show ?thesis by (simp add: MBuf_read_loop_stop)
  next
    case True
    define n where "n = min (mb_len b) (len - pos)"
    define c2 where "c2 = (if n = mb_len b \<or> dg then MBufChain_pop_front (MBuf_consume n c) else MBuf_consume n c)"
    note step = MBuf_read_loop_step [OF t True, of wr dst dg, folded n_def, folded c2_def]
    show ?thesis
    proof (cases "user_writable wr (dst + pos) n")
      case False
      with step Cons.prems True show ?thesis by (simp add: t n_def [symmetric] Let_def)
    next
      case wr: True
      then obtain out' where rec: "MBuf_read_loop wr dst len dg (pos + n) c2 = (d, p, out', c')"
        and out: "out = take n (drop (mb_off b) (mb_data b)) @ out'"
        using step Cons.prems by (auto split: prod.splits)
      have "MBuf_peek_loop wr dst len (pos + n) rest = (p, out')"
      proof (cases "n = mb_len b \<or> dg")
        case True
        then have "rest = c_tail c2" using c_tail_consume [OF t, of n] by (auto simp: c2_def)
        with Cons.hyps(1) [OF this rec] show ?thesis by simp
      next
        case False
        then have "\<not> pos + n < len" by (auto simp: n_def)
        with rec show ?thesis by (simp add: MBuf_read_loop_stop MBuf_peek_loop_stop)
      qed
      with True wr show ?thesis by (simp add: t n_def [symmetric] Let_def out)
    qed
  qed
qed

text \<open>\<open>MBufChain::Peek\<close> reports and delivers exactly what \<open>MBufChain::Read\<close> with the same
  arguments would, in both modes and also on a faulting user buffer.\<close>

theorem MBufChain_Peek_Read:
  "MBufChain_Peek wr dst len datagram c =
     (fst (MBufChain_Read wr dst len datagram c), fst (snd (MBufChain_Read wr dst len datagram c)))"
  using MBuf_peek_read_loop [of wr dst "MBuf_clip datagram len c" datagram 0 c]
  by (auto simp: MBufChain_Peek_def MBufChain_Read_def split: prod.splits)

end
