(* ===== verification/Zx_Socket.thy ===== *)
theory Zx_Socket
  imports Zx_Dispatcher Zx_Mbuf
begin

unbundle bit_operations_syntax

text \<open>
  Sockets, \<^verbatim>\<open>kernel/object/socket_dispatcher.cpp\<close>: a pair of endpoints, each with the chain of
  bytes or datagrams it will read, a control message, a one-element queue of shared handles,
  read and write thresholds and the shutdown state. The theory shows that the signals of both
  endpoints report that state exactly, after every sequence of operations.

  Lengths are natural numbers; the conversions to 32 bits that the code checks are written out.
  A handle in the accept queue is named by a number. A control buffer that was not allocated
  is \<open>None\<close>, and an operation that would use it has no result.
\<close>

section \<open>State and construction\<close>

abbreviation ZX_SOCKET_READABLE :: zx_signals where "ZX_SOCKET_READABLE \<equiv> ZX_OBJECT_READABLE"
abbreviation ZX_SOCKET_WRITABLE :: zx_signals where "ZX_SOCKET_WRITABLE \<equiv> ZX_OBJECT_WRITABLE"
abbreviation ZX_SOCKET_PEER_CLOSED :: zx_signals where "ZX_SOCKET_PEER_CLOSED \<equiv> ZX_OBJECT_PEER_CLOSED"
abbreviation ZX_SOCKET_PEER_WRITE_DISABLED :: zx_signals where
  "ZX_SOCKET_PEER_WRITE_DISABLED \<equiv> ZX_OBJECT_SIGNAL_4"
abbreviation ZX_SOCKET_WRITE_DISABLED :: zx_signals where "ZX_SOCKET_WRITE_DISABLED \<equiv> ZX_OBJECT_SIGNAL_5"
abbreviation ZX_SOCKET_CONTROL_READABLE :: zx_signals where "ZX_SOCKET_CONTROL_READABLE \<equiv> ZX_OBJECT_SIGNAL_6"
abbreviation ZX_SOCKET_CONTROL_WRITABLE :: zx_signals where "ZX_SOCKET_CONTROL_WRITABLE \<equiv> ZX_OBJECT_SIGNAL_7"
abbreviation ZX_SOCKET_ACCEPT :: zx_signals where "ZX_SOCKET_ACCEPT \<equiv> ZX_OBJECT_SIGNAL_8"
abbreviation ZX_SOCKET_SHARE :: zx_signals where "ZX_SOCKET_SHARE \<equiv> ZX_OBJECT_SIGNAL_9"
abbreviation ZX_SOCKET_READ_THRESHOLD :: zx_signals where "ZX_SOCKET_READ_THRESHOLD \<equiv> ZX_OBJECT_SIGNAL_10"
abbreviation ZX_SOCKET_WRITE_THRESHOLD :: zx_signals where "ZX_SOCKET_WRITE_THRESHOLD \<equiv> ZX_OBJECT_SIGNAL_11"

definition ZX_SOCKET_SHUTDOWN_WRITE :: u32 where "ZX_SOCKET_SHUTDOWN_WRITE = push_bit 0 1"
definition ZX_SOCKET_SHUTDOWN_READ :: u32 where "ZX_SOCKET_SHUTDOWN_READ = push_bit 1 1"
definition ZX_SOCKET_DATAGRAM :: u32 where "ZX_SOCKET_DATAGRAM = push_bit 0 1"
definition ZX_SOCKET_HAS_CONTROL :: u32 where "ZX_SOCKET_HAS_CONTROL = push_bit 1 1"
definition ZX_SOCKET_HAS_ACCEPT :: u32 where "ZX_SOCKET_HAS_ACCEPT = push_bit 2 1"
definition ZX_SOCKET_CREATE_MASK :: u32 where
  "ZX_SOCKET_CREATE_MASK = ZX_SOCKET_DATAGRAM OR ZX_SOCKET_HAS_CONTROL OR ZX_SOCKET_HAS_ACCEPT"

definition ControlMsg_kSize :: nat where
  "ControlMsg_kSize = 1024"

record 'o socket = "'o peered" +
  s_flags :: u32
  s_data :: mbufchain
  s_control_msg :: "byte list option"
  s_control_msg_len :: nat
  s_accept_queue :: "nat option"
  s_read_threshold :: nat
  s_write_threshold :: nat
  s_read_disabled :: bool

datatype plane = kData | kControl
datatype read_type = kConsume | kPeek

definition Socket_new ::
  "zx_signals \<Rightarrow> u32 \<Rightarrow> byte list option \<Rightarrow> zx_koid \<Rightarrow> 'o socket \<times> zx_koid" where
  "Socket_new starting_signals flags control_msg global_koid =
     (let (k, g) = GenerateKernelObjectId global_koid in
      (\<lparr>d_koid = k, d_handle_count = 0, d_signals = starting_signals, d_observers = [],
        p_peer = False, p_peer_koid = ZX_KOID_INVALID,
        s_flags = flags, s_data = MBufChain_new, s_control_msg = control_msg, s_control_msg_len = 0,
        s_accept_queue = None, s_read_threshold = 0, s_write_threshold = 0, s_read_disabled = False\<rparr>, g))"

definition Socket_Init :: "'o socket \<Rightarrow> 'o socket \<Rightarrow> 'o socket" where
  "Socket_Init other_end x = x\<lparr>p_peer := True, p_peer_koid := d_koid other_end\<rparr>"

text \<open>\<open>ac i\<close> tells whether the \<open>i\<close>-th allocation succeeds, counting the two control buffers, the
  peer holder and the two endpoints; \<open>uninit s\<close> is the content of a fresh control buffer.\<close>

definition Socket_Create ::
  "(nat \<Rightarrow> bool) \<Rightarrow> (side \<Rightarrow> nat \<Rightarrow> byte) \<Rightarrow> u32 \<Rightarrow> zx_koid \<Rightarrow>
   (zx_status + (side \<Rightarrow> 'o socket)) \<times> zx_koid" where
  "Socket_Create ac uninit flags global_koid =
     (if flags AND NOT ZX_SOCKET_CREATE_MASK \<noteq> 0 then (Inl ZX_ERR_INVALID_ARGS, global_koid)
      else
        let has_control = has_signal flags ZX_SOCKET_HAS_CONTROL;
            starting_signals = ZX_SOCKET_WRITABLE
              OR (if has_signal flags ZX_SOCKET_HAS_ACCEPT then ZX_SOCKET_SHARE else 0)
              OR (if has_control then ZX_SOCKET_CONTROL_WRITABLE else 0);
            control = (\<lambda>s. if has_control then Some (map (uninit s) [0..<ControlMsg_kSize]) else None) in
        if has_control \<and> \<not> ac 0 then (Inl ZX_ERR_NO_MEMORY, global_koid)
        else if has_control \<and> \<not> ac 1 then (Inl ZX_ERR_NO_MEMORY, global_koid)
        else if \<not> ac 2 then (Inl ZX_ERR_NO_MEMORY, global_koid)
        else if \<not> ac 3 then (Inl ZX_ERR_NO_MEMORY, global_koid)
        else
          let (socket0, g1) = Socket_new starting_signals flags (control E0) global_koid in
          if \<not> ac 4 then (Inl ZX_ERR_NO_MEMORY, g1)
          else
            let (socket1, g2) = Socket_new starting_signals flags (control E1) g1;
                socket0' = Socket_Init socket1 socket0;
                socket1' = Socket_Init socket0' socket1 in
            (Inr (\<lambda>s. case s of E0 \<Rightarrow> socket0' | E1 \<Rightarrow> socket1'), g2))"

definition Socket_on_zero_handles_locked ::
  "side \<Rightarrow> (side \<Rightarrow> 'o socket) \<Rightarrow> 'w \<Rightarrow> (side \<Rightarrow> 'o socket) \<times> 'w" where
  "Socket_on_zero_handles_locked s p w = (p, w)"

text \<open>Most operations end with a state update of one endpoint of the pair.\<close>

definition Socket_update ::
  "('o, 'w) observer_ops \<Rightarrow> side \<Rightarrow> zx_signals \<Rightarrow> zx_signals \<Rightarrow> (side \<Rightarrow> 'o socket) \<Rightarrow> 'w \<Rightarrow>
   (side \<Rightarrow> 'o socket) \<times> 'w" where
  "Socket_update ops s clear_mask set_mask p w =
     (let (x, w') = UpdateStateLocked ops clear_mask set_mask (p s) w in (p(s := x), w'))"

definition Socket_OnPeerZeroHandlesLocked ::
  "('o, 'w) observer_ops \<Rightarrow> side \<Rightarrow> (side \<Rightarrow> 'o socket) \<Rightarrow> 'w \<Rightarrow> (side \<Rightarrow> 'o socket) \<times> 'w" where
  "Socket_OnPeerZeroHandlesLocked ops s p w =
     Socket_update ops s ZX_SOCKET_WRITABLE ZX_SOCKET_PEER_CLOSED p w"

definition Socket_on_zero_handles ::
  "('o, 'w) observer_ops \<Rightarrow> side \<Rightarrow> (side \<Rightarrow> 'o socket) \<Rightarrow> 'w \<Rightarrow> (side \<Rightarrow> 'o socket) \<times> 'w" where
  "Socket_on_zero_handles ops =
     Peered_on_zero_handles Socket_on_zero_handles_locked (Socket_OnPeerZeroHandlesLocked ops)"

definition Socket_UserSignalSelfLocked ::
  "('o, 'w) observer_ops \<Rightarrow> u32 \<Rightarrow> u32 \<Rightarrow> side \<Rightarrow> (side \<Rightarrow> 'o socket) \<Rightarrow> 'w \<Rightarrow>
   zx_status \<times> (side \<Rightarrow> 'o socket) \<times> 'w" where
  "Socket_UserSignalSelfLocked ops clear_mask set_mask s p w =
     (let (p', w') = Socket_update ops s clear_mask set_mask p w in (ZX_OK, p', w'))"

section \<open>Shutdown\<close>

definition ShutdownOtherLocked ::
  "('o, 'w) observer_ops \<Rightarrow> u32 \<Rightarrow> side \<Rightarrow> (side \<Rightarrow> 'o socket) \<Rightarrow> 'w \<Rightarrow>
   zx_status \<times> (side \<Rightarrow> 'o socket) \<times> 'w" where
  "ShutdownOtherLocked ops how s p w =
     (let shutdown_read = has_signal how ZX_SOCKET_SHUTDOWN_READ;
          shutdown_write = has_signal how ZX_SOCKET_SHUTDOWN_WRITE;
          clear_mask = (if shutdown_read then ZX_SOCKET_WRITABLE else 0);
          set_mask = (if shutdown_read then ZX_SOCKET_WRITE_DISABLED else 0)
                     OR (if shutdown_write then ZX_SOCKET_PEER_WRITE_DISABLED else 0);
          p1 = (if shutdown_write then p(s := (p s)\<lparr>s_read_disabled := True\<rparr>) else p);
          (p2, w2) = Socket_update ops s clear_mask set_mask p1 w in
      (ZX_OK, p2, w2))"

definition Socket_Shutdown ::
  "('o, 'w) observer_ops \<Rightarrow> u32 \<Rightarrow> side \<Rightarrow> (side \<Rightarrow> 'o socket) \<Rightarrow> 'w \<Rightarrow>
   zx_status \<times> (side \<Rightarrow> 'o socket) \<times> 'w" where
  "Socket_Shutdown ops how s p w =
     (let shutdown_read = has_signal how ZX_SOCKET_SHUTDOWN_READ;
          shutdown_write = has_signal how ZX_SOCKET_SHUTDOWN_WRITE;
          signals = d_signals (p s);
          want_signals = (if shutdown_read then ZX_SOCKET_PEER_WRITE_DISABLED else 0)
                         OR (if shutdown_write then ZX_SOCKET_WRITE_DISABLED else 0);
          have_signals = signals AND (ZX_SOCKET_PEER_WRITE_DISABLED OR ZX_SOCKET_WRITE_DISABLED) in
      if want_signals = have_signals then (ZX_OK, p, w)
      else
        let clear_mask = (if shutdown_write then ZX_SOCKET_WRITABLE else 0);
            set_mask = (if shutdown_read then ZX_SOCKET_PEER_WRITE_DISABLED else 0)
                       OR (if shutdown_write then ZX_SOCKET_WRITE_DISABLED else 0);
            p1 = (if shutdown_read then p(s := (p s)\<lparr>s_read_disabled := True\<rparr>) else p);
            (p2, w2) = Socket_update ops s clear_mask set_mask p1 w in
        if p_peer (p2 s) then ShutdownOtherLocked ops how (other s) p2 w2 else (ZX_OK, p2, w2))"

section \<open>Writing\<close>

definition WriteControlSelfLocked ::
  "('o, 'w) observer_ops \<Rightarrow> user_mem \<Rightarrow> side \<Rightarrow> nat \<Rightarrow> nat \<Rightarrow> (side \<Rightarrow> 'o socket) \<Rightarrow> 'w \<Rightarrow>
   (zx_status \<times> (side \<Rightarrow> 'o socket) \<times> 'w) option" where
  "WriteControlSelfLocked ops mem s src len p w =
     (if s_control_msg_len (p s) \<noteq> 0 then Some (ZX_ERR_SHOULD_WAIT, p, w)
      else
        case s_control_msg (p s) of
          None \<Rightarrow> None
        | Some msg \<Rightarrow>
            let x = (p s)\<lparr>s_control_msg := Some (overwrite msg 0 (user_bytes mem src len))\<rparr> in
            if \<not> user_readable mem src len then Some (ZX_ERR_INVALID_ARGS, p(s := x), w)
            else
              let p1 = p(s := x\<lparr>s_control_msg_len := len\<rparr>);
                  (p2, w2) = Socket_update ops s 0 ZX_SOCKET_CONTROL_READABLE p1 w;
                  (p3, w3) = (if p_peer (p2 s) then Socket_update ops (other s) ZX_SOCKET_CONTROL_WRITABLE 0 p2 w2
                              else (p2, w2)) in
              Some (ZX_OK, p3, w3))"

definition WriteControl ::
  "('o, 'w) observer_ops \<Rightarrow> user_mem \<Rightarrow> side \<Rightarrow> nat \<Rightarrow> nat \<Rightarrow> (side \<Rightarrow> 'o socket) \<Rightarrow> 'w \<Rightarrow>
   (zx_status \<times> (side \<Rightarrow> 'o socket) \<times> 'w) option" where
  "WriteControl ops mem s src len p w =
     (if \<not> has_signal (s_flags (p s)) ZX_SOCKET_HAS_CONTROL then Some (ZX_ERR_BAD_STATE, p, w)
      else if len = 0 then Some (ZX_ERR_INVALID_ARGS, p, w)
      else if len > ControlMsg_kSize then Some (ZX_ERR_OUT_OF_RANGE, p, w)
      else if \<not> p_peer (p s) then Some (ZX_ERR_PEER_CLOSED, p, w)
      else WriteControlSelfLocked ops mem (other s) src len p w)"

definition Socket_WriteSelfLocked ::
  "('o, 'w) observer_ops \<Rightarrow> (nat \<Rightarrow> bool) \<Rightarrow> user_mem \<Rightarrow> side \<Rightarrow> nat \<Rightarrow> nat \<Rightarrow> (side \<Rightarrow> 'o socket) \<Rightarrow> 'w \<Rightarrow>
   ((zx_status + nat) \<times> (side \<Rightarrow> 'o socket) \<times> 'w) option" where
  "Socket_WriteSelfLocked ops ac mem s src len p w =
     (let x = p s in
      if MBufChain_is_full (s_data x) then Some (Inl ZX_ERR_SHOULD_WAIT, p, w)
      else
        let was_empty = MBufChain_is_empty (s_data x) in
        case (if has_signal (s_flags x) ZX_SOCKET_DATAGRAM
              then Some (WriteDatagram ac mem src len (s_data x))
              else WriteStream ac mem src len (s_data x)) of
          None \<Rightarrow> None
        | Some (Inl status, data) \<Rightarrow> Some (Inl status, p(s := x\<lparr>s_data := data\<rparr>), w)
        | Some (Inr st, data) \<Rightarrow>
            let p1 = p(s := x\<lparr>s_data := data\<rparr>);
                set_mask = (if st > 0 \<and> was_empty then ZX_SOCKET_READABLE else 0)
                      OR (if st > 0 \<and> s_read_threshold x > 0 \<and> MBufChain_size False data \<ge> s_read_threshold x
                          then ZX_SOCKET_READ_THRESHOLD else 0);
                (p2, w2) = (if set_mask \<noteq> 0 then Socket_update ops s 0 set_mask p1 w else (p1, w));
                peer_write_threshold = s_write_threshold (p2 (other s));
                clear_mask = (if st > 0 \<and> p_peer (p2 s) \<and> peer_write_threshold > 0 \<and>
                            MBufChain_max_size - MBufChain_size False data < peer_write_threshold
                         then ZX_SOCKET_WRITE_THRESHOLD else 0)
                        OR (if p_peer (p2 s) \<and> MBufChain_is_full data then ZX_SOCKET_WRITABLE else 0);
                (p3, w3) = (if clear_mask \<noteq> 0 then Socket_update ops (other s) clear_mask 0 p2 w2 else (p2, w2)) in
            Some (Inr st, p3, w3))"

definition WriteData ::
  "('o, 'w) observer_ops \<Rightarrow> (nat \<Rightarrow> bool) \<Rightarrow> user_mem \<Rightarrow> side \<Rightarrow> nat \<Rightarrow> nat \<Rightarrow> (side \<Rightarrow> 'o socket) \<Rightarrow> 'w \<Rightarrow>
   ((zx_status + nat) \<times> (side \<Rightarrow> 'o socket) \<times> 'w) option" where
  "WriteData ops ac mem s src len p w =
     (if \<not> p_peer (p s) then Some (Inl ZX_ERR_PEER_CLOSED, p, w)
      else if has_signal (d_signals (p s)) ZX_SOCKET_WRITE_DISABLED then Some (Inl ZX_ERR_BAD_STATE, p, w)
      else if len = 0 then Some (Inr 0, p, w)
      else if len \<noteq> len mod 2 ^ 32 then Some (Inl ZX_ERR_INVALID_ARGS, p, w)
      else Socket_WriteSelfLocked ops ac mem (other s) src len p w)"

definition Socket_Write ::
  "('o, 'w) observer_ops \<Rightarrow> (nat \<Rightarrow> bool) \<Rightarrow> user_mem \<Rightarrow> plane \<Rightarrow> side \<Rightarrow> nat \<Rightarrow> nat \<Rightarrow>
   (side \<Rightarrow> 'o socket) \<Rightarrow> 'w \<Rightarrow> ((zx_status + nat) \<times> (side \<Rightarrow> 'o socket) \<times> 'w) option" where
  "Socket_Write ops ac mem plane s src len p w =
     (case plane of
        kData \<Rightarrow> WriteData ops ac mem s src len p w
      | kControl \<Rightarrow>
          map_option (\<lambda>(status, r). (if status = ZX_OK then Inr len else Inl status, r))
            (WriteControl ops mem s src len p w))"

section \<open>Reading\<close>

text \<open>The signals a consuming read clears on its own endpoint and sets on the peer.\<close>

definition ReadData_clear :: "'o socket \<Rightarrow> mbufchain \<Rightarrow> zx_signals" where
  "ReadData_clear x data =
     (if s_read_threshold x > 0 \<and> MBufChain_size False data < s_read_threshold x
      then ZX_SOCKET_READ_THRESHOLD else 0)
     OR (if MBufChain_is_empty data then ZX_SOCKET_READABLE else 0)"

definition ReadData_peer_set :: "nat \<Rightarrow> mbufchain \<Rightarrow> bool \<Rightarrow> nat \<Rightarrow> zx_signals" where
  "ReadData_peer_set peer_write_threshold data was_full st =
     (if peer_write_threshold > 0 \<and>
         MBufChain_max_size - MBufChain_size False data \<ge> peer_write_threshold
      then ZX_SOCKET_WRITE_THRESHOLD else 0)
     OR (if was_full \<and> st > 0 then ZX_SOCKET_WRITABLE else 0)"

text \<open>Reads also return the bytes stored to the user buffer.\<close>

definition ReadData ::
  "('o, 'w) observer_ops \<Rightarrow> user_out \<Rightarrow> read_type \<Rightarrow> side \<Rightarrow> nat \<Rightarrow> nat \<Rightarrow> (side \<Rightarrow> 'o socket) \<Rightarrow> 'w \<Rightarrow>
   (zx_status + nat) \<times> byte list \<times> (side \<Rightarrow> 'o socket) \<times> 'w" where
  "ReadData ops wr type s dst len p w =
     (let x = p s; datagram = has_signal (s_flags x) ZX_SOCKET_DATAGRAM in
      if len \<noteq> len mod 2 ^ 32 then (Inl ZX_ERR_INVALID_ARGS, [], p, w)
      else if MBufChain_is_empty (s_data x)
      then (Inl (if \<not> p_peer x then ZX_ERR_PEER_CLOSED
                 else if s_read_disabled x then ZX_ERR_BAD_STATE else ZX_ERR_SHOULD_WAIT), [], p, w)
      else
        case type of
          kPeek \<Rightarrow> let (st, out) = MBufChain_Peek wr dst len datagram (s_data x) in (Inr st, out, p, w)
        | kConsume \<Rightarrow>
            let was_full = MBufChain_is_full (s_data x);
                (st, out, data) = MBufChain_Read wr dst len datagram (s_data x);
                p1 = p(s := x\<lparr>s_data := data\<rparr>);
                clear_mask = ReadData_clear x data;
                (p2, w2) = (if clear_mask \<noteq> 0 then Socket_update ops s clear_mask 0 p1 w else (p1, w));
                set_mask = ReadData_peer_set (s_write_threshold (p2 (other s))) data was_full st;
                (p3, w3) = (if p_peer (p2 s) \<and> set_mask \<noteq> 0 then Socket_update ops (other s) 0 set_mask p2 w2
                            else (p2, w2)) in
            (Inr st, out, p3, w3))"

definition ReadControl ::
  "('o, 'w) observer_ops \<Rightarrow> user_out \<Rightarrow> read_type \<Rightarrow> side \<Rightarrow> nat \<Rightarrow> nat \<Rightarrow> (side \<Rightarrow> 'o socket) \<Rightarrow> 'w \<Rightarrow>
   ((zx_status + nat) \<times> byte list \<times> (side \<Rightarrow> 'o socket) \<times> 'w) option" where
  "ReadControl ops wr type s dst len p w =
     (let x = p s in
      if \<not> has_signal (s_flags x) ZX_SOCKET_HAS_CONTROL then Some (Inl ZX_ERR_BAD_STATE, [], p, w)
      else if s_control_msg_len x = 0 then Some (Inl ZX_ERR_SHOULD_WAIT, [], p, w)
      else
        case s_control_msg x of
          None \<Rightarrow> None
        | Some msg \<Rightarrow>
            let copy_len = min (s_control_msg_len x) len; bytes = take copy_len msg in
            if \<not> user_writable wr dst copy_len
            then Some (Inl ZX_ERR_INVALID_ARGS, user_stored wr dst bytes, p, w)
            else
              let (p1, w1) =
                    (case type of
                       kPeek \<Rightarrow> (p, w)
                     | kConsume \<Rightarrow>
                         let (p2, w2) = Socket_update ops s ZX_SOCKET_CONTROL_READABLE 0
                                          (p(s := x\<lparr>s_control_msg_len := 0\<rparr>)) w in
                         if p_peer (p2 s) then Socket_update ops (other s) 0 ZX_SOCKET_CONTROL_WRITABLE p2 w2
                         else (p2, w2)) in
              Some (Inr copy_len, bytes, p1, w1))"

definition Socket_Read ::
  "('o, 'w) observer_ops \<Rightarrow> user_out \<Rightarrow> plane \<Rightarrow> read_type \<Rightarrow> side \<Rightarrow> nat \<Rightarrow> nat \<Rightarrow> (side \<Rightarrow> 'o socket) \<Rightarrow> 'w \<Rightarrow>
   ((zx_status + nat) \<times> byte list \<times> (side \<Rightarrow> 'o socket) \<times> 'w) option" where
  "Socket_Read ops wr plane type s dst len p w =
     (case plane of
        kData \<Rightarrow> Some (ReadData ops wr type s dst len p w)
      | kControl \<Rightarrow> ReadControl ops wr type s dst len p w)"

section \<open>Sharing handles\<close>

text \<open>The socket to send is named by its flags and, if it is an endpoint of this very pair, by its
  side.\<close>

definition CheckShareable :: "side \<Rightarrow> (side \<Rightarrow> 'o socket) \<Rightarrow> u32 \<Rightarrow> side option \<Rightarrow> zx_status" where
  "CheckShareable s p to_send_flags to_send =
     (if has_signal to_send_flags ZX_SOCKET_HAS_ACCEPT \<or> to_send = Some s \<or>
         (p_peer (p s) \<and> to_send = Some (other s))
      then ZX_ERR_BAD_STATE else ZX_OK)"

definition ShareSelfLocked ::
  "('o, 'w) observer_ops \<Rightarrow> nat \<Rightarrow> side \<Rightarrow> (side \<Rightarrow> 'o socket) \<Rightarrow> 'w \<Rightarrow>
   zx_status \<times> (side \<Rightarrow> 'o socket) \<times> 'w" where
  "ShareSelfLocked ops h s p w =
     (if s_accept_queue (p s) \<noteq> None then (ZX_ERR_SHOULD_WAIT, p, w)
      else
        let (p1, w1) = Socket_update ops s 0 ZX_SOCKET_ACCEPT (p(s := (p s)\<lparr>s_accept_queue := Some h\<rparr>)) w;
            (p2, w2) = (if p_peer (p1 s) then Socket_update ops (other s) ZX_SOCKET_SHARE 0 p1 w1
                        else (p1, w1)) in
        (ZX_OK, p2, w2))"

definition Socket_Share ::
  "('o, 'w) observer_ops \<Rightarrow> nat \<Rightarrow> side \<Rightarrow> (side \<Rightarrow> 'o socket) \<Rightarrow> 'w \<Rightarrow>
   zx_status \<times> (side \<Rightarrow> 'o socket) \<times> 'w" where
  "Socket_Share ops h s p w =
     (if \<not> has_signal (s_flags (p s)) ZX_SOCKET_HAS_ACCEPT then (ZX_ERR_NOT_SUPPORTED, p, w)
      else if \<not> p_peer (p s) then (ZX_ERR_PEER_CLOSED, p, w)
      else ShareSelfLocked ops h (other s) p w)"

definition Socket_Accept ::
  "('o, 'w) observer_ops \<Rightarrow> side \<Rightarrow> (side \<Rightarrow> 'o socket) \<Rightarrow> 'w \<Rightarrow>
   (zx_status + nat) \<times> (side \<Rightarrow> 'o socket) \<times> 'w" where
  "Socket_Accept ops s p w =
     (if \<not> has_signal (s_flags (p s)) ZX_SOCKET_HAS_ACCEPT then (Inl ZX_ERR_NOT_SUPPORTED, p, w)
      else
        case s_accept_queue (p s) of
          None \<Rightarrow> (Inl ZX_ERR_SHOULD_WAIT, p, w)
        | Some h \<Rightarrow>
            let (p1, w1) = Socket_update ops s ZX_SOCKET_ACCEPT 0 (p(s := (p s)\<lparr>s_accept_queue := None\<rparr>)) w;
                (p2, w2) = (if p_peer (p1 s) then Socket_update ops (other s) 0 ZX_SOCKET_SHARE p1 w1
                            else (p1, w1)) in
            (Inr h, p2, w2))"

section \<open>Information and thresholds\<close>

record zx_info_socket =
  options :: u32
  rx_buf_max :: nat
  rx_buf_size :: nat
  rx_buf_available :: nat
  tx_buf_max :: nat
  tx_buf_size :: nat

definition Socket_GetInfo :: "side \<Rightarrow> (side \<Rightarrow> 'o socket) \<Rightarrow> zx_info_socket" where
  "Socket_GetInfo s p =
     \<lparr>options = s_flags (p s), rx_buf_max = MBufChain_max_size,
      rx_buf_size = MBufChain_size False (s_data (p s)),
      rx_buf_available = MBufChain_size (has_signal (s_flags (p s)) ZX_SOCKET_DATAGRAM) (s_data (p s)),
      tx_buf_max = (if p_peer (p s) then MBufChain_max_size else 0),
      tx_buf_size = (if p_peer (p s) then MBufChain_size False (s_data (p (other s))) else 0)\<rparr>"

definition GetReadThreshold :: "side \<Rightarrow> (side \<Rightarrow> 'o socket) \<Rightarrow> nat" where
  "GetReadThreshold s p = s_read_threshold (p s)"

definition GetWriteThreshold :: "side \<Rightarrow> (side \<Rightarrow> 'o socket) \<Rightarrow> nat" where
  "GetWriteThreshold s p = s_write_threshold (p s)"

definition SetReadThreshold ::
  "('o, 'w) observer_ops \<Rightarrow> nat \<Rightarrow> side \<Rightarrow> (side \<Rightarrow> 'o socket) \<Rightarrow> 'w \<Rightarrow>
   zx_status \<times> (side \<Rightarrow> 'o socket) \<times> 'w" where
  "SetReadThreshold ops val s p w =
     (if val > MBufChain_max_size then (ZX_ERR_INVALID_ARGS, p, w)
      else
        let p1 = p(s := (p s)\<lparr>s_read_threshold := val\<rparr>);
            (p2, w2) =
              (if val = 0 then Socket_update ops s ZX_SOCKET_READ_THRESHOLD 0 p1 w
               else if MBufChain_size False (s_data (p1 s)) \<ge> val
               then Socket_update ops s 0 ZX_SOCKET_READ_THRESHOLD p1 w
               else Socket_update ops s ZX_SOCKET_READ_THRESHOLD 0 p1 w) in
        (ZX_OK, p2, w2))"

definition SetWriteThreshold ::
  "('o, 'w) observer_ops \<Rightarrow> nat \<Rightarrow> side \<Rightarrow> (side \<Rightarrow> 'o socket) \<Rightarrow> 'w \<Rightarrow>
   zx_status \<times> (side \<Rightarrow> 'o socket) \<times> 'w" where
  "SetWriteThreshold ops val s p w =
     (if \<not> p_peer (p s) then (ZX_ERR_PEER_CLOSED, p, w)
      else if val > MBufChain_max_size then (ZX_ERR_INVALID_ARGS, p, w)
      else
        let p1 = p(s := (p s)\<lparr>s_write_threshold := val\<rparr>);
            (p2, w2) =
              (if val = 0 then Socket_update ops s ZX_SOCKET_WRITE_THRESHOLD 0 p1 w
               else if MBufChain_max_size - MBufChain_size False (s_data (p1 (other s))) \<ge> val
               then Socket_update ops s 0 ZX_SOCKET_WRITE_THRESHOLD p1 w
               else Socket_update ops s ZX_SOCKET_WRITE_THRESHOLD 0 p1 w) in
        (ZX_OK, p2, w2))"

section \<open>The signals report the state\<close>

text \<open>What the signals of an endpoint say about the endpoint itself, and about its peer while it
  has one. In datagram mode a read can discard bytes without delivering any, so that \<open>WRITABLE\<close>
  may then lag behind the free space; in stream mode it does not.\<close>

definition socket_own_ok :: "'o socket \<Rightarrow> bool" where
  "socket_own_ok x \<longleftrightarrow>
     chain_wf (s_data x) \<and> s_control_msg_len x \<le> ControlMsg_kSize \<and>
     (bit (s_flags x) 1 \<longrightarrow> map_option length (s_control_msg x) = Some ControlMsg_kSize) \<and>
     (bit (d_signals x) 0 \<longleftrightarrow> c_size (s_data x) \<noteq> 0) \<and>
     (bit (d_signals x) 10 \<longleftrightarrow> 0 < s_read_threshold x \<and> s_read_threshold x \<le> c_size (s_data x)) \<and>
     (bit (d_signals x) 6 \<longleftrightarrow> s_control_msg_len x \<noteq> 0) \<and>
     (bit (d_signals x) 8 \<longleftrightarrow> s_accept_queue x \<noteq> None) \<and>
     (bit (d_signals x) 4 \<longleftrightarrow> s_read_disabled x)"

definition socket_peer_ok :: "'o socket \<Rightarrow> 'o socket \<Rightarrow> bool" where
  "socket_peer_ok x y \<longleftrightarrow>
     \<not> bit (d_signals x) 2 \<and>
     (bit (d_signals x) 1 \<longrightarrow> c_size (s_data y) < kSizeMax) \<and>
     (\<not> bit (s_flags x) 0 \<and> \<not> bit (d_signals x) 5 \<and> c_size (s_data y) < kSizeMax \<longrightarrow> bit (d_signals x) 1) \<and>
     (bit (d_signals x) 11 \<longleftrightarrow> 0 < s_write_threshold x \<and> s_write_threshold x \<le> kSizeMax - c_size (s_data y)) \<and>
     (bit (s_flags x) 1 \<longrightarrow> (bit (d_signals x) 7 \<longleftrightarrow> s_control_msg_len y = 0)) \<and>
     (bit (s_flags x) 2 \<longrightarrow> (bit (d_signals x) 9 \<longleftrightarrow> s_accept_queue y = None)) \<and>
     (bit (d_signals x) 5 \<longleftrightarrow> s_read_disabled y)"

definition socket_inv :: "(side \<Rightarrow> 'o socket) \<Rightarrow> bool" where
  "socket_inv p \<longleftrightarrow>
     s_flags (p E1) = s_flags (p E0) \<and> peers_linked p \<and> socket_own_ok (p E0) \<and> socket_own_ok (p E1) \<and>
     (p_peer (p E0) \<longrightarrow> socket_peer_ok (p E0) (p E1) \<and> socket_peer_ok (p E1) (p E0))"

lemma socket_inv_side:
  "socket_inv p \<longleftrightarrow>
     s_flags (p (other s)) = s_flags (p s) \<and> p_peer (p (other s)) = p_peer (p s) \<and>
     socket_own_ok (p s) \<and> socket_own_ok (p (other s)) \<and>
     (p_peer (p s) \<longrightarrow> socket_peer_ok (p s) (p (other s)) \<and> socket_peer_ok (p (other s)) (p s))"
  by (cases s) (auto simp: socket_inv_def peers_linked_def)

lemma Socket_update_eq:
  "Socket_update ops s c t p w =
     (p(s := (p s)\<lparr>d_signals := new_signals c t (d_signals (p s)),
        d_observers := updated_observers ops c t (d_signals (p s)) (d_observers (p s)) w\<rparr>),
      updated_world ops c t (d_signals (p s)) (d_observers (p s)) w)"
  by (simp add: Socket_update_def UpdateStateHelper_eq)

lemma UpdateStateHelper_none [simp]: "UpdateStateHelper ops 0 0 d w = (d, w)"
  by (simp add: UpdateStateHelper_def new_signals_def)

lemma Socket_update_if:
  "(if t \<noteq> 0 then Socket_update ops s 0 t p w else (p, w)) = Socket_update ops s 0 t p w"
  "(if t \<noteq> 0 then Socket_update ops s t 0 p w else (p, w)) = Socket_update ops s t 0 p w"
  "(if b \<and> t \<noteq> 0 then Socket_update ops s 0 t p w else (p, w)) =
     (if b then Socket_update ops s 0 t p w else (p, w))"
  by (simp_all add: Socket_update_def)

lemma socket_flag_bits [simp]:
  "has_signal f ZX_SOCKET_DATAGRAM \<longleftrightarrow> bit f 0" "has_signal f ZX_SOCKET_HAS_CONTROL \<longleftrightarrow> bit f 1"
  "has_signal f ZX_SOCKET_HAS_ACCEPT \<longleftrightarrow> bit f 2"
  "has_signal f ZX_SOCKET_SHUTDOWN_WRITE \<longleftrightarrow> bit f 0" "has_signal f ZX_SOCKET_SHUTDOWN_READ \<longleftrightarrow> bit f 1"
  unfolding ZX_SOCKET_DATAGRAM_def ZX_SOCKET_HAS_CONTROL_def ZX_SOCKET_HAS_ACCEPT_def
    ZX_SOCKET_SHUTDOWN_WRITE_def ZX_SOCKET_SHUTDOWN_READ_def
  by (simp_all only: has_signal_bit [of 0] has_signal_bit [of 1] has_signal_bit [of 2])

lemmas socket_ok_defs = socket_own_ok_def socket_peer_ok_def
lemmas chain_defs = MBufChain_is_full_def MBufChain_is_empty_def MBufChain_size_def MBufChain_max_size_def

lemma bit_if: "bit (if b then x else y) n \<longleftrightarrow> (if b then bit x n else bit y n)"
  by simp

lemma WriteControl_inv:
  assumes "socket_inv p"
  shows "\<exists>r p' w'. WriteControl ops mem s src len p w = Some (r, p', w') \<and> socket_inv p'"
proof -
  have e: "s_flags (p (other s)) = s_flags (p s)" "p_peer (p (other s)) = p_peer (p s)"
    "socket_own_ok (p s)" "socket_own_ok (p (other s))"
    "p_peer (p s) \<longrightarrow> socket_peer_ok (p s) (p (other s)) \<and> socket_peer_ok (p (other s)) (p s)"
    using assms socket_inv_side [of p s] by auto
  show ?thesis
  proof (cases "bit (s_flags (p s)) 1 \<and> len \<noteq> 0 \<and> len \<le> ControlMsg_kSize \<and> p_peer (p s) \<and>
      s_control_msg_len (p (other s)) = 0")
    case False
    with assms show ?thesis by (auto simp: WriteControl_def WriteControlSelfLocked_def)
  next
    case True
    then obtain msg where msg: "s_control_msg (p (other s)) = Some msg" "length msg = ControlMsg_kSize"
      using e(1,4) by (auto simp: socket_own_ok_def)
    show ?thesis
      using True e msg unfolding socket_inv_side [of _ s]
      by (simp add: WriteControl_def WriteControlSelfLocked_def Let_def Socket_update_eq socket_ok_defs)
  qed
qed

lemma socket_invD:
  assumes "socket_inv p"
  shows "s_flags (p (other s)) = s_flags (p s)" "p_peer (p (other s)) = p_peer (p s)"
    "socket_own_ok (p s)" "socket_own_ok (p (other s))"
    "p_peer (p s) \<Longrightarrow> socket_peer_ok (p s) (p (other s)) \<and> socket_peer_ok (p (other s)) (p s)"
  using assms socket_inv_side [of p s] by auto

lemma ReadControl_inv:
  assumes "socket_inv p"
  shows "\<exists>r out p' w'. ReadControl ops wr type s dst len p w = Some (r, out, p', w') \<and> socket_inv p'"
proof (cases "bit (s_flags (p s)) 1 \<and> s_control_msg_len (p s) \<noteq> 0")
  case False
  with assms show ?thesis by (auto simp: ReadControl_def Let_def)
next
  case True
  note e = socket_invD [OF assms, of s]
  obtain msg where msg: "s_control_msg (p s) = Some msg" "length msg = ControlMsg_kSize"
    using e(1,3) True by (auto simp: socket_own_ok_def)
  show ?thesis
  proof (cases "user_writable wr dst (min (s_control_msg_len (p s)) len) \<and> type = kConsume")
    case False
    with True msg assms show ?thesis by (cases type; simp add: ReadControl_def Let_def)
  next
    case ok: True
    have own: "socket_own_ok ((p s)\<lparr>s_control_msg_len := 0,
        d_signals := new_signals ZX_SOCKET_CONTROL_READABLE 0 (d_signals (p s)), d_observers := o1\<rparr>)" for o1
      using e(3) by (simp add: socket_own_ok_def)
    show ?thesis
    proof (cases "p_peer (p s)")
      case False
      with True ok msg e(1,2,4) own show ?thesis
        by (simp add: ReadControl_def Let_def Socket_update_eq socket_inv_side [of _ s])
    next
      case peer: True
      have "socket_own_ok ((p (other s))\<lparr>d_signals := new_signals 0 ZX_SOCKET_CONTROL_WRITABLE
          (d_signals (p (other s))), d_observers := o2\<rparr>)" for o2
        using e(4) by (simp add: socket_own_ok_def)
      with True ok msg e(1,2) own peer socket_invD(5) [OF assms peer] show ?thesis
        by (simp add: ReadControl_def Let_def Socket_update_eq socket_inv_side [of _ s])
           (simp add: socket_peer_ok_def)
    qed
  qed
qed

lemma Socket_WriteSelfLocked_inv:
  assumes "socket_inv p" "p_peer (p s)"
  shows "\<exists>r p' w'. Socket_WriteSelfLocked ops ac mem s src len p w = Some (r, p', w') \<and> socket_inv p'"
proof (cases "MBufChain_is_full (s_data (p s))")
  case True
  with assms show ?thesis by (auto simp: Socket_WriteSelfLocked_def)
next
  case nf: False
  note e = socket_invD [OF assms(1), of s]
  have wf: "chain_wf (s_data (p s))" using e(3) by (simp add: socket_own_ok_def)
  obtain r data where W: "(if bit (s_flags (p s)) 0 then Some (WriteDatagram ac mem src len (s_data (p s)))
      else WriteStream ac mem src len (s_data (p s))) = Some (r, data)" "chain_wf data"
    "case r of Inl e \<Rightarrow> c_size data = c_size (s_data (p s))
      | Inr st \<Rightarrow> 0 < st \<and> c_size data = c_size (s_data (p s)) + st"
    using MBufChain_Write_size [OF wf, of "bit (s_flags (p s)) 0" ac mem src len] by auto
  show ?thesis
  proof (cases r)
    case (Inl err)
    with nf W e assms show ?thesis
      unfolding socket_inv_side [of _ s]
      by (simp add: Socket_WriteSelfLocked_def Let_def) (simp add: socket_ok_defs)
  next
    case (Inr st)
    with W have st: "0 < st" "c_size data = c_size (s_data (p s)) + st" by auto
    have max: "c_size data \<le> kSizeMax" using W(2) by (simp add: chain_wf_def)
    define sm where "sm = (if c_size (s_data (p s)) = 0 then ZX_SOCKET_READABLE else 0) OR
      (if 0 < s_read_threshold (p s) \<and> s_read_threshold (p s) \<le> c_size data
       then ZX_SOCKET_READ_THRESHOLD else 0)"
    define cm where "cm = (if 0 < s_write_threshold (p (other s)) \<and>
        kSizeMax - c_size data < s_write_threshold (p (other s)) then ZX_SOCKET_WRITE_THRESHOLD else 0) OR
      (if kSizeMax \<le> c_size data then ZX_SOCKET_WRITABLE else 0)"
    obtain o1 o2 w' where res: "Socket_WriteSelfLocked ops ac mem s src len p w = Some (Inr st,
      p(s := (p s)\<lparr>s_data := data, d_signals := new_signals 0 sm (d_signals (p s)), d_observers := o1\<rparr>,
        other s := (p (other s))\<lparr>d_signals := new_signals cm 0 (d_signals (p (other s))), d_observers := o2\<rparr>), w')"
      using nf W(1) Inr assms(2) st(1)
      by (simp add: Socket_WriteSelfLocked_def Let_def Socket_update_if Socket_update_eq chain_defs
          flip: sm_def cm_def)
    have sb: "bit sm n \<longleftrightarrow> n = 0 \<and> c_size (s_data (p s)) = 0 \<or>
        n = 10 \<and> 0 < s_read_threshold (p s) \<and> s_read_threshold (p s) \<le> c_size data" for n
      by (auto simp: sm_def bit_or_iff)
    have cb: "bit cm n \<longleftrightarrow> n = 11 \<and> 0 < s_write_threshold (p (other s)) \<and>
          kSizeMax - c_size data < s_write_threshold (p (other s)) \<or> n = 1 \<and> kSizeMax \<le> c_size data" for n
      by (auto simp: cm_def bit_or_iff)
    note pk = e(5) [OF assms(2)]
    have "socket_own_ok ((p s)\<lparr>s_data := data, d_signals := new_signals 0 sm (d_signals (p s)), d_observers := o1\<rparr>)"
      using e(3) W(2) st by (auto simp: socket_own_ok_def sb)
    moreover have "socket_own_ok ((p (other s))\<lparr>d_signals := new_signals cm 0 (d_signals (p (other s))), d_observers := o2\<rparr>)"
      using e(4) by (simp add: socket_own_ok_def cb)
    moreover have "socket_peer_ok
        ((p s)\<lparr>s_data := data, d_signals := new_signals 0 sm (d_signals (p s)), d_observers := o1\<rparr>)
        ((p (other s))\<lparr>d_signals := new_signals cm 0 (d_signals (p (other s))), d_observers := o2\<rparr>)"
      using conjunct1 [OF pk] by (simp add: socket_peer_ok_def sb)
    moreover have "socket_peer_ok
        ((p (other s))\<lparr>d_signals := new_signals cm 0 (d_signals (p (other s))), d_observers := o2\<rparr>)
        ((p s)\<lparr>s_data := data, d_signals := new_signals 0 sm (d_signals (p s)), d_observers := o1\<rparr>)"
      using conjunct2 [OF pk] st max by (simp add: socket_peer_ok_def cb) arith
    ultimately show ?thesis
      using e(1,2) assms(2) unfolding res by (simp add: socket_inv_side [of _ s])
  qed
qed

lemma ReadData_inv:
  assumes "socket_inv p" "ReadData ops wr type s dst len p w = (r, out, p', w')"
  shows "socket_inv p'"
proof (cases "len \<noteq> len mod 2 ^ 32 \<or> MBufChain_is_empty (s_data (p s)) \<or> type = kPeek")
  case True
  with assms show ?thesis by (auto simp: ReadData_def Let_def split: if_splits prod.splits)
next
  case False
  then have ty: "type = kConsume" by (cases type) auto
  note e = socket_invD [OF assms(1), of s]
  have wf: "chain_wf (s_data (p s))" using e(3) by (simp add: socket_own_ok_def)
  obtain st out' data where R: "MBufChain_Read wr dst len (bit (s_flags (p s)) 0) (s_data (p s)) = (st, out', data)"
    by (metis prod_cases3)
  note z = MBufChain_Read_size [OF wf R]
  have max: "c_size data \<le> kSizeMax" "c_size (s_data (p s)) \<le> kSizeMax" using z(1) wf by (simp_all add: chain_wf_def)
  define cm where "cm = ReadData_clear (p s) data"
  define sm where "sm = ReadData_peer_set (s_write_threshold (p (other s))) data
      (kSizeMax \<le> c_size (s_data (p s))) st"
  have cb: "bit cm n \<longleftrightarrow> n = 10 \<and> 0 < s_read_threshold (p s) \<and> c_size data < s_read_threshold (p s) \<or>
      n = 0 \<and> c_size data = 0" for n by (auto simp: cm_def ReadData_clear_def bit_or_iff chain_defs)
  have sb: "bit sm n \<longleftrightarrow> n = 11 \<and> 0 < s_write_threshold (p (other s)) \<and>
      s_write_threshold (p (other s)) \<le> kSizeMax - c_size data \<or>
      n = 1 \<and> kSizeMax \<le> c_size (s_data (p s)) \<and> 0 < st" for n
    by (auto simp: sm_def ReadData_peer_set_def bit_or_iff chain_defs)
  define x where "x o1 = (p s)\<lparr>s_data := data, d_signals := new_signals cm 0 (d_signals (p s)), d_observers := o1\<rparr>" for o1
  have ne: "c_size (s_data (p s)) \<noteq> 0" using False by (simp add: MBufChain_is_empty_def)
  have own: "socket_own_ok (x o1)" for o1
    using e(3) z ne unfolding x_def by (auto simp: socket_own_ok_def cb)
  show ?thesis
  proof (cases "p_peer (p s)")
    case np: False
    have "p' = p(s := x (updated_observers ops cm 0 (d_signals (p s)) (d_observers (p s)) w))"
      using assms(2) False ty R np
      by (simp add: ReadData_def Let_def Socket_update_if Socket_update_eq chain_defs x_def flip: cm_def)
    with own e(1,2,4) np show ?thesis by (simp add: socket_inv_side [of _ s] x_def)
  next
    case peer: True
    define y where "y o2 = (p (other s))\<lparr>d_signals := new_signals 0 sm (d_signals (p (other s))), d_observers := o2\<rparr>" for o2
    define o1 where "o1 = updated_observers ops cm 0 (d_signals (p s)) (d_observers (p s)) w"
    define o2 where "o2 = updated_observers ops 0 sm (d_signals (p (other s))) (d_observers (p (other s)))
      (updated_world ops cm 0 (d_signals (p s)) (d_observers (p s)) w)"
    have p': "p' = p(s := x o1, other s := y o2)"
      using assms(2) False ty R peer
      by (simp add: ReadData_def Let_def Socket_update_if Socket_update_eq chain_defs x_def y_def o1_def o2_def
          flip: cm_def sm_def)
    note pk = e(5) [OF peer]
    have "socket_own_ok (y o2)" using e(4) by (simp add: socket_own_ok_def y_def sb)
    moreover have "socket_peer_ok (x o1) (y o2)"
      using conjunct1 [OF pk] by (simp add: socket_peer_ok_def x_def y_def cb)
    moreover have "socket_peer_ok (y o2) (x o1)"
      using conjunct2 [OF pk] z max e(1) by (simp add: socket_peer_ok_def x_def y_def sb) auto
    ultimately show ?thesis
      using own e(1,2) peer unfolding p' by (simp add: socket_inv_side [of _ s] x_def y_def)
  qed
qed

lemma WriteData_inv:
  assumes "socket_inv p"
  shows "\<exists>r p' w'. WriteData ops ac mem s src len p w = Some (r, p', w') \<and> socket_inv p'"
proof (cases "p_peer (p s)")
  case True
  then have "p_peer (p (other s))" using socket_invD(2) [OF assms] by simp
  from Socket_WriteSelfLocked_inv [OF assms this] assms show ?thesis by (auto simp: WriteData_def)
next
  case False
  with assms show ?thesis by (auto simp: WriteData_def)
qed

lemma Share_inv:
  assumes "socket_inv p" "Socket_Share ops h s p w = (r, p', w')"
  shows "socket_inv p'"
proof (cases "bit (s_flags (p s)) 2 \<and> p_peer (p s) \<and> s_accept_queue (p (other s)) = None")
  case False
  with assms show ?thesis by (auto simp: Socket_Share_def ShareSelfLocked_def split: if_splits)
next
  case True
  note e = socket_invD [OF assms(1), of s]
  define o1 where "o1 = updated_observers ops 0 ZX_SOCKET_ACCEPT (d_signals (p (other s))) (d_observers (p (other s))) w"
  define o2 where "o2 = updated_observers ops ZX_SOCKET_SHARE 0 (d_signals (p s)) (d_observers (p s))
    (updated_world ops 0 ZX_SOCKET_ACCEPT (d_signals (p (other s))) (d_observers (p (other s))) w)"
  define y where "y = (p (other s))\<lparr>s_accept_queue := Some h,
    d_signals := new_signals 0 ZX_SOCKET_ACCEPT (d_signals (p (other s))), d_observers := o1\<rparr>"
  define x where "x = (p s)\<lparr>d_signals := new_signals ZX_SOCKET_SHARE 0 (d_signals (p s)), d_observers := o2\<rparr>"
  have p': "p' = p(other s := y, s := x)"
    using assms(2) True e(2) by (simp add: Socket_Share_def ShareSelfLocked_def Socket_update_eq x_def y_def o1_def o2_def)
  have "socket_own_ok x" "socket_own_ok y"
    using e(3,4) by (simp_all add: x_def y_def socket_own_ok_def)
  moreover have "socket_peer_ok x y" "socket_peer_ok y x"
    using e(5) True by (simp_all add: x_def y_def socket_peer_ok_def)
  ultimately show ?thesis
    using e(1,2) True by (simp add: p' socket_inv_side [of _ s]) (simp add: x_def y_def)
qed

lemma upd_other_same: "p(s := x, other s := p (other s)) = p(s := x)"
  by (cases s) (auto simp: fun_eq_iff)

lemma Accept_inv:
  assumes "socket_inv p" "Socket_Accept ops s p w = (r, p', w')"
  shows "socket_inv p'"
proof (cases "bit (s_flags (p s)) 2 \<and> s_accept_queue (p s) \<noteq> None")
  case False
  with assms show ?thesis by (auto simp: Socket_Accept_def split: if_splits option.splits)
next
  case True
  note e = socket_invD [OF assms(1), of s]
  define o1 where "o1 = updated_observers ops ZX_SOCKET_ACCEPT 0 (d_signals (p s)) (d_observers (p s)) w"
  define o2 where "o2 = updated_observers ops 0 ZX_SOCKET_SHARE (d_signals (p (other s))) (d_observers (p (other s)))
    (updated_world ops ZX_SOCKET_ACCEPT 0 (d_signals (p s)) (d_observers (p s)) w)"
  define x where "x = (p s)\<lparr>s_accept_queue := None,
    d_signals := new_signals ZX_SOCKET_ACCEPT 0 (d_signals (p s)), d_observers := o1\<rparr>"
  define y where "y = (if p_peer (p s) then (p (other s))\<lparr>d_signals := new_signals 0 ZX_SOCKET_SHARE (d_signals (p (other s))),
     d_observers := o2\<rparr> else p (other s))"
  have p': "p' = p(s := x, other s := y)"
    using assms(2) True by (auto simp: Socket_Accept_def Socket_update_eq x_def y_def o1_def o2_def upd_other_same)
  have "socket_own_ok x" "socket_own_ok y"
    using e(3,4) by (simp_all add: x_def y_def socket_own_ok_def)
  moreover have "p_peer (p s) \<Longrightarrow> socket_peer_ok x y \<and> socket_peer_ok y x"
    using e(5) True by (simp add: x_def y_def socket_peer_ok_def)
  ultimately show ?thesis
    using e(1,2) by (simp add: p' socket_inv_side [of _ s]) (simp add: x_def y_def)
qed

lemma Shutdown_inv:
  assumes "socket_inv p" "Socket_Shutdown ops how s p w = (r, p', w')"
  shows "socket_inv p'"
proof (cases "p' = p")
  case False
  note e = socket_invD [OF assms(1), of s]
  define cm where "cm b = (if b then ZX_SOCKET_WRITABLE else 0)" for b
  define sm where "sm a b = (if a then ZX_SOCKET_PEER_WRITE_DISABLED else 0) OR (if b then ZX_SOCKET_WRITE_DISABLED else 0)"
    for a b
  have cb: "bit (cm b) n \<longleftrightarrow> b \<and> n = 1" for b n by (simp add: cm_def)
  have sb: "bit (sm a b) n \<longleftrightarrow> a \<and> n = 4 \<or> b \<and> n = 5" for a b n by (auto simp: sm_def bit_or_iff)
  have sm2: "(if b then ZX_SOCKET_WRITE_DISABLED else 0) OR (if a then ZX_SOCKET_PEER_WRITE_DISABLED else 0) = sm a b" for a b
    by (simp add: sm_def or.commute)
  define rd wr where "rd = bit how 1" and "wr = bit how 0"
  define x where "x o1 = (p s)\<lparr>s_read_disabled := s_read_disabled (p s) \<or> rd,
    d_signals := new_signals (cm wr) (sm rd wr) (d_signals (p s)), d_observers := o1\<rparr>" for o1
  define y where "y o2 = (p (other s))\<lparr>s_read_disabled := s_read_disabled (p (other s)) \<or> wr,
    d_signals := new_signals (cm rd) (sm wr rd) (d_signals (p (other s))), d_observers := o2\<rparr>" for o2
  have own: "socket_own_ok (x o1)" "socket_own_ok (y o2)" for o1 o2
    using e(3,4) by (auto simp: x_def y_def socket_own_ok_def cb sb)
  define o1 where "o1 = updated_observers ops (cm wr) (sm rd wr) (d_signals (p s)) (d_observers (p s)) w"
  define w1 where "w1 = updated_world ops (cm wr) (sm rd wr) (d_signals (p s)) (d_observers (p s)) w"
  define o2 where "o2 = updated_observers ops (cm rd) (sm wr rd) (d_signals (p (other s))) (d_observers (p (other s))) w1"
  note defs = x_def y_def o1_def o2_def w1_def rd_def wr_def
  have p': "p' = (if p_peer (p s) then p(s := x o1, other s := y o2) else p(s := x o1))"
    using assms(2) False
    by (auto simp: Socket_Shutdown_def ShutdownOtherLocked_def Let_def Socket_update_eq cm_def [symmetric]
        sm_def [symmetric] sm2 defs split: if_splits)
  have "p_peer (p s) \<Longrightarrow> socket_peer_ok (x o1) (y o2) \<and> socket_peer_ok (y o2) (x o1)"
    using e(5) by (simp add: x_def y_def socket_peer_ok_def cb sb)
  then show ?thesis
    using e(1,2,4) own by (simp add: p' socket_inv_side [of _ s]) (simp add: x_def y_def)
qed (use assms in simp)

lemma SetReadThreshold_inv:
  assumes "socket_inv p" "SetReadThreshold ops val s p w = (r, p', w')"
  shows "socket_inv p'"
proof (cases "val > MBufChain_max_size")
  case False
  note e = socket_invD [OF assms(1), of s]
  define b where "b \<longleftrightarrow> 0 < val \<and> val \<le> c_size (s_data (p s))"
  define cm sm where "cm = (if b then 0 else ZX_SOCKET_READ_THRESHOLD)" and "sm = (if b then ZX_SOCKET_READ_THRESHOLD else 0)"
  define x where "x = (p s)\<lparr>s_read_threshold := val, d_signals := new_signals cm sm (d_signals (p s)),
    d_observers := updated_observers ops cm sm (d_signals (p s)) (d_observers (p s)) w\<rparr>"
  have p': "p' = p(s := x)"
    using assms(2) False
    by (auto simp: SetReadThreshold_def Socket_update_eq chain_defs x_def cm_def sm_def b_def split: if_splits)
  have "socket_own_ok x" using e(3) by (simp add: x_def socket_own_ok_def cm_def sm_def b_def)
  moreover have "p_peer (p s) \<Longrightarrow> socket_peer_ok x (p (other s)) \<and> socket_peer_ok (p (other s)) x"
    using e(5) by (simp add: x_def socket_peer_ok_def cm_def sm_def)
  ultimately show ?thesis
    using e(1,2,4) by (simp add: p' socket_inv_side [of _ s]) (simp add: x_def)
qed (use assms in \<open>simp add: SetReadThreshold_def\<close>)

lemma SetWriteThreshold_inv:
  assumes "socket_inv p" "SetWriteThreshold ops val s p w = (r, p', w')"
  shows "socket_inv p'"
proof (cases "p_peer (p s) \<and> \<not> val > MBufChain_max_size")
  case True
  note e = socket_invD [OF assms(1), of s]
  define b where "b \<longleftrightarrow> 0 < val \<and> val \<le> kSizeMax - c_size (s_data (p (other s)))"
  define cm sm where "cm = (if b then 0 else ZX_SOCKET_WRITE_THRESHOLD)" and "sm = (if b then ZX_SOCKET_WRITE_THRESHOLD else 0)"
  define x where "x = (p s)\<lparr>s_write_threshold := val, d_signals := new_signals cm sm (d_signals (p s)),
    d_observers := updated_observers ops cm sm (d_signals (p s)) (d_observers (p s)) w\<rparr>"
  have p': "p' = p(s := x)"
    using assms(2) True
    by (auto simp: SetWriteThreshold_def Socket_update_eq chain_defs x_def cm_def sm_def b_def split: if_splits)
  have "socket_own_ok x" using e(3) by (simp add: x_def socket_own_ok_def cm_def sm_def)
  moreover have "socket_peer_ok x (p (other s)) \<and> socket_peer_ok (p (other s)) x"
    using e(5) True by (simp add: x_def socket_peer_ok_def cm_def sm_def b_def)
  ultimately show ?thesis
    using e(1,2,4) by (simp add: p' socket_inv_side [of _ s]) (simp add: x_def)
qed (use assms in \<open>auto simp: SetWriteThreshold_def split: if_splits\<close>)

interpretation socket_peered: peered_class
  Socket_on_zero_handles_locked "Socket_OnPeerZeroHandlesLocked ops"
  by unfold_locales
     (auto simp: Socket_on_zero_handles_locked_def Socket_OnPeerZeroHandlesLocked_def Socket_update_eq)

lemma Socket_on_zero_handles_inv:
  assumes "socket_inv p" "Socket_on_zero_handles ops s p w = (p', w')"
  shows "socket_inv p'"
proof -
  note e = socket_invD [OF assms(1), of s]
  have "\<not> p_peer (p' t)" for t
    using socket_peered.on_zero_handles_closes [of p ops s w t] assms
    by (simp add: Socket_on_zero_handles_def socket_inv_def)
  moreover have "s_flags (p' (other s)) = s_flags (p' s) \<and> socket_own_ok (p' s) \<and> socket_own_ok (p' (other s))"
  proof (cases "p_peer (p s)")
    case True
    define o2 where "o2 = updated_observers ops ZX_SOCKET_WRITABLE ZX_SOCKET_PEER_CLOSED
      (d_signals (p (other s))) (d_observers (p (other s))) w"
    have "p' = p(s := (p s)\<lparr>p_peer := False\<rparr>, other s := (p (other s))\<lparr>p_peer := False,
      d_signals := new_signals ZX_SOCKET_WRITABLE ZX_SOCKET_PEER_CLOSED (d_signals (p (other s))), d_observers := o2\<rparr>)"
      using assms(2) True by (simp add: Socket_on_zero_handles_def Peered_on_zero_handles_def
          Socket_on_zero_handles_locked_def Socket_OnPeerZeroHandlesLocked_def Socket_update_eq o2_def)
    with e(1,3,4) show ?thesis by (simp add: socket_own_ok_def)
  next
    case False
    with assms(2) have "p' = p(s := (p s)\<lparr>p_peer := False\<rparr>)"
      by (simp add: Socket_on_zero_handles_def Peered_on_zero_handles_def Socket_on_zero_handles_locked_def)
    with e(1,3,4) show ?thesis by (simp add: socket_own_ok_def)
  qed
  ultimately show ?thesis by (simp add: socket_inv_side [of _ s])
qed

text \<open>The invariant does not depend on the observers, the user signals or the handle count.\<close>

lemma socket_inv_cong:
  assumes "socket_inv p"
    and "\<And>n. n < 24 \<Longrightarrow> bit (d_signals x) n = bit (d_signals (p s)) n"
    and "x\<lparr>d_signals := 0, d_observers := [], d_handle_count := 0\<rparr> =
      (p s)\<lparr>d_signals := 0, d_observers := [], d_handle_count := 0\<rparr>"
  shows "socket_inv (p(s := x))"
proof -
  note e = socket_invD [OF assms(1), of s]
  obtain sg ob hc where x: "x = (p s)\<lparr>d_signals := sg, d_observers := ob, d_handle_count := hc\<rparr>"
    using assms(3) by (cases x; cases "p s") auto
  have "socket_own_ok x" using e(3) assms(2) by (simp add: x socket_own_ok_def)
  moreover have "p_peer (p s) \<Longrightarrow> socket_peer_ok x (p (other s)) \<and> socket_peer_ok (p (other s)) x"
    using e(5) assms(2) by (simp add: x socket_peer_ok_def)
  ultimately show ?thesis
    using e(1,2,4) by (simp add: socket_inv_side [of _ s]) (simp add: x)
qed

lemma Socket_Create_inv:
  fixes p :: "side \<Rightarrow> 'o socket"
  assumes "Socket_Create ac uninit flags g = (Inr p, g')"
  shows "socket_inv p \<and> (\<forall>s. s_flags (p s) = flags \<and> p_peer (p s) \<and> s_data (p s) = MBufChain_new)"
proof -
  define sig where "sig = ZX_SOCKET_WRITABLE OR (if bit flags 2 then ZX_SOCKET_SHARE else 0)
    OR (if bit flags 1 then ZX_SOCKET_CONTROL_WRITABLE else 0)"
  have sb: "bit sig n \<longleftrightarrow> n = 1 \<or> n = 9 \<and> bit flags 2 \<or> n = 7 \<and> bit flags 1" for n
    by (auto simp: sig_def bit_or_iff)
  have sz: "c_size MBufChain_new = 0" "0 < kSizeMax"
    by (simp_all add: MBufChain_new_def kSizeMax_def)
  define ctl where "ctl s = (if bit flags 1 then Some (map (uninit s) [0..<ControlMsg_kSize]) else None)" for s
  define new where "new k s pk = \<lparr>d_koid = k, d_handle_count = 0, d_signals = sig, d_observers = [] :: 'o list,
    p_peer = True, p_peer_koid = pk, s_flags = flags, s_data = MBufChain_new, s_control_msg = ctl s,
    s_control_msg_len = 0, s_accept_queue = None, s_read_threshold = 0, s_write_threshold = 0,
    s_read_disabled = False\<rparr>" for k s pk
  have p: "p E0 = new g E0 (g + 1)" "p E1 = new (g + 1) E1 g"
    using assms by (auto simp: Socket_Create_def Socket_new_def Socket_Init_def Let_def GenerateKernelObjectId_def
        new_def ctl_def sig_def split: if_split_asm)
  have "socket_own_ok (new k s pk)" for k s pk
    using sz MBufChain_new_wf by (simp add: new_def socket_own_ok_def sb ctl_def)
  moreover have "socket_peer_ok (new k s pk) (new k' s' pk')" for k s pk k' s' pk'
    using sz by (simp add: new_def socket_peer_ok_def sb)
  ultimately have "socket_inv p" by (simp add: socket_inv_def peers_linked_def p) (simp add: new_def)
  moreover have "s_flags (p s) = flags \<and> p_peer (p s) \<and> s_data (p s) = MBufChain_new" for s
    by (cases s) (simp_all add: p new_def)
  ultimately show ?thesis by blast
qed

end
