(* ===== verification/Zx_Socket_History.thy ===== *)
theory Zx_Socket_History
  imports Zx_Socket
begin

unbundle bit_operations_syntax

text \<open>
  Histories of a socket pair: the step relation of all operations of
  \<^verbatim>\<open>kernel/object/socket_dispatcher.cpp\<close>, the states they reach, the bytes they move, and the
  properties of sockets.
\<close>

section \<open>Histories of a pair\<close>

text \<open>One operation on a socket pair, with the bytes it queues for each endpoint and the bytes it
  delivers from each endpoint; then the states a pair can reach from \<open>Create\<close>, with all bytes queued
  and delivered so far.\<close>

type_synonym traffic = "side \<Rightarrow> byte list"

definition no_bytes :: traffic where
  "no_bytes = (\<lambda>_. [])"

definition written_bytes :: "plane \<Rightarrow> side \<Rightarrow> user_mem \<Rightarrow> nat \<Rightarrow> zx_status + nat \<Rightarrow> traffic" where
  "written_bytes plane s mem src r =
     (case (plane, r) of (kData, Inr n) \<Rightarrow> no_bytes(other s := user_bytes mem src n) | _ \<Rightarrow> no_bytes)"

definition read_bytes :: "plane \<Rightarrow> read_type \<Rightarrow> side \<Rightarrow> zx_status + nat \<Rightarrow> byte list \<Rightarrow> traffic" where
  "read_bytes plane type s r out =
     (case (plane, type, r) of (kData, kConsume, Inr n) \<Rightarrow> no_bytes(s := take n out) | _ \<Rightarrow> no_bytes)"

inductive socket_step ::
  "('o, 'w) observer_ops \<Rightarrow> (side \<Rightarrow> 'o socket) \<times> 'w \<Rightarrow> traffic \<Rightarrow> traffic \<Rightarrow> (side \<Rightarrow> 'o socket) \<times> 'w \<Rightarrow> bool"
  for ops where
  write_plane: "Socket_Write ops ac mem plane s src len p w = Some (r, p', w') \<Longrightarrow>
    socket_step ops (p, w) (written_bytes plane s mem src r) no_bytes (p', w')"
| read_plane: "Socket_Read ops wr plane type s dst len p w = Some (r, out, p', w') \<Longrightarrow>
    socket_step ops (p, w) no_bytes (read_bytes plane type s r out) (p', w')"
| shutdown: "Socket_Shutdown ops how s p w = (r, p', w') \<Longrightarrow> socket_step ops (p, w) no_bytes no_bytes (p', w')"
| share: "Socket_Share ops h s p w = (r, p', w') \<Longrightarrow> socket_step ops (p, w) no_bytes no_bytes (p', w')"
| accept: "Socket_Accept ops s p w = (ra, p', w') \<Longrightarrow> socket_step ops (p, w) no_bytes no_bytes (p', w')"
| read_threshold: "SetReadThreshold ops val s p w = (r, p', w') \<Longrightarrow>
    socket_step ops (p, w) no_bytes no_bytes (p', w')"
| write_threshold: "SetWriteThreshold ops val s p w = (r, p', w') \<Longrightarrow>
    socket_step ops (p, w) no_bytes no_bytes (p', w')"
| close: "Socket_on_zero_handles ops s p w = (p', w') \<Longrightarrow> socket_step ops (p, w) no_bytes no_bytes (p', w')"
| signal_self: "Peered_user_signal_self ops 0 s c t p w = (r, p', w') \<Longrightarrow>
    socket_step ops (p, w) no_bytes no_bytes (p', w')"
| signal_peer: "Peered_user_signal_peer ops 0 s c t p w = (r, p', w') \<Longrightarrow>
    socket_step ops (p, w) no_bytes no_bytes (p', w')"
| observe: "AddObserver ops True obs (p s) w = (r, x, w') \<Longrightarrow> p' = p(s := x) \<Longrightarrow>
    socket_step ops (p, w) no_bytes no_bytes (p', w')"
| cancel: "Cancel ops h (p s) w = (x, w') \<Longrightarrow> p' = p(s := x) \<Longrightarrow>
    socket_step ops (p, w) no_bytes no_bytes (p', w')"
| cancel_key: "CancelByKey ops h port key (p s) w = (b, x, w') \<Longrightarrow> p' = p(s := x) \<Longrightarrow>
    socket_step ops (p, w) no_bytes no_bytes (p', w')"

inductive socket_reach ::
  "('o, 'w) observer_ops \<Rightarrow> u32 \<Rightarrow> (side \<Rightarrow> 'o socket) \<times> 'w \<Rightarrow> traffic \<Rightarrow> traffic \<Rightarrow> bool" for ops flags where
  create: "Socket_Create ac uninit flags g = (Inr p, g') \<Longrightarrow> socket_reach ops flags (p, w) no_bytes no_bytes"
| step: "socket_reach ops flags pw sent received \<Longrightarrow> socket_step ops pw snt rcv pw' \<Longrightarrow>
    socket_reach ops flags pw' (\<lambda>t. sent t @ snt t) (\<lambda>t. received t @ rcv t)"

lemma user_signal_inv:
  assumes "socket_inv p" "signals_allowed 0 c t"
  shows "socket_inv (p(s := (p s)\<lparr>d_signals := new_signals c t (d_signals (p s)), d_observers := obs\<rparr>))"
  by (rule socket_inv_cong [OF assms(1)]) (simp_all add: new_signals_allowed [OF assms(2)] del: bit_new_signals)

lemma observers_inv:
  assumes "socket_inv p" "x = (p s)\<lparr>d_observers := obs\<rparr>"
  shows "socket_inv (p(s := x))"
  by (rule socket_inv_cong [OF assms(1)]) (simp_all add: assms(2))

lemma Socket_Write_inv:
  assumes "socket_inv p"
  shows "\<exists>r p' w'. Socket_Write ops ac mem plane s src len p w = Some (r, p', w') \<and> socket_inv p'"
proof (cases plane)
  case kControl
  obtain r p' w' where "WriteControl ops mem s src len p w = Some (r, p', w')" "socket_inv p'"
    using WriteControl_inv [OF assms, of ops mem s src len w] by blast
  with kControl show ?thesis by (simp add: Socket_Write_def)
qed (use WriteData_inv [OF assms] in \<open>simp add: Socket_Write_def\<close>)

lemma Socket_Read_inv:
  assumes "socket_inv p"
  shows "\<exists>r out p' w'. Socket_Read ops wr plane type s dst len p w = Some (r, out, p', w') \<and> socket_inv p'"
proof (cases plane)
  case kData
  obtain r out p' w' where "ReadData ops wr type s dst len p w = (r, out, p', w')" by (metis prod_cases4)
  with ReadData_inv [OF assms this] kData show ?thesis by (simp add: Socket_Read_def)
next
  case kControl
  with ReadControl_inv [OF assms] show ?thesis by (simp add: Socket_Read_def)
qed

lemma socket_step_inv: "socket_step ops pw snt rcv pw' \<Longrightarrow> socket_inv (fst pw) \<Longrightarrow> socket_inv (fst pw')"
proof (induction rule: socket_step.induct)
  case (write_plane ac mem plane s src len p w r p' w')
  with Socket_Write_inv [of p ops ac mem plane s src len w] show ?case by auto
next
  case (read_plane wr plane type s dst len p w r out p' w')
  with Socket_Read_inv [of p ops wr plane type s dst len w] show ?case by auto
next
  case (signal_self s c t p w r p' w')
  then show ?case
    using user_signal_inv [of p c t s "updated_observers ops c t (d_signals (p s)) (d_observers (p s)) w"]
    by (cases "signals_allowed 0 c t") (simp_all add: Peered_user_signal_self_def UpdateStateHelper_eq)
next
  case (signal_peer s c t p w r p' w')
  then show ?case
    using user_signal_inv [of p c t "other s"
      "updated_observers ops c t (d_signals (p (other s))) (d_observers (p (other s))) w"]
    by (cases "signals_allowed 0 c t"; cases "p_peer (p s)")
       (simp_all add: Peered_user_signal_peer_def UpdateStateHelper_eq)
next
  case (observe obs p s w r x w' p')
  obtain fl ob w1 where "OnInitialize ops (d_signals (p s)) None obs w = (fl, ob, w1)" by (metis prod_cases3)
  with observe have "x = (p s)\<lparr>d_observers := if fl AND kNeedRemoval \<noteq> 0 then d_observers (p s) else ob # d_observers (p s)\<rparr>"
    by (simp add: AddObserver_def AddObserverHelper_def split: if_splits)
  from observers_inv [of p, OF _ this] observe show ?case by (simp only: fst_conv)
next
  case (cancel h p s w x w' p')
  then obtain ob where "x = (p s)\<lparr>d_observers := ob\<rparr>"
    by (auto simp: Cancel_def CancelWithFunc_def split: prod.splits)
  from observers_inv [of p, OF _ this] cancel show ?case by (simp only: fst_conv)
next
  case (cancel_key h port key p s w b x w' p')
  then obtain ob where "x = (p s)\<lparr>d_observers := ob\<rparr>"
    by (auto simp: CancelByKey_def CancelWithFunc_def split: prod.splits)
  from observers_inv [of p, OF _ this] cancel_key show ?case by (simp only: fst_conv)
qed (auto intro: Shutdown_inv Share_inv Accept_inv SetReadThreshold_inv SetWriteThreshold_inv
    Socket_on_zero_handles_inv)

lemma socket_reach_invariant: "socket_reach ops flags pw snt rcv \<Longrightarrow> socket_inv (fst pw)"
proof (induction rule: socket_reach.induct)
  case (create ac uninit g p g' w)
  from Socket_Create_inv [OF create] show ?case by simp
qed (auto intro: socket_step_inv)

text \<open>Every operation other than a data transfer leaves the queued bytes alone, and none changes the
  flags.\<close>

definition same_data :: "(side \<Rightarrow> 'o socket) \<Rightarrow> (side \<Rightarrow> 'o socket) \<Rightarrow> bool" where
  "same_data p p' \<longleftrightarrow> (\<forall>t. s_data (p' t) = s_data (p t) \<and> s_flags (p' t) = s_flags (p t))"

lemma same_data_frames:
  "Socket_Shutdown ops how s p w = (r, p', w') \<Longrightarrow> same_data p p'"
  "Socket_Share ops h s p w = (r, p', w') \<Longrightarrow> same_data p p'"
  "Socket_Accept ops s p w = (ra, p', w') \<Longrightarrow> same_data p p'"
  "SetReadThreshold ops val s p w = (r, p', w') \<Longrightarrow> same_data p p'"
  "SetWriteThreshold ops val s p w = (r, p', w') \<Longrightarrow> same_data p p'"
  "Socket_on_zero_handles ops s p w = (p', w') \<Longrightarrow> same_data p p'"
  "Peered_user_signal_self ops 0 s c t p w = (r, p', w') \<Longrightarrow> same_data p p'"
  "Peered_user_signal_peer ops 0 s c t p w = (r, p', w') \<Longrightarrow> same_data p p'"
  "WriteControl ops mem s src len p w = Some (r, p', w') \<Longrightarrow> same_data p p'"
  "ReadControl ops wr type s dst len p w = Some (rn, out, p', w') \<Longrightarrow> same_data p p'"
  unfolding same_data_def
           apply (auto simp: Socket_Shutdown_def ShutdownOtherLocked_def Let_def Socket_update_eq split: if_splits) [1]
          apply (auto simp: Socket_Share_def ShareSelfLocked_def Socket_update_eq split: if_splits) [1]
         apply (auto simp: Socket_Accept_def Socket_update_eq split: if_splits option.splits) [1]
        apply (auto simp: SetReadThreshold_def Let_def Socket_update_eq split: if_splits) [1]
       apply (auto simp: SetWriteThreshold_def Let_def Socket_update_eq split: if_splits) [1]
      apply (auto simp: Socket_on_zero_handles_def Peered_on_zero_handles_def Let_def Socket_on_zero_handles_locked_def
      Socket_OnPeerZeroHandlesLocked_def Socket_update_eq split: if_splits) [1]
     apply (auto simp: Peered_user_signal_self_def UpdateStateHelper_eq split: if_splits) [1]
    apply (auto simp: Peered_user_signal_peer_def UpdateStateHelper_eq split: if_splits) [1]
   apply (auto simp: WriteControl_def WriteControlSelfLocked_def Let_def Socket_update_eq
      split: if_splits option.splits) [1]
  apply (auto simp: ReadControl_def Let_def Socket_update_eq split: if_splits option.splits read_type.splits) [1]
  done

lemma same_data_upd: "s_data x = s_data (p s) \<Longrightarrow> s_flags x = s_flags (p s) \<Longrightarrow> same_data p (p(s := x))"
  by (simp add: same_data_def)

lemma same_data_observers:
  "AddObserver ops True obs (p s) w = (r, x, w') \<Longrightarrow> same_data p (p(s := x))"
  "Cancel ops h (p s) w = (x, w') \<Longrightarrow> same_data p (p(s := x))"
  "CancelByKey ops h port key (p s) w = (b, x, w') \<Longrightarrow> same_data p (p(s := x))"
  by (rule same_data_upd; auto simp: AddObserver_def AddObserverHelper_def Cancel_def CancelByKey_def
      CancelWithFunc_def Let_def split: if_splits prod.splits)+

lemma WriteData_data:
  assumes "socket_inv p" "\<not> bit (s_flags (p s)) 0" "WriteData ops ac mem s src len p w = Some (r, p', w')"
  shows "chain_bytes (s_data (p' t)) = chain_bytes (s_data (p t)) @ written_bytes kData s mem src r t \<and>
    s_flags (p' t) = s_flags (p t)"
proof (cases "p_peer (p s) \<and> \<not> bit (d_signals (p s)) 5 \<and> len \<noteq> 0 \<and> len mod 2 ^ 32 = len \<and>
    \<not> MBufChain_is_full (s_data (p (other s)))")
  case False
  with assms(3) show ?thesis
    by (auto simp: WriteData_def Socket_WriteSelfLocked_def written_bytes_def no_bytes_def split: if_splits)
next
  case True
  note e = socket_invD [OF assms(1), of s]
  have wf: "chain_wf (s_data (p (other s)))" using e(4) by (simp add: socket_own_ok_def)
  obtain r' c' n where W: "WriteStream ac mem src len (s_data (p (other s))) = Some (r', c')"
    "r' = (if n = 0 then Inl ZX_ERR_SHOULD_WAIT else Inr n)"
    "chain_bytes c' = chain_bytes (s_data (p (other s))) @ user_bytes mem src n"
    using WriteStream_appends [OF wf, of ac mem src len] by blast
  have "r = r' \<and> s_data (p' (other s)) = c' \<and> s_data (p' s) = s_data (p s) \<and> s_flags (p' t) = s_flags (p t)"
    using assms(2,3) True W(1,2) e(1) side_cases [of t s]
    by (auto simp: WriteData_def Socket_WriteSelfLocked_def Let_def Socket_update_if Socket_update_eq
        split: if_splits)
  with W(2,3) side_cases [of t s] show ?thesis
    by (auto simp: written_bytes_def no_bytes_def split: if_splits)
qed

lemma ReadData_data:
  assumes "socket_inv p" "\<not> bit (s_flags (p s)) 0" "ReadData ops wr type s dst len p w = (r, out, p', w')"
  shows "chain_bytes (s_data (p t)) = read_bytes kData type s r out t @ chain_bytes (s_data (p' t)) \<and>
    s_flags (p' t) = s_flags (p t)"
proof (cases "len \<noteq> len mod 2 ^ 32 \<or> MBufChain_is_empty (s_data (p s)) \<or> type = kPeek")
  case True
  with assms(3) show ?thesis
    by (auto simp: ReadData_def Let_def read_bytes_def no_bytes_def split: if_splits prod.splits read_type.splits)
next
  case False
  then have ty: "type = kConsume" by (cases type) auto
  note e = socket_invD [OF assms(1), of s]
  have wf: "chain_wf (s_data (p s))" using e(3) by (simp add: socket_own_ok_def)
  obtain st out' data where R: "MBufChain_Read wr dst len False (s_data (p s)) = (st, out', data)"
    by (metis prod_cases3)
  have "r = Inr st \<and> out = out' \<and> s_data (p' s) = data \<and> s_data (p' (other s)) = s_data (p (other s)) \<and>
      s_flags (p' t) = s_flags (p t)"
    using assms(2,3) False ty R side_cases [of t s]
    by (auto simp: ReadData_def Let_def Socket_update_if Socket_update_eq split: if_splits)
  moreover have "chain_bytes (s_data (p s)) = take st out' @ chain_bytes data"
    using MBufChain_Read_prefix [OF wf R] by simp
  ultimately show ?thesis
    using side_cases [of t s] ty by (auto simp: read_bytes_def no_bytes_def)
qed

lemma same_data_no_bytes:
  "same_data p p' \<Longrightarrow> chain_bytes (s_data (p t)) @ no_bytes t = no_bytes t @ chain_bytes (s_data (p' t)) \<and>
     s_flags (p' t) = s_flags (p t)"
  by (simp add: same_data_def no_bytes_def)

lemma socket_step_bytes:
  "socket_step ops pw snt rcv pw' \<Longrightarrow> socket_inv (fst pw) \<Longrightarrow> \<not> bit (s_flags (fst pw E0)) 0 \<Longrightarrow>
   chain_bytes (s_data (fst pw t)) @ snt t = rcv t @ chain_bytes (s_data (fst pw' t)) \<and>
   s_flags (fst pw' t) = s_flags (fst pw t)"
proof (induction rule: socket_step.induct)
  case (write_plane ac mem plane s src len p w r p' w')
  have fl: "\<not> bit (s_flags (p s)) 0" using write_plane socket_invD(1) [of p E0] by (cases s) auto
  show ?case
  proof (cases plane)
    case kData
    with write_plane WriteData_data [of p s, OF _ fl, of ops ac mem src len w r p' w' t] show ?thesis
      by (simp add: Socket_Write_def no_bytes_def)
  next
    case kControl
    with write_plane obtain r' where "WriteControl ops mem s src len p w = Some (r', p', w')"
      by (auto simp: Socket_Write_def)
    from same_data_no_bytes [OF same_data_frames(9) [OF this], of t] kControl show ?thesis
      by (simp add: written_bytes_def)
  qed
next
  case (read_plane wr plane type s dst len p w r out p' w')
  have fl: "\<not> bit (s_flags (p s)) 0" using read_plane socket_invD(1) [of p E0] by (cases s) auto
  show ?case
  proof (cases plane)
    case kData
    with read_plane ReadData_data [of p s, OF _ fl, of ops wr type dst len w r out p' w' t] show ?thesis
      by (simp add: Socket_Read_def no_bytes_def)
  next
    case kControl
    with read_plane have "ReadControl ops wr type s dst len p w = Some (r, out, p', w')"
      by (auto simp: Socket_Read_def)
    from same_data_no_bytes [OF same_data_frames(10) [OF this], of t] kControl show ?thesis
      by (simp add: read_bytes_def)
  qed
qed (simp_all only: fst_conv; rule same_data_no_bytes; erule same_data_frames same_data_observers)+

lemma socket_reach_bytes:
  "socket_reach ops flags pw sent received \<Longrightarrow> \<not> bit flags 0 \<Longrightarrow>
   sent t = received t @ chain_bytes (s_data (fst pw t)) \<and> s_flags (fst pw E0) = flags"
proof (induction rule: socket_reach.induct)
  case (create ac uninit g p g' w)
  then show ?case
    using Socket_Create_inv [OF create(1)] by (simp add: no_bytes_def chain_bytes_def MBufChain_new_def)
next
  case (step pw sent received snt rcv pw')
  have "socket_inv (fst pw)" by (rule socket_reach_invariant [OF step.hyps(1)])
  note b = socket_step_bytes [OF step.hyps(2) this, of t] socket_step_bytes [OF step.hyps(2) this, of E0]
  with step show ?case by (metis append.assoc)
qed

text \<open>The state after \<open>Shutdown\<close>: what was asked for is disabled, on both ends while they are linked.\<close>

lemma Shutdown_state:
  assumes "socket_inv p" "Socket_Shutdown ops how s p w = (r, p', w')"
  shows "r = ZX_OK \<and> p_peer (p' t) = p_peer (p t) \<and> same_data p p' \<and>
    (bit how 0 \<and> p_peer (p s) \<longrightarrow> bit (d_signals (p' s)) 5 \<and> s_read_disabled (p' (other s))) \<and>
    (bit how 1 \<longrightarrow> s_read_disabled (p' s) \<and> (p_peer (p s) \<longrightarrow> bit (d_signals (p' (other s))) 5))"
proof -
  note e = socket_invD [OF assms(1), of s]
  define want where "want = (if bit how 1 then ZX_SOCKET_PEER_WRITE_DISABLED else 0) OR
    (if bit how 0 then ZX_SOCKET_WRITE_DISABLED else 0)"
  have wb: "bit want n \<longleftrightarrow> bit how 1 \<and> n = 4 \<or> bit how 0 \<and> n = 5" for n
    by (auto simp: want_def bit_or_iff)
  have hb: "bit (d_signals (p s) AND (ZX_SOCKET_PEER_WRITE_DISABLED OR ZX_SOCKET_WRITE_DISABLED)) n \<longleftrightarrow>
      bit (d_signals (p s)) n \<and> (n = 4 \<or> n = 5)" for n
    by (auto simp: bit_and_iff bit_or_iff)
  have fr: "same_data p p'" by (rule same_data_frames(1) [OF assms(2)])
  show ?thesis
  proof (cases "want = d_signals (p s) AND (ZX_SOCKET_PEER_WRITE_DISABLED OR ZX_SOCKET_WRITE_DISABLED)")
    case True
    then have "bit (d_signals (p s)) 4 = bit how 1" "bit (d_signals (p s)) 5 = bit how 0"
      using wb [of 4] wb [of 5] hb [of 4] hb [of 5] by simp_all
    moreover have "r = ZX_OK" "p' = p"
      using assms(2) True by (simp_all add: Socket_Shutdown_def Let_def want_def)
    moreover have "bit (d_signals (p s)) 4 = s_read_disabled (p s)" using e(3) by (simp add: socket_own_ok_def)
    ultimately show ?thesis using e(5) fr by (auto simp: socket_peer_ok_def)
  next
    case False
    then show ?thesis
      using assms(2) fr side_cases [of t s] e(2)
      by (auto simp: Socket_Shutdown_def ShutdownOtherLocked_def Let_def Socket_update_eq want_def bit_or_iff
          split: if_splits)
  qed
qed

text \<open>No operation makes an endpoint readable again after a shutdown.\<close>

lemma read_disabled_frames:
  "s_read_disabled (p e) \<Longrightarrow> Socket_Shutdown ops how s p w = (r, p', w') \<Longrightarrow> s_read_disabled (p' e)"
  "s_read_disabled (p e) \<Longrightarrow> Socket_Share ops h s p w = (r, p', w') \<Longrightarrow> s_read_disabled (p' e)"
  "s_read_disabled (p e) \<Longrightarrow> Socket_Accept ops s p w = (ra, p', w') \<Longrightarrow> s_read_disabled (p' e)"
  "s_read_disabled (p e) \<Longrightarrow> SetReadThreshold ops val s p w = (r, p', w') \<Longrightarrow> s_read_disabled (p' e)"
  "s_read_disabled (p e) \<Longrightarrow> SetWriteThreshold ops val s p w = (r, p', w') \<Longrightarrow> s_read_disabled (p' e)"
  "s_read_disabled (p e) \<Longrightarrow> Socket_on_zero_handles ops s p w = (p', w') \<Longrightarrow> s_read_disabled (p' e)"
  "s_read_disabled (p e) \<Longrightarrow> Peered_user_signal_self ops 0 s c t p w = (r, p', w') \<Longrightarrow> s_read_disabled (p' e)"
  "s_read_disabled (p e) \<Longrightarrow> Peered_user_signal_peer ops 0 s c t p w = (r, p', w') \<Longrightarrow> s_read_disabled (p' e)"
  "s_read_disabled (p e) \<Longrightarrow> WriteControl ops mem s src len p w = Some (r, p', w') \<Longrightarrow> s_read_disabled (p' e)"
  "s_read_disabled (p e) \<Longrightarrow> ReadControl ops wr type s dst len p w = Some (rn, out, p', w') \<Longrightarrow> s_read_disabled (p' e)"
  "s_read_disabled (p e) \<Longrightarrow> WriteData ops ac mem s src len p w = Some (rn, p', w') \<Longrightarrow> s_read_disabled (p' e)"
  "s_read_disabled (p e) \<Longrightarrow> ReadData ops wr type s dst len p w = (rn, out, p', w') \<Longrightarrow> s_read_disabled (p' e)"
             apply (auto simp: Socket_Shutdown_def ShutdownOtherLocked_def Let_def Socket_update_eq split: if_splits) [1]
            apply (auto simp: Socket_Share_def ShareSelfLocked_def Socket_update_eq split: if_splits) [1]
           apply (auto simp: Socket_Accept_def Socket_update_eq split: if_splits option.splits) [1]
          apply (auto simp: SetReadThreshold_def Let_def Socket_update_eq split: if_splits) [1]
         apply (auto simp: SetWriteThreshold_def Let_def Socket_update_eq split: if_splits) [1]
        apply (auto simp: Socket_on_zero_handles_def Peered_on_zero_handles_def Let_def Socket_on_zero_handles_locked_def
      Socket_OnPeerZeroHandlesLocked_def Socket_update_eq split: if_splits) [1]
       apply (auto simp: Peered_user_signal_self_def UpdateStateHelper_eq split: if_splits) [1]
      apply (auto simp: Peered_user_signal_peer_def UpdateStateHelper_eq split: if_splits) [1]
     apply (auto simp: WriteControl_def WriteControlSelfLocked_def Let_def Socket_update_eq
      split: if_splits option.splits) [1]
    apply (auto simp: ReadControl_def Let_def Socket_update_eq split: if_splits option.splits read_type.splits) [1]
   apply (auto simp: WriteData_def Socket_WriteSelfLocked_def Let_def Socket_update_if Socket_update_eq
      split: if_splits option.splits sum.splits prod.splits) [1]
  apply (auto simp: ReadData_def Let_def Socket_update_if Socket_update_eq split: if_splits read_type.splits prod.splits) [1]
  done

lemma read_disabled_observers:
  "s_read_disabled (p s) \<Longrightarrow> AddObserver ops True obs (p s) w = (r, x, w') \<Longrightarrow> s_read_disabled x"
  "s_read_disabled (p s) \<Longrightarrow> Cancel ops h (p s) w = (x, w') \<Longrightarrow> s_read_disabled x"
  "s_read_disabled (p s) \<Longrightarrow> CancelByKey ops h port key (p s) w = (b, x, w') \<Longrightarrow> s_read_disabled x"
  by (auto simp: AddObserver_def AddObserverHelper_def Cancel_def CancelByKey_def
      CancelWithFunc_def Let_def split: if_splits prod.splits)

lemma socket_step_disabled:
  "socket_step ops pw snt rcv pw' \<Longrightarrow> s_read_disabled (fst pw e) \<Longrightarrow> s_read_disabled (fst pw' e)"
proof (induction rule: socket_step.induct)
  case (write_plane ac mem plane s src len p w r p' w')
  then show ?case by (cases plane) (auto simp: Socket_Write_def intro: read_disabled_frames(9,11))
next
  case (read_plane wr plane type s dst len p w r out p' w')
  then show ?case by (cases plane) (auto simp: Socket_Read_def intro: read_disabled_frames(10,12))
qed (auto intro: read_disabled_frames read_disabled_observers)

text \<open>The states a pair can be in after some operations.\<close>

definition socket_later :: "('o, 'w) observer_ops \<Rightarrow> (side \<Rightarrow> 'o socket) \<times> 'w \<Rightarrow> (side \<Rightarrow> 'o socket) \<times> 'w \<Rightarrow> bool" where
  "socket_later ops = (\<lambda>pw pw'. \<exists>snt rcv. socket_step ops pw snt rcv pw')\<^sup>*\<^sup>*"

lemma socket_later_ok:
  assumes "socket_later ops pw pw'" "socket_inv (fst pw)"
  shows "socket_inv (fst pw') \<and> (s_read_disabled (fst pw e) \<longrightarrow> s_read_disabled (fst pw' e))"
  using assms unfolding socket_later_def
  by (induction rule: rtranclp_induct) (auto intro: socket_step_inv socket_step_disabled)

lemma disabled_results:
  assumes "socket_inv p" "p_peer (p s)" "s_read_disabled (p (other s))"
  shows "WriteData ops ac mem s src len p w = Some (Inl ZX_ERR_BAD_STATE, p, w)"
    "MBufChain_is_empty (s_data (p (other s))) \<Longrightarrow> n < 2 ^ 32 \<Longrightarrow>
     ReadData ops wr type (other s) dst n p w = (Inl ZX_ERR_BAD_STATE, [], p, w)"
proof -
  have "bit (d_signals (p s)) 5" "p_peer (p (other s))"
    using socket_invD [OF assms(1), of s] assms(2,3) by (auto simp: socket_peer_ok_def)
  with assms show "WriteData ops ac mem s src len p w = Some (Inl ZX_ERR_BAD_STATE, p, w)"
    "MBufChain_is_empty (s_data (p (other s))) \<Longrightarrow> n < 2 ^ 32 \<Longrightarrow>
     ReadData ops wr type (other s) dst n p w = (Inl ZX_ERR_BAD_STATE, [], p, w)"
    by (simp_all add: WriteData_def ReadData_def Let_def)
qed

lemma WriteData_stream_result:
  assumes "socket_inv p" "\<not> bit (s_flags (p s)) 0" "p_peer (p s)" "\<not> bit (d_signals (p s)) 5"
    "0 < len" "len < 2 ^ 32" "c_size (s_data (p (other s))) < kSizeMax" "\<forall>a. ac a" "user_readable mem src len"
  shows "\<exists>p' w'. WriteData ops ac mem s src len p w =
      Some (Inr (min len (kSizeMax - c_size (s_data (p (other s))))), p', w') \<and> p_peer (p' s)"
proof -
  note e = socket_invD [OF assms(1), of s]
  have wf: "chain_wf (s_data (p (other s)))" using e(4) by (simp add: socket_own_ok_def)
  define n where "n = min len (kSizeMax - c_size (s_data (p (other s))))"
  have n: "0 < n" using assms(5,7) by (simp add: n_def)
  obtain c' where "WriteStream ac mem src len (s_data (p (other s))) = Some (Inr n, c')"
    using WriteStream_appends [OF wf, of ac mem src len] assms(8,9) n chain_wf_bytes [OF wf]
    by (auto simp: n_def)
  then show ?thesis
    using assms e(1) unfolding n_def [symmetric]
    by (simp add: WriteData_def Socket_WriteSelfLocked_def Let_def Socket_update_if Socket_update_eq
        MBufChain_is_full_def)
qed

section \<open>Properties\<close>

text \<open>C2. Whatever sequence of operations a program runs on a socket pair, the signals of both
  endpoints report its state: \<open>READABLE\<close> exactly when bytes are queued, the threshold signals exactly
  when the thresholds are met, \<open>CONTROL_READABLE\<close>, \<open>ACCEPT\<close> and the shutdown signals exactly as the
  stored message, handle and shutdown state say, and \<open>WRITABLE\<close> never while the peer is full. In these
  states every read and write returns; no operation touches a control buffer that does not exist.\<close>

theorem socket_history_ok:
  assumes "socket_reach ops flags (p, w) sent received"
  shows "socket_inv p \<and> Socket_Write ops ac mem plane s src len p w \<noteq> None \<and>
    Socket_Read ops wr plane type s dst len p w \<noteq> None"
proof -
  have "socket_inv p" using socket_reach_invariant [OF assms] by simp
  with Socket_Write_inv [of p ops ac mem plane s src len w] Socket_Read_inv [of p ops wr plane type s dst len w]
  show ?thesis by auto
qed

definition socket_example :: "u32 \<Rightarrow> side \<Rightarrow> unit socket" where
  "socket_example flags = (case fst (Socket_Create (\<lambda>_. True) (\<lambda>_ _. 0) flags 1024) of Inr p \<Rightarrow> p)"

lemma socket_example_create:
  assumes "flags AND NOT ZX_SOCKET_CREATE_MASK = 0"
  shows "\<exists>g. Socket_Create (\<lambda>_. True) (\<lambda>_ _. 0) flags 1024 = (Inr (socket_example flags), g)"
  using assms by (simp add: socket_example_def Socket_Create_def Let_def split: prod.splits)

lemma socket_flags_ok: "0 AND NOT ZX_SOCKET_CREATE_MASK = 0" "7 AND NOT ZX_SOCKET_CREATE_MASK = 0"
  by (simp_all add: ZX_SOCKET_CREATE_MASK_def ZX_SOCKET_DATAGRAM_def ZX_SOCKET_HAS_CONTROL_def ZX_SOCKET_HAS_ACCEPT_def)

lemma socket_example_ok:
  assumes "flags AND NOT ZX_SOCKET_CREATE_MASK = 0"
  shows "socket_inv (socket_example flags)" "s_flags (socket_example flags s) = flags"
    "p_peer (socket_example flags s)" "s_data (socket_example flags s) = MBufChain_new"
    "socket_reach ops flags (socket_example flags, w) no_bytes no_bytes"
proof -
  obtain g where c: "Socket_Create (\<lambda>_. True) (\<lambda>_ _. 0) flags 1024 = (Inr (socket_example flags), g)"
    using socket_example_create [OF assms] by blast
  from Socket_Create_inv [OF c] show "socket_inv (socket_example flags)" "s_flags (socket_example flags s) = flags"
    "p_peer (socket_example flags s)" "s_data (socket_example flags s) = MBufChain_new" by auto
  from c show "socket_reach ops flags (socket_example flags, w) no_bytes no_bytes" by (rule socket_reach.create)
qed

theorem socket_history_ok_witness:
  "socket_inv (fst (snd (Socket_Share idle_observer_ops 5 E0 (socket_example 7) ())))"
proof -
  obtain r p w where S: "Socket_Share idle_observer_ops 5 E0 (socket_example 7) () = (r, p, w)"
    by (metis prod_cases3)
  have "socket_reach idle_observer_ops 7 (p, w) (\<lambda>t. no_bytes t @ no_bytes t) (\<lambda>t. no_bytes t @ no_bytes t)"
    by (rule socket_reach.step [OF socket_example_ok(5) [OF socket_flags_ok(2)] socket_step.share [OF S]])
  from socket_history_ok [OF this] show ?thesis by (simp add: S)
qed

text \<open>C1. A stream socket is a reliable byte stream. In every history of a pair created without the
  datagram flag, the bytes that writes accepted for an endpoint are the bytes reads delivered from it
  followed by the bytes still queued: nothing is lost, duplicated or reordered, also when user buffers
  fault, allocations fail or the endpoints shut down or close in between.\<close>

theorem socket_stream_delivery:
  assumes "socket_reach ops flags (p, w) sent received" "\<not> bit flags 0"
  shows "sent t = received t @ chain_bytes (s_data (p t))"
  using socket_reach_bytes [OF assms, of t] by simp

theorem socket_stream_delivery_witness:
  "\<exists>r p' w'. Socket_Write idle_observer_ops (\<lambda>_. True) (mem_of [1, 2, 3]) kData E0 0 3 (socket_example 0) () =
     Some (r, p', w') \<and> written_bytes kData E0 (mem_of [1, 2, 3]) 0 r E1 = chain_bytes (s_data (p' E1))"
proof -
  note I = socket_example_ok(1) [OF socket_flags_ok(1)] and R = socket_example_ok(5) [OF socket_flags_ok(1)]
  obtain r p' w' where W: "Socket_Write idle_observer_ops (\<lambda>_. True) (mem_of [1, 2, 3]) kData E0 0 3
      (socket_example 0) () = Some (r, p', w')"
    using Socket_Write_inv [OF I, of idle_observer_ops "\<lambda>_. True" "mem_of [1, 2, 3]" kData E0 0 3 "()"] by blast
  from socket_stream_delivery [OF socket_reach.step [OF R socket_step.write_plane [OF W]], of E1] W
  show ?thesis by (simp add: no_bytes_def)
qed

text \<open>A control message written at one endpoint is what the peer reads: a successful write
  followed by a consuming read at the other end returns the message, cut to the reader's buffer, and
  frees the slot so that the writer may send again.\<close>

theorem socket_control_roundtrip:
  assumes "socket_inv p" "WriteControl ops mem s src len p w = Some (ZX_OK, p1, w1)"
    and "user_writable wr dst (min len n)"
  shows "\<exists>p2 w2. ReadControl ops wr kConsume (other s) dst n p1 w1 =
      Some (Inr (min len n), take n (user_bytes mem src len), p2, w2) \<and>
    s_control_msg_len (p2 (other s)) = 0 \<and> bit (d_signals (p2 s)) 7"
proof -
  note e = socket_invD [OF assms(1), of s]
  from assms(2) have c: "bit (s_flags (p s)) 1" "len \<noteq> 0" "len \<le> ControlMsg_kSize" "p_peer (p s)"
    "s_control_msg_len (p (other s)) = 0" "user_readable mem src len"
    by (auto simp: WriteControl_def WriteControlSelfLocked_def Let_def split: if_splits option.splits)
  obtain msg where msg: "s_control_msg (p (other s)) = Some msg" "length msg = ControlMsg_kSize"
    using e(1,4) c(1) by (auto simp: socket_own_ok_def)
  define o1 where "o1 = updated_observers ops 0 ZX_SOCKET_CONTROL_READABLE (d_signals (p (other s))) (d_observers (p (other s))) w"
  have "\<exists>o2. p1 = p(other s := (p (other s))\<lparr>s_control_msg := Some (overwrite msg 0 (user_bytes mem src len)),
      s_control_msg_len := len, d_signals := new_signals 0 ZX_SOCKET_CONTROL_READABLE (d_signals (p (other s))),
      d_observers := o1\<rparr>,
    s := (p s)\<lparr>d_signals := new_signals ZX_SOCKET_CONTROL_WRITABLE 0 (d_signals (p s)), d_observers := o2\<rparr>)"
    using assms(2) c msg e(2)
    by (simp add: WriteControl_def WriteControlSelfLocked_def Let_def Socket_update_eq o1_def) blast
  moreover have "take (min len n) (overwrite msg 0 (user_bytes mem src len)) = take n (user_bytes mem src len)"
    using c(3,6) msg(2) by (auto simp: overwrite_def min_def take_append)
  ultimately show ?thesis
    using c e(1,2) assms(3) by (auto simp: ReadControl_def Let_def Socket_update_eq)
qed

theorem socket_control_roundtrip_witness:
  "\<exists>p1 w1 p2 w2. WriteControl idle_observer_ops (mem_of [1, 2, 3]) E0 0 3 (socket_example 7) () = Some (ZX_OK, p1, w1) \<and>
     ReadControl idle_observer_ops (\<lambda>_. True) kConsume E1 0 2 p1 w1 = Some (Inr 2, [1, 2], p2, w2)"
proof -
  note ex = socket_example_ok [OF socket_flags_ok(2)]
  have rd: "user_readable (mem_of [1, 2, 3]) 0 3" by (rule mem_of_readable) simp
  have bytes: "user_bytes (mem_of [1, 2, 3]) 0 3 = [1, 2, 3]" by code_simp
  have z: "s_control_msg_len (socket_example 7 E1) = 0" "\<exists>m. s_control_msg (socket_example 7 E1) = Some m"
    by (simp_all add: socket_example_def Socket_Create_def socket_flags_ok Socket_new_def Socket_Init_def Let_def
        GenerateKernelObjectId_def)
  have "\<exists>p1 w1. WriteControl idle_observer_ops (mem_of [1, 2, 3]) E0 0 3 (socket_example 7) () = Some (ZX_OK, p1, w1)"
    using rd z by (auto simp: WriteControl_def WriteControlSelfLocked_def ex Let_def Socket_update_eq ControlMsg_kSize_def)
  with socket_control_roundtrip [OF ex(1), of idle_observer_ops "mem_of [1, 2, 3]" E0 0 3 "()" _ _ "\<lambda>_. True" 0 2]
  show ?thesis by (simp add: bytes user_writable_def numeral_2_eq_2) blast
qed

text \<open>Sharing a handle: after a successful \<open>Share\<close> a second one has to wait, and the peer's
  \<open>Accept\<close> returns exactly the shared handle and makes the endpoint shareable again.\<close>

theorem socket_share_accept:
  assumes "socket_inv p" "Socket_Share ops h s p w = (ZX_OK, p1, w1)"
  shows "fst (Socket_Share ops h' s p1 w1) = ZX_ERR_SHOULD_WAIT \<and>
    (\<exists>p2 w2. Socket_Accept ops (other s) p1 w1 = (Inr h, p2, w2) \<and>
       s_accept_queue (p2 (other s)) = None \<and> bit (d_signals (p2 s)) 9)"
proof -
  note e = socket_invD [OF assms(1), of s]
  from assms(2) have c: "bit (s_flags (p s)) 2" "p_peer (p s)" "s_accept_queue (p (other s)) = None"
    by (auto simp: Socket_Share_def ShareSelfLocked_def split: if_splits)
  from assms(2) c e(2) have "s_accept_queue (p1 (other s)) = Some h" "s_flags (p1 s) = s_flags (p s)"
    "s_flags (p1 (other s)) = s_flags (p (other s))" "p_peer (p1 s)" "p_peer (p1 (other s))"
    by (auto simp: Socket_Share_def ShareSelfLocked_def Let_def Socket_update_eq)
  with c e(1) show ?thesis
    by (auto simp: Socket_Share_def ShareSelfLocked_def Socket_Accept_def Let_def Socket_update_eq)
qed

theorem socket_share_accept_witness:
  "\<exists>p1 w1. Socket_Share idle_observer_ops 5 E0 (socket_example 7) () = (ZX_OK, p1, w1) \<and>
     fst (Socket_Accept idle_observer_ops E1 p1 w1) = Inr 5"
proof -
  note ex = socket_example_ok [OF socket_flags_ok(2)]
  have "s_accept_queue (socket_example 7 E1) = None"
    by (simp add: socket_example_def Socket_Create_def socket_flags_ok Socket_new_def Socket_Init_def Let_def
        GenerateKernelObjectId_def)
  then obtain p1 w1 where S: "Socket_Share idle_observer_ops 5 E0 (socket_example 7) () = (ZX_OK, p1, w1)"
    by (simp add: Socket_Share_def ShareSelfLocked_def ex Let_def Socket_update_eq)
  with socket_share_accept [OF ex(1) S, of 0] show ?thesis by auto
qed

text \<open>C28. Shutting an endpoint down for writing: in every later state, whatever the two endpoints do in between, as
  long as they are connected, it cannot write, and its peer gets \<open>BAD_STATE\<close> once it has read what was queued, instead
  of being asked to wait. Shutting it down for reading has the same effect in the other direction.\<close>

theorem socket_shutdown_effect:
  assumes "socket_inv p" "p_peer (p s)" "Socket_Shutdown ops how s p w = (r, p1, w1)"
    and "socket_later ops (p1, w1) (p', w')" "p_peer (p' s)"
  shows "r = ZX_OK \<and> socket_inv p' \<and>
    (bit how 0 \<longrightarrow> WriteData ops ac mem s src len p' w' = Some (Inl ZX_ERR_BAD_STATE, p', w') \<and>
       (MBufChain_is_empty (s_data (p' (other s))) \<and> n < 2 ^ 32 \<longrightarrow>
          ReadData ops wr type (other s) dst n p' w' = (Inl ZX_ERR_BAD_STATE, [], p', w'))) \<and>
    (bit how 1 \<longrightarrow> WriteData ops ac mem (other s) src len p' w' = Some (Inl ZX_ERR_BAD_STATE, p', w') \<and>
       (MBufChain_is_empty (s_data (p' s)) \<and> n < 2 ^ 32 \<longrightarrow>
          ReadData ops wr type s dst n p' w' = (Inl ZX_ERR_BAD_STATE, [], p', w')))"
proof -
  note st = Shutdown_state [OF assms(1,3)]
  have "socket_inv (fst (p1, w1))" using Shutdown_inv [OF assms(1,3)] by simp
  note L = socket_later_ok [OF assms(4) this]
  have inv: "socket_inv p'" using L by simp
  have peer: "p_peer (p' (other s))" using socket_invD(2) [OF inv, of s] assms(5) by simp
  have "bit how 0 \<Longrightarrow> s_read_disabled (p' (other s))" "bit how 1 \<Longrightarrow> s_read_disabled (p' (other (other s)))"
    using L [of "other s"] L [of s] st [of s] assms(2) by simp_all
  note d = disabled_results [OF inv assms(5) this(1)] disabled_results [OF inv peer this(2)]
  have "r = ZX_OK" using st [of s] by simp
  then show ?thesis using inv d by (intro conjI impI) auto
qed

theorem socket_shutdown_effect_witness:
  "\<exists>r p' w'. Socket_Shutdown idle_observer_ops 1 E0 (socket_example 0) () = (r, p', w') \<and>
     WriteData idle_observer_ops (\<lambda>_. True) (\<lambda>_. Some 7) E0 0 3 p' w' = Some (Inl ZX_ERR_BAD_STATE, p', w') \<and>
     (MBufChain_is_empty (s_data (p' E1)) \<longrightarrow>
        ReadData idle_observer_ops (\<lambda>_. True) kConsume E1 0 3 p' w' = (Inl ZX_ERR_BAD_STATE, [], p', w'))"
proof -
  note ex = socket_example_ok [OF socket_flags_ok(1)]
  obtain r p' w' where S: "Socket_Shutdown idle_observer_ops 1 E0 (socket_example 0) () = (r, p', w')"
    by (metis prod_cases3)
  have "socket_later idle_observer_ops (p', w') (p', w')" by (simp add: socket_later_def)
  moreover have "p_peer (p' E0)" using Shutdown_state [OF ex(1) S, of E0] ex(3) by simp
  ultimately show ?thesis
    using socket_shutdown_effect [OF ex(1,3) S, of p' w' "\<lambda>_. True" "\<lambda>_. Some 7" 0 3 3 "\<lambda>_. True" kConsume 0] S by auto
qed

text \<open>C35. \<open>WRITABLE\<close> comes back after a shutdown. When an endpoint has been shut down for writing
  while its peer was full, the peer's next read asserts \<open>WRITABLE\<close> again, although every write at
  that endpoint fails with \<open>BAD_STATE\<close>.\<close>

theorem socket_writable_after_shutdown:
  assumes "socket_inv p" "p_peer (p s)" "bit (d_signals (p s)) 5"
    and "kSizeMax \<le> c_size (s_data (p (other s)))"
    and "ReadData ops wr kConsume (other s) dst len p w = (Inr st, out, p', w')" "0 < st"
  shows "bit (d_signals (p' s)) 1 \<and> bit (d_signals (p' s)) 5 \<and>
    WriteData ops ac mem s src n p' w' = Some (Inl ZX_ERR_BAD_STATE, p', w')"
proof -
  note e = socket_invD [OF assms(1), of s]
  obtain st' out' data where R: "MBufChain_Read wr dst len (bit (s_flags (p s)) 0) (s_data (p (other s))) = (st', out', data)"
    by (metis prod_cases3)
  have "bit (d_signals (p' s)) 1 \<and> bit (d_signals (p' s)) 5 \<and> p_peer (p' s)"
    using assms(2-6) R e(1,2)
    by (auto simp: ReadData_def Let_def Socket_update_if Socket_update_eq chain_defs ReadData_peer_set_def bit_or_iff
        split: if_splits)
  then show ?thesis by (simp add: WriteData_def)
qed

lemma socket_example_signals: "\<not> bit (d_signals (socket_example 0 E0)) 5"
  by (simp add: socket_example_def Socket_Create_def socket_flags_ok Socket_new_def Socket_Init_def Let_def
      GenerateKernelObjectId_def bit_or_iff)

lemma ReadData_one_byte:
  assumes "socket_inv p" "\<not> bit (s_flags (p s)) 0" "chain_bytes (s_data (p s)) = b # bs"
  shows "\<exists>p' w'. ReadData ops (\<lambda>_. True) kConsume s dst 1 p w = (Inr 1, [b], p', w')"
proof -
  have wf: "chain_wf (s_data (p s))" using socket_invD(3) [OF assms(1), of s] by (simp add: socket_own_ok_def)
  obtain st out c where R: "MBufChain_Read (\<lambda>_. True) dst 1 False (s_data (p s)) = (st, out, c)"
    by (metis prod_cases3)
  have "st = 1 \<and> out = [b]"
    using MBufChain_Read_prefix [OF wf R] assms(3) by (auto simp: user_writable_def)
  moreover have "\<not> MBufChain_is_empty (s_data (p s))"
    using chain_wf_bytes [OF wf] assms(3) by (auto simp: MBufChain_is_empty_def)
  ultimately show ?thesis
    using R assms(2) by (auto simp: ReadData_def Let_def Socket_update_if Socket_update_eq)
qed

theorem socket_writable_after_shutdown_witness:
  "\<exists>p w sent received. socket_reach idle_observer_ops 0 (p, w) sent received \<and>
     bit (d_signals (p E0)) 1 \<and> bit (d_signals (p E0)) 5 \<and>
     WriteData idle_observer_ops (\<lambda>_. True) (\<lambda>_. Some 7) E0 0 3 p w = Some (Inl ZX_ERR_BAD_STATE, p, w)"
proof -
  let ?o = idle_observer_ops
  note ex = socket_example_ok [OF socket_flags_ok(1)]
  have k: "0 < kSizeMax" "kSizeMax < 2 ^ 32" "c_size MBufChain_new = 0"
    by (simp_all add: kSizeMax_def kPayloadSize_def kMallocSize_def kHeaderSize_def MBufChain_new_def)
  obtain p1 w1 where W: "WriteData ?o (\<lambda>_. True) (\<lambda>_. Some 7) E0 0 kSizeMax (socket_example 0) () =
      Some (Inr kSizeMax, p1, w1)" and p1: "p_peer (p1 E0)"
    using WriteData_stream_result [of "socket_example 0" E0 kSizeMax "\<lambda>_. True" "\<lambda>_. Some 7" 0 ?o "()"]
      ex socket_example_signals k user_example by auto
  have R1: "socket_reach ?o 0 (p1, w1) (\<lambda>t. no_bytes t @ written_bytes kData E0 (\<lambda>_. Some 7) 0 (Inr kSizeMax) t)
      (\<lambda>t. no_bytes t @ no_bytes t)"
    by (rule socket_reach.step [OF ex(5) socket_step.write_plane [where ac = "\<lambda>_. True" and len = kSizeMax]])
       (use W in \<open>simp add: Socket_Write_def\<close>)
  then have b1: "chain_bytes (s_data (p1 E1)) = replicate kSizeMax 7" "\<not> bit (s_flags (p1 E1)) 0"
    using socket_reach_bytes [OF R1, of E1] socket_invD(1) [OF socket_reach_invariant [OF R1], of E0]
    by (simp_all add: written_bytes_def no_bytes_def user_example)
  obtain r p2 w2 where S: "Socket_Shutdown ?o 1 E0 p1 w1 = (r, p2, w2)" by (metis prod_cases3)
  note R2 = socket_reach.step [OF R1 socket_step.shutdown [OF S]]
  have i2: "socket_inv p2" using socket_reach_invariant [OF R2] by simp
  have b2: "p_peer (p2 E0)" "bit (d_signals (p2 E0)) 5" "chain_bytes (s_data (p2 E1)) = replicate kSizeMax 7"
    "\<not> bit (s_flags (p2 E1)) 0"
    using Shutdown_state [OF _ S, of E0] socket_reach_invariant [OF R1] p1 b1 by (simp_all add: same_data_def)
  have full: "kSizeMax \<le> c_size (s_data (p2 E1))"
    using chain_wf_bytes [of "s_data (p2 E1)"] b2(3) socket_invD(4) [OF i2, of E0] by (simp add: socket_own_ok_def)
  obtain p3 w3 where D: "ReadData ?o (\<lambda>_. True) kConsume E1 0 1 p2 w2 = (Inr 1, [7], p3, w3)"
    using ReadData_one_byte [OF i2 b2(4), of 7 "replicate (kSizeMax - 1) 7" ?o 0 w2] b2(3) k(1)
    by (metis Suc_diff_1 replicate_Suc)
  have R3: "\<exists>sent received. socket_reach ?o 0 (p3, w3) sent received"
    using socket_reach.step [OF R2 socket_step.read_plane [of ?o "\<lambda>_. True" kData kConsume E1 0 1]] D
    by (auto simp: Socket_Read_def)
  with socket_writable_after_shutdown [OF i2 b2(1,2), of ?o "\<lambda>_. True" 0 1 w2 1 "[7]" p3 w3
      "\<lambda>_. True" "\<lambda>_. Some 7" 0 3] full D show ?thesis by auto
qed

end
