(* ===== verification/Zx_Pmm.thy ===== *)
theory Zx_Pmm
  imports Zx_Prelude
begin

text \<open>
  The physical memory manager: \<^verbatim>\<open>kernel/vm/pmm_node.cpp\<close>, the searches of
  \<^verbatim>\<open>kernel/vm/pmm_arena.cpp\<close>, and \<^verbatim>\<open>kernel/vm/pmm.cpp\<close>.

  A page is named by its physical address; the arenas do not overlap, so that the address determines
  the page descriptor. Addresses and sizes are natural numbers, with the wrap-around at 64 bits written
  out where the code computes with addresses that may overflow. Page counts are the exception: adding the
  count of a request to a page index or to the number of pages taken so far is assumed not to overflow. The per-CPU page counters are
  statistics and are left out, as are the debug dumps.
\<close>

section \<open>Pages and arenas\<close>

definition PAGE_SIZE :: nat where
  "PAGE_SIZE = 4096"

definition PAGE_SIZE_SHIFT :: nat where
  "PAGE_SIZE_SHIFT = 12"

text \<open>\<open>ROUNDUP\<close> to a power of two, in 64 bits.\<close>

definition ROUNDUP :: "nat \<Rightarrow> nat \<Rightarrow> nat" where
  "ROUNDUP a b = (let s = (a + (b - 1)) mod 2 ^ 64 in s - s mod b)"

definition ROUNDDOWN :: "nat \<Rightarrow> nat \<Rightarrow> nat" where
  "ROUNDDOWN a b = a - a mod b"

datatype vm_page_state =
    VM_PAGE_STATE_FREE
  | VM_PAGE_STATE_ALLOC
  | VM_PAGE_STATE_OBJECT
  | VM_PAGE_STATE_WIRED
  | VM_PAGE_STATE_HEAP
  | VM_PAGE_STATE_MMU
  | VM_PAGE_STATE_IOMMU
  | VM_PAGE_STATE_IPC

record pmm_arena =
  a_base :: nat
  a_size :: nat
  a_priority :: nat

record pmm_node =
  n_state :: "nat \<Rightarrow> vm_page_state"
  n_arena_list :: "pmm_arena list"
  n_free_list :: "nat list"
  n_free_count :: nat
  n_arena_cumulative_size :: nat

definition PmmNode_new :: pmm_node where
  "PmmNode_new = \<lparr>n_state = (\<lambda>_. VM_PAGE_STATE_FREE), n_arena_list = [], n_free_list = [], n_free_count = 0,
     n_arena_cumulative_size = 0\<rparr>"

abbreviation is_free :: "pmm_node \<Rightarrow> nat \<Rightarrow> bool" where
  "is_free n p \<equiv> n_state n p = VM_PAGE_STATE_FREE"

definition address_in_arena :: "pmm_arena \<Rightarrow> nat \<Rightarrow> bool" where
  "address_in_arena a address \<longleftrightarrow> address \<ge> a_base a \<and> address \<le> (a_base a + a_size a - 1) mod 2 ^ 64"

definition get_page :: "pmm_arena \<Rightarrow> nat \<Rightarrow> nat" where
  "get_page a index = a_base a + index * PAGE_SIZE"

definition FindSpecific :: "pmm_arena \<Rightarrow> nat \<Rightarrow> nat option" where
  "FindSpecific a pa =
     (if \<not> address_in_arena a pa then None else Some (get_page a ((pa - a_base a) div PAGE_SIZE)))"

fun PaddrToPage :: "pmm_arena list \<Rightarrow> nat \<Rightarrow> nat option" where
  "PaddrToPage [] addr = None"
| "PaddrToPage (a # as) addr =
     (if address_in_arena a addr then Some (get_page a ((addr - a_base a) div PAGE_SIZE)) else PaddrToPage as addr)"

text \<open>The first page of a run that is not free.\<close>

fun first_used :: "pmm_node \<Rightarrow> pmm_arena \<Rightarrow> nat \<Rightarrow> nat \<Rightarrow> nat \<Rightarrow> nat option" where
  "first_used n a start i 0 = None"
| "first_used n a start i (Suc k) =
     (if \<not> is_free n (get_page a (start + i)) then Some i else first_used n a start (Suc i) k)"

lemma first_used_bounds: "first_used n a start i k = Some j \<Longrightarrow> i \<le> j \<and> j < i + k"
  by (induction k arbitrary: i) (force split: if_splits)+

text \<open>The search runs over page indices, which are far below \<open>2 ^ 64\<close>: rounding them up does not wrap.\<close>

definition round_index :: "nat \<Rightarrow> nat \<Rightarrow> nat" where
  "round_index a b = (a + (b - 1)) - (a + (b - 1)) mod b"

lemma round_index_ge: "0 < b \<Longrightarrow> a \<le> round_index a b"
proof -
  assume "0 < b"
  then have "(a + (b - 1)) mod b \<le> b - 1" by (simp add: less_Suc_eq_le [symmetric] del: less_Suc_eq_le)
  then show ?thesis by (simp add: round_index_def)
qed

function find_run :: "pmm_node \<Rightarrow> pmm_arena \<Rightarrow> nat \<Rightarrow> nat \<Rightarrow> nat \<Rightarrow> nat \<Rightarrow> nat option" where
  "find_run n a count align_log2 aligned_offset start =
     (if start < a_size a div PAGE_SIZE \<and> start + count \<le> a_size a div PAGE_SIZE then
        case first_used n a start 0 count of
          None \<Rightarrow> Some start
        | Some i \<Rightarrow> find_run n a count align_log2 aligned_offset
                      (round_index (start - aligned_offset + i + 1) (2 ^ (align_log2 - PAGE_SIZE_SHIFT)) + aligned_offset)
      else None)"
  by auto
termination
proof (relation "measure (\<lambda>(n, a, count, al, off, start). a_size a div PAGE_SIZE - start)", goal_cases)
  case (2 n a count al off start i)
  have "start - off + i + 1 \<le> round_index (start - off + i + 1) (2 ^ (al - PAGE_SIZE_SHIFT))"
    by (rule round_index_ge) simp
  then have "start < round_index (start - off + i + 1) (2 ^ (al - PAGE_SIZE_SHIFT)) + off" by arith
  with 2 show ?case by (auto intro!: diff_less_mono2)
qed simp

declare find_run.simps [simp del]

definition FindFreeContiguous :: "pmm_node \<Rightarrow> pmm_arena \<Rightarrow> nat \<Rightarrow> nat \<Rightarrow> nat option" where
  "FindFreeContiguous n a count alignment_log2 =
     (let rounded_base = ROUNDUP (a_base a) (2 ^ alignment_log2) in
      if rounded_base < a_base a \<or> rounded_base > (a_base a + a_size a - 1) mod 2 ^ 64 then None
      else
        let aligned_offset = (rounded_base - a_base a) div PAGE_SIZE in
        map_option (get_page a) (find_run n a count alignment_log2 aligned_offset aligned_offset))"

definition CountStates :: "pmm_node \<Rightarrow> pmm_arena \<Rightarrow> (vm_page_state \<Rightarrow> nat) \<Rightarrow> vm_page_state \<Rightarrow> nat" where
  "CountStates n a = fold (\<lambda>i cnt. cnt(n_state n (get_page a i) := cnt (n_state n (get_page a i)) + 1))
     [0..<a_size a div PAGE_SIZE]"

section \<open>The node: freeing and allocating\<close>

definition set_page_state :: "nat \<Rightarrow> vm_page_state \<Rightarrow> pmm_node \<Rightarrow> pmm_node" where
  "set_page_state p st n = n\<lparr>n_state := (n_state n)(p := st)\<rparr>"

definition AddFreePages :: "nat list \<Rightarrow> pmm_node \<Rightarrow> pmm_node" where
  "AddFreePages list n = n\<lparr>n_free_list := n_free_list n @ list, n_free_count := n_free_count n + length list\<rparr>"

definition FreePageHelperLocked :: "nat \<Rightarrow> pmm_node \<Rightarrow> pmm_node" where
  "FreePageHelperLocked p n = set_page_state p VM_PAGE_STATE_FREE n"

definition FreePage :: "nat \<Rightarrow> pmm_node \<Rightarrow> pmm_node" where
  "FreePage p n =
     (let n1 = FreePageHelperLocked p n in
      n1\<lparr>n_free_list := p # n_free_list n1, n_free_count := n_free_count n1 + 1\<rparr>)"

definition FreeListLocked :: "nat list \<Rightarrow> pmm_node \<Rightarrow> pmm_node" where
  "FreeListLocked list n =
     (let n1 = fold FreePageHelperLocked (rev list) n in
      n1\<lparr>n_free_list := list @ n_free_list n1, n_free_count := n_free_count n1 + length list\<rparr>)"

definition FreeList :: "nat list \<Rightarrow> pmm_node \<Rightarrow> pmm_node" where
  "FreeList list n = FreeListLocked list n"

definition take_page :: "nat \<Rightarrow> pmm_node \<Rightarrow> pmm_node" where
  "take_page p n =
     (set_page_state p VM_PAGE_STATE_ALLOC n)
       \<lparr>n_free_list := remove1 p (n_free_list n), n_free_count := n_free_count n - 1\<rparr>"

definition AllocPage :: "pmm_node \<Rightarrow> (zx_status + nat) \<times> pmm_node" where
  "AllocPage n =
     (case n_free_list n of
        [] \<Rightarrow> (Inl ZX_ERR_NO_MEMORY, n)
      | p # _ \<Rightarrow> (Inr p, take_page p n))"

text \<open>The allocators append to the caller's list of pages, and free that list when they fail: the
  third component is the caller's list afterwards.\<close>

fun AllocPages_loop :: "nat \<Rightarrow> nat list \<Rightarrow> pmm_node \<Rightarrow> zx_status \<times> nat list \<times> pmm_node" where
  "AllocPages_loop 0 list n = (ZX_OK, list, n)"
| "AllocPages_loop (Suc count) list n =
     (case n_free_list n of
        [] \<Rightarrow> (ZX_ERR_NO_MEMORY, [], FreeListLocked list n)
      | p # _ \<Rightarrow> AllocPages_loop count (list @ [p]) (take_page p n))"

definition AllocPages :: "nat \<Rightarrow> nat list \<Rightarrow> pmm_node \<Rightarrow> zx_status \<times> nat list \<times> pmm_node" where
  "AllocPages count list n = (if count = 0 then (ZX_OK, list, n) else AllocPages_loop count list n)"

text \<open>One arena of \<open>AllocRange\<close>: the number of pages still to allocate, the next address, the list.\<close>

fun AllocRange_while ::
  "pmm_arena \<Rightarrow> nat \<Rightarrow> nat \<Rightarrow> nat list \<Rightarrow> pmm_node \<Rightarrow> nat \<times> nat \<times> nat list \<times> pmm_node" where
  "AllocRange_while a 0 address list n = (0, address, list, n)"
| "AllocRange_while a (Suc k) address list n =
     (case FindSpecific a address of
        None \<Rightarrow> (Suc k, address, list, n)
      | Some p \<Rightarrow>
          if \<not> is_free n p then (Suc k, address, list, n)
          else AllocRange_while a k (address + PAGE_SIZE) (list @ [p]) (take_page p n))"

fun AllocRange_arenas ::
  "pmm_arena list \<Rightarrow> nat \<Rightarrow> nat \<Rightarrow> nat list \<Rightarrow> pmm_node \<Rightarrow> nat \<times> nat list \<times> pmm_node" where
  "AllocRange_arenas [] k address list n = (k, list, n)"
| "AllocRange_arenas (a # as) k address list n =
     (let (k', address', list', n') = AllocRange_while a k address list n in
      if k' = 0 then (0, list', n') else AllocRange_arenas as k' address' list' n')"

definition AllocRange :: "nat \<Rightarrow> nat \<Rightarrow> nat list \<Rightarrow> pmm_node \<Rightarrow> zx_status \<times> nat list \<times> pmm_node" where
  "AllocRange address count list n =
     (if count = 0 then (ZX_OK, list, n)
      else
        let (k, list', n') =
              AllocRange_arenas (n_arena_list n) count (ROUNDDOWN address PAGE_SIZE) list n in
        if k \<noteq> 0 then (ZX_ERR_NOT_FOUND, [], FreeListLocked list' n') else (ZX_OK, list', n'))"

fun AllocContiguous_arenas ::
  "pmm_arena list \<Rightarrow> nat \<Rightarrow> nat \<Rightarrow> nat list \<Rightarrow> pmm_node \<Rightarrow> (zx_status + nat) \<times> nat list \<times> pmm_node" where
  "AllocContiguous_arenas [] count alignment_log2 list n = (Inl ZX_ERR_NOT_FOUND, list, n)"
| "AllocContiguous_arenas (a # as) count alignment_log2 list n =
     (case FindFreeContiguous n a count alignment_log2 of
        None \<Rightarrow> AllocContiguous_arenas as count alignment_log2 list n
      | Some p \<Rightarrow>
          let pages = map (\<lambda>i. p + i * PAGE_SIZE) [0..<count] in
          (Inr p, list @ pages, fold take_page pages n))"

text \<open>\<open>AllocContiguous\<close> returns the address of the run, or nothing when no page was asked for.\<close>

definition AllocContiguous ::
  "nat \<Rightarrow> nat \<Rightarrow> nat list \<Rightarrow> pmm_node \<Rightarrow> (zx_status + nat option) \<times> nat list \<times> pmm_node" where
  "AllocContiguous count alignment_log2 list n =
     (if count = 0 then (Inr None, list, n)
      else
        let (r, list', n') = AllocContiguous_arenas (n_arena_list n) count (max alignment_log2 PAGE_SIZE_SHIFT) list n in
        (map_sum id Some r, list', n'))"

definition pmm_alloc_contiguous ::
  "nat \<Rightarrow> nat \<Rightarrow> nat list \<Rightarrow> pmm_node \<Rightarrow> (zx_status + nat option) \<times> nat list \<times> pmm_node" where
  "pmm_alloc_contiguous count alignment_log2 list n =
     (if count = 1 \<and> alignment_log2 \<le> PAGE_SIZE_SHIFT then
        case AllocPage n of
          (Inl status, n') \<Rightarrow> (Inl status, list, n')
        | (Inr p, n') \<Rightarrow> (Inr (Some p), list @ [p], n')
      else AllocContiguous count alignment_log2 list n)"

section \<open>The invariant of a node\<close>

text \<open>The free list holds every free page of the arenas exactly once, and the count is its length.
  A caller owns pages that are distinct and not free.\<close>

definition arena_pages :: "pmm_node \<Rightarrow> nat set" where
  "arena_pages n = {get_page a i | a i. a \<in> set (n_arena_list n) \<and> i < a_size a div PAGE_SIZE}"

definition free_pages :: "pmm_node \<Rightarrow> nat set" where
  "free_pages n = {p \<in> arena_pages n. is_free n p}"

definition pmm_inv :: "pmm_node \<Rightarrow> bool" where
  "pmm_inv n \<longleftrightarrow> distinct (n_free_list n) \<and> n_free_count n = length (n_free_list n) \<and>
     (\<forall>p \<in> set (n_free_list n). is_free n p) \<and> free_pages n \<subseteq> set (n_free_list n)"

definition owned :: "pmm_node \<Rightarrow> nat list \<Rightarrow> bool" where
  "owned n list \<longleftrightarrow> distinct list \<and> (\<forall>p \<in> set list. \<not> is_free n p)"

lemma arena_pages_cong: "n_arena_list n' = n_arena_list n \<Longrightarrow> arena_pages n' = arena_pages n"
  by (simp add: arena_pages_def)

lemma take_page_simps [simp]:
  "n_free_list (take_page p n) = remove1 p (n_free_list n)"
  "n_free_count (take_page p n) = n_free_count n - 1"
  "n_arena_list (take_page p n) = n_arena_list n"
  "n_arena_cumulative_size (take_page p n) = n_arena_cumulative_size n"
  "n_state (take_page p n) = (n_state n)(p := VM_PAGE_STATE_ALLOC)"
  by (simp_all add: take_page_def set_page_state_def)

lemma take_page_inv:
  assumes "pmm_inv n" "p \<in> set (n_free_list n)" "owned n list"
  shows "pmm_inv (take_page p n)" "owned (take_page p n) (list @ [p])"
proof -
  have "free_pages (take_page p n) \<subseteq> free_pages n - {p}"
    by (auto simp: free_pages_def arena_pages_def)
  with assms show "pmm_inv (take_page p n)"
    by (auto simp: pmm_inv_def length_remove1)
  show "owned (take_page p n) (list @ [p])"
    using assms by (auto simp: owned_def pmm_inv_def)
qed

lemma fold_free_helper [simp]:
  "fold FreePageHelperLocked ps n = n\<lparr>n_state := \<lambda>p. if p \<in> set ps then VM_PAGE_STATE_FREE else n_state n p\<rparr>"
  by (induction ps arbitrary: n) (auto simp: FreePageHelperLocked_def set_page_state_def fun_eq_iff)

lemma FreeListLocked_simps [simp]:
  "n_free_list (FreeListLocked list n) = list @ n_free_list n"
  "n_free_count (FreeListLocked list n) = n_free_count n + length list"
  "n_arena_list (FreeListLocked list n) = n_arena_list n"
  "n_state (FreeListLocked list n) = (\<lambda>p. if p \<in> set list then VM_PAGE_STATE_FREE else n_state n p)"
  by (simp_all add: FreeListLocked_def Let_def)

lemma FreeListLocked_inv:
  assumes "pmm_inv n" "owned n list"
  shows "pmm_inv (FreeListLocked list n)"
proof -
  have eq: "arena_pages (FreeListLocked list n) = arena_pages n" by (rule arena_pages_cong) simp
  have "set list \<inter> set (n_free_list n) = {}" using assms unfolding pmm_inv_def owned_def by blast
  moreover have "free_pages (FreeListLocked list n) \<subseteq> set list \<union> free_pages n"
    by (auto simp: free_pages_def eq)
  ultimately show ?thesis
    using assms by (auto simp: pmm_inv_def owned_def)
qed

lemma FreePage_eq: "FreePage p n = FreeListLocked [p] n"
  by (simp add: FreePage_def FreeListLocked_def FreePageHelperLocked_def)

text \<open>Taking pages keeps the invariant; the pages come out of the free list.\<close>

lemma AllocPages_loop_ok:
  assumes "pmm_inv n" "owned n list"
  shows "\<exists>n'. AllocPages_loop c list n =
      (if c \<le> length (n_free_list n) then (ZX_OK, list @ take c (n_free_list n), n')
       else (ZX_ERR_NO_MEMORY, [], n')) \<and>
    pmm_inv n' \<and> n_arena_list n' = n_arena_list n \<and>
    (if c \<le> length (n_free_list n)
     then owned n' (list @ take c (n_free_list n)) \<and> n_free_list n' = drop c (n_free_list n) \<and>
          n_state n' = (\<lambda>p. if p \<in> set (take c (n_free_list n)) then VM_PAGE_STATE_ALLOC else n_state n p)
     else set (n_free_list n') = set (n_free_list n) \<union> set list \<and>
          n_state n' = (\<lambda>p. if p \<in> set (n_free_list n) \<union> set list then VM_PAGE_STATE_FREE else n_state n p))"
  using assms
proof (induction c arbitrary: n list)
  case 0
  then show ?case by auto
next
  case (Suc c)
  show ?case
  proof (cases "n_free_list n")
    case Nil
    with Suc.prems show ?thesis by (auto intro: FreeListLocked_inv)
  next
    case (Cons p fl)
    then have p: "p \<in> set (n_free_list n)" by simp
    note t = take_page_inv [OF Suc.prems(1) p Suc.prems(2)]
    have free: "is_free n p" using Suc.prems(1) p by (simp add: pmm_inv_def)
    have fl: "n_free_list (take_page p n) = fl" using Cons by simp
    note IH = Suc.IH [OF t, unfolded fl]
    show ?thesis
    proof (cases "c \<le> length fl")
      case True
      with IH obtain n' where n': "AllocPages_loop c (list @ [p]) (take_page p n) = (ZX_OK, (list @ [p]) @ take c fl, n')"
        "pmm_inv n'" "n_arena_list n' = n_arena_list n" "owned n' ((list @ [p]) @ take c fl)" "n_free_list n' = drop c fl"
        "n_state n' = (\<lambda>q. if q \<in> set (take c fl) then VM_PAGE_STATE_ALLOC else n_state (take_page p n) q)"
        by auto
      then show ?thesis using True Cons by (intro exI [of _ n']) (simp add: fun_eq_iff)
    next
      case False
      with IH obtain n' where n': "AllocPages_loop c (list @ [p]) (take_page p n) = (ZX_ERR_NO_MEMORY, [], n')"
        "pmm_inv n'" "n_arena_list n' = n_arena_list n" "set (n_free_list n') = set fl \<union> set (list @ [p])"
        "n_state n' = (\<lambda>q. if q \<in> set fl \<union> set (list @ [p]) then VM_PAGE_STATE_FREE else n_state (take_page p n) q)"
        by auto
      then show ?thesis using False Cons free by (intro exI [of _ n']) (simp add: fun_eq_iff)
    qed
  qed
qed

section \<open>Contiguous runs\<close>

text \<open>What a free run is: pages in the arena that start at an aligned address and are all free.\<close>

definition run_at :: "pmm_node \<Rightarrow> pmm_arena \<Rightarrow> nat \<Rightarrow> nat \<Rightarrow> nat \<Rightarrow> bool" where
  "run_at n a count al q \<longleftrightarrow> 2 ^ al dvd q \<and> a_base a \<le> q \<and> q + count * PAGE_SIZE \<le> a_base a + a_size a \<and>
     (\<forall>i < count. is_free n (q + i * PAGE_SIZE))"

definition arena_ok :: "pmm_arena \<Rightarrow> bool" where
  "arena_ok a \<longleftrightarrow> PAGE_SIZE dvd a_base a \<and> PAGE_SIZE dvd a_size a \<and> 0 < a_size a \<and> a_base a + a_size a \<le> 2 ^ 64"

lemma first_used_None: "first_used n a start i k = None \<longleftrightarrow> (\<forall>j < k. is_free n (get_page a (start + i + j)))"
  by (induction k arbitrary: i) (simp_all add: All_less_Suc2)

lemma first_used_Some: "first_used n a start i k = Some j \<Longrightarrow> \<not> is_free n (get_page a (start + j))"
  by (induction k arbitrary: i) (auto split: if_splits)

text \<open>The search returns the least aligned index of a free run.\<close>

definition good_start :: "pmm_node \<Rightarrow> pmm_arena \<Rightarrow> nat \<Rightarrow> nat \<Rightarrow> nat \<Rightarrow> nat \<Rightarrow> bool" where
  "good_start n a count k off s \<longleftrightarrow> off \<le> s \<and> k dvd s - off \<and> s + count \<le> a_size a div PAGE_SIZE \<and>
     (\<forall>i < count. is_free n (get_page a (s + i)))"

lemma round_index_least: "0 < k \<Longrightarrow> k dvd m \<Longrightarrow> a \<le> m \<Longrightarrow> round_index a k \<le> m"
proof -
  assume k: "0 < k" "k dvd m" "a \<le> m"
  have "round_index a k = (a + (k - 1)) div k * k"
    by (simp add: round_index_def minus_mod_eq_div_mult)
  also have "\<dots> \<le> (m + (k - 1)) div k * k" using k(3) by (simp add: div_le_mono)
  also have "(m + (k - 1)) div k = m div k" using k(1,2) by (auto elim!: dvdE intro!: div_nat_eqI)
  finally show ?thesis using k(2) by simp
qed

lemma round_index_dvd: "k dvd round_index a k"
  by (simp add: round_index_def minus_mod_eq_mult_div)

lemma find_run_least:
  assumes "0 < count" "k = 2 ^ (al - PAGE_SIZE_SHIFT)" "off \<le> start" "k dvd start - off"
  shows "case find_run n a count al off start of
      None \<Rightarrow> \<forall>s \<ge> start. \<not> good_start n a count k off s
    | Some s \<Rightarrow> start \<le> s \<and> good_start n a count k off s \<and> (\<forall>s' \<ge> start. good_start n a count k off s' \<longrightarrow> s \<le> s')"
  using assms
proof (induction n a count al off start rule: find_run.induct)
  case (1 n a count al off start)
  note k = \<open>k = 2 ^ (al - PAGE_SIZE_SHIFT)\<close>
  show ?case
  proof (cases "start < a_size a div PAGE_SIZE \<and> start + count \<le> a_size a div PAGE_SIZE")
    case False
    then show ?thesis using \<open>0 < count\<close> by (subst find_run.simps) (auto simp: good_start_def)
  next
    case True
    show ?thesis
    proof (cases "first_used n a start 0 count")
      case None
      with True have "find_run n a count al off start = Some start" by (subst find_run.simps) simp
      with None True 1 show ?thesis by (simp add: good_start_def first_used_None)
    next
      case (Some i)
      define new where "new = round_index (start - off + i + 1) k + off"
      have new: "off \<le> new" "k dvd new - off" by (simp_all add: new_def round_index_dvd)
      have skip: "new \<le> s" if "start \<le> s" "good_start n a count k off s" for s
      proof -
        have "\<not> s \<le> start + i"
        proof
          assume "s \<le> start + i"
          moreover have "i < count" using first_used_bounds [OF Some] by simp
          ultimately have "start + i - s < count" "s + (start + i - s) = start + i" using that(1) by auto
          with that(2) first_used_Some [OF Some] show False unfolding good_start_def by metis
        qed
        with 1 that have "round_index (start - off + i + 1) k \<le> s - off"
          by (intro round_index_least) (auto simp: k good_start_def)
        with that(2) show ?thesis by (auto simp: new_def good_start_def)
      qed
      have "start \<le> new"
        using round_index_ge [of k "start - off + i + 1"] by (simp add: new_def k)
      moreover have "find_run n a count al off start = find_run n a count al off new"
        unfolding find_run.simps [of n a count al off start] using True Some by (simp add: new_def k)
      moreover note 1(1) [OF True Some, folded k, folded new_def, OF 1(2) refl new]
      ultimately show ?thesis
        by (cases "find_run n a count al off new") (simp_all, (use skip in blast), (meson skip order_trans))
    qed
  qed
qed

lemma page_mult: "PAGE_SIZE * 2 ^ (al - PAGE_SIZE_SHIFT) = 2 ^ al" if "PAGE_SIZE_SHIFT \<le> al"
proof -
  have "PAGE_SIZE = 2 ^ PAGE_SIZE_SHIFT" by (simp add: PAGE_SIZE_def PAGE_SIZE_SHIFT_def)
  then have "PAGE_SIZE * 2 ^ (al - PAGE_SIZE_SHIFT) = 2 ^ (PAGE_SIZE_SHIFT + (al - PAGE_SIZE_SHIFT))"
    by (simp only: power_add)
  with that show ?thesis by simp
qed

lemma PAGE_SIZE_pos [simp]: "0 < PAGE_SIZE"
  by (simp add: PAGE_SIZE_def)

lemma PAGE_SIZE_nonzero [simp]: "PAGE_SIZE \<noteq> 0"
  by (simp add: PAGE_SIZE_def)

text \<open>Rounding the base of an arena either wraps, and then no aligned address follows it, or gives the
  least aligned address.\<close>

lemma ROUNDUP_cases:
  assumes "al < 64" "base < 2 ^ 64"
  shows "ROUNDUP base (2 ^ al) < base \<and> (\<forall>q. 2 ^ al dvd q \<and> base \<le> q \<longrightarrow> 2 ^ 64 \<le> q) \<or>
    ROUNDUP base (2 ^ al) = round_index base (2 ^ al)"
proof (cases "base + (2 ^ al - 1) < 2 ^ 64")
  case True
  then show ?thesis by (simp add: ROUNDUP_def round_index_def Let_def)
next
  case False
  have two: "(2::nat) ^ al < 2 ^ 64" by (rule power_strict_increasing) (use assms(1) in simp_all)
  define t where "t = base + (2 ^ al - 1) - 2 ^ 64"
  have "(base + (2 ^ al - 1)) mod 2 ^ 64 = t"
    using False assms(2) two by (simp add: t_def mod_if)
  then have "ROUNDUP base (2 ^ al) \<le> t" by (simp add: ROUNDUP_def Let_def)
  moreover have "t < base" using two False by (simp add: t_def)
  moreover have "2 ^ 64 \<le> q" if q: "2 ^ al dvd q" "base \<le> q" for q :: nat
  proof (rule ccontr)
    assume "\<not> 2 ^ 64 \<le> q"
    moreover have "(2::nat) ^ al dvd 2 ^ 64" by (rule le_imp_power_dvd) (use assms(1) in simp)
    ultimately have "q + 2 ^ al \<le> 2 ^ 64"
      using q(1) by (metis dvd_add_right_iff dvd_diff_nat dvd_imp_le le_add_diff_inverse less_imp_le_nat
          linorder_not_le nat_add_left_cancel_le zero_less_diff)
    with q(2) False show False by simp
  qed
  ultimately show ?thesis by auto
qed

lemma get_page_run:
  assumes "arena_ok a" "PAGE_SIZE_SHIFT \<le> al" "get_page a off = R" "2 ^ al dvd R"
  shows "good_start n a count (2 ^ (al - PAGE_SIZE_SHIFT)) off s \<longleftrightarrow>
    off \<le> s \<and> run_at n a count al (get_page a s)"
proof (cases "off \<le> s")
  case True
  have "2 ^ (al - PAGE_SIZE_SHIFT) dvd s - off \<longleftrightarrow> 2 ^ al dvd (s - off) * PAGE_SIZE"
    using page_mult [OF assms(2)] by (metis PAGE_SIZE_pos mult.commute nat_mult_dvd_cancel1)
  also have "\<dots> \<longleftrightarrow> 2 ^ al dvd get_page a s"
  proof -
    have "get_page a s = R + (s - off) * PAGE_SIZE"
      using True assms(3) by (auto simp: get_page_def algebra_simps)
    with assms(4) show ?thesis by (simp add: dvd_add_right_iff)
  qed
  finally have al: "2 ^ (al - PAGE_SIZE_SHIFT) dvd s - off \<longleftrightarrow> 2 ^ al dvd get_page a s" .
  obtain m where m: "a_size a = PAGE_SIZE * m" using assms(1) by (auto simp: arena_ok_def elim: dvdE)
  have "s + count \<le> a_size a div PAGE_SIZE \<longleftrightarrow> get_page a s + count * PAGE_SIZE \<le> a_base a + a_size a"
  proof -
    have "PAGE_SIZE * s + PAGE_SIZE * count = PAGE_SIZE * (s + count)" by (simp add: add_mult_distrib2)
    then show ?thesis by (simp add: m get_page_def mult.commute)
  qed
  with al True show ?thesis
    by (auto simp: good_start_def run_at_def get_page_def add_mult_distrib add.assoc)
qed (simp add: good_start_def)

lemma FindFreeContiguous_least:
  assumes "arena_ok a" "PAGE_SIZE_SHIFT \<le> al" "al < 64" "0 < count"
  shows "case FindFreeContiguous n a count al of
      None \<Rightarrow> \<forall>q. \<not> run_at n a count al q
    | Some p \<Rightarrow> run_at n a count al p \<and> (\<forall>q. run_at n a count al q \<longrightarrow> p \<le> q)"
proof -
  define R where "R = ROUNDUP (a_base a) (2 ^ al)"
  have ok: "a_base a + a_size a \<le> 2 ^ 64" "0 < a_size a" "PAGE_SIZE dvd a_base a"
    using assms(1) by (auto simp: arena_ok_def)
  then have last: "(a_base a + a_size a - 1) mod 2 ^ 64 = a_base a + a_size a - 1" by simp
  have find: "FindFreeContiguous n a count al = (if R < a_base a \<or> R > a_base a + a_size a - 1 then None
    else map_option (get_page a) (find_run n a count al ((R - a_base a) div PAGE_SIZE) ((R - a_base a) div PAGE_SIZE)))"
    unfolding FindFreeContiguous_def R_def [symmetric] last Let_def ..
  have in_arena: "q < a_base a + a_size a" if "run_at n a count al q" for q
  proof -
    have "0 < count * PAGE_SIZE" using assms(4) by simp
    with that show ?thesis unfolding run_at_def by linarith
  qed
  from ROUNDUP_cases [OF assms(3), of "a_base a"] ok
  consider "R < a_base a" "\<forall>q. 2 ^ al dvd q \<and> a_base a \<le> q \<longrightarrow> 2 ^ 64 \<le> q" | "R = round_index (a_base a) (2 ^ al)"
    unfolding R_def by fastforce
  then show ?thesis
  proof cases
    case 1
    then have "\<not> run_at n a count al q" for q
      using in_arena [of q] ok(1) unfolding run_at_def by (metis leD le_trans)
    with 1(1) show ?thesis by (simp add: find)
  next
    case 2
    have R: "a_base a \<le> R" "2 ^ al dvd R" using round_index_ge [of "2 ^ al" "a_base a"] by (simp_all add: 2 round_index_dvd)
    have least: "R \<le> q" if "run_at n a count al q" for q
      unfolding 2 by (rule round_index_least) (use that in \<open>auto simp: run_at_def\<close>)
    show ?thesis
    proof (cases "R > a_base a + a_size a - 1")
      case True
      have "\<not> run_at n a count al q" for q using least [of q] in_arena [of q] True by linarith
      with True show ?thesis by (simp add: find)
    next
      case False
      define off where "off = (R - a_base a) div PAGE_SIZE"
      have "PAGE_SIZE dvd R" using R(2) page_mult [OF assms(2)] by (metis dvd_mult_left)
      then have off: "get_page a off = R"
        using ok(3) R(1) by (simp add: get_page_def off_def dvd_diff_nat)
      note run = get_page_run [OF assms(1,2) off R(2), of n count]
      have page: "\<exists>s. q = get_page a s \<and> off \<le> s" if "run_at n a count al q" for q
      proof -
        have "2 ^ al dvd q" using that by (simp add: run_at_def)
        then have "PAGE_SIZE dvd q" using page_mult [OF assms(2)] by (metis dvd_mult_left)
        with least [OF that] R(1) ok(3) have "get_page a ((q - a_base a) div PAGE_SIZE) = q"
          by (simp add: get_page_def dvd_diff_nat)
        moreover have "off \<le> (q - a_base a) div PAGE_SIZE"
          using least [OF that] by (simp add: off_def div_le_mono)
        ultimately show ?thesis by metis
      qed
      have mono: "s \<le> s' \<Longrightarrow> get_page a s \<le> get_page a s'" for s s' by (simp add: get_page_def)
      have eq: "FindFreeContiguous n a count al = map_option (get_page a) (find_run n a count al off off)"
        using False R(1) by (simp add: find off_def)
      from find_run_least [OF assms(4) refl le_refl, of al off n a] show ?thesis
        unfolding eq run by (auto split: option.splits dest: page intro: mono)
    qed
  qed
qed

section \<open>The other allocators\<close>

lemma fold_take_page:
  assumes "pmm_inv n" "owned n list" "distinct ps" "set ps \<subseteq> set (n_free_list n)"
  shows "pmm_inv (fold take_page ps n) \<and> owned (fold take_page ps n) (list @ ps) \<and>
    n_arena_list (fold take_page ps n) = n_arena_list n"
  using assms
proof (induction ps arbitrary: n list)
  case (Cons p ps)
  then have p: "p \<in> set (n_free_list n)" by simp
  have "set ps \<subseteq> set (n_free_list (take_page p n))"
    using Cons.prems by (auto simp: pmm_inv_def)
  with Cons.IH [OF take_page_inv [OF Cons.prems(1) p Cons.prems(2)]] Cons.prems(3) show ?case by simp
qed simp

lemma run_at_free:
  assumes "pmm_inv n" "a \<in> set (n_arena_list n)" "arena_ok a" "PAGE_SIZE_SHIFT \<le> al" "run_at n a count al p"
  shows "set (map (\<lambda>i. p + i * PAGE_SIZE) [0..<count]) \<subseteq> set (n_free_list n)"
proof
  fix q assume "q \<in> set (map (\<lambda>i. p + i * PAGE_SIZE) [0..<count])"
  then obtain i where i: "i < count" "q = p + i * PAGE_SIZE" by auto
  have r: "2 ^ al dvd p" "a_base a \<le> p" "p + count * PAGE_SIZE \<le> a_base a + a_size a" "is_free n q"
    using assms(5) i by (auto simp: run_at_def)
  have "PAGE_SIZE dvd p" using r(1) page_mult [OF assms(4)] by (metis dvd_mult_left)
  then obtain s where s: "p = a_base a + s * PAGE_SIZE"
    using assms(3) r(2) by (metis arena_ok_def dvd_diff_nat dvd_div_mult_self le_add_diff_inverse)
  have "(s + count) * PAGE_SIZE \<le> a_size a" using r(3) s by (simp add: add_mult_distrib)
  then have "s + i < a_size a div PAGE_SIZE"
    using i(1) by (metis PAGE_SIZE_pos add_less_cancel_left less_eq_div_iff_mult_less_eq less_le_trans)
  moreover have "q = get_page a (s + i)" by (simp add: i s get_page_def add_mult_distrib)
  ultimately have "q \<in> free_pages n" using assms(2) r(4) by (auto simp: free_pages_def arena_pages_def)
  with assms(1) show "q \<in> set (n_free_list n)" by (auto simp: pmm_inv_def)
qed

lemma AllocContiguous_arenas_ok:
  assumes "pmm_inv n" "owned n list" "0 < count" "PAGE_SIZE_SHIFT \<le> al" "al < 64"
    and "set as \<subseteq> set (n_arena_list n)" "\<forall>a \<in> set as. arena_ok a"
    and "AllocContiguous_arenas as count al list n = (r, list', n')"
  shows "pmm_inv n' \<and> owned n' list' \<and> n_arena_list n' = n_arena_list n \<and>
    (case r of
       Inl e \<Rightarrow> e = ZX_ERR_NOT_FOUND \<and> n' = n \<and> list' = list \<and> (\<forall>a \<in> set as. \<forall>q. \<not> run_at n a count al q)
     | Inr p \<Rightarrow> 2 ^ al dvd p \<and> (\<exists>a \<in> set as. run_at n a count al p) \<and>
         list' = list @ map (\<lambda>i. p + i * PAGE_SIZE) [0..<count])"
  using assms(6-8)
proof (induction as)
  case Nil
  with assms show ?case by auto
next
  case (Cons a as)
  then have a: "arena_ok a" "a \<in> set (n_arena_list n)" by auto
  note F = FindFreeContiguous_least [OF a(1) assms(4,5,3), of n]
  show ?case
  proof (cases "FindFreeContiguous n a count al")
    case None
    with Cons F show ?thesis by (auto split: sum.splits)
  next
    case (Some p)
    with F have run: "run_at n a count al p" by simp
    define ps where "ps = map (\<lambda>i. p + i * PAGE_SIZE) [0..<count]"
    have "distinct ps" by (simp add: ps_def distinct_map inj_on_def)
    moreover have "set ps \<subseteq> set (n_free_list n)"
      unfolding ps_def by (rule run_at_free [OF assms(1) a(2,1) assms(4) run])
    moreover have "r = Inr p" "list' = list @ ps" "n' = fold take_page ps n"
      using Cons.prems(3) Some by (auto simp: ps_def Let_def)
    moreover have "2 ^ al dvd p" using run by (simp add: run_at_def)
    ultimately show ?thesis
      using fold_take_page [OF assms(1,2), of ps] run by (auto simp: ps_def)
  qed
qed

lemma AllocRange_while_ok:
  assumes "pmm_inv n" "owned n list" "a \<in> set (n_arena_list n)" "arena_ok a" "PAGE_SIZE dvd address"
    and "AllocRange_while a k address list n = (k', address', list', n')"
  shows "k' \<le> k \<and> address' = address + (k - k') * PAGE_SIZE \<and> pmm_inv n' \<and> owned n' list' \<and>
    n_arena_list n' = n_arena_list n \<and> list' = list @ map (\<lambda>i. address + i * PAGE_SIZE) [0..<k - k']"
  using assms
proof (induction k arbitrary: address list n)
  case (Suc k)
  show ?case
  proof (cases "\<exists>p. FindSpecific a address = Some p \<and> is_free n p")
    case False
    with Suc.prems show ?thesis by (auto split: option.splits if_splits)
  next
    case True
    then obtain p where p: "FindSpecific a address = Some p" "is_free n p" by blast
    have ia: "address_in_arena a address" using p(1) by (auto simp: FindSpecific_def split: if_splits)
    define i where "i = (address - a_base a) div PAGE_SIZE"
    have ok: "PAGE_SIZE dvd a_base a" "PAGE_SIZE dvd a_size a" "0 < a_size a" "a_base a + a_size a \<le> 2 ^ 64"
      using Suc.prems(4) by (auto simp: arena_ok_def)
    then have "(a_base a + a_size a - 1) mod 2 ^ 64 = a_base a + a_size a - 1" by simp
    with ia have ad: "a_base a \<le> address" "address - a_base a < a_size a"
      unfolding address_in_arena_def using ok(3) by linarith+
    have pa: "p = get_page a i" "get_page a i = address"
      using p(1) ia Suc.prems(5) ok(1) ad(1) by (auto simp: FindSpecific_def get_page_def i_def dvd_diff_nat)
    have "i < a_size a div PAGE_SIZE"
      using ad(2) ok(2) Suc.prems(5) ok(1) by (auto simp: i_def elim!: dvdE simp flip: diff_mult_distrib2)
    then have "p \<in> free_pages n" using Suc.prems(3) p(2) pa(1) by (auto simp: free_pages_def arena_pages_def)
    then have pf: "p \<in> set (n_free_list n)" using Suc.prems(1) by (auto simp: pmm_inv_def)
    note t = take_page_inv [OF Suc.prems(1) pf Suc.prems(2)]
    have step: "AllocRange_while a k (address + PAGE_SIZE) (list @ [p]) (take_page p n) = (k', address', list', n')"
      using Suc.prems(6) p by simp
    have IH: "k' \<le> k" "address' = address + PAGE_SIZE + (k - k') * PAGE_SIZE" "pmm_inv n'" "owned n' list'"
      "n_arena_list n' = n_arena_list n"
      "list' = (list @ [p]) @ map (\<lambda>i. address + PAGE_SIZE + i * PAGE_SIZE) [0..<k - k']"
      using Suc.IH [OF t _ Suc.prems(4) _ step] Suc.prems(3,5) by auto
    have "[0..<Suc k - k'] = 0 # map Suc [0..<k - k']"
      using IH(1) by (simp add: Suc_diff_le upt_conv_Cons map_Suc_upt del: upt_Suc)
    with IH pa show ?thesis by (simp add: Suc_diff_le)
  qed
qed simp

lemma AllocRange_arenas_ok:
  assumes "pmm_inv n" "owned n list" "set as \<subseteq> set (n_arena_list n)" "\<forall>a \<in> set as. arena_ok a" "PAGE_SIZE dvd address"
    and "AllocRange_arenas as k address list n = (k', list', n')"
  shows "k' \<le> k \<and> pmm_inv n' \<and> owned n' list' \<and> n_arena_list n' = n_arena_list n \<and>
    list' = list @ map (\<lambda>i. address + i * PAGE_SIZE) [0..<k - k']"
  using assms
proof (induction as arbitrary: k address list n)
  case (Cons a as)
  obtain k1 ad1 l1 n1 where W: "AllocRange_while a k address list n = (k1, ad1, l1, n1)" by (metis prod_cases4)
  have w: "k1 \<le> k" "ad1 = address + (k - k1) * PAGE_SIZE" "pmm_inv n1" "owned n1 l1" "n_arena_list n1 = n_arena_list n"
    "l1 = list @ map (\<lambda>i. address + i * PAGE_SIZE) [0..<k - k1]"
    using AllocRange_while_ok [OF Cons.prems(1,2) _ _ Cons.prems(5) W] Cons.prems(3,4) by auto
  show ?case
  proof (cases "k1 = 0")
    case True
    with W w Cons.prems(6) show ?thesis by auto
  next
    case False
    with W Cons.prems(6) have A: "AllocRange_arenas as k1 ad1 l1 n1 = (k', list', n')" by simp
    have IH: "k' \<le> k1" "pmm_inv n'" "owned n' list'" "n_arena_list n' = n_arena_list n"
      "list' = l1 @ map (\<lambda>i. ad1 + i * PAGE_SIZE) [0..<k1 - k']"
      using Cons.IH [OF w(3,4) _ _ _ A] Cons.prems(3-5) w(2,5) by auto
    have "k - k' = (k - k1) + (k1 - k')" using IH(1) w(1) by simp
    then have "[0..<k - k'] = [0..<k - k1] @ map (\<lambda>i. i + (k - k1)) [0..<k1 - k']"
      using upt_add_eq_append [of 0 "k - k1" "k1 - k'"] map_add_upt [of "k - k1" "k1 - k'"]
      by (simp add: add.commute)
    then have "map (\<lambda>i. address + i * PAGE_SIZE) [0..<k - k'] =
        map (\<lambda>i. address + i * PAGE_SIZE) [0..<k - k1] @ map (\<lambda>i. ad1 + i * PAGE_SIZE) [0..<k1 - k']"
      unfolding w(2) by (simp add: add_mult_distrib)
    with IH w(1,6) show ?thesis by simp
  qed
qed simp

end
