(* ===== verification/Zx_BootReserve.thy ===== *)
theory Zx_BootReserve
  imports Zx_Pmm
begin

text \<open>
  Boot time memory: the reserved ranges of \<^verbatim>\<open>kernel/vm/bootreserve.cpp\<close>, the range arithmetic of
  \<^verbatim>\<open>include/kernel/range_check.h\<close> it uses, and the initialisation of arenas in
  \<^verbatim>\<open>kernel/vm/pmm_arena.cpp\<close>. The last section states the properties of the physical memory manager.
\<close>

section \<open>Boot reservations and arenas\<close>

text \<open>Ranges of physical memory, in 64 bits.\<close>

definition Intersects :: "nat \<Rightarrow> nat \<Rightarrow> nat \<Rightarrow> nat \<Rightarrow> bool" where
  "Intersects offset1 len1 offset2 len2 \<longleftrightarrow>
     \<not> (len1 = 0 \<or> len2 = 0) \<and>
     (if offset1 \<le> offset2 then \<not> (offset1 + len1) mod 2 ^ 64 \<le> offset2
      else \<not> offset1 \<ge> (offset2 + len2) mod 2 ^ 64)"

definition GetIntersect :: "nat \<Rightarrow> nat \<Rightarrow> nat \<Rightarrow> nat \<Rightarrow> (nat \<times> nat) option" where
  "GetIntersect offset1 len1 offset2 len2 =
     (if \<not> Intersects offset1 len1 offset2 len2 then None
      else if offset1 < offset2 then Some (offset2, min (((offset1 + len1) mod 2 ^ 64 + 2 ^ 64 - offset2) mod 2 ^ 64) len2)
      else Some (offset1, min (((offset2 + len2) mod 2 ^ 64 + 2 ^ 64 - offset1) mod 2 ^ 64) len1))"

type_synonym reserve_range = "nat \<times> nat"

definition NUM_RESERVES :: nat where
  "NUM_RESERVES = 16"

text \<open>\<open>None\<close> is a panic of the kernel.\<close>

fun reserve_insert :: "nat \<Rightarrow> nat \<Rightarrow> nat \<Rightarrow> reserve_range list \<Rightarrow> reserve_range list option" where
  "reserve_insert pa len end_pa [] = Some [(pa, len)]"
| "reserve_insert pa len end_pa ((rpa, rlen) # res) =
     (if Intersects rpa rlen pa len then None
      else if rpa > end_pa then Some ((pa, len) # (rpa, rlen) # res)
      else map_option ((#) (rpa, rlen)) (reserve_insert pa len end_pa res))"

definition boot_reserve_add_range :: "nat \<Rightarrow> nat \<Rightarrow> reserve_range list \<Rightarrow> reserve_range list option" where
  "boot_reserve_add_range pa len res =
     (if length res = NUM_RESERVES then None
      else reserve_insert pa len ((pa + len + 2 ^ 64 - 1) mod 2 ^ 64) res)"

definition upper_align :: "nat \<Rightarrow> nat \<Rightarrow> nat \<Rightarrow> nat" where
  "upper_align range_pa range_len len = (range_pa + range_len + 2 ^ 64 - len) mod 2 ^ 64"

definition first_conflict :: "reserve_range list \<Rightarrow> nat \<Rightarrow> nat \<Rightarrow> reserve_range option" where
  "first_conflict res alloc_pa alloc_len = find (\<lambda>(pa, len). Intersects pa len alloc_pa alloc_len) res"

text \<open>The retry loop of the search; a search that never ends has no value.\<close>

partial_function (option) range_search_loop ::
  "reserve_range list \<Rightarrow> nat \<Rightarrow> nat \<Rightarrow> nat \<Rightarrow> (zx_status + reserve_range) option" where
  "range_search_loop res range_pa alloc_len alloc_pa =
     (case first_conflict res alloc_pa alloc_len of
        None \<Rightarrow> Some (Inr (alloc_pa, alloc_len))
      | Some (pa, len) \<Rightarrow>
          let alloc_pa' = (pa + 2 ^ 64 - alloc_len) mod 2 ^ 64 in
          if alloc_pa' < range_pa then Some (Inl ZX_ERR_NO_MEMORY)
          else range_search_loop res range_pa alloc_len alloc_pa')"

definition boot_reserve_range_search ::
  "reserve_range list \<Rightarrow> nat \<Rightarrow> nat \<Rightarrow> nat \<Rightarrow> (zx_status + reserve_range) option" where
  "boot_reserve_range_search res range_pa range_len alloc_len =
     range_search_loop res range_pa alloc_len (upper_align range_pa range_len alloc_len)"

fun boot_reserve_wire_loop :: "reserve_range list \<Rightarrow> nat list \<Rightarrow> pmm_node \<Rightarrow> nat list \<times> pmm_node" where
  "boot_reserve_wire_loop [] list n = (list, n)"
| "boot_reserve_wire_loop ((pa, len) # res) list n =
     (let (status, list', n') = AllocRange pa (ROUNDUP len PAGE_SIZE div PAGE_SIZE) list n in
      boot_reserve_wire_loop res list' n')"

definition boot_reserve_wire :: "reserve_range list \<Rightarrow> pmm_node \<Rightarrow> nat list \<times> pmm_node" where
  "boot_reserve_wire res n =
     (let (list, n') = boot_reserve_wire_loop res [] n in
      (list, fold (\<lambda>p. set_page_state p VM_PAGE_STATE_WIRED) list n'))"

definition boot_reserve_unwire_page :: "nat \<Rightarrow> nat list \<Rightarrow> pmm_node \<Rightarrow> nat list \<times> pmm_node" where
  "boot_reserve_unwire_page p list n = (remove1 p list, set_page_state p VM_PAGE_STATE_ALLOC n)"

definition sizeof_vm_page :: nat where
  "sizeof_vm_page = 0x20"

text \<open>The pages of a fresh arena: those of the page array itself are wired, the others are free.\<close>

definition arena_init_pages :: "pmm_arena \<Rightarrow> (nat \<Rightarrow> bool) \<Rightarrow> pmm_node \<Rightarrow> pmm_node" where
  "arena_init_pages a wired n =
     (let page_count = a_size a div PAGE_SIZE;
          n1 = n\<lparr>n_state := \<lambda>p. if p \<in> get_page a ` set [0..<page_count]
                 then (if wired ((p - a_base a) div PAGE_SIZE) then VM_PAGE_STATE_WIRED else VM_PAGE_STATE_FREE)
                 else n_state n p\<rparr> in
      AddFreePages (map (get_page a) (filter (\<lambda>i. \<not> wired i) [0..<page_count])) n1)"

definition PmmArena_Init ::
  "reserve_range list \<Rightarrow> pmm_arena \<Rightarrow> pmm_node \<Rightarrow> (zx_status \<times> pmm_node) option" where
  "PmmArena_Init res a n =
     (let page_count = a_size a div PAGE_SIZE;
          page_array_size = ROUNDUP (page_count * sizeof_vm_page) PAGE_SIZE in
      if page_array_size \<ge> a_size a then Some (ZX_ERR_BUFFER_TOO_SMALL, n)
      else
        case boot_reserve_range_search res (a_base a) (a_size a) page_array_size of
          None \<Rightarrow> None
        | Some (Inl _) \<Rightarrow> Some (ZX_ERR_NO_MEMORY, n)
        | Some (Inr (range_pa, range_len)) \<Rightarrow>
            let array_start = ((ROUNDUP range_pa PAGE_SIZE + 2 ^ 64 - a_base a) mod 2 ^ 64) div PAGE_SIZE;
                array_end = array_start + page_array_size div PAGE_SIZE;
                wired = (\<lambda>i. array_start \<le> i \<and> i < array_end) in
            Some (ZX_OK, arena_init_pages a wired n))"

fun insert_arena :: "pmm_arena \<Rightarrow> pmm_arena list \<Rightarrow> pmm_arena list" where
  "insert_arena arena [] = [arena]"
| "insert_arena arena (a # as) =
     (if a_priority a > a_priority arena then arena # a # as else a # insert_arena arena as)"

definition AddArena :: "reserve_range list \<Rightarrow> pmm_arena \<Rightarrow> pmm_node \<Rightarrow> (zx_status \<times> pmm_node) option" where
  "AddArena res a n =
     (case PmmArena_Init res a n of
        None \<Rightarrow> None
      | Some (status, n1) \<Rightarrow>
          if status \<noteq> ZX_OK then Some (status, n1)
          else Some (ZX_OK, n1\<lparr>n_arena_list := insert_arena a (n_arena_list n1),
                               n_arena_cumulative_size := n_arena_cumulative_size n1 + a_size a\<rparr>))"

section \<open>Arenas and reservations\<close>

lemma get_page_inj [simp]: "get_page a i = get_page a j \<longleftrightarrow> i = j"
  by (simp add: get_page_def)

lemma get_page_index [simp]: "(get_page a i - a_base a) div PAGE_SIZE = i"
  by (simp add: get_page_def)

lemma set_insert_arena [simp]: "set (insert_arena a as) = insert a (set as)"
  by (induction as) auto

lemma PmmArena_Init_ok:
  "PmmArena_Init res a n = Some (ZX_OK, n') \<Longrightarrow> \<exists>wired. n' = arena_init_pages a wired n"
  by (auto simp: PmmArena_Init_def Let_def split: if_splits option.splits sum.splits)

lemma AddArena_inv:
  assumes "pmm_inv n" "AddArena res a n = Some (ZX_OK, n')"
    and "\<forall>i < a_size a div PAGE_SIZE. get_page a i \<notin> set (n_free_list n)"
  shows "pmm_inv n'"
proof -
  from assms(2) obtain n1 where I: "PmmArena_Init res a n = Some (ZX_OK, n1)" and
    n': "n' = n1\<lparr>n_arena_list := insert_arena a (n_arena_list n1),
                   n_arena_cumulative_size := n_arena_cumulative_size n1 + a_size a\<rparr>"
    by (auto simp: AddArena_def split: option.splits if_splits)
  from PmmArena_Init_ok [OF I] obtain wired where n1: "n1 = arena_init_pages a wired n" by blast
  define N where "N = a_size a div PAGE_SIZE"
  define fr where "fr = map (get_page a) (filter (\<lambda>i. \<not> wired i) [0..<N])"
  have e: "n_free_list n' = n_free_list n @ fr" "n_free_count n' = n_free_count n + length fr"
    "n_state n' = (\<lambda>p. if p \<in> get_page a ` {0..<N}
       then (if wired ((p - a_base a) div PAGE_SIZE) then VM_PAGE_STATE_WIRED else VM_PAGE_STATE_FREE) else n_state n p)"
    "n_arena_list n' = insert_arena a (n_arena_list n)"
    by (simp_all add: n' n1 arena_init_pages_def AddFreePages_def fr_def N_def Let_def)
  have "p \<in> arena_pages n \<or> p \<in> get_page a ` {0..<N}" if "p \<in> arena_pages n'" for p
    using that by (auto simp: arena_pages_def e(4) N_def)
  then have "x \<in> free_pages n \<union> set fr" if "x \<in> free_pages n'" for x
    using that by (cases "x \<in> get_page a ` {0..<N}") (auto simp: free_pages_def e(3) fr_def split: if_splits)
  then have "free_pages n' \<subseteq> set (n_free_list n')"
    using assms(1) by (auto simp: pmm_inv_def e(1))
  moreover have "distinct fr" "set fr \<inter> set (n_free_list n) = {}"
    using assms(3) by (auto simp: fr_def N_def distinct_map inj_on_def)
  moreover have "is_free n' p" if "p \<in> set (n_free_list n) \<union> set fr" for p
    using that assms(1,3) by (auto simp: pmm_inv_def e(3) fr_def N_def)
  ultimately show ?thesis
    using assms(1) by (auto simp: pmm_inv_def e(1,2))
qed

text \<open>Ranges that do not wrap intersect exactly when they share an address.\<close>

lemma Intersects_iff:
  assumes "o1 + l1 < 2 ^ 64" "o2 + l2 < 2 ^ 64"
  shows "Intersects o1 l1 o2 l2 \<longleftrightarrow> (\<exists>x. o1 \<le> x \<and> x < o1 + l1 \<and> o2 \<le> x \<and> x < o2 + l2)"
proof -
  have m: "(o1 + l1) mod 2 ^ 64 = o1 + l1" "(o2 + l2) mod 2 ^ 64 = o2 + l2" using assms by simp_all
  have "(\<exists>x. o1 \<le> x \<and> x < o1 + l1 \<and> o2 \<le> x \<and> x < o2 + l2) \<longleftrightarrow> max o1 o2 < o1 + l1 \<and> max o1 o2 < o2 + l2"
    by (auto intro!: exI [of _ "max o1 o2"])
  then show ?thesis unfolding Intersects_def m by auto
qed

text \<open>A placement of the allocation in the range, clear of all reservations.\<close>

definition placement :: "reserve_range list \<Rightarrow> nat \<Rightarrow> nat \<Rightarrow> nat \<Rightarrow> nat \<Rightarrow> bool" where
  "placement res range_pa range_len alloc_len pa \<longleftrightarrow> range_pa \<le> pa \<and> pa + alloc_len \<le> range_pa + range_len \<and>
     (\<forall>(rpa, rlen) \<in> set res. pa + alloc_len \<le> rpa \<or> rpa + rlen \<le> pa \<or> rlen = 0)"

lemma first_conflict_None:
  assumes "\<forall>(rpa, rlen) \<in> set res. rpa + rlen < 2 ^ 64" "pa + len < 2 ^ 64" "0 < len" "first_conflict res pa len = None"
  shows "\<forall>(rpa, rlen) \<in> set res. pa + len \<le> rpa \<or> rpa + rlen \<le> pa \<or> rlen = 0"
proof
  fix r assume r: "r \<in> set res"
  then obtain rpa rlen where rr: "r = (rpa, rlen)" "rpa + rlen < 2 ^ 64" using assms(1) by (cases r) auto
  have "\<not> Intersects rpa rlen pa len"
    using assms(4) r rr by (auto simp: first_conflict_def find_None_iff)
  with rr assms(2,3) show "case r of (rpa, rlen) \<Rightarrow> pa + len \<le> rpa \<or> rpa + rlen \<le> pa \<or> rlen = 0"
    by (auto simp: Intersects_def split: if_splits)
qed

definition search_ok :: "reserve_range list \<Rightarrow> nat \<Rightarrow> nat \<Rightarrow> nat \<Rightarrow> zx_status + reserve_range \<Rightarrow> bool" where
  "search_ok res range_pa range_len alloc_len r \<longleftrightarrow>
     (case r of
       Inl e \<Rightarrow> e = ZX_ERR_NO_MEMORY \<and> (\<forall>q. \<not> placement res range_pa range_len alloc_len q)
     | Inr (q, l) \<Rightarrow> l = alloc_len \<and> placement res range_pa range_len alloc_len q \<and>
         (\<forall>q'. placement res range_pa range_len alloc_len q' \<longrightarrow> q' \<le> q))"

lemma range_search_loop_ok:
  assumes "\<forall>(rpa, rlen) \<in> set res. rpa + rlen < 2 ^ 64" "0 < alloc_len"
    and "range_pa + range_len < 2 ^ 64" "range_pa \<le> pa" "pa + alloc_len \<le> range_pa + range_len"
    and "\<forall>q. placement res range_pa range_len alloc_len q \<longrightarrow> q \<le> pa"
    and "(\<exists>q. placement res range_pa range_len alloc_len q) \<or>
      (\<forall>(rpa, rlen) \<in> set res. rpa < range_pa + range_len \<and> range_pa < rpa + rlen \<longrightarrow> alloc_len \<le> rpa)"
  shows "\<exists>r. range_search_loop res range_pa alloc_len pa = Some r \<and> search_ok res range_pa range_len alloc_len r"
  using assms(4-6)
proof (induction pa rule: less_induct)
  case (less pa)
  have nowrap: "\<forall>(rpa, rlen) \<in> set res. rpa + rlen < 2 ^ 64" "pa + alloc_len < 2 ^ 64"
    using assms(1,3) less.prems(2) by auto
  show ?case
  proof (cases "first_conflict res pa alloc_len")
    case None
    with first_conflict_None [OF nowrap assms(2) None] less.prems show ?thesis
      by (subst range_search_loop.simps) (auto simp: placement_def search_ok_def)
  next
    case (Some r)
    obtain rpa rlen where r1: "r = (rpa, rlen)" by (rule prod.exhaust)
    with Some have "r \<in> set res" "Intersects rpa rlen pa alloc_len"
      by (auto simp: first_conflict_def find_Some_iff) (metis nth_mem)
    with r1 have r: "r = (rpa, rlen)" "(rpa, rlen) \<in> set res" "Intersects rpa rlen pa alloc_len" by simp_all
    have rw: "rpa + rlen < 2 ^ 64" using r(2) assms(1) by auto
    obtain x where x: "rpa \<le> x" "x < rpa + rlen" "pa \<le> x" "x < pa + alloc_len"
      using r(3) Intersects_iff [OF rw nowrap(2)] by auto
    have under: "q + alloc_len \<le> rpa" if "placement res range_pa range_len alloc_len q" for q
    proof -
      have "q + alloc_len \<le> rpa \<or> rpa + rlen \<le> q" using that r(2) x by (fastforce simp: placement_def)
      with less.prems(3) that x show ?thesis by fastforce
    qed
    have low: "alloc_len \<le> rpa" using assms(7)
    proof
      assume "\<forall>(rpa, rlen) \<in> set res. rpa < range_pa + range_len \<and> range_pa < rpa + rlen \<longrightarrow> alloc_len \<le> rpa"
      then have "rpa < range_pa + range_len \<and> range_pa < rpa + rlen \<longrightarrow> alloc_len \<le> rpa" using r(2) by fastforce
      moreover have "rpa < range_pa + range_len" "range_pa < rpa + rlen" using x less.prems(1,2) by linarith+
      ultimately show ?thesis by simp
    qed (use under in fastforce)
    define pa' where "pa' = rpa - alloc_len"
    have wrap: "(rpa + 2 ^ 64 - alloc_len) mod 2 ^ 64 = pa'"
      using rw low by (simp add: pa'_def mod_if)
    have step: "range_search_loop res range_pa alloc_len pa =
        (if pa' < range_pa then Some (Inl ZX_ERR_NO_MEMORY) else range_search_loop res range_pa alloc_len pa')"
      unfolding range_search_loop.simps [of res range_pa alloc_len pa] Some r option.case prod.case Let_def wrap ..
    have below: "q \<le> pa'" if "placement res range_pa range_len alloc_len q" for q
      using under [OF that] by (simp add: pa'_def)
    show ?thesis
    proof (cases "pa' < range_pa")
      case True
      then have "\<not> placement res range_pa range_len alloc_len q" for q
        using below [of q] by (auto simp: placement_def)
      with step True show ?thesis by (simp add: search_ok_def)
    next
      case False
      have "pa' < pa" using x low assms(2) by (auto simp: pa'_def)
      with less.IH [OF this] False below less.prems(2) show ?thesis by (simp add: step)
    qed
  qed
qed

lemma AllocRange_arenas_list:
  assumes "pmm_inv n" "\<forall>a \<in> set (n_arena_list n). arena_ok a" "owned n list"
    and "AllocRange address c list n = (status, list', n')"
  shows "n_arena_list n' = n_arena_list n"
proof -
  define ad where "ad = ROUNDDOWN address PAGE_SIZE"
  have dvd: "PAGE_SIZE dvd ad" by (simp add: ad_def ROUNDDOWN_def minus_mod_eq_mult_div)
  obtain k l1 n1 where A: "AllocRange_arenas (n_arena_list n) c ad list n = (k, l1, n1)" by (metis prod_cases3)
  from AllocRange_arenas_ok [OF assms(1,3) subset_refl assms(2) dvd A] A assms(4) show ?thesis
    by (auto simp: AllocRange_def ad_def split: if_splits)
qed

lemma AllocRange_ok:
  assumes "pmm_inv n" "owned n list" "\<forall>a \<in> set (n_arena_list n). arena_ok a"
    and "AllocRange address c list n = (status, list', n')"
  shows "pmm_inv n' \<and> owned n' list' \<and>
    (status = ZX_OK \<and> list' = list @ map (\<lambda>i. ROUNDDOWN address PAGE_SIZE + i * PAGE_SIZE) [0..<c] \<or>
     status = ZX_ERR_NOT_FOUND \<and> list' = [] \<and> (\<forall>p \<in> set list. is_free n' p \<and> p \<in> set (n_free_list n')))"
proof (cases "c = 0")
  case True
  with assms show ?thesis by (simp add: AllocRange_def)
next
  case False
  define ad where "ad = ROUNDDOWN address PAGE_SIZE"
  have dvd: "PAGE_SIZE dvd ad" by (simp add: ad_def ROUNDDOWN_def minus_mod_eq_mult_div)
  obtain k l1 n1 where A: "AllocRange_arenas (n_arena_list n) c ad list n = (k, l1, n1)" by (metis prod_cases3)
  note ok = AllocRange_arenas_ok [OF assms(1,2) subset_refl assms(3) dvd A]
  show ?thesis
  proof (cases "k = 0")
    case True
    with ok A False assms(4) show ?thesis by (auto simp: AllocRange_def ad_def)
  next
    case nz: False
    then have e: "status = ZX_ERR_NOT_FOUND" "list' = []" "n' = FreeListLocked l1 n1"
      using A False assms(4) by (auto simp: AllocRange_def ad_def)
    with ok show ?thesis by (auto simp: owned_def intro: FreeListLocked_inv)
  qed
qed

section \<open>Wiring the reserved ranges\<close>

lemma AllocRange_while_state:
  "AllocRange_while a k address list n = (k', address', list', n') \<Longrightarrow>
   set list \<subseteq> set list' \<and> (\<forall>q. q \<notin> set list' \<longrightarrow> n_state n' q = n_state n q)"
  by (induction k arbitrary: address list n)
     (fastforce simp: take_page_def set_page_state_def split: option.splits if_splits)+

lemma AllocRange_arenas_state:
  "AllocRange_arenas as k address list n = (k', list', n') \<Longrightarrow>
   set list \<subseteq> set list' \<and> (\<forall>q. q \<notin> set list' \<longrightarrow> n_state n' q = n_state n q)"
proof (induction as arbitrary: k address list n)
  case (Cons a as)
  obtain k1 ad1 l1 n1 where W: "AllocRange_while a k address list n = (k1, ad1, l1, n1)" by (metis prod_cases4)
  show ?case
  proof (cases "k1 = 0")
    case True
    with W Cons.prems AllocRange_while_state [OF W] show ?thesis by auto
  next
    case False
    then have "AllocRange_arenas as k1 ad1 l1 n1 = (k', list', n')" using W Cons.prems by simp
    from Cons.IH [OF this] AllocRange_while_state [OF W] show ?thesis by auto
  qed
qed simp

lemma AllocRange_other:
  assumes "pmm_inv n" "owned n list" "\<forall>a \<in> set (n_arena_list n). arena_ok a"
    and "AllocRange address c list n = (status, list', n')"
    and "is_free n p" "status \<noteq> ZX_OK \<or> p \<notin> set (map (\<lambda>i. ROUNDDOWN address PAGE_SIZE + i * PAGE_SIZE) [0..<c])"
  shows "is_free n' p"
proof (cases "c = 0")
  case True
  with assms show ?thesis by (simp add: AllocRange_def)
next
  case False
  define ad where "ad = ROUNDDOWN address PAGE_SIZE"
  have dvd: "PAGE_SIZE dvd ad" by (simp add: ad_def ROUNDDOWN_def minus_mod_eq_mult_div)
  obtain k l1 n1 where A: "AllocRange_arenas (n_arena_list n) c ad list n = (k, l1, n1)" by (metis prod_cases3)
  note ok = AllocRange_arenas_ok [OF assms(1,2) subset_refl assms(3) dvd A]
  have "p \<notin> set list" using assms(2,5) by (auto simp: owned_def)
  with ok have "p \<notin> set l1" if "p \<notin> set (map (\<lambda>i. ad + i * PAGE_SIZE) [0..<c])" using that by auto
  moreover have "is_free n1 p" if "p \<notin> set l1" using AllocRange_arenas_state [OF A] assms(5) that by simp
  ultimately show ?thesis using A False assms(4,6) by (auto simp: AllocRange_def ad_def split: if_splits)
qed

definition range_pages :: "reserve_range \<Rightarrow> nat list" where
  "range_pages = (\<lambda>(pa, len). map (\<lambda>i. ROUNDDOWN pa PAGE_SIZE + i * PAGE_SIZE) [0..<ROUNDUP len PAGE_SIZE div PAGE_SIZE])"

lemma boot_reserve_wire_loop_append:
  "boot_reserve_wire_loop (xs @ ys) list n = (let (list', n') = boot_reserve_wire_loop xs list n in boot_reserve_wire_loop ys list' n')"
  by (induction xs arbitrary: list n) (auto simp: Let_def split: prod.splits)

text \<open>A page that is on the list stays on it or is freed by a failure, and a free page stays free, unless a
  later range takes it.\<close>

lemma boot_reserve_wire_loop_ok:
  assumes "pmm_inv n" "owned n list" "\<forall>a \<in> set (n_arena_list n). arena_ok a"
    and "boot_reserve_wire_loop res list n = (list', n')"
  shows "pmm_inv n' \<and> owned n' list' \<and> (\<forall>a \<in> set (n_arena_list n'). arena_ok a) \<and>
    (\<forall>p. (\<forall>r \<in> set res. p \<notin> set (range_pages r)) \<longrightarrow>
       (is_free n p \<longrightarrow> is_free n' p) \<and> (p \<in> set list \<longrightarrow> p \<in> set list' \<or> is_free n' p))"
  using assms
proof (induction res arbitrary: list n)
  case (Cons r res)
  obtain pa len where r: "r = (pa, len)" by (rule prod.exhaust)
  obtain st l1 n1 where A: "AllocRange pa (ROUNDUP len PAGE_SIZE div PAGE_SIZE) list n = (st, l1, n1)" by (metis prod_cases3)
  note ok = AllocRange_ok [OF Cons.prems(1-3) A] and other = AllocRange_other [OF Cons.prems(1-3) A]
  have ar: "\<forall>a \<in> set (n_arena_list n1). arena_ok a" using Cons.prems(3) AllocRange_arenas_list [OF Cons.prems(1,3,2) A] by simp
  have rest: "boot_reserve_wire_loop res l1 n1 = (list', n')" using Cons.prems(4) A by (simp add: r)
  have IH: "pmm_inv n' \<and> owned n' list' \<and> (\<forall>a \<in> set (n_arena_list n'). arena_ok a) \<and>
    (\<forall>p. (\<forall>r \<in> set res. p \<notin> set (range_pages r)) \<longrightarrow>
       (is_free n1 p \<longrightarrow> is_free n' p) \<and> (p \<in> set l1 \<longrightarrow> p \<in> set list' \<or> is_free n' p))"
    using Cons.IH [OF _ _ ar rest] ok by blast
  have "is_free n1 p" if "is_free n p" "p \<notin> set (range_pages r)" for p
    using other [OF that(1)] that(2) by (simp add: r range_pages_def)
  moreover have "p \<in> set l1 \<or> is_free n1 p" if "p \<in> set list" for p using ok that by auto
  ultimately show ?case using IH by (metis list.set_intros(1,2))
qed simp

section \<open>Properties\<close>

text \<open>C15. \<open>AllocPages\<close> is all or nothing. With enough free pages the caller gets exactly that many
  pages, distinct and free before; otherwise every page it had taken, and every page the caller's list
  held, is free again. In both cases the free list holds every free page exactly once.\<close>

theorem AllocPages_correct:
  assumes "pmm_inv n" "owned n list" "AllocPages c list n = (status, list', n')"
  shows "pmm_inv n' \<and> owned n' list' \<and>
    (if c \<le> n_free_count n
     then status = ZX_OK \<and> list' = list @ take c (n_free_list n) \<and> n_free_count n' = n_free_count n - c
     else status = ZX_ERR_NO_MEMORY \<and> list' = [] \<and> set (n_free_list n') = set (n_free_list n) \<union> set list)"
proof -
  have cnt: "n_free_count m = length (n_free_list m)" if "pmm_inv m" for m using that by (simp add: pmm_inv_def)
  have [simp]: "owned m []" for m by (simp add: owned_def)
  show ?thesis
  proof (cases "c = 0")
    case True
    with assms show ?thesis by (simp add: AllocPages_def)
  next
    case False
    with AllocPages_loop_ok [OF assms(1,2), of c] assms cnt show ?thesis
      by (auto simp: AllocPages_def split: if_splits)
  qed
qed

text \<open>A node with one arena of four pages, all free.\<close>

definition pmm_example :: pmm_node where
  "pmm_example = \<lparr>n_state = (\<lambda>_. VM_PAGE_STATE_FREE), n_arena_list = [\<lparr>a_base = 0, a_size = 4 * PAGE_SIZE, a_priority = 0\<rparr>],
     n_free_list = [0, PAGE_SIZE, 2 * PAGE_SIZE, 3 * PAGE_SIZE], n_free_count = 4, n_arena_cumulative_size = 4 * PAGE_SIZE\<rparr>"

lemma pmm_example_inv: "pmm_inv pmm_example" "owned pmm_example []"
proof -
  have "arena_pages pmm_example = (\<lambda>i. i * PAGE_SIZE) ` {0..<4}"
    by (auto simp: arena_pages_def pmm_example_def get_page_def)
  then have "free_pages pmm_example \<subseteq> set (n_free_list pmm_example)"
    by (auto simp: free_pages_def pmm_example_def numeral_eq_Suc less_Suc_eq)
  then show "pmm_inv pmm_example" by (simp add: pmm_inv_def) (simp add: pmm_example_def)
  show "owned pmm_example []" by (simp add: owned_def)
qed

theorem AllocPages_correct_witness:
  "fst (AllocPages 3 [] pmm_example) = ZX_OK \<and> fst (AllocPages 5 [] pmm_example) = ZX_ERR_NO_MEMORY"
proof -
  have c: "n_free_count pmm_example = 4" by (simp add: pmm_example_def)
  obtain st l n' st2 l2 n2 where e: "AllocPages 3 [] pmm_example = (st, l, n')" "AllocPages 5 [] pmm_example = (st2, l2, n2)"
    by (metis prod_cases3)
  show ?thesis
    using AllocPages_correct [OF pmm_example_inv e(1)] AllocPages_correct [OF pmm_example_inv e(2)] e c by simp
qed

text \<open>C14. \<open>AllocContiguous\<close> finds a run whenever there is one. It returns an aligned address whose
  pages were all free and are now the caller's, in order, or reports \<open>NOT_FOUND\<close>; then nothing has
  changed and no arena has an aligned run of free pages of that length.\<close>

theorem AllocContiguous_correct:
  assumes "pmm_inv n" "owned n list" "\<forall>a \<in> set (n_arena_list n). arena_ok a" "0 < c" "al < 64"
    and "AllocContiguous c al list n = (r, list', n')"
  shows "pmm_inv n' \<and> owned n' list' \<and>
    (case r of
       Inl e \<Rightarrow> e = ZX_ERR_NOT_FOUND \<and> n' = n \<and> list' = list \<and>
         (\<forall>a \<in> set (n_arena_list n). \<forall>q. \<not> run_at n a c (max al PAGE_SIZE_SHIFT) q)
     | Inr None \<Rightarrow> False
     | Inr (Some p) \<Rightarrow> 2 ^ al dvd p \<and> (\<forall>i < c. is_free n (p + i * PAGE_SIZE)) \<and>
         list' = list @ map (\<lambda>i. p + i * PAGE_SIZE) [0..<c])"
proof -
  define l where "l = max al PAGE_SIZE_SHIFT"
  have l: "PAGE_SIZE_SHIFT \<le> l" "l < 64" "al \<le> l" using assms(5) by (auto simp: l_def PAGE_SIZE_SHIFT_def)
  obtain r1 where r1: "AllocContiguous_arenas (n_arena_list n) c l list n = (r1, list', n')" "r = map_sum id Some r1"
    using assms(4,6) by (auto simp: AllocContiguous_def l_def split: prod.splits)
  note ok = AllocContiguous_arenas_ok [OF assms(1,2,4) l(1,2) subset_refl assms(3) r1(1)]
  show ?thesis
  proof (cases r1)
    case (Inr p)
    with ok have "2 ^ l dvd p" "\<exists>a. run_at n a c l p" by auto
    then have "2 ^ al dvd p" "\<forall>i < c. is_free n (p + i * PAGE_SIZE)"
      using le_imp_power_dvd [OF l(3), of 2] dvd_trans by (auto simp: run_at_def)
    with ok Inr r1(2) show ?thesis by auto
  qed (use ok r1(2) in \<open>auto simp: l_def\<close>)
qed

theorem AllocContiguous_correct_witness:
  "\<exists>p list' n'. AllocContiguous 2 13 [] pmm_example = (Inr (Some p), list', n') \<and> 2 ^ 13 dvd p \<and>
     list' = [p, p + PAGE_SIZE]"
proof -
  define a where "a = \<lparr>a_base = 0, a_size = 4 * PAGE_SIZE, a_priority = 0\<rparr>"
  have a: "n_arena_list pmm_example = [a]" by (simp add: pmm_example_def a_def)
  have ok: "\<forall>a \<in> set (n_arena_list pmm_example). arena_ok a" by (simp add: a a_def arena_ok_def PAGE_SIZE_def)
  have "run_at pmm_example a 2 (max 13 PAGE_SIZE_SHIFT) 0" by (simp add: run_at_def a_def pmm_example_def)
  moreover obtain r l n' where e: "AllocContiguous 2 13 [] pmm_example = (r, l, n')" by (metis prod_cases3)
  ultimately show ?thesis
    using AllocContiguous_correct [OF pmm_example_inv ok _ _ e] a
    by (auto split: sum.splits option.splits simp: numeral_2_eq_2)
qed

text \<open>C30. \<open>AllocRange\<close> gives the caller exactly the pages of the physical range, in order, or fails and
  frees its whole list: not only the pages of this range but also those the caller held before.\<close>

theorem AllocRange_correct:
  assumes "pmm_inv n" "owned n list" "\<forall>a \<in> set (n_arena_list n). arena_ok a"
    and "AllocRange address c list n = (status, list', n')"
  shows "pmm_inv n' \<and> owned n' list' \<and>
    (status = ZX_OK \<and> list' = list @ map (\<lambda>i. ROUNDDOWN address PAGE_SIZE + i * PAGE_SIZE) [0..<c] \<or>
     status = ZX_ERR_NOT_FOUND \<and> list' = [] \<and> (\<forall>p \<in> set list. is_free n' p \<and> p \<in> set (n_free_list n')))"
  by (rule AllocRange_ok [OF assms])

lemmas alloc_range_eval = AllocRange_def ROUNDDOWN_def FindSpecific_def address_in_arena_def get_page_def PAGE_SIZE_def
  ROUNDUP_def pmm_example_def set_page_state_def take_page_def

theorem AllocRange_correct_witness:
  "\<exists>n'. AllocRange PAGE_SIZE 1 [] pmm_example = (ZX_OK, [PAGE_SIZE], n')"
proof -
  have ok: "\<forall>a \<in> set (n_arena_list pmm_example). arena_ok a"
    by (simp add: pmm_example_def arena_ok_def PAGE_SIZE_def)
  obtain st l n' where e: "AllocRange PAGE_SIZE 1 [] pmm_example = (st, l, n')" by (metis prod_cases3)
  moreover have "fst (AllocRange PAGE_SIZE 1 [] pmm_example) = ZX_OK" by (simp add: alloc_range_eval)
  ultimately show ?thesis
    using AllocRange_correct [OF pmm_example_inv ok e] by (simp add: ROUNDDOWN_def)
qed

text \<open>C40. \<open>boot_reserve_wire\<close> can leave reserved memory free. It collects the pages of all ranges on one
  list, so in any table of reservations a range that cannot be allocated frees the pages of every range that was
  allocated before it: at the end such a page is free and not wired, unless a range in between or later covers
  it too.\<close>

theorem boot_reserve_wire_frees:
  assumes "pmm_inv n" "\<forall>a \<in> set (n_arena_list n). arena_ok a"
    and "boot_reserve_wire_loop res0 [] n = (list0, n0)"
    and "AllocRange pa (ROUNDUP len PAGE_SIZE div PAGE_SIZE) list0 n0 = (ZX_OK, list1, n1)"
    and "boot_reserve_wire_loop res1 list1 n1 = (list2, n2)"
    and "AllocRange pa' (ROUNDUP len' PAGE_SIZE div PAGE_SIZE) list2 n2 = (st, list3, n3)" "st \<noteq> ZX_OK"
    and "p \<in> set (range_pages (pa, len))" "\<forall>r \<in> set (res1 @ res2). p \<notin> set (range_pages r)"
  shows "let (wired, n') = boot_reserve_wire (res0 @ (pa, len) # res1 @ (pa', len') # res2) n in
    is_free n' p \<and> p \<notin> set wired"
proof -
  have "owned n []" by (simp add: owned_def)
  note 0 = boot_reserve_wire_loop_ok [OF assms(1) this assms(2,3)]
  have 1: "pmm_inv n1 \<and> owned n1 list1 \<and> p \<in> set list1"
    using AllocRange_ok [OF _ _ _ assms(4)] 0 assms(8) by (auto simp: range_pages_def)
  have ar1: "\<forall>a \<in> set (n_arena_list n1). arena_ok a" using AllocRange_arenas_list [OF _ _ _ assms(4)] 0 by simp
  have 2: "pmm_inv n2 \<and> owned n2 list2 \<and> (\<forall>a \<in> set (n_arena_list n2). arena_ok a) \<and> (p \<in> set list2 \<or> is_free n2 p)"
    using boot_reserve_wire_loop_ok [OF _ _ ar1 assms(5)] 1 assms(9) by auto
  have 3: "pmm_inv n3 \<and> owned n3 list3 \<and> list3 = [] \<and> (p \<in> set list2 \<longrightarrow> is_free n3 p)"
    using AllocRange_ok [OF _ _ _ assms(6)] 2 assms(7) by auto
  have f3: "is_free n3 p" using 2 3 AllocRange_other [OF _ _ _ assms(6)] assms(7) by blast
  have ar3: "\<forall>a \<in> set (n_arena_list n3). arena_ok a" using AllocRange_arenas_list [OF _ _ _ assms(6)] 2 by simp
  obtain list' n' where rest: "boot_reserve_wire_loop res2 [] n3 = (list', n')" by (rule prod.exhaust)
  have R: "owned n' list' \<and> is_free n' p"
    using boot_reserve_wire_loop_ok [OF _ _ ar3 rest] 3 f3 assms(9) by auto
  have w: "boot_reserve_wire (res0 @ (pa, len) # res1 @ (pa', len') # res2) n =
      (list', fold (\<lambda>p. set_page_state p VM_PAGE_STATE_WIRED) list' n')"
    using assms(3-6) 3 rest by (simp add: boot_reserve_wire_def boot_reserve_wire_loop_append)
  have keep: "q \<notin> set xs \<Longrightarrow> is_free (fold (\<lambda>p. set_page_state p VM_PAGE_STATE_WIRED) xs m) q = is_free m q" for q xs m
    by (induction xs arbitrary: m) (simp_all add: set_page_state_def)
  from R show ?thesis by (auto simp: w keep owned_def)
qed

theorem boot_reserve_wire_frees_witness:
  "is_free (snd (boot_reserve_wire [(0, 4096), (8 * PAGE_SIZE, 4096), (PAGE_SIZE, 4096)] pmm_example)) 0"
proof -
  have ok: "\<forall>a \<in> set (n_arena_list pmm_example). arena_ok a"
    by (simp add: pmm_example_def arena_ok_def PAGE_SIZE_def)
  have l: "boot_reserve_wire_loop [] [] pmm_example = ([], pmm_example)" by simp
  obtain n1 where e1: "AllocRange 0 (ROUNDUP 4096 PAGE_SIZE div PAGE_SIZE) [] pmm_example = (ZX_OK, [0], n1)"
    "n_arena_list n1 = n_arena_list pmm_example"
    by (simp add: alloc_range_eval)
  have l1: "boot_reserve_wire_loop [] [0] n1 = ([0], n1)" by simp
  obtain n2 where e2: "AllocRange (8 * PAGE_SIZE) (ROUNDUP 4096 PAGE_SIZE div PAGE_SIZE) [0] n1 = (ZX_ERR_NOT_FOUND, [], n2)"
    using e1(2) by (simp add: alloc_range_eval)
  have p: "0 \<in> set (range_pages (0, 4096))" "\<forall>r \<in> set ([] @ [(PAGE_SIZE, 4096)]). 0 \<notin> set (range_pages r)"
    by (auto simp: range_pages_def PAGE_SIZE_def ROUNDDOWN_def ROUNDUP_def)
  from boot_reserve_wire_frees [OF pmm_example_inv(1) ok l e1(1) l1 e2 _ p] show ?thesis
    by (simp add: case_prod_beta del: boot_reserve_wire_loop.simps)
qed

text \<open>C31. The search for the page array of an arena, for any reservations that do not wrap. If there is room
  in the range, the search returns the highest placement that is clear of every reservation. If there is none,
  it fails with \<open>NO_MEMORY\<close>, provided no reservation that meets the range starts below the length searched for.
  Without that proviso it is wrong: when the first try meets such a reservation, the next address wraps around
  zero, and if nothing is reserved there the search returns it although there is no room.\<close>

theorem boot_reserve_range_search_correct:
  assumes "\<forall>(rpa, rlen) \<in> set res. rpa + rlen < 2 ^ 64" "0 < alloc_len" "alloc_len \<le> range_len"
    and "range_pa + range_len < 2 ^ 64"
  shows "((\<exists>q. placement res range_pa range_len alloc_len q) \<longrightarrow>
      (\<exists>q. boot_reserve_range_search res range_pa range_len alloc_len = Some (Inr (q, alloc_len)) \<and>
         placement res range_pa range_len alloc_len q \<and> (\<forall>q'. placement res range_pa range_len alloc_len q' \<longrightarrow> q' \<le> q))) \<and>
    ((\<forall>q. \<not> placement res range_pa range_len alloc_len q) \<and>
       (\<forall>(rpa, rlen) \<in> set res. rpa < range_pa + range_len \<and> range_pa < rpa + rlen \<longrightarrow> alloc_len \<le> rpa) \<longrightarrow>
       boot_reserve_range_search res range_pa range_len alloc_len = Some (Inl ZX_ERR_NO_MEMORY)) \<and>
    (\<forall>rpa rlen. first_conflict res (range_pa + range_len - alloc_len) alloc_len = Some (rpa, rlen) \<and> rpa < alloc_len \<and>
       first_conflict res (2 ^ 64 + rpa - alloc_len) alloc_len = None \<longrightarrow>
       boot_reserve_range_search res range_pa range_len alloc_len = Some (Inr (2 ^ 64 + rpa - alloc_len, alloc_len)) \<and>
       (\<forall>q. \<not> placement res range_pa range_len alloc_len q))"
proof -
  define pa where "pa = range_pa + range_len - alloc_len"
  have s: "boot_reserve_range_search res range_pa range_len alloc_len = range_search_loop res range_pa alloc_len pa"
    using assms(3,4) by (simp add: boot_reserve_range_search_def upper_align_def pa_def mod_if)
  have top: "\<forall>q. placement res range_pa range_len alloc_len q \<longrightarrow> q \<le> pa" by (auto simp: placement_def pa_def)
  note L = range_search_loop_ok [OF assms(1,2,4) _ _ top]
  have ends: "range_pa \<le> pa" "pa + alloc_len \<le> range_pa + range_len" using assms(3) by (simp_all add: pa_def)
  have found: "\<exists>q. range_search_loop res range_pa alloc_len pa = Some (Inr (q, alloc_len)) \<and>
      placement res range_pa range_len alloc_len q \<and> (\<forall>q'. placement res range_pa range_len alloc_len q' \<longrightarrow> q' \<le> q)"
    if p: "\<exists>q. placement res range_pa range_len alloc_len q"
  proof -
    from L [OF ends disjI1 [OF p]] obtain r where
      "range_search_loop res range_pa alloc_len pa = Some r" "search_ok res range_pa range_len alloc_len r" by blast
    with p show ?thesis by (cases r) (auto simp: search_ok_def)
  qed
  have full: "range_search_loop res range_pa alloc_len pa = Some (Inl ZX_ERR_NO_MEMORY)"
    if p: "\<forall>q. \<not> placement res range_pa range_len alloc_len q"
      "\<forall>(rpa, rlen) \<in> set res. rpa < range_pa + range_len \<and> range_pa < rpa + rlen \<longrightarrow> alloc_len \<le> rpa"
  proof -
    from L [OF ends disjI2 [OF p(2)]] obtain r where
      "range_search_loop res range_pa alloc_len pa = Some r" "search_ok res range_pa range_len alloc_len r" by blast
    with p(1) show ?thesis by (cases r) (auto simp: search_ok_def)
  qed
  have wraps: "range_search_loop res range_pa alloc_len pa = Some (Inr (2 ^ 64 + rpa - alloc_len, alloc_len)) \<and>
      (\<forall>q. \<not> placement res range_pa range_len alloc_len q)"
    if c: "first_conflict res pa alloc_len = Some (rpa, rlen)" "rpa < alloc_len" "first_conflict res (2 ^ 64 + rpa - alloc_len) alloc_len = None" for rpa rlen
  proof -
    have w: "(rpa + 2 ^ 64 - alloc_len) mod 2 ^ 64 = 2 ^ 64 + rpa - alloc_len" "\<not> 2 ^ 64 + rpa - alloc_len < range_pa"
      using c(2) assms(3,4) by (simp_all add: add.commute)
    have r: "(rpa, rlen) \<in> set res" "Intersects rpa rlen pa alloc_len"
      using c(1) by (auto simp: first_conflict_def find_Some_iff) (metis nth_mem)
    then have "rpa + rlen < 2 ^ 64" "pa + alloc_len < 2 ^ 64" using assms(1,4) ends by auto
    from r(2) [unfolded Intersects_iff [OF this]] have x: "pa < rpa + rlen" "rlen \<noteq> 0" by auto
    have "\<not> placement res range_pa range_len alloc_len q" for q
    proof
      assume q: "placement res range_pa range_len alloc_len q"
      then have "q + alloc_len \<le> rpa \<or> rpa + rlen \<le> q" using r(1) x(2) by (auto simp: placement_def)
      with top q x(1) c(2) show False by fastforce
    qed
    moreover have "range_search_loop res range_pa alloc_len pa = Some (Inr (2 ^ 64 + rpa - alloc_len, alloc_len))"
      using c w range_search_loop.simps [of res range_pa alloc_len "2 ^ 64 + rpa - alloc_len"]
      by (simp only: range_search_loop.simps [of res range_pa alloc_len pa] Let_def option.case prod.case if_False)
    ultimately show ?thesis by blast
  qed
  show ?thesis unfolding s pa_def [symmetric] using found full wraps by blast
qed

theorem boot_reserve_range_search_correct_witness:
  "boot_reserve_range_search [(0x1000, 0x1000), (0x5000, 0x1000)] 0x1000 0x5000 0x2800 = Some (Inr (0x2800, 0x2800)) \<and>
   boot_reserve_range_search [(0x100000, 0x80000)] 0 0x200000 0x180000 = Some (Inr (0xFFFFFFFFFFF80000, 0x180000))"
proof
  let ?res = "[(0x1000, 0x1000), (0x5000, 0x1000)] :: reserve_range list"
  have "\<forall>(rpa, rlen) \<in> set ?res. rpa + rlen < 2 ^ 64" "(0::nat) < 0x2800" "(0x2800::nat) \<le> 0x5000"
    "(0x1000::nat) + 0x5000 < 2 ^ 64" by simp_all
  note C = boot_reserve_range_search_correct [OF this]
  have "placement ?res 0x1000 0x5000 0x2800 0x2800" "\<And>q. placement ?res 0x1000 0x5000 0x2800 q \<Longrightarrow> q \<le> 0x2800"
    by (auto simp: placement_def)
  with conjunct1 [OF C] obtain q where "boot_reserve_range_search ?res 0x1000 0x5000 0x2800 = Some (Inr (q, 0x2800))" "q \<le> 0x2800" "0x2800 \<le> q"
    by blast
  then show "boot_reserve_range_search ?res 0x1000 0x5000 0x2800 = Some (Inr (0x2800, 0x2800))" by simp
  have w: "\<forall>(rpa, rlen) \<in> set [(0x100000, 0x80000) :: reserve_range]. rpa + rlen < 2 ^ 64" "(0::nat) < 0x180000" "(0x180000::nat) \<le> 0x200000"
    "(0::nat) + 0x200000 < 2 ^ 64" by simp_all
  have "first_conflict [(0x100000, 0x80000)] (0 + 0x200000 - 0x180000) 0x180000 = Some (0x100000, 0x80000) \<and> (0x100000::nat) < 0x180000 \<and>
     first_conflict [(0x100000, 0x80000)] (2 ^ 64 + 0x100000 - 0x180000) 0x180000 = None"
    by (simp add: first_conflict_def Intersects_def)
  with conjunct2 [OF conjunct2 [OF boot_reserve_range_search_correct [OF w]]]
  have "boot_reserve_range_search [(0x100000, 0x80000)] 0 0x200000 0x180000 = Some (Inr (2 ^ 64 + 0x100000 - 0x180000, 0x180000))"
    by (elim allE [of _ "0x100000"] allE [of _ "0x80000"]) (simp only: simp_thms)
  then show "boot_reserve_range_search [(0x100000, 0x80000)] 0 0x200000 0x180000 = Some (Inr (0xFFFFFFFFFFF80000, 0x180000))" by simp
qed

end
