(* ===== verification/Zx_Message.thy ===== *)
theory Zx_Message
  imports Zx_Pmm
begin

unbundle bit_operations_syntax

text \<open>
  Channel messages: the chains of page-sized buffers of \<^verbatim>\<open>include/object/buffer_chain.h\<close>, and the
  message packets that live inside them, \<^verbatim>\<open>kernel/object/message_packet.cpp\<close>.

  The packet object and its array of handles occupy the start of the first buffer; here they are the
  fields of a record, and the payload offset keeps the payload clear of them. A handle is named by a
  number, and an entry of the handle array that has not been written yet is \<open>None\<close>. Sizes are natural
  numbers: the code bounds the message size before it adds anything to it.
\<close>

section \<open>Buffer chains\<close>

definition kSizeOfBufferFields :: nat where
  "kSizeOfBufferFields = 16"

definition kRawDataSize :: nat where
  "kRawDataSize = PAGE_SIZE - kSizeOfBufferFields"

definition kSizeOfBufferChain :: nat where
  "kSizeOfBufferChain = 8 + 16"

definition kContig :: nat where
  "kContig = kRawDataSize - kSizeOfBufferChain"

record buffer =
  bf_reserved :: nat
  bf_raw_data :: "byte list"

definition Buffer_data :: "buffer \<Rightarrow> byte list" where
  "Buffer_data b = drop (bf_reserved b) (bf_raw_data b)"

definition Buffer_size :: "buffer \<Rightarrow> nat" where
  "Buffer_size b = kRawDataSize - bf_reserved b"

text \<open>Storing bytes at an offset of the data of a buffer.\<close>

definition Buffer_store :: "nat \<Rightarrow> byte list \<Rightarrow> buffer \<Rightarrow> buffer" where
  "Buffer_store off bytes b = b\<lparr>bf_raw_data := overwrite (bf_raw_data b) (bf_reserved b + off) bytes\<rparr>"

record bufferchain =
  bc_buffers :: "buffer list"
  bc_pages :: "nat list"

fun set_reserved_front :: "nat \<Rightarrow> buffer list \<Rightarrow> buffer list" where
  "set_reserved_front r [] = []"
| "set_reserved_front r (b # bs) = b\<lparr>bf_reserved := r\<rparr> # bs"

text \<open>\<open>phys p i\<close> is the byte at offset \<open>i\<close> of the raw data in a freshly allocated page \<open>p\<close>.\<close>

definition BufferChain_Alloc ::
  "(nat \<Rightarrow> nat \<Rightarrow> byte) \<Rightarrow> nat \<Rightarrow> pmm_node \<Rightarrow> bufferchain option \<times> pmm_node" where
  "BufferChain_Alloc phys sz n =
     (let size' = sz + kSizeOfBufferChain;
          num_buffers = (size' + kRawDataSize - 1) div kRawDataSize;
          (status, pages, n1) = AllocPages num_buffers [] n in
      if status \<noteq> ZX_OK then (None, n1)
      else
        let n2 = fold (\<lambda>p. set_page_state p VM_PAGE_STATE_IPC) pages n1;
            temp = fold (\<lambda>p bufs. \<lparr>bf_reserved = 0, bf_raw_data = map (phys p) [0..<kRawDataSize]\<rparr> # bufs) pages [] in
        (Some \<lparr>bc_buffers = set_reserved_front kSizeOfBufferChain temp, bc_pages = pages\<rparr>, n2))"

definition BufferChain_Free :: "bufferchain \<Rightarrow> pmm_node \<Rightarrow> pmm_node" where
  "BufferChain_Free c n = FreeList (bc_pages c) n"

fun CopyOut_loop :: "user_out \<Rightarrow> nat \<Rightarrow> nat \<Rightarrow> nat \<Rightarrow> buffer list \<Rightarrow> zx_status \<times> byte list" where
  "CopyOut_loop wr dst copy_offset rem [] = (ZX_OK, [])"
| "CopyOut_loop wr dst copy_offset rem (b # bs) =
     (if rem = 0 then (ZX_OK, [])
      else
        let copy_len = min rem (Buffer_size b - copy_offset);
            src = take copy_len (drop copy_offset (Buffer_data b)) in
        if \<not> user_writable wr dst copy_len then (ZX_ERR_INVALID_ARGS, user_stored wr dst src)
        else
          let (status, out) = CopyOut_loop wr (dst + copy_len) 0 (rem - copy_len) bs in
          (status, src @ out))"

text \<open>The status, and the bytes stored to the user buffer.\<close>

definition BufferChain_CopyOut :: "user_out \<Rightarrow> nat \<Rightarrow> nat \<Rightarrow> nat \<Rightarrow> bufferchain \<Rightarrow> zx_status \<times> byte list" where
  "BufferChain_CopyOut wr dst src_offset sz c = CopyOut_loop wr dst src_offset sz (bc_buffers c)"

fun CopyIn_loop :: "user_mem \<Rightarrow> nat \<Rightarrow> nat \<Rightarrow> nat \<Rightarrow> buffer list \<Rightarrow> zx_status \<times> buffer list" where
  "CopyIn_loop mem src copy_offset rem [] = (ZX_OK, [])"
| "CopyIn_loop mem src copy_offset rem (b # bs) =
     (if rem = 0 then (ZX_OK, b # bs)
      else
        let copy_len = min rem (Buffer_size b - copy_offset);
            b' = Buffer_store copy_offset (user_bytes mem src copy_len) b in
        if \<not> user_readable mem src copy_len then (ZX_ERR_INVALID_ARGS, b' # bs)
        else
          let (status, bs') = CopyIn_loop mem (src + copy_len) 0 (rem - copy_len) bs in
          (status, b' # bs'))"

definition BufferChain_CopyInCommon ::
  "user_mem \<Rightarrow> nat \<Rightarrow> nat \<Rightarrow> nat \<Rightarrow> bufferchain \<Rightarrow> zx_status \<times> bufferchain" where
  "BufferChain_CopyInCommon mem src dst_offset sz c =
     (let (status, bs) = CopyIn_loop mem src dst_offset sz (bc_buffers c) in (status, c\<lparr>bc_buffers := bs\<rparr>))"

definition BufferChain_CopyIn ::
  "user_mem \<Rightarrow> nat \<Rightarrow> nat \<Rightarrow> nat \<Rightarrow> bufferchain \<Rightarrow> zx_status \<times> bufferchain" where
  "BufferChain_CopyIn = BufferChain_CopyInCommon"

text \<open>Kernel memory does not fault.\<close>

definition BufferChain_CopyInKernel :: "(nat \<Rightarrow> byte) \<Rightarrow> nat \<Rightarrow> nat \<Rightarrow> nat \<Rightarrow> bufferchain \<Rightarrow> zx_status \<times> bufferchain" where
  "BufferChain_CopyInKernel kmem = BufferChain_CopyInCommon (\<lambda>i. Some (kmem i))"

section \<open>Message packets\<close>

definition kMaxMessageSize :: nat where
  "kMaxMessageSize = 65536"

definition kMaxMessageHandles :: nat where
  "kMaxMessageHandles = 64"

text \<open>The object has two list pointers, a chain pointer, a handle array pointer, two 32-bit sizes, a
  16-bit count and a flag, padded to a multiple of eight.\<close>

definition kHandlesOffset :: nat where
  "kHandlesOffset = 16 + 8 + 8 + 4 + 4 + 8"

definition kContiguousBytes :: nat where
  "kContiguousBytes = kHandlesOffset + kMaxMessageHandles * 8 + 4"

definition PayloadOffset :: "nat \<Rightarrow> nat" where
  "PayloadOffset num_handles = kHandlesOffset + num_handles * 8"

record messagepacket =
  mp_buffer_chain :: bufferchain
  mp_handles :: "nat option list"
  mp_data_size :: nat
  mp_payload_offset :: nat
  mp_num_handles :: nat
  mp_owns_handles :: bool

definition MessagePacket_CreateCommon ::
  "(nat \<Rightarrow> nat \<Rightarrow> byte) \<Rightarrow> nat \<Rightarrow> nat \<Rightarrow> pmm_node \<Rightarrow> (zx_status + messagepacket) \<times> pmm_node" where
  "MessagePacket_CreateCommon phys data_size num_handles n =
     (if data_size > kMaxMessageSize \<or> num_handles > kMaxMessageHandles then (Inl ZX_ERR_OUT_OF_RANGE, n)
      else
        let payload_offset = PayloadOffset num_handles in
        case BufferChain_Alloc phys (payload_offset + data_size) n of
          (None, n1) \<Rightarrow> (Inl ZX_ERR_NO_MEMORY, n1)
        | (Some chain, n1) \<Rightarrow>
            (Inr \<lparr>mp_buffer_chain = chain, mp_handles = replicate num_handles None, mp_data_size = data_size,
                  mp_payload_offset = payload_offset, mp_num_handles = num_handles, mp_owns_handles = False\<rparr>, n1))"

text \<open>Destroying a packet closes the handles it owns and frees its pages.\<close>

definition MessagePacket_recycle :: "messagepacket \<Rightarrow> pmm_node \<Rightarrow> nat option list \<times> pmm_node" where
  "MessagePacket_recycle p n =
     (if mp_owns_handles p then mp_handles p else [], BufferChain_Free (mp_buffer_chain p) n)"

definition MessagePacket_Create ::
  "(nat \<Rightarrow> nat \<Rightarrow> byte) \<Rightarrow> user_mem \<Rightarrow> nat \<Rightarrow> nat \<Rightarrow> nat \<Rightarrow> pmm_node \<Rightarrow> (zx_status + messagepacket) \<times> pmm_node" where
  "MessagePacket_Create phys mem src data_size num_handles n =
     (case MessagePacket_CreateCommon phys data_size num_handles n of
        (Inl status, n1) \<Rightarrow> (Inl status, n1)
      | (Inr msg, n1) \<Rightarrow>
          let (status, chain) = BufferChain_CopyIn mem src (PayloadOffset num_handles) data_size (mp_buffer_chain msg);
              msg' = msg\<lparr>mp_buffer_chain := chain\<rparr> in
          if status \<noteq> ZX_OK then (Inl status, snd (MessagePacket_recycle msg' n1)) else (Inr msg', n1))"

definition MessagePacket_CreateKernel ::
  "(nat \<Rightarrow> nat \<Rightarrow> byte) \<Rightarrow> (nat \<Rightarrow> byte) \<Rightarrow> nat \<Rightarrow> nat \<Rightarrow> nat \<Rightarrow> pmm_node \<Rightarrow> (zx_status + messagepacket) \<times> pmm_node" where
  "MessagePacket_CreateKernel phys kmem src data_size num_handles n =
     (case MessagePacket_CreateCommon phys data_size num_handles n of
        (Inl status, n1) \<Rightarrow> (Inl status, n1)
      | (Inr msg, n1) \<Rightarrow>
          let (status, chain) = BufferChain_CopyInKernel kmem src (PayloadOffset num_handles) data_size (mp_buffer_chain msg);
              msg' = msg\<lparr>mp_buffer_chain := chain\<rparr> in
          if status \<noteq> ZX_OK then (Inl status, snd (MessagePacket_recycle msg' n1)) else (Inr msg', n1))"

definition CopyDataTo :: "user_out \<Rightarrow> nat \<Rightarrow> messagepacket \<Rightarrow> zx_status \<times> byte list" where
  "CopyDataTo wr buf p = BufferChain_CopyOut wr buf (mp_payload_offset p) (mp_data_size p) (mp_buffer_chain p)"

definition set_owns_handles :: "bool \<Rightarrow> messagepacket \<Rightarrow> messagepacket" where
  "set_owns_handles own p = p\<lparr>mp_owns_handles := own\<rparr>"

text \<open>Transaction ids are stored in the byte order of the machine, little endian.\<close>

type_synonym zx_txid = u32

definition u32_of_bytes :: "byte list \<Rightarrow> u32" where
  "u32_of_bytes bs = ucast (bs ! 0) OR push_bit 8 (ucast (bs ! 1)) OR push_bit 16 (ucast (bs ! 2))
     OR push_bit 24 (ucast (bs ! 3))"

definition bytes_of_u32 :: "u32 \<Rightarrow> byte list" where
  "bytes_of_u32 x = [ucast x, ucast (drop_bit 8 x), ucast (drop_bit 16 x), ucast (drop_bit 24 x)]"

definition front_buffer :: "messagepacket \<Rightarrow> buffer" where
  "front_buffer p = hd (bc_buffers (mp_buffer_chain p))"

definition MessagePacket_get_txid :: "messagepacket \<Rightarrow> zx_txid" where
  "MessagePacket_get_txid p =
     (if mp_data_size p < 4 then 0
      else u32_of_bytes (take 4 (drop (mp_payload_offset p) (Buffer_data (front_buffer p)))))"

definition MessagePacket_set_txid :: "zx_txid \<Rightarrow> messagepacket \<Rightarrow> messagepacket" where
  "MessagePacket_set_txid txid p =
     (if mp_data_size p \<ge> 4 then
        p\<lparr>mp_buffer_chain := (mp_buffer_chain p)
           \<lparr>bc_buffers := Buffer_store (mp_payload_offset p) (bytes_of_u32 txid) (front_buffer p)
                           # tl (bc_buffers (mp_buffer_chain p))\<rparr>\<rparr>
      else p)"

section \<open>The data of a chain\<close>

definition buffers_ok :: "buffer list \<Rightarrow> bool" where
  "buffers_ok bs \<longleftrightarrow> (\<forall>b \<in> set bs. length (bf_raw_data b) = kRawDataSize \<and> bf_reserved b \<le> kRawDataSize)"

definition chain_data :: "buffer list \<Rightarrow> byte list" where
  "chain_data bs = concat (map Buffer_data bs)"

lemma chain_data_simps [simp]:
  "chain_data [] = []" "chain_data (b # bs) = Buffer_data b @ chain_data bs"
  by (simp_all add: chain_data_def)

lemma buffers_ok_simps [simp]:
  "buffers_ok []"
  "buffers_ok (b # bs) \<longleftrightarrow> length (bf_raw_data b) = kRawDataSize \<and> bf_reserved b \<le> kRawDataSize \<and> buffers_ok bs"
  by (auto simp: buffers_ok_def)

lemma length_Buffer_data: "length (bf_raw_data b) = kRawDataSize \<Longrightarrow> length (Buffer_data b) = Buffer_size b"
  by (simp add: Buffer_data_def Buffer_size_def)

lemma Buffer_store_simps [simp]:
  "bf_reserved (Buffer_store off bytes b) = bf_reserved b"
  "length (bf_raw_data (Buffer_store off bytes b)) = length (bf_raw_data b)"
  by (simp_all add: Buffer_store_def)

lemma overwrite_split:
  "off + length ys \<le> length xs \<Longrightarrow> overwrite xs off ys = take off xs @ ys @ drop (off + length ys) xs"
  by (simp add: overwrite_def)

lemma Buffer_data_store:
  assumes "length (bf_raw_data b) = kRawDataSize" "off + length bytes \<le> Buffer_size b" "bf_reserved b \<le> kRawDataSize"
  shows "Buffer_data (Buffer_store off bytes b) = overwrite (Buffer_data b) off bytes"
  using assms
  by (simp add: Buffer_data_def Buffer_store_def Buffer_size_def overwrite_split drop_take add.assoc add.commute
      add.left_commute)

lemma overwrite_append_left:
  "off + length ys \<le> length xs \<Longrightarrow> overwrite (xs @ zs) off ys = overwrite xs off ys @ zs"
  by (simp add: overwrite_split)

lemma overwrite_append_over:
  assumes "off \<le> length xs" "off + length (ys @ zs) \<le> length (xs @ ws)" "length ys = length xs - off"
  shows "overwrite (xs @ ws) off (ys @ zs) = overwrite xs off ys @ overwrite ws 0 zs"
  using assms by (simp add: overwrite_split)

lemma CopyOut_loop_ok:
  "buffers_ok bs \<Longrightarrow> bs \<noteq> [] \<longrightarrow> off \<le> Buffer_size (hd bs) \<Longrightarrow> off + rem \<le> length (chain_data bs) \<Longrightarrow>
   user_writable wr dst rem \<Longrightarrow> CopyOut_loop wr dst off rem bs = (ZX_OK, take rem (drop off (chain_data bs)))"
proof (induction bs arbitrary: dst off rem)
  case (Cons b bs)
  have lb: "length (Buffer_data b) = Buffer_size b" using Cons.prems(1) by (simp add: length_Buffer_data)
  define k where "k = min rem (Buffer_size b - off)"
  have "user_writable wr dst (k + (rem - k))" using Cons.prems(4) by (simp add: k_def)
  then have w: "user_writable wr dst k" "user_writable wr (dst + k) (rem - k)" by (simp_all add: user_writable_add)
  show ?case
  proof (cases "rem = 0")
    case False
    have "CopyOut_loop wr (dst + k) 0 (rem - k) bs = (ZX_OK, take (rem - k) (chain_data bs))"
      using Cons.IH [of 0 "rem - k" "dst + k"] Cons.prems w(2) lb by (simp add: k_def)
    then show ?thesis
      using False w(1) Cons.prems(2) lb by (auto simp: k_def [symmetric]) (auto simp: k_def min_def)
  qed simp
qed simp

lemma CopyIn_loop_ok:
  "buffers_ok bs \<Longrightarrow> bs \<noteq> [] \<longrightarrow> off \<le> Buffer_size (hd bs) \<Longrightarrow> off + rem \<le> length (chain_data bs) \<Longrightarrow>
   user_readable mem src rem \<Longrightarrow>
   \<exists>bs'. CopyIn_loop mem src off rem bs = (ZX_OK, bs') \<and> buffers_ok bs' \<and> map bf_reserved bs' = map bf_reserved bs \<and>
     chain_data bs' = overwrite (chain_data bs) off (user_bytes mem src rem)"
proof (induction bs arbitrary: src off rem)
  case (Cons b bs)
  have lb: "length (Buffer_data b) = Buffer_size b" using Cons.prems(1) by (simp add: length_Buffer_data)
  define k where "k = min rem (Buffer_size b - off)"
  have "user_readable mem src (k + (rem - k))" using Cons.prems(4) by (simp add: k_def)
  then have w: "user_readable mem src k" "user_readable mem (src + k) (rem - k)" by (simp_all add: user_readable_add)
  have bytes: "user_bytes mem src rem = user_bytes mem src k @ user_bytes mem (src + k) (rem - k)"
    using user_bytes_add [OF w(1), of "rem - k"] by (simp add: k_def)
  show ?case
  proof (cases "rem = 0")
    case False
    have rk: "rem - k \<le> length (chain_data bs)" using Cons.prems(2,3) lb by (simp add: k_def)
    obtain bs' where bs': "CopyIn_loop mem (src + k) 0 (rem - k) bs = (ZX_OK, bs')" "buffers_ok bs'"
      "map bf_reserved bs' = map bf_reserved bs"
      "chain_data bs' = overwrite (chain_data bs) 0 (user_bytes mem (src + k) (rem - k))"
      using Cons.IH [of 0 "rem - k" "src + k"] Cons.prems(1) w(2) rk by auto
    have kb: "off + k \<le> Buffer_size b" using Cons.prems(2) by (simp add: k_def)
    have "overwrite (Buffer_data b) off (user_bytes mem src k) @ overwrite (chain_data bs) 0 (user_bytes mem (src + k) (rem - k)) =
        overwrite (Buffer_data b @ chain_data bs) off (user_bytes mem src rem)"
    proof (cases "k = rem")
      case True
      with kb w(1) lb show ?thesis by (simp add: overwrite_append_left)
    next
      case False
      then have "k = Buffer_size b - off" by (simp add: k_def min_def split: if_splits)
      with Cons.prems(2,3) w lb show ?thesis
        unfolding bytes by (subst overwrite_append_over) (auto simp: k_def)
    qed
    then show ?thesis
      using False w(1) Cons.prems(1) bs' kb lb
      by (auto simp: k_def [symmetric] Buffer_data_store)
  qed (use Cons.prems in simp)
qed simp

lemma CopyIn_loop_fault:
  "buffers_ok bs \<Longrightarrow> bs \<noteq> [] \<longrightarrow> off \<le> Buffer_size (hd bs) \<Longrightarrow> off + rem \<le> length (chain_data bs) \<Longrightarrow>
   \<not> user_readable mem src rem \<Longrightarrow> fst (CopyIn_loop mem src off rem bs) = ZX_ERR_INVALID_ARGS"
proof (induction bs arbitrary: src off rem)
  case (Cons b bs)
  have lb: "length (Buffer_data b) = Buffer_size b" using Cons.prems(1) by (simp add: length_Buffer_data)
  define k where "k = min rem (Buffer_size b - off)"
  have "\<not> user_readable mem src (k + (rem - k))" using Cons.prems(4) by (simp add: k_def)
  then have w: "\<not> user_readable mem src k \<or> \<not> user_readable mem (src + k) (rem - k)" by (simp add: user_readable_add)
  have "rem \<noteq> 0" using Cons.prems(4) by (cases rem) auto
  moreover have "fst (CopyIn_loop mem (src + k) 0 (rem - k) bs) = ZX_ERR_INVALID_ARGS"
    if "\<not> user_readable mem (src + k) (rem - k)"
    using Cons.IH [of 0 "rem - k" "src + k"] Cons.prems(1,2,3) that lb by (simp add: k_def)
  ultimately show ?case using w by (auto simp: k_def [symmetric] Let_def split: prod.splits)
qed simp

section \<open>Well-formed messages\<close>

definition message_ok :: "messagepacket \<Rightarrow> bool" where
  "message_ok p \<longleftrightarrow>
     (let bs = bc_buffers (mp_buffer_chain p) in
      buffers_ok bs \<and> bs \<noteq> [] \<and> bf_reserved (hd bs) = kSizeOfBufferChain \<and> mp_num_handles p \<le> kMaxMessageHandles \<and>
      mp_payload_offset p = PayloadOffset (mp_num_handles p) \<and> length (mp_handles p) = mp_num_handles p \<and>
      mp_payload_offset p + mp_data_size p \<le> length (chain_data bs))"

definition payload :: "messagepacket \<Rightarrow> byte list" where
  "payload p = take (mp_data_size p) (drop (mp_payload_offset p) (chain_data (bc_buffers (mp_buffer_chain p))))"

lemmas size_defs = kRawDataSize_def kSizeOfBufferFields_def kSizeOfBufferChain_def PAGE_SIZE_def

text \<open>The packet, its handles and a transaction id fit into the first buffer.\<close>

lemma kContiguousBytes_fits: "kContiguousBytes \<le> kContig"
  by (simp add: kContiguousBytes_def kHandlesOffset_def kMaxMessageHandles_def kContig_def size_defs)

lemma front_room:
  assumes "message_ok p"
  shows "mp_payload_offset p + 4 \<le> Buffer_size (front_buffer p)"
proof -
  have "mp_payload_offset p + 4 \<le> kContiguousBytes"
    using assms by (simp add: message_ok_def Let_def PayloadOffset_def kContiguousBytes_def)
  also have "\<dots> \<le> Buffer_size (front_buffer p)"
    using kContiguousBytes_fits assms
    by (simp add: message_ok_def Let_def front_buffer_def Buffer_size_def kContig_def)
  finally show ?thesis .
qed

lemma fold_buffers:
  "fold (\<lambda>p bufs. f p # bufs) ps acc = rev (map f ps) @ acc"
  by (induction ps arbitrary: acc) auto

lemma fold_set_state:
  "fold (\<lambda>p. set_page_state p st) ps n = n\<lparr>n_state := \<lambda>p. if p \<in> set ps then st else n_state n p\<rparr>"
  by (induction ps arbitrary: n) (auto simp: set_page_state_def fun_eq_iff)

lemma pmm_inv_state:
  assumes "pmm_inv n" "owned n ps" "st \<noteq> VM_PAGE_STATE_FREE"
  shows "pmm_inv (n\<lparr>n_state := \<lambda>p. if p \<in> set ps then st else n_state n p\<rparr>)"
    "owned (n\<lparr>n_state := \<lambda>p. if p \<in> set ps then st else n_state n p\<rparr>) ps"
proof -
  have "free_pages (n\<lparr>n_state := \<lambda>p. if p \<in> set ps then st else n_state n p\<rparr>) \<subseteq> free_pages n"
    using assms(3) by (auto simp: free_pages_def arena_pages_def)
  then show "pmm_inv (n\<lparr>n_state := \<lambda>p. if p \<in> set ps then st else n_state n p\<rparr>)"
    using assms by (auto simp: pmm_inv_def owned_def)
  show "owned (n\<lparr>n_state := \<lambda>p. if p \<in> set ps then st else n_state n p\<rparr>) ps"
    using assms by (simp add: owned_def)
qed

lemma length_chain_data:
  "buffers_ok bs \<Longrightarrow> length (chain_data bs) = (\<Sum>b \<leftarrow> bs. Buffer_size b)"
  by (induction bs) (auto simp: length_Buffer_data)

text \<open>An allocated chain has room for the size asked for, and its pages belong to the caller.\<close>

lemma BufferChain_Alloc_ok:
  assumes "pmm_inv n" "BufferChain_Alloc phys sz n = (Some c, n')"
  shows "buffers_ok (bc_buffers c)" "bc_buffers c \<noteq> []" "bf_reserved (hd (bc_buffers c)) = kSizeOfBufferChain"
    "sz \<le> length (chain_data (bc_buffers c))" "pmm_inv n'" "owned n' (bc_pages c)"
    "n_free_count n = n_free_count n' + length (bc_pages c)"
proof -
  define k where "k = (sz + kSizeOfBufferChain + kRawDataSize - 1) div kRawDataSize"
  have raw: "kSizeOfBufferChain < kRawDataSize" "0 < kRawDataSize" by (simp_all add: size_defs)
  have room: "sz + kSizeOfBufferChain \<le> k * kRawDataSize"
  proof -
    have "sz + kSizeOfBufferChain + kRawDataSize - 1 < Suc k * kRawDataSize"
      unfolding k_def using raw(2) dividend_less_times_div by (simp add: mult.commute) 
    then show ?thesis using raw(2) by simp
  qed
  then have k: "0 < k" by (cases k) (auto simp: kSizeOfBufferChain_def)
  have o: "owned n []" by (simp add: owned_def)
  define new where "new = (\<lambda>p. \<lparr>bf_reserved = 0, bf_raw_data = map (phys p) [0..<kRawDataSize]\<rparr>)"
  have alloc: "BufferChain_Alloc phys sz n = (case AllocPages k [] n of (status, pages, n1) \<Rightarrow>
      if status \<noteq> ZX_OK then (None, n1)
      else (Some \<lparr>bc_buffers = set_reserved_front kSizeOfBufferChain (rev (map new pages)), bc_pages = pages\<rparr>,
            n1\<lparr>n_state := \<lambda>p. if p \<in> set pages then VM_PAGE_STATE_IPC else n_state n1 p\<rparr>))"
    unfolding BufferChain_Alloc_def k_def Let_def fold_set_state fold_buffers append_Nil2 new_def ..
  have len: "k \<le> length (n_free_list n)"
    using AllocPages_loop_ok [OF assms(1) o, of k] assms(2) k
    by (auto simp: alloc AllocPages_def split: if_splits)
  define ps where "ps = take k (n_free_list n)"
  obtain n1 where n1: "AllocPages k [] n = (ZX_OK, ps, n1)" "pmm_inv n1" "owned n1 ps" "n_free_list n1 = drop k (n_free_list n)"
    using AllocPages_loop_ok [OF assms(1) o, of k] len k by (auto simp: AllocPages_def ps_def)
  have ps: "ps \<noteq> []" "length ps = k" using len k by (auto simp: ps_def)
  have e: "c = \<lparr>bc_buffers = set_reserved_front kSizeOfBufferChain (rev (map new ps)), bc_pages = ps\<rparr>"
    "n' = n1\<lparr>n_state := \<lambda>p. if p \<in> set ps then VM_PAGE_STATE_IPC else n_state n1 p\<rparr>"
    using assms(2) n1(1) by (simp_all add: alloc)
  from pmm_inv_state [OF n1(2,3)] show "pmm_inv n'" "owned n' (bc_pages c)" by (simp_all add: e)
  have cnt: "n_free_count n1 = length (n_free_list n1)" "n_free_count n = length (n_free_list n)"
    using n1(2) assms(1) by (simp_all add: pmm_inv_def)
  then show "n_free_count n = n_free_count n' + length (bc_pages c)" using n1(4) len ps(2) by (simp add: e)
  obtain q qs where q: "rev ps = q # qs" using ps(1) by (cases "rev ps") auto
  then have lq: "length qs = k - 1" using ps(2) by (metis diff_Suc_1 length_Cons length_rev)
  have bs: "bc_buffers c = (new q)\<lparr>bf_reserved := kSizeOfBufferChain\<rparr> # map new qs"
    by (simp add: e rev_map q)
  have ok: "buffers_ok (map new qs)" by (induction qs) (auto simp: new_def)
  with bs raw show B: "buffers_ok (bc_buffers c)" "bc_buffers c \<noteq> []" "bf_reserved (hd (bc_buffers c)) = kSizeOfBufferChain"
    by (simp_all add: new_def)
  have "(\<Sum>b \<leftarrow> map new qs. Buffer_size b) = length qs * kRawDataSize"
    by (induction qs) (auto simp: new_def Buffer_size_def)
  then have "length (chain_data (bc_buffers c)) = kRawDataSize - kSizeOfBufferChain + (k - 1) * kRawDataSize"
    using length_chain_data [OF B(1)] lq by (simp add: bs new_def Buffer_size_def)
  then show "sz \<le> length (chain_data (bc_buffers c))"
    using room raw k by (cases k) auto
qed

lemma BufferChain_Alloc_fail:
  assumes "pmm_inv n" "BufferChain_Alloc phys sz n = (None, n')"
  shows "pmm_inv n' \<and> n_free_count n' = n_free_count n"
proof -
  define k where "k = (sz + kSizeOfBufferChain + kRawDataSize - 1) div kRawDataSize"
  obtain st ps where A: "AllocPages k [] n = (st, ps, n')" "st \<noteq> ZX_OK"
    using assms(2) unfolding BufferChain_Alloc_def Let_def k_def [symmetric]
    by (auto split: prod.splits if_splits)
  have o: "owned n []" by (simp add: owned_def)
  from A have p: "pmm_inv n'" "set (n_free_list n') = set (n_free_list n)"
    using AllocPages_loop_ok [OF assms(1) o, of k] by (auto simp: AllocPages_def split: if_splits)
  then have "length (n_free_list n') = length (n_free_list n)"
    using assms(1) unfolding pmm_inv_def by (metis distinct_card)
  with p assms(1) show ?thesis by (simp add: pmm_inv_def)
qed

lemma CreateCommon_ok:
  assumes "pmm_inv n" "MessagePacket_CreateCommon phys sz nh n = (Inr p, n')"
  shows "message_ok p \<and> mp_data_size p = sz \<and> mp_num_handles p = nh \<and> \<not> mp_owns_handles p \<and> pmm_inv n' \<and>
    sz \<le> kMaxMessageSize \<and> nh \<le> kMaxMessageHandles \<and>
    owned n' (bc_pages (mp_buffer_chain p)) \<and> n_free_count n = n_free_count n' + length (bc_pages (mp_buffer_chain p))"
proof -
  from assms(2) obtain c where c: "BufferChain_Alloc phys (PayloadOffset nh + sz) n = (Some c, n')"
    "sz \<le> kMaxMessageSize" "nh \<le> kMaxMessageHandles"
    "p = \<lparr>mp_buffer_chain = c, mp_handles = replicate nh None, mp_data_size = sz,
       mp_payload_offset = PayloadOffset nh, mp_num_handles = nh, mp_owns_handles = False\<rparr>"
    by (auto simp: MessagePacket_CreateCommon_def Let_def split: if_splits prod.splits option.splits)
  from BufferChain_Alloc_ok [OF assms(1) c(1)] c(2-4) show ?thesis by (simp add: message_ok_def)
qed

lemma CreateCommon_fail:
  assumes "pmm_inv n" "MessagePacket_CreateCommon phys sz nh n = (Inl e, n')"
  shows "pmm_inv n' \<and> n_free_count n' = n_free_count n \<and>
    e = (if sz > kMaxMessageSize \<or> nh > kMaxMessageHandles then ZX_ERR_OUT_OF_RANGE else ZX_ERR_NO_MEMORY)"
proof (cases "sz > kMaxMessageSize \<or> nh > kMaxMessageHandles")
  case True
  with assms show ?thesis by (auto simp: MessagePacket_CreateCommon_def)
next
  case False
  with assms(2) have "BufferChain_Alloc phys (PayloadOffset nh + sz) n = (None, n')" "e = ZX_ERR_NO_MEMORY"
    by (auto simp: MessagePacket_CreateCommon_def Let_def split: prod.splits option.splits)
  with BufferChain_Alloc_fail [OF assms(1)] False show ?thesis by auto
qed

lemma BufferChain_Free_ok:
  assumes "pmm_inv n" "owned n (bc_pages c)"
  shows "pmm_inv (BufferChain_Free c n)" "n_free_count (BufferChain_Free c n) = n_free_count n + length (bc_pages c)"
  using FreeListLocked_inv [OF assms] by (simp_all add: BufferChain_Free_def FreeList_def)

lemma message_ok_offset:
  "message_ok p \<Longrightarrow> mp_payload_offset p \<le> Buffer_size (hd (bc_buffers (mp_buffer_chain p)))"
  using front_room [of p] by (simp add: front_buffer_def)

lemma payload_overwrite:
  "off + length ys \<le> length xs \<Longrightarrow> take (length ys) (drop off (overwrite xs off ys)) = ys"
  by (simp add: overwrite_split)

lemma MessagePacket_Create_ok:
  assumes "pmm_inv n" "MessagePacket_Create phys mem src sz nh n = (r, n')"
  shows "pmm_inv n' \<and>
    (case r of
       Inr p \<Rightarrow> message_ok p \<and> mp_data_size p = sz \<and> mp_num_handles p = nh \<and> user_readable mem src sz \<and>
         payload p = user_bytes mem src sz \<and> owned n' (bc_pages (mp_buffer_chain p)) \<and>
         n_free_count n = n_free_count n' + length (bc_pages (mp_buffer_chain p))
     | Inl e \<Rightarrow> n_free_count n' = n_free_count n \<and>
         (e = ZX_ERR_OUT_OF_RANGE \<longleftrightarrow> sz > kMaxMessageSize \<or> nh > kMaxMessageHandles) \<and>
         (e = ZX_ERR_INVALID_ARGS \<longrightarrow> \<not> user_readable mem src sz) \<and>
         e \<in> {ZX_ERR_OUT_OF_RANGE, ZX_ERR_NO_MEMORY, ZX_ERR_INVALID_ARGS})"
proof (cases "MessagePacket_CreateCommon phys sz nh n")
  case (Pair r1 n1)
  show ?thesis
  proof (cases r1)
    case (Inl e)
    then have "r = Inl e" "n' = n1" using assms(2) Pair by (auto simp: MessagePacket_Create_def)
    with CreateCommon_fail [OF assms(1) Pair [unfolded Inl]] show ?thesis by (simp split: if_splits)
  next
    case (Inr m)
    define bs where "bs = bc_buffers (mp_buffer_chain m)"
    note C = CreateCommon_ok [OF assms(1) Pair [unfolded Inr]]
    then have ok: "message_ok m" "mp_data_size m = sz" "mp_num_handles m = nh" by simp_all
    then have off: "mp_payload_offset m = PayloadOffset nh" by (simp add: message_ok_def Let_def)
    have pre: "buffers_ok bs" "bs \<noteq> [] \<longrightarrow> PayloadOffset nh \<le> Buffer_size (hd bs)" "bs \<noteq> []"
      "PayloadOffset nh + sz \<le> length (chain_data bs)"
      using ok message_ok_offset [OF ok(1)] off by (simp_all add: message_ok_def Let_def bs_def)
    show ?thesis
    proof (cases "user_readable mem src sz")
      case True
      obtain bs' where bs': "CopyIn_loop mem src (PayloadOffset nh) sz bs = (ZX_OK, bs')" "buffers_ok bs'"
        "map bf_reserved bs' = map bf_reserved bs"
        "chain_data bs' = overwrite (chain_data bs) (PayloadOffset nh) (user_bytes mem src sz)"
        using CopyIn_loop_ok [OF pre(1,2,4) True] by blast
      then have e: "r = Inr (m\<lparr>mp_buffer_chain := (mp_buffer_chain m)\<lparr>bc_buffers := bs'\<rparr>\<rparr>)" "n' = n1"
        using assms(2) Pair Inr
        by (auto simp: MessagePacket_Create_def BufferChain_CopyIn_def BufferChain_CopyInCommon_def bs_def)
      have hd: "bs' \<noteq> []" "bf_reserved (hd bs') = bf_reserved (hd bs)"
        using bs'(3) pre(3) by (cases bs; cases bs'; simp)+
      define p where "p = m\<lparr>mp_buffer_chain := (mp_buffer_chain m)\<lparr>bc_buffers := bs'\<rparr>\<rparr>"
      have "take sz (drop (PayloadOffset nh) (chain_data bs')) = user_bytes mem src sz"
        using payload_overwrite [of "PayloadOffset nh" "user_bytes mem src sz" "chain_data bs"] pre(4) True
        by (simp add: bs'(4))
      then have "payload p = user_bytes mem src sz" by (simp add: p_def payload_def off ok(2))
      moreover have "message_ok p"
        using ok(1) bs'(2) hd arg_cong [OF bs'(4), of length] by (simp add: p_def message_ok_def Let_def bs_def)
      moreover have "mp_data_size p = sz" "mp_num_handles p = nh" "bc_pages (mp_buffer_chain p) = bc_pages (mp_buffer_chain m)"
        by (simp_all add: p_def ok)
      ultimately show ?thesis using C True by (simp add: e p_def [symmetric])
    next
      case False
      from CopyIn_loop_fault [OF pre(1,2,4) False] obtain bs' where
        "CopyIn_loop mem src (PayloadOffset nh) sz bs = (ZX_ERR_INVALID_ARGS, bs')" by (metis prod.collapse)
      then have e: "r = Inl ZX_ERR_INVALID_ARGS" "n' = BufferChain_Free ((mp_buffer_chain m)\<lparr>bc_buffers := bs'\<rparr>) n1"
        using assms(2) Pair Inr
        by (auto simp: MessagePacket_Create_def BufferChain_CopyIn_def BufferChain_CopyInCommon_def bs_def
            MessagePacket_recycle_def)
      from C BufferChain_Free_ok [of n1 "(mp_buffer_chain m)\<lparr>bc_buffers := bs'\<rparr>"] False e show ?thesis by simp
    qed
  qed
qed

lemma CopyDataTo_ok:
  assumes "message_ok p" "user_writable wr dst (mp_data_size p)"
  shows "CopyDataTo wr dst p = (ZX_OK, payload p)"
  using assms CopyOut_loop_ok [OF _ _ _ assms(2)] message_ok_offset [OF assms(1)]
  by (simp add: CopyDataTo_def BufferChain_CopyOut_def payload_def message_ok_def Let_def)

lemma u32_bytes_inverse [simp]: "u32_of_bytes (bytes_of_u32 x) = x"
proof (rule bit_eqI)
  fix i :: nat assume "possible_bit TYPE(u32) i"
  then have "i < 32" by simp
  then consider "i < 8" | "8 \<le> i" "i < 16" | "16 \<le> i" "i < 24" | "24 \<le> i" "i < 32" by linarith
  then show "bit (u32_of_bytes (bytes_of_u32 x)) i = bit x i"
    by cases (auto simp: u32_of_bytes_def bytes_of_u32_def bit_simps)
qed

lemma length_bytes_of_u32 [simp]: "length (bytes_of_u32 x) = 4"
  by (simp add: bytes_of_u32_def)

lemma set_txid_ok:
  assumes "message_ok p" "4 \<le> mp_data_size p"
  shows "message_ok (MessagePacket_set_txid t p)"
    "payload (MessagePacket_set_txid t p) = bytes_of_u32 t @ drop 4 (payload p)"
    "MessagePacket_get_txid (MessagePacket_set_txid t p) = t"
proof -
  define b bs off where "b = front_buffer p" and "bs = tl (bc_buffers (mp_buffer_chain p))" and "off = mp_payload_offset p"
  have B: "bc_buffers (mp_buffer_chain p) = b # bs"
    using assms(1) by (simp add: message_ok_def Let_def b_def bs_def front_buffer_def)
  have ok: "buffers_ok (b # bs)" using assms(1) by (simp add: message_ok_def Let_def B)
  have room: "off + 4 \<le> Buffer_size b" using front_room [OF assms(1)] by (simp add: b_def off_def)
  define b' where "b' = Buffer_store off (bytes_of_u32 t) b"
  have d: "Buffer_data b' = overwrite (Buffer_data b) off (bytes_of_u32 t)"
    unfolding b'_def by (rule Buffer_data_store) (use ok room in auto)
  have len: "length (Buffer_data b) = Buffer_size b" using ok by (simp add: length_Buffer_data)
  have e: "MessagePacket_set_txid t p = p\<lparr>mp_buffer_chain := (mp_buffer_chain p)\<lparr>bc_buffers := b' # bs\<rparr>\<rparr>"
    using assms(2) by (simp add: MessagePacket_set_txid_def b'_def b_def bs_def off_def)
  have "length (Buffer_data b') = length (Buffer_data b)" by (simp add: d)
  with assms(1) ok show "message_ok (MessagePacket_set_txid t p)"
    by (simp add: e message_ok_def Let_def B b'_def)
  define x x' where "x = drop off (chain_data (b # bs))" and "x' = drop off (chain_data (b' # bs))"
  have x': "x' = bytes_of_u32 t @ drop 4 x"
    using room len by (simp add: x_def x'_def d overwrite_split add.commute)
  have "payload p = take (mp_data_size p) x" "payload (MessagePacket_set_txid t p) = take (mp_data_size p) x'"
    unfolding x_def x'_def payload_def off_def B by (simp_all add: e)
  then show "payload (MessagePacket_set_txid t p) = bytes_of_u32 t @ drop 4 (payload p)"
    using assms(2) by (simp add: x' drop_take)
  have "take 4 (drop off (Buffer_data b')) = bytes_of_u32 t"
    using room len by (simp add: d overwrite_split)
  then show "MessagePacket_get_txid (MessagePacket_set_txid t p) = t"
    using assms(2) by (simp add: MessagePacket_get_txid_def e front_buffer_def off_def)
qed

section \<open>Properties\<close>

text \<open>C26. A message survives the trip through the kernel. When \<open>Create\<close> succeeds, the packet holds exactly
  the bytes of the user buffer, however many pages they spread over, and \<open>CopyDataTo\<close> delivers
  exactly these bytes; destroying the packet gives all its pages back. When \<open>Create\<close> fails, on a
  size out of range, a faulting buffer or a lack of memory, no page is lost.\<close>

theorem MessagePacket_roundtrip:
  assumes "pmm_inv n" "MessagePacket_Create phys mem src sz nh n = (r, n')"
  shows "pmm_inv n' \<and>
    (case r of
       Inr p \<Rightarrow> (user_writable wr dst sz \<longrightarrow> CopyDataTo wr dst p = (ZX_OK, user_bytes mem src sz)) \<and>
         user_readable mem src sz \<and> pmm_inv (snd (MessagePacket_recycle p n')) \<and>
         n_free_count (snd (MessagePacket_recycle p n')) = n_free_count n
     | Inl e \<Rightarrow> n_free_count n' = n_free_count n \<and>
         (e = ZX_ERR_OUT_OF_RANGE \<longleftrightarrow> sz > kMaxMessageSize \<or> nh > kMaxMessageHandles) \<and>
         (e = ZX_ERR_INVALID_ARGS \<longrightarrow> \<not> user_readable mem src sz) \<and>
         e \<in> {ZX_ERR_OUT_OF_RANGE, ZX_ERR_NO_MEMORY, ZX_ERR_INVALID_ARGS})"
proof (cases r)
  case (Inr p)
  note C = MessagePacket_Create_ok [OF assms, unfolded Inr, simplified]
  have "CopyDataTo wr dst p = (ZX_OK, user_bytes mem src sz)" if "user_writable wr dst sz"
    using CopyDataTo_ok [of p wr dst] C that by simp
  with C BufferChain_Free_ok [of n' "mp_buffer_chain p"] Inr show ?thesis by (simp add: MessagePacket_recycle_def)
qed (use MessagePacket_Create_ok [OF assms] in auto)

lemma pmm_small_inv: "pmm_inv PmmNode_new"
  by (simp add: pmm_inv_def PmmNode_new_def free_pages_def arena_pages_def)

definition pmm_one_page :: pmm_node where
  "pmm_one_page = PmmNode_new\<lparr>n_free_list := [4096], n_free_count := 1\<rparr>"

lemma pmm_one_page_inv: "pmm_inv pmm_one_page"
  by (simp add: pmm_inv_def pmm_one_page_def PmmNode_new_def free_pages_def arena_pages_def)

lemma CopyIn_loop_status: "CopyIn_loop mem src off rem bs = (st, bs') \<Longrightarrow> st = ZX_OK \<or> st = ZX_ERR_INVALID_ARGS"
  by (induction bs arbitrary: src off rem bs') (auto simp: Let_def split: if_splits prod.splits)

lemma one_page_create:
  "\<exists>p n'. MessagePacket_Create (\<lambda>_ _. 0) (mem_of [1, 2, 3, 4, 5]) 0 5 2 pmm_one_page = (Inr p, n')"
proof -
  let ?mem = "mem_of [1, 2, 3, 4, 5 :: byte]"
  obtain r n' where e: "MessagePacket_Create (\<lambda>_ _. 0) ?mem 0 5 2 pmm_one_page = (r, n')" by (rule prod.exhaust)
  have rd: "user_readable ?mem 0 5" by (rule mem_of_readable) simp
  have "\<exists>c n1. BufferChain_Alloc (\<lambda>_ _. 0) (PayloadOffset 2 + 5) pmm_one_page = (Some c, n1)"
    by (simp add: BufferChain_Alloc_def Let_def AllocPages_def size_defs PayloadOffset_def kHandlesOffset_def
        pmm_one_page_def)
  then have "\<not> (\<exists>e. r = Inl e)"
    using MessagePacket_Create_ok [OF pmm_one_page_inv e] e rd
    by (auto simp: MessagePacket_Create_def MessagePacket_CreateCommon_def kMaxMessageSize_def kMaxMessageHandles_def
        BufferChain_CopyIn_def BufferChain_CopyInCommon_def Let_def split: prod.splits if_splits dest!: CopyIn_loop_status)
  with e show ?thesis by (cases r) auto
qed

theorem MessagePacket_roundtrip_witness:
  "\<exists>p n'. MessagePacket_Create (\<lambda>_ _. 0) (mem_of [1, 2, 3, 4, 5]) 0 5 2 pmm_one_page = (Inr p, n') \<and>
     CopyDataTo (\<lambda>_. True) 0 p = (ZX_OK, [1, 2, 3, 4, 5])"
proof -
  obtain p n' where e: "MessagePacket_Create (\<lambda>_ _. 0) (mem_of [1, 2, 3, 4, 5]) 0 5 2 pmm_one_page = (Inr p, n')"
    using one_page_create by blast
  have "user_bytes (mem_of [1, 2, 3, 4, 5]) 0 5 = [1, 2, 3, 4, 5]" by code_simp
  with MessagePacket_roundtrip [OF pmm_one_page_inv e, of "\<lambda>_. True" 0] e show ?thesis
    by (simp add: user_writable_def)
qed

text \<open>Setting the transaction id of a message overwrites exactly its first four bytes, and reading
  it back gives the id. A message shorter than an id is left alone and reads as id zero.\<close>

theorem txid_roundtrip:
  assumes "message_ok p"
  shows "message_ok (MessagePacket_set_txid t p) \<and>
    (if 4 \<le> mp_data_size p
     then MessagePacket_get_txid (MessagePacket_set_txid t p) = t \<and>
          payload (MessagePacket_set_txid t p) = bytes_of_u32 t @ drop 4 (payload p)
     else MessagePacket_set_txid t p = p \<and> MessagePacket_get_txid p = 0)"
proof (cases "4 \<le> mp_data_size p")
  case True
  with set_txid_ok [OF assms True] show ?thesis by simp
next
  case False
  with assms show ?thesis by (simp add: MessagePacket_set_txid_def MessagePacket_get_txid_def)
qed

theorem txid_roundtrip_witness:
  "\<exists>p. message_ok p \<and> payload p = [1, 2, 3, 4, 5] \<and> MessagePacket_get_txid (MessagePacket_set_txid 0x80000001 p) = 0x80000001 \<and>
     payload (MessagePacket_set_txid 0x80000001 p) = [1, 0, 0, 128, 5]"
proof -
  obtain p n' where e: "MessagePacket_Create (\<lambda>_ _. 0) (mem_of [1, 2, 3, 4, 5]) 0 5 2 pmm_one_page = (Inr p, n')"
    using one_page_create by blast
  have b: "user_bytes (mem_of [1, 2, 3, 4, 5]) 0 5 = [1, 2, 3, 4, 5]" "bytes_of_u32 0x80000001 = [1, 0, 0, 128]"
    by code_simp+
  have p: "message_ok p" "mp_data_size p = 5" "payload p = [1, 2, 3, 4, 5]"
    using MessagePacket_Create_ok [OF pmm_one_page_inv e] b by simp_all
  with txid_roundtrip [OF p(1), of "0x80000001"] b(2) show ?thesis by (intro exI [of _ p]) simp
qed

end
