(* ===== verification/Zx_Channel.thy ===== *)
theory Zx_Channel
  imports Zx_Dispatcher Zx_Message
begin

unbundle bit_operations_syntax

text \<open>
  Channels, \<^verbatim>\<open>kernel/object/channel_dispatcher.cpp\<close>: a pair of endpoints with message queues, and
  calls, which send a message under a fresh transaction id and wait for the reply with that id.

  Every thread has one \<^verbatim>\<open>MessageWaiter\<close>; the waiters of all threads are a function from thread
  numbers, and an endpoint lists the threads that wait on it. A call is two steps, as it releases the
  channel lock while it waits: \<open>Channel_Call\<close> up to the wait, and \<open>ResumeInterruptedCall\<close>, which takes
  the result of the wait on the thread's event as an argument. The process killed for misusing a call
  is a result of its own.
\<close>

section \<open>Message waiters\<close>

abbreviation ZX_CHANNEL_READABLE :: zx_signals where "ZX_CHANNEL_READABLE \<equiv> ZX_OBJECT_READABLE"
abbreviation ZX_CHANNEL_WRITABLE :: zx_signals where "ZX_CHANNEL_WRITABLE \<equiv> ZX_OBJECT_WRITABLE"
abbreviation ZX_CHANNEL_PEER_CLOSED :: zx_signals where "ZX_CHANNEL_PEER_CLOSED \<equiv> ZX_OBJECT_PEER_CLOSED"

record message_waiter =
  w_channel :: "zx_koid option"
  w_msg :: "messagepacket option"
  w_event :: bool
  w_txid :: zx_txid
  w_status :: zx_status

definition MessageWaiter_new :: message_waiter where
  "MessageWaiter_new = \<lparr>w_channel = None, w_msg = None, w_event = False, w_txid = 0, w_status = ZX_ERR_BAD_STATE\<rparr>"

definition BeginWait :: "zx_koid \<Rightarrow> message_waiter \<Rightarrow> zx_status \<times> message_waiter" where
  "BeginWait channel x =
     (if w_channel x \<noteq> None then (ZX_ERR_BAD_STATE, x)
      else (ZX_OK, x\<lparr>w_status := ZX_ERR_TIMED_OUT, w_channel := Some channel, w_event := False\<rparr>))"

definition Deliver :: "messagepacket \<Rightarrow> message_waiter \<Rightarrow> message_waiter" where
  "Deliver msg x = x\<lparr>w_msg := Some msg, w_status := ZX_OK, w_event := True\<rparr>"

definition MessageWaiter_Cancel :: "zx_status \<Rightarrow> message_waiter \<Rightarrow> message_waiter" where
  "MessageWaiter_Cancel status x = x\<lparr>w_status := status, w_event := True\<rparr>"

definition MessageWaiter_Wait :: "zx_status \<Rightarrow> message_waiter \<Rightarrow> zx_status" where
  "MessageWaiter_Wait event_status x = (if w_channel x = None then ZX_ERR_BAD_STATE else event_status)"

definition EndWait :: "message_waiter \<Rightarrow> zx_status \<times> messagepacket option \<times> message_waiter" where
  "EndWait x =
     (if w_channel x = None then (ZX_ERR_BAD_STATE, None, x)
      else (w_status x, w_msg x, x\<lparr>w_msg := None, w_channel := None\<rparr>))"

section \<open>Endpoints\<close>

type_synonym waiters = "nat \<Rightarrow> message_waiter"

record 'o channel = "'o peered" +
  ch_messages :: "messagepacket list"
  ch_message_count :: nat
  ch_max_message_count :: nat
  ch_owner :: zx_koid
  ch_txid :: u32
  ch_waiters :: "nat list"

definition Channel_new :: "zx_koid \<Rightarrow> 'o channel \<times> zx_koid" where
  "Channel_new global_koid =
     (let (k, g) = GenerateKernelObjectId global_koid in
      (\<lparr>d_koid = k, d_handle_count = 0, d_signals = ZX_CHANNEL_WRITABLE, d_observers = [],
        p_peer = False, p_peer_koid = ZX_KOID_INVALID,
        ch_messages = [], ch_message_count = 0, ch_max_message_count = 0, ch_owner = ZX_KOID_INVALID,
        ch_txid = 0, ch_waiters = []\<rparr>, g))"

definition Channel_Init :: "'o channel \<Rightarrow> 'o channel \<Rightarrow> 'o channel" where
  "Channel_Init other_end x = x\<lparr>p_peer := True, p_peer_koid := d_koid other_end\<rparr>"

text \<open>The allocations are those of the peer holder and of the two endpoints.\<close>

definition Channel_Create :: "(nat \<Rightarrow> bool) \<Rightarrow> zx_koid \<Rightarrow> (zx_status + (side \<Rightarrow> 'o channel)) \<times> zx_koid" where
  "Channel_Create ac global_koid =
     (if \<not> ac 0 then (Inl ZX_ERR_NO_MEMORY, global_koid)
      else if \<not> ac 1 then (Inl ZX_ERR_NO_MEMORY, global_koid)
      else
        let (ch0, g1) = Channel_new global_koid in
        if \<not> ac 2 then (Inl ZX_ERR_NO_MEMORY, g1)
        else
          let (ch1, g2) = Channel_new g1;
              ch0' = Channel_Init ch1 ch0;
              ch1' = Channel_Init ch0' ch1 in
          (Inr (\<lambda>s. case s of E0 \<Rightarrow> ch0' | E1 \<Rightarrow> ch1'), g2))"

definition Channel_dtor :: "'o channel \<Rightarrow> 'o channel" where
  "Channel_dtor x = x\<lparr>ch_messages := [], ch_message_count := 0\<rparr>"

definition Channel_AddObserver ::
  "('o, 'w) observer_ops \<Rightarrow> 'o \<Rightarrow> 'o channel \<Rightarrow> 'w \<Rightarrow> zx_status \<times> 'o channel \<times> 'w" where
  "Channel_AddObserver ops obs x w =
     (let cinfo = [(of_nat (ch_message_count x), ZX_CHANNEL_READABLE), (0, 0)];
          (x', w') = AddObserverHelper ops obs (Some cinfo) x w in
      (ZX_OK, x', w'))"

definition RemoveWaiter :: "nat \<Rightarrow> 'o channel \<Rightarrow> 'o channel" where
  "RemoveWaiter t x =
     (if t \<notin> set (ch_waiters x) then x else x\<lparr>ch_waiters := remove1 t (ch_waiters x)\<rparr>)"

definition Channel_update ::
  "('o, 'w) observer_ops \<Rightarrow> side \<Rightarrow> zx_signals \<Rightarrow> zx_signals \<Rightarrow> (side \<Rightarrow> 'o channel) \<Rightarrow> 'w \<Rightarrow>
   (side \<Rightarrow> 'o channel) \<times> 'w" where
  "Channel_update ops s clear_mask set_mask p w =
     (let (x, w') = UpdateStateLocked ops clear_mask set_mask (p s) w in (p(s := x), w'))"

text \<open>Both ways of closing abort the calls that wait on the endpoint.\<close>

definition cancel_waiters :: "zx_status \<Rightarrow> side \<Rightarrow> (side \<Rightarrow> 'o channel) \<Rightarrow> waiters \<Rightarrow> (side \<Rightarrow> 'o channel) \<times> waiters" where
  "cancel_waiters status s p ws =
     (p(s := (p s)\<lparr>ch_waiters := []\<rparr>),
      fold (\<lambda>t ws. ws(t := MessageWaiter_Cancel status (ws t))) (ch_waiters (p s)) ws)"

definition Channel_on_zero_handles_locked ::
  "side \<Rightarrow> (side \<Rightarrow> 'o channel) \<Rightarrow> waiters \<times> 'w \<Rightarrow> (side \<Rightarrow> 'o channel) \<times> waiters \<times> 'w" where
  "Channel_on_zero_handles_locked s p = (\<lambda>(ws, w).
     let (p', ws') = cancel_waiters ZX_ERR_CANCELED s p ws in (p', ws', w))"

definition Channel_OnPeerZeroHandlesLocked ::
  "('o, 'w) observer_ops \<Rightarrow> side \<Rightarrow> (side \<Rightarrow> 'o channel) \<Rightarrow> waiters \<times> 'w \<Rightarrow> (side \<Rightarrow> 'o channel) \<times> waiters \<times> 'w" where
  "Channel_OnPeerZeroHandlesLocked ops s p = (\<lambda>(ws, w).
     let (p1, w1) = Channel_update ops s ZX_CHANNEL_WRITABLE ZX_CHANNEL_PEER_CLOSED p w;
         (p2, ws2) = cancel_waiters ZX_ERR_PEER_CLOSED s p1 ws in
     (p2, ws2, w1))"

definition Channel_on_zero_handles ::
  "('o, 'w) observer_ops \<Rightarrow> side \<Rightarrow> (side \<Rightarrow> 'o channel) \<Rightarrow> waiters \<times> 'w \<Rightarrow> (side \<Rightarrow> 'o channel) \<times> waiters \<times> 'w" where
  "Channel_on_zero_handles ops =
     Peered_on_zero_handles Channel_on_zero_handles_locked (Channel_OnPeerZeroHandlesLocked ops)"

definition Channel_set_owner :: "zx_koid \<Rightarrow> side \<Rightarrow> (side \<Rightarrow> 'o channel) \<Rightarrow> side \<Rightarrow> 'o channel" where
  "Channel_set_owner new_owner s p =
     (if new_owner = ZX_KOID_INVALID then p else p(s := (p s)\<lparr>ch_owner := new_owner\<rparr>))"

definition Channel_UserSignalSelf ::
  "('o, 'w) observer_ops \<Rightarrow> u32 \<Rightarrow> u32 \<Rightarrow> side \<Rightarrow> (side \<Rightarrow> 'o channel) \<Rightarrow> 'w \<Rightarrow>
   zx_status \<times> (side \<Rightarrow> 'o channel) \<times> 'w" where
  "Channel_UserSignalSelf ops clear_mask set_mask s p w =
     (let (p', w') = Channel_update ops s clear_mask set_mask p w in (ZX_OK, p', w'))"

section \<open>Reading and writing\<close>

text \<open>\<open>Read\<close> returns the status, the size and handle count of the next message, and the message.\<close>

definition Channel_Read ::
  "('o, 'w) observer_ops \<Rightarrow> zx_koid \<Rightarrow> nat \<Rightarrow> nat \<Rightarrow> bool \<Rightarrow> side \<Rightarrow> (side \<Rightarrow> 'o channel) \<Rightarrow> 'w \<Rightarrow>
   (zx_status \<times> nat \<times> nat \<times> messagepacket option) \<times> (side \<Rightarrow> 'o channel) \<times> 'w" where
  "Channel_Read ops owner max_size max_handle_count may_discard s p w =
     (if owner \<noteq> ch_owner (p s) then ((ZX_ERR_BAD_HANDLE, max_size, max_handle_count, None), p, w)
      else
        case ch_messages (p s) of
          [] \<Rightarrow> ((if p_peer (p s) then ZX_ERR_SHOULD_WAIT else ZX_ERR_PEER_CLOSED, max_size, max_handle_count, None), p, w)
        | m # ms \<Rightarrow>
            let msg_size = mp_data_size m; msg_handle_count = mp_num_handles m;
                too_small = (msg_size > max_size \<or> msg_handle_count > max_handle_count) in
            if too_small \<and> \<not> may_discard
            then ((ZX_ERR_BUFFER_TOO_SMALL, msg_size, msg_handle_count, None), p, w)
            else
              let p1 = p(s := (p s)\<lparr>ch_messages := ms, ch_message_count := ch_message_count (p s) - 1\<rparr>);
                  (p2, w2) = (if ms = [] then Channel_update ops s ZX_CHANNEL_READABLE 0 p1 w else (p1, w)) in
              ((if too_small then ZX_ERR_BUFFER_TOO_SMALL else ZX_OK, msg_size, msg_handle_count, Some m), p2, w2))"

definition Channel_WriteSelf ::
  "('o, 'w) observer_ops \<Rightarrow> side \<Rightarrow> messagepacket \<Rightarrow> (side \<Rightarrow> 'o channel) \<Rightarrow> waiters \<Rightarrow> 'w \<Rightarrow>
   (side \<Rightarrow> 'o channel) \<times> waiters \<times> 'w" where
  "Channel_WriteSelf ops s msg p ws w =
     (case find (\<lambda>t. w_txid (ws t) = MessagePacket_get_txid msg) (ch_waiters (p s)) of
        Some t \<Rightarrow>
          (p(s := (p s)\<lparr>ch_waiters := remove1 t (ch_waiters (p s))\<rparr>), ws(t := Deliver msg (ws t)), w)
      | None \<Rightarrow>
          let count' = ch_message_count (p s) + 1;
              p1 = p(s := (p s)\<lparr>ch_messages := ch_messages (p s) @ [msg], ch_message_count := count',
                                 ch_max_message_count := max (ch_max_message_count (p s)) count'\<rparr>);
              (p2, w2) = Channel_update ops s 0 ZX_CHANNEL_READABLE p1 w in
          (p2, ws, w2))"

definition Channel_Write ::
  "('o, 'w) observer_ops \<Rightarrow> zx_koid \<Rightarrow> messagepacket \<Rightarrow> side \<Rightarrow> (side \<Rightarrow> 'o channel) \<Rightarrow> waiters \<Rightarrow> 'w \<Rightarrow>
   zx_status \<times> (side \<Rightarrow> 'o channel) \<times> waiters \<times> 'w" where
  "Channel_Write ops owner msg s p ws w =
     (if owner \<noteq> ch_owner (p s) then (ZX_ERR_BAD_HANDLE, p, ws, w)
      else if \<not> p_peer (p s) then (ZX_ERR_PEER_CLOSED, p, ws, w)
      else let r = Channel_WriteSelf ops (other s) msg p ws w in (ZX_OK, r))"

section \<open>Calls\<close>

text \<open>The transaction id is the next value of the counter that no waiter uses, with the high bit set. A
  search that never ends has no value.\<close>

partial_function (option) alloc_txid :: "u32 \<Rightarrow> zx_txid list \<Rightarrow> (zx_txid \<times> u32) option" where
  "alloc_txid counter used =
     (let counter' = counter + 1; txid = counter' OR 0x80000000 in
      if txid \<in> set used then alloc_txid counter' used else Some (txid, counter'))"

datatype call_result = Call_returns zx_status | Call_kills_process | Call_waits

definition Channel_Call ::
  "('o, 'w) observer_ops \<Rightarrow> zx_koid \<Rightarrow> messagepacket \<Rightarrow> nat \<Rightarrow> side \<Rightarrow> (side \<Rightarrow> 'o channel) \<Rightarrow> waiters \<Rightarrow> 'w \<Rightarrow>
   (call_result \<times> (side \<Rightarrow> 'o channel) \<times> waiters \<times> 'w) option" where
  "Channel_Call ops owner msg t s p ws w =
     (let (status, x) = BeginWait (d_koid (p s)) (ws t) in
      if status \<noteq> ZX_OK then Some (Call_kills_process, p, ws, w)
      else
        let ws1 = ws(t := x) in
        if owner \<noteq> ch_owner (p s) then Some (Call_returns ZX_ERR_BAD_HANDLE, p, ws1, w)
        else if \<not> p_peer (p s) then
          let (_, _, x') = EndWait x in Some (Call_returns ZX_ERR_PEER_CLOSED, p, ws1(t := x'), w)
        else
          case alloc_txid (ch_txid (p s)) (map (\<lambda>t. w_txid (ws1 t)) (ch_waiters (p s))) of
            None \<Rightarrow> None
          | Some (txid, counter) \<Rightarrow>
              let ws2 = ws1(t := (ws1 t)\<lparr>w_txid := txid\<rparr>);
                  msg' = MessagePacket_set_txid txid msg;
                  p1 = p(s := (p s)\<lparr>ch_txid := counter, ch_waiters := ch_waiters (p s) @ [t]\<rparr>) in
              Some (Call_waits, Channel_WriteSelf ops (other s) msg' p1 ws2 w))"

text \<open>Erasing a waiter that is not on the list is undefined: the operation then has no result.\<close>

definition waiters_erase :: "nat \<Rightarrow> 'o channel \<Rightarrow> 'o channel option" where
  "waiters_erase t x = (if t \<in> set (ch_waiters x) then Some (x\<lparr>ch_waiters := remove1 t (ch_waiters x)\<rparr>) else None)"

definition ResumeInterruptedCall ::
  "zx_status \<Rightarrow> nat \<Rightarrow> side \<Rightarrow> (side \<Rightarrow> 'o channel) \<Rightarrow> waiters \<Rightarrow>
   ((zx_status \<times> messagepacket option) \<times> (side \<Rightarrow> 'o channel) \<times> waiters) option" where
  "ResumeInterruptedCall event_status t s p ws =
     (if MessageWaiter_Wait event_status (ws t) = ZX_ERR_INTERNAL_INTR_RETRY
      then Some ((ZX_ERR_INTERNAL_INTR_RETRY, None), p, ws)
      else
        let (status, reply, x) = EndWait (ws t) in
        if status = ZX_ERR_TIMED_OUT then
          map_option (\<lambda>y. ((status, reply), p(s := y), ws(t := x))) (waiters_erase t (p s))
        else Some ((status, reply), p, ws(t := x)))"

text \<open>The waiter of a thread that goes away leaves the list of its channel.\<close>

definition MessageWaiter_dtor :: "nat \<Rightarrow> side \<Rightarrow> (side \<Rightarrow> 'o channel) \<Rightarrow> waiters \<Rightarrow> side \<Rightarrow> 'o channel" where
  "MessageWaiter_dtor t s p ws =
     (if w_channel (ws t) = Some (d_koid (p s)) then p(s := RemoveWaiter t (p s)) else p)"

section \<open>The invariant of a channel\<close>

text \<open>What an endpoint and the threads waiting on it have to do with each other.\<close>

definition waits_on :: "zx_koid \<Rightarrow> message_waiter \<Rightarrow> bool" where
  "waits_on k v \<longleftrightarrow> w_channel v = Some k \<and> w_status v = ZX_ERR_TIMED_OUT"

definition waiter_ok :: "waiters \<Rightarrow> zx_koid \<Rightarrow> nat \<Rightarrow> bool" where
  "waiter_ok ws k t \<longleftrightarrow> w_channel (ws t) = Some k \<and> w_status (ws t) = ZX_ERR_TIMED_OUT \<and> w_msg (ws t) = None \<and>
     bit (w_txid (ws t)) 31"

definition end_ok :: "'o channel \<Rightarrow> bool" where
  "end_ok x \<longleftrightarrow>
     ch_message_count x = length (ch_messages x) \<and> ch_message_count x \<le> ch_max_message_count x \<and>
     (bit (d_signals x) 0 \<longleftrightarrow> ch_messages x \<noteq> []) \<and> (p_peer x \<longrightarrow> bit (d_signals x) 1 \<and> \<not> bit (d_signals x) 2)"

definition wait_ok :: "waiters \<Rightarrow> 'o channel \<Rightarrow> bool" where
  "wait_ok ws x \<longleftrightarrow>
     distinct (ch_waiters x) \<and> inj_on (\<lambda>t. w_txid (ws t)) (set (ch_waiters x)) \<and>
     (\<forall>t \<in> set (ch_waiters x). waiter_ok ws (d_koid x) t) \<and>
     {t. waits_on (d_koid x) (ws t)} \<subseteq> set (ch_waiters x) \<and> (\<not> p_peer x \<longrightarrow> ch_waiters x = [])"

definition channel_inv :: "(side \<Rightarrow> 'o channel) \<Rightarrow> waiters \<Rightarrow> bool" where
  "channel_inv p ws \<longleftrightarrow>
     peers_linked p \<and> d_koid (p E0) \<noteq> d_koid (p E1) \<and> (\<forall>t. w_channel (ws t) = None \<longrightarrow> w_msg (ws t) = None) \<and>
     end_ok (p E0) \<and> end_ok (p E1) \<and> wait_ok ws (p E0) \<and> wait_ok ws (p E1)"

lemma channel_inv_side:
  "channel_inv p ws \<longleftrightarrow>
     p_peer (p (other s)) = p_peer (p s) \<and> d_koid (p s) \<noteq> d_koid (p (other s)) \<and>
     (\<forall>t. w_channel (ws t) = None \<longrightarrow> w_msg (ws t) = None) \<and>
     end_ok (p s) \<and> end_ok (p (other s)) \<and> wait_ok ws (p s) \<and> wait_ok ws (p (other s))"
  by (cases s) (auto simp: channel_inv_def peers_linked_def)

lemma channel_invD:
  assumes "channel_inv p ws"
  shows "p_peer (p (other s)) = p_peer (p s)" "d_koid (p s) \<noteq> d_koid (p (other s))"
    "end_ok (p s)" "end_ok (p (other s))" "wait_ok ws (p s)" "wait_ok ws (p (other s))"
  using assms channel_inv_side [of p ws s] by auto

lemma channel_inv_idle: "channel_inv p ws \<Longrightarrow> w_channel (ws t) = None \<Longrightarrow> w_msg (ws t) = None"
  by (simp add: channel_inv_def)

lemma Channel_update_eq:
  "Channel_update ops s c t p w =
     (p(s := (p s)\<lparr>d_signals := new_signals c t (d_signals (p s)),
        d_observers := updated_observers ops c t (d_signals (p s)) (d_observers (p s)) w\<rparr>),
      updated_world ops c t (d_signals (p s)) (d_observers (p s)) w)"
  by (simp add: Channel_update_def UpdateStateHelper_eq)

text \<open>Facts about one endpoint depend only on part of it.\<close>

lemma wait_ok_cong:
  "wait_ok ws x \<Longrightarrow> ch_waiters y = ch_waiters x \<Longrightarrow> d_koid y = d_koid x \<Longrightarrow> p_peer y = p_peer x \<Longrightarrow> wait_ok ws y"
  by (simp add: wait_ok_def)

text \<open>What threads do that do not wait on an endpoint does not matter to it.\<close>

lemma wait_ok_elsewhere:
  assumes "wait_ok ws x" "\<And>t. ws' t = ws t \<or> \<not> waits_on (d_koid x) (ws t) \<and> \<not> waits_on (d_koid x) (ws' t)"
  shows "wait_ok ws' x"
proof -
  note w = assms(1) [unfolded wait_ok_def]
  have same: "ws' t = ws t" if "t \<in> set (ch_waiters x)" for t
    using that w assms(2) [of t] by (auto simp: waiter_ok_def waits_on_def)
  have "inj_on (\<lambda>t. w_txid (ws' t)) (set (ch_waiters x))"
    using w inj_on_cong [of "set (ch_waiters x)" "\<lambda>u. w_txid (ws' u)" "\<lambda>u. w_txid (ws u)"] by (simp add: same)
  moreover have "waiter_ok ws' (d_koid x) t" if "t \<in> set (ch_waiters x)" for t
    using that w same [OF that] by (simp add: waiter_ok_def)
  moreover have "{t. waits_on (d_koid x) (ws' t)} \<subseteq> {t. waits_on (d_koid x) (ws t)}"
    using assms(2) by auto (metis)
  ultimately show ?thesis using w unfolding wait_ok_def by blast
qed

lemma wait_ok_thread:
  assumes "wait_ok ws x" "\<not> waits_on (d_koid x) (ws t)" "\<not> waits_on (d_koid x) v"
  shows "wait_ok (ws(t := v)) x"
  by (rule wait_ok_elsewhere [OF assms(1)]) (use assms(2,3) in simp)

lemma channel_inv_elsewhere:
  assumes "channel_inv p ws"
    and "\<And>t s. ws' t = ws t \<or> \<not> waits_on (d_koid (p s)) (ws t) \<and> \<not> waits_on (d_koid (p s)) (ws' t)"
    and "\<And>t. w_channel (ws' t) = None \<Longrightarrow> w_msg (ws' t) = None"
  shows "channel_inv p ws'"
  using assms(1,3) wait_ok_elsewhere [OF _ assms(2)] by (auto simp: channel_inv_def)

lemma wait_ok_leave:
  assumes "wait_ok ws x" "t \<in> set (ch_waiters x)" "\<not> waits_on (d_koid x) v"
  shows "wait_ok (ws(t := v)) (x\<lparr>ch_waiters := remove1 t (ch_waiters x)\<rparr>)"
proof -
  have d: "distinct (ch_waiters x)" using assms(1) by (simp add: wait_ok_def)
  then have "waiter_ok (ws(t := v)) (d_koid x) u" if "u \<in> set (remove1 t (ch_waiters x))" for u
    using that assms(1) by (auto simp: wait_ok_def waiter_ok_def)
  moreover have "inj_on (\<lambda>u. w_txid ((ws(t := v)) u)) (set (remove1 t (ch_waiters x)))"
  proof -
    have "inj_on (\<lambda>u. w_txid (ws u)) (set (remove1 t (ch_waiters x)))"
      using assms(1) d by (auto simp: wait_ok_def intro: inj_on_diff)
    then show ?thesis using d by (subst inj_on_cong [where g = "\<lambda>u. w_txid (ws u)"]) auto
  qed
  ultimately show ?thesis using assms d unfolding wait_ok_def by (auto split: if_splits)
qed

lemma WriteSelf_inv:
  assumes "channel_inv p ws" "Channel_WriteSelf ops s msg p ws w = (p', ws', w')"
  shows "channel_inv p' ws'"
proof -
  note e = channel_invD [OF assms(1), of s]
  show ?thesis
  proof (cases "find (\<lambda>t. w_txid (ws t) = MessagePacket_get_txid msg) (ch_waiters (p s))")
    case None
    define x where "x = (p s)\<lparr>ch_messages := ch_messages (p s) @ [msg], ch_message_count := ch_message_count (p s) + 1,
      ch_max_message_count := max (ch_max_message_count (p s)) (ch_message_count (p s) + 1)\<rparr>"
    define y where "y = x\<lparr>d_signals := new_signals 0 ZX_CHANNEL_READABLE (d_signals (p s)),
        d_observers := updated_observers ops 0 ZX_CHANNEL_READABLE (d_signals (p s)) (d_observers (p s)) w\<rparr>"
    have eq: "p' = p(s := y)" "ws' = ws"
      using assms(2) None by (simp_all add: Channel_WriteSelf_def Let_def Channel_update_eq x_def y_def)
    have "end_ok y" using e(3) by (simp add: end_ok_def y_def x_def)
    moreover have "wait_ok ws y" by (rule wait_ok_cong [OF e(5)]) (simp_all add: y_def x_def)
    moreover have "d_koid y = d_koid (p s)" "p_peer y = p_peer (p s)" by (simp_all add: y_def x_def)
    ultimately show ?thesis using e channel_inv_idle [OF assms(1)] unfolding eq channel_inv_side [of _ _ s] by simp
  next
    case (Some t)
    then have t: "t \<in> set (ch_waiters (p s))" by (auto simp: find_Some_iff)
    then have ch: "w_channel (ws t) = Some (d_koid (p s))" using e(5) by (auto simp: wait_ok_def waiter_ok_def)
    define x where "x = (p s)\<lparr>ch_waiters := remove1 t (ch_waiters (p s))\<rparr>"
    define v where "v = Deliver msg (ws t)"
    have eq: "p' = p(s := x)" "ws' = ws(t := v)"
      using assms(2) Some by (simp_all add: Channel_WriteSelf_def x_def v_def)
    have v: "w_channel v = Some (d_koid (p s))" "w_status v = ZX_OK" using ch by (simp_all add: v_def Deliver_def)
    have "wait_ok (ws(t := v)) x" unfolding x_def by (rule wait_ok_leave [OF e(5) t]) (simp add: v waits_on_def)
    moreover have "wait_ok (ws(t := v)) (p (other s))"
      by (rule wait_ok_thread [OF e(6)]) (use ch v e(2) in \<open>simp_all add: waits_on_def\<close>)
    moreover have "end_ok x" "end_ok (p (other s))"
      using e(3,4) by (simp_all add: end_ok_def x_def)
    moreover have "\<forall>u. w_channel ((ws(t := v)) u) = None \<longrightarrow> w_msg ((ws(t := v)) u) = None"
      using channel_inv_idle [OF assms(1)] v by simp
    moreover have "d_koid x = d_koid (p s)" "p_peer x = p_peer (p s)" by (simp_all add: x_def)
    ultimately show ?thesis using e(1,2) unfolding eq channel_inv_side [of _ _ s] by simp
  qed
qed

text \<open>The endpoint after its first message is taken.\<close>

definition read_end :: "('o, 'w) observer_ops \<Rightarrow> messagepacket list \<Rightarrow> 'w \<Rightarrow> 'o channel \<Rightarrow> 'o channel" where
  "read_end ops ms w x =
     (if ms = []
      then x\<lparr>ch_messages := [], ch_message_count := ch_message_count x - 1,
        d_signals := new_signals ZX_CHANNEL_READABLE 0 (d_signals x),
        d_observers := updated_observers ops ZX_CHANNEL_READABLE 0 (d_signals x) (d_observers x) w\<rparr>
      else x\<lparr>ch_messages := ms, ch_message_count := ch_message_count x - 1\<rparr>)"

text \<open>Reading keeps the invariant and takes the oldest message.\<close>

lemma Channel_Read_ok:
  assumes "channel_inv p ws" "Channel_Read ops owner n h d s p w = ((r, sz, hc, m), p', w')"
  shows "channel_inv p' ws" "ch_messages (p s) = (case m of None \<Rightarrow> [] | Some m \<Rightarrow> [m]) @ ch_messages (p' s)"
    "ch_messages (p' (other s)) = ch_messages (p (other s))"
proof -
  note e = channel_invD [OF assms(1), of s]
  consider "p' = p" "m = None"
    | ms m' where "ch_messages (p s) = m' # ms" "m = Some m'" "p' = p(s := read_end ops ms w (p s))"
    using assms(2)
    by (cases "ch_messages (p s)")
       (auto simp: Channel_Read_def Let_def Channel_update_eq read_end_def split: if_splits)
  then have "channel_inv p' ws \<and> ch_messages (p s) = (case m of None \<Rightarrow> [] | Some m \<Rightarrow> [m]) @ ch_messages (p' s) \<and>
    ch_messages (p' (other s)) = ch_messages (p (other s))"
  proof cases
    case 1
    then show ?thesis using assms(1) by simp
  next
    case (2 ms m')
    define x where "x = read_end ops ms w (p s)"
    have p': "p' = p(s := x)" by (simp add: 2 x_def)
    have "end_ok x" using e(3) 2(1) by (auto simp: end_ok_def x_def read_end_def)
    moreover have "wait_ok ws x" by (rule wait_ok_cong [OF e(5)]) (simp_all add: x_def read_end_def)
    moreover have "d_koid x = d_koid (p s)" "p_peer x = p_peer (p s)" "ch_messages x = ms"
      by (simp_all add: x_def read_end_def)
    ultimately show ?thesis
      using e 2(1,2) channel_inv_idle [OF assms(1)] unfolding p' channel_inv_side [of _ _ s] by simp
  qed
  then show "channel_inv p' ws" "ch_messages (p s) = (case m of None \<Rightarrow> [] | Some m \<Rightarrow> [m]) @ ch_messages (p' s)"
    "ch_messages (p' (other s)) = ch_messages (p (other s))" by simp_all
qed

text \<open>Searching a transaction id: the counter runs through all ids with the high bit before it repeats
  one, so with fewer than \<open>2 ^ 31\<close> ids in use the search ends.\<close>

lemma add_mod_cancel:
  fixes a i j m :: nat
  assumes "(a + i) mod m = (a + j) mod m" "i < m" "j < m"
  shows "i = j"
  using assms
proof (induction i j rule: linorder_wlog)
  case (le i j)
  then have "m dvd j - i" using mod_eq_dvd_iff_nat [of "a + i" "a + j" m] by simp
  then have "\<not> 0 < j - i" using le(4) nat_dvd_not_less [of "j - i" m] less_imp_diff_less [of j m i] by auto
  with le(1) show ?case by simp
qed simp

lemma txid_high_inj:
  fixes c :: u32
  assumes "(c + of_nat i) OR 0x80000000 = (c + of_nat j) OR 0x80000000" "i < 2 ^ 31" "j < 2 ^ 31"
  shows "i = j"
proof -
  have "take_bit 31 (c + of_nat i) = take_bit 31 ((c + of_nat i) OR 0x80000000)" for i
    by simp
  with assms(1) have "take_bit 31 (c + of_nat i) = take_bit 31 (c + of_nat j)" by (simp only:)
  then have "unat (take_bit 31 (c + of_nat i)) = unat (take_bit 31 (c + of_nat j))" by (rule arg_cong)
  then have "take_bit 31 (unat (c + of_nat i)) = take_bit 31 (unat (c + of_nat j))"
    by (simp only: unsigned_take_bit_eq)
  moreover have "unat (c + of_nat i) mod 2 ^ 31 = (unat c + i) mod 2 ^ 31" for i
    by (simp add: unat_word_ariths unat_of_nat take_bit_eq_mod mod_add_right_eq mod_mod_cancel)
  ultimately have "(unat c + i) mod 2 ^ 31 = (unat c + j) mod 2 ^ 31" by (simp add: take_bit_eq_mod)
  then show ?thesis using assms(2,3) by (rule add_mod_cancel)
qed

lemma bit_txid_high: "bit (c OR 0x80000000 :: u32) 31"
  by (simp add: bit_or_iff)

lemma alloc_txid_first:
  assumes "\<forall>i < k. (c + of_nat (Suc i)) OR 0x80000000 \<in> set used" "(c + of_nat (Suc k)) OR 0x80000000 \<notin> set used"
  shows "alloc_txid c used = Some ((c + of_nat (Suc k)) OR 0x80000000, c + of_nat (Suc k))"
  using assms
proof (induction k arbitrary: c)
  case 0
  then show ?case by (subst alloc_txid.simps) (simp add: Let_def)
next
  case (Suc k)
  have "(c + 1) OR 0x80000000 \<in> set used" using Suc.prems(1) by auto
  moreover have "\<forall>i < k. (c + 1 + of_nat (Suc i)) OR 0x80000000 \<in> set used"
  proof (intro allI impI)
    fix i
    assume "i < k"
    then have "(c + of_nat (Suc (Suc i))) OR 0x80000000 \<in> set used" using Suc.prems(1) by blast
    then show "(c + 1 + of_nat (Suc i)) OR 0x80000000 \<in> set used" by (simp add: ac_simps)
  qed
  ultimately show ?case
    using Suc.IH [of "c + 1"] Suc.prems(2) by (subst alloc_txid.simps) (simp add: Let_def ac_simps)
qed

lemma alloc_txid_ok:
  fixes c :: u32
  assumes "length used < 2 ^ 31"
  obtains k where "k < 2 ^ 31" "\<forall>i < k. (c + of_nat (Suc i)) OR 0x80000000 \<in> set used"
    "alloc_txid c used = Some ((c + of_nat (Suc k)) OR 0x80000000, c + of_nat (Suc k))"
    "(c + of_nat (Suc k)) OR 0x80000000 \<notin> set used"
proof -
  define f where "f i = (c + of_nat (Suc i)) OR 0x80000000" for i
  have "inj_on f {..< 2 ^ 31}"
    by (rule inj_onI) (use txid_high_inj [of "c + 1"] in \<open>auto simp: f_def ac_simps\<close>)
  then have "card (f ` {..< 2 ^ 31}) = 2 ^ 31" by (simp add: card_image)
  moreover have "card (set used) < 2 ^ 31" using assms card_length [of used] by linarith
  ultimately have "\<not> f ` {..< 2 ^ 31} \<subseteq> set used"
    using card_mono [OF finite_set, of "f ` {..< 2 ^ 31}" used] by (metis not_le)
  then obtain j where j: "j < 2 ^ 31" "f j \<notin> set used" by auto
  define k where "k = (LEAST i. f i \<notin> set used)"
  have "f k \<notin> set used" unfolding k_def using j(2) by (rule LeastI)
  moreover have "\<forall>i < k. f i \<in> set used" unfolding k_def using not_less_Least by blast
  moreover have "k < 2 ^ 31" using Least_le [of "\<lambda>i. f i \<notin> set used" j] j unfolding k_def by linarith
  ultimately show thesis using that alloc_txid_first [of k c used] unfolding f_def by blast
qed

text \<open>A call: the thread joins the waiters under a fresh id, and the request goes to the peer.\<close>

lemma wait_ok_join:
  assumes "wait_ok ws x" "p_peer x" "t \<notin> set (ch_waiters x)" "waiter_ok (ws(t := v)) (d_koid x) t"
    "w_txid v \<notin> (\<lambda>u. w_txid (ws u)) ` set (ch_waiters x)"
  shows "wait_ok (ws(t := v)) (x\<lparr>ch_txid := c, ch_waiters := ch_waiters x @ [t]\<rparr>)"
proof -
  let ?ws = "ws(t := v)"
  note w = assms(1) [unfolded wait_ok_def]
  have same: "?ws u = ws u" if "u \<in> set (ch_waiters x)" for u using that assms(3) by auto
  have img: "(\<lambda>u. w_txid (?ws u)) ` set (ch_waiters x) = (\<lambda>u. w_txid (ws u)) ` set (ch_waiters x)"
    by (rule image_cong) (simp_all only: same)
  have "inj_on (\<lambda>u. w_txid (?ws u)) (set (ch_waiters x))"
    using w inj_on_cong [of "set (ch_waiters x)" "\<lambda>u. w_txid (?ws u)" "\<lambda>u. w_txid (ws u)"] by (simp only: same)
  then have "inj_on (\<lambda>u. w_txid (?ws u)) (insert t (set (ch_waiters x)))"
    using assms(3,5) by (simp only: inj_on_insert Diff_empty Diff_insert0 img fun_upd_same simp_thms not_False_eq_True)
  moreover have "waiter_ok ?ws (d_koid x) u" if "u \<in> set (ch_waiters x)" for u
    using that w by (auto simp: waiter_ok_def [of "ws(t := v)"] same waiter_ok_def [of ws] simp del: fun_upd_apply)
  moreover have "{u. waits_on (d_koid x) (?ws u)} \<subseteq> insert t (set (ch_waiters x))"
    using w by auto
  ultimately show ?thesis using w assms(2,3,4) by (simp add: wait_ok_def del: fun_upd_apply)
qed

definition call_state ::
  "zx_txid \<Rightarrow> u32 \<Rightarrow> nat \<Rightarrow> side \<Rightarrow> (side \<Rightarrow> 'o channel) \<Rightarrow> waiters \<Rightarrow> (side \<Rightarrow> 'o channel) \<times> waiters" where
  "call_state txid counter t s p ws =
     (p(s := (p s)\<lparr>ch_txid := counter, ch_waiters := ch_waiters (p s) @ [t]\<rparr>),
      ws(t := (ws t)\<lparr>w_status := ZX_ERR_TIMED_OUT, w_channel := Some (d_koid (p s)), w_event := False, w_txid := txid\<rparr>))"

lemma call_state_inv:
  assumes "channel_inv p ws" "p_peer (p s)" "w_channel (ws t) = None" "bit txid 31"
    "txid \<notin> (\<lambda>u. w_txid (ws u)) ` set (ch_waiters (p s))" "call_state txid c t s p ws = (p1, ws1)"
  shows "channel_inv p1 ws1"
proof -
  note e = channel_invD [OF assms(1), of s]
  define x where "x = (p s)\<lparr>ch_txid := c, ch_waiters := ch_waiters (p s) @ [t]\<rparr>"
  define v where "v = (ws t)\<lparr>w_status := ZX_ERR_TIMED_OUT, w_channel := Some (d_koid (p s)), w_event := False, w_txid := txid\<rparr>"
  have eq: "p1 = p(s := x)" "ws1 = ws(t := v)" using assms(6) by (simp_all add: call_state_def x_def v_def)
  have "waiter_ok (ws(t := v)) (d_koid (p s)) t"
    using assms(4) channel_inv_idle [OF assms(1,3)] by (simp add: waiter_ok_def v_def)
  moreover have "t \<notin> set (ch_waiters (p s))" using e(5) assms(3) by (auto simp: wait_ok_def waiter_ok_def)
  ultimately have "wait_ok (ws(t := v)) x"
    unfolding x_def using wait_ok_join [OF e(5) assms(2)] assms(5) by (simp add: v_def)
  moreover have "wait_ok (ws(t := v)) (p (other s))"
    by (rule wait_ok_thread [OF e(6)]) (use assms(3) e(2) in \<open>simp_all add: v_def waits_on_def\<close>)
  moreover have "end_ok x" "d_koid x = d_koid (p s)" "p_peer x = p_peer (p s)" using e(3) by (simp_all add: end_ok_def x_def)
  moreover have "w_channel v = Some (d_koid (p s))" by (simp add: v_def)
  ultimately show ?thesis
    using e channel_inv_idle [OF assms(1)] unfolding eq channel_inv_side [of _ _ s] by simp
qed

lemma Channel_Call_cases:
  assumes "length (ch_waiters (p s)) < 2 ^ 31" "channel_inv p ws"
  obtains (busy) "w_channel (ws t) \<noteq> None" "Channel_Call ops owner msg t s p ws w = Some (Call_kills_process, p, ws, w)"
    | (bad_handle) "w_channel (ws t) = None" "owner \<noteq> ch_owner (p s)"
      "Channel_Call ops owner msg t s p ws w = Some (Call_returns ZX_ERR_BAD_HANDLE, p,
         ws(t := (ws t)\<lparr>w_status := ZX_ERR_TIMED_OUT, w_channel := Some (d_koid (p s)), w_event := False\<rparr>), w)"
    | (closed) "w_channel (ws t) = None" "owner = ch_owner (p s)" "\<not> p_peer (p s)"
      "Channel_Call ops owner msg t s p ws w = Some (Call_returns ZX_ERR_PEER_CLOSED, p,
         ws(t := (ws t)\<lparr>w_status := ZX_ERR_TIMED_OUT, w_event := False, w_msg := None, w_channel := None\<rparr>), w)"
    | (waits) txid counter p1 ws1 where "w_channel (ws t) = None" "owner = ch_owner (p s)" "p_peer (p s)" "bit txid 31"
      "txid \<notin> (\<lambda>u. w_txid (ws u)) ` set (ch_waiters (p s))" "call_state txid counter t s p ws = (p1, ws1)"
      "Channel_Call ops owner msg t s p ws w =
         Some (Call_waits, Channel_WriteSelf ops (other s) (MessagePacket_set_txid txid msg) p1 ws1 w)"
proof (cases "w_channel (ws t) = None")
  case False
  then show thesis using busy by (simp add: Channel_Call_def BeginWait_def)
next
  case idle: True
  show thesis
  proof (cases "owner = ch_owner (p s)")
    case False
    with idle show thesis using bad_handle by (simp add: Channel_Call_def BeginWait_def)
  next
    case own: True
    show thesis
    proof (cases "p_peer (p s)")
      case False
      with idle own show thesis
        using closed by (simp add: Channel_Call_def BeginWait_def EndWait_def)
    next
      case peer: True
      define used where "used = map (\<lambda>u. w_txid (ws u)) (ch_waiters (p s))"
      have "t \<notin> set (ch_waiters (p s))"
        using channel_invD(5) [OF assms(2), of s] idle by (auto simp: wait_ok_def waiter_ok_def)
      then have used': "map (\<lambda>u. w_txid ((ws(t := v)) u)) (ch_waiters (p s)) = used" for v
        by (auto simp: used_def)
      obtain k where k: "alloc_txid (ch_txid (p s)) used =
          Some ((ch_txid (p s) + of_nat (Suc k)) OR 0x80000000, ch_txid (p s) + of_nat (Suc k))"
        "(ch_txid (p s) + of_nat (Suc k)) OR 0x80000000 \<notin> set used"
        by (rule alloc_txid_ok [of used "ch_txid (p s)"]) (use assms(1) in \<open>simp add: used_def\<close>, blast)
      define txid where "txid = (ch_txid (p s) + of_nat (Suc k)) OR 0x80000000"
      define counter where "counter = ch_txid (p s) + of_nat (Suc k)"
      have tc: "alloc_txid (ch_txid (p s)) used = Some (txid, counter)" "txid \<notin> set used"
        unfolding txid_def counter_def by (rule k)+
      have hi: "bit txid 31" unfolding txid_def by (rule bit_txid_high)
      show thesis
      proof (rule waits [OF idle own peer hi _ surjective_pairing])
        show "txid \<notin> (\<lambda>u. w_txid (ws u)) ` set (ch_waiters (p s))" using tc(2) by (simp add: used_def)
        show "Channel_Call ops owner msg t s p ws w =
          Some (Call_waits, Channel_WriteSelf ops (other s) (MessagePacket_set_txid txid msg)
            (fst (call_state txid counter t s p ws)) (snd (call_state txid counter t s p ws)) w)"
          using idle own peer
          by (simp add: Channel_Call_def BeginWait_def call_state_def Let_def used' tc(1) fun_upd_same del: fun_upd_apply)
      qed
    qed
  qed
qed

lemma Channel_Call_inv:
  assumes "channel_inv p ws" "length (ch_waiters (p s)) < 2 ^ 31"
    "Channel_Call ops owner msg t s p ws w = Some (r, p', ws', w')" "r \<noteq> Call_returns ZX_ERR_BAD_HANDLE"
  shows "channel_inv p' ws'"
  using assms(2,1)
proof (cases rule: Channel_Call_cases [where t = t and ops = ops and owner = owner and msg = msg and w = w])
  case closed
  have "channel_inv p (ws(t := (ws t)\<lparr>w_status := ZX_ERR_TIMED_OUT, w_event := False, w_msg := None, w_channel := None\<rparr>))"
    by (rule channel_inv_elsewhere [OF assms(1)])
       (use closed(1) channel_inv_idle [OF assms(1)] in \<open>auto simp: waits_on_def split: if_splits\<close>)
  with closed(4) assms(3) show ?thesis by simp
next
  case (waits txid counter p1 ws1)
  have "channel_inv p1 ws1"
    using call_state_inv [OF assms(1) waits(3,1,4,5,6)] .
  moreover have "Channel_WriteSelf ops (other s) (MessagePacket_set_txid txid msg) p1 ws1 w = (p', ws', w')"
    using waits(7) assms(3) by simp
  ultimately show ?thesis by (rule WriteSelf_inv)
qed (use assms in simp_all)

lemma Channel_Write_inv:
  assumes "channel_inv p ws" "Channel_Write ops owner msg s p ws w = (r, p', ws', w')"
  shows "channel_inv p' ws'"
  using assms WriteSelf_inv [OF assms(1)] by (auto simp: Channel_Write_def split: if_splits)

text \<open>A waiter of the channel leaves it, whether its thread gives up, is destroyed, or has its answer.\<close>

lemma waiter_leaves_inv:
  assumes "channel_inv p ws" "w_channel (ws t) = Some (d_koid (p s))" "w_channel v = None" "w_msg v = None"
  shows "channel_inv (p(s := RemoveWaiter t (p s))) (ws(t := v))"
proof -
  note e = channel_invD [OF assms(1), of s]
  have v: "\<not> waits_on k v" for k using assms(3) by (simp add: waits_on_def)
  define x where "x = RemoveWaiter t (p s)"
  have "wait_ok (ws(t := v)) x"
  proof (cases "t \<in> set (ch_waiters (p s))")
    case True
    then show ?thesis using wait_ok_leave [OF e(5) True v] by (simp add: x_def RemoveWaiter_def)
  next
    case False
    then have "\<not> waits_on (d_koid (p s)) (ws t)" using e(5) by (auto simp: wait_ok_def)
    then show ?thesis using wait_ok_thread [OF e(5) _ v] False by (simp add: x_def RemoveWaiter_def)
  qed
  moreover have "wait_ok (ws(t := v)) (p (other s))"
    by (rule wait_ok_thread [OF e(6)]) (use assms(2) e(2) v in \<open>simp_all add: waits_on_def\<close>)
  moreover have "end_ok x" "d_koid x = d_koid (p s)" "p_peer x = p_peer (p s)"
    using e(3) by (simp_all add: end_ok_def x_def RemoveWaiter_def)
  ultimately show ?thesis
    using e channel_inv_idle [OF assms(1)] assms(4)
    unfolding channel_inv_side [of _ _ s] x_def [symmetric] by simp
qed

lemma ResumeInterruptedCall_ok:
  assumes "channel_inv p ws" "w_channel (ws t) = Some (d_koid (p s))"
  shows "ResumeInterruptedCall event_status t s p ws =
    (if event_status = ZX_ERR_INTERNAL_INTR_RETRY then Some ((ZX_ERR_INTERNAL_INTR_RETRY, None), p, ws)
     else Some ((w_status (ws t), w_msg (ws t)), p(s := RemoveWaiter t (p s)),
       ws(t := (ws t)\<lparr>w_msg := None, w_channel := None\<rparr>)))"
proof -
  have "t \<in> set (ch_waiters (p s)) \<longleftrightarrow> w_status (ws t) = ZX_ERR_TIMED_OUT"
    using channel_invD(5) [OF assms(1), of s] assms(2) by (auto simp: wait_ok_def waiter_ok_def waits_on_def)
  then show ?thesis
    using assms(2) by (auto simp: ResumeInterruptedCall_def MessageWaiter_Wait_def EndWait_def waiters_erase_def RemoveWaiter_def)
qed

lemma ResumeInterruptedCall_inv:
  assumes "channel_inv p ws" "w_channel (ws t) = Some (d_koid (p s))"
    "ResumeInterruptedCall event_status t s p ws = Some (r, p', ws')"
  shows "channel_inv p' ws'"
  using assms(3) ResumeInterruptedCall_ok [OF assms(1,2), of event_status] waiter_leaves_inv [OF assms(1,2)] assms(1)
  by (auto split: if_splits)

lemma MessageWaiter_dtor_inv:
  assumes "channel_inv p ws" "ws' = ws(t := MessageWaiter_new)"
  shows "channel_inv (MessageWaiter_dtor t E1 (MessageWaiter_dtor t E0 p ws) ws) ws'"
proof -
  have new: "w_channel MessageWaiter_new = None" "w_msg MessageWaiter_new = None" by (simp_all add: MessageWaiter_new_def)
  have ne: "d_koid (p E0) \<noteq> d_koid (p E1)" using assms(1) by (simp add: channel_inv_def)
  consider s where "w_channel (ws t) = Some (d_koid (p s))"
    | "\<And>s. w_channel (ws t) \<noteq> Some (d_koid (p s))" by blast
  then show ?thesis
  proof cases
    case (1 s)
    then have "MessageWaiter_dtor t E1 (MessageWaiter_dtor t E0 p ws) ws = p(s := RemoveWaiter t (p s))"
      using ne by (cases s) (simp_all add: MessageWaiter_dtor_def RemoveWaiter_def)
    then show ?thesis using waiter_leaves_inv [OF assms(1) 1 new] assms(2) by simp
  next
    case 2
    then have "MessageWaiter_dtor t E1 (MessageWaiter_dtor t E0 p ws) ws = p" by (simp add: MessageWaiter_dtor_def)
    moreover have "channel_inv p ws'"
      by (rule channel_inv_elsewhere [OF assms(1)])
         (use 2 new channel_inv_idle [OF assms(1)] in \<open>auto simp: assms(2) waits_on_def split: if_splits\<close>)
    ultimately show ?thesis by simp
  qed
qed

text \<open>Closing an endpoint.\<close>

lemma fold_cancel:
  "distinct ts \<Longrightarrow> fold (\<lambda>t ws. ws(t := MessageWaiter_Cancel status (ws t))) ts ws t =
     (if t \<in> set ts then MessageWaiter_Cancel status (ws t) else ws t)"
  by (induction ts arbitrary: ws) auto

interpretation channel_peered: peered_class Channel_on_zero_handles_locked "Channel_OnPeerZeroHandlesLocked ops"
  by unfold_locales
     (auto simp: Channel_on_zero_handles_locked_def Channel_OnPeerZeroHandlesLocked_def cancel_waiters_def
        Channel_update_eq split: prod.splits)

definition closed_waiters :: "side \<Rightarrow> (side \<Rightarrow> 'o channel) \<Rightarrow> waiters \<Rightarrow> waiters" where
  "closed_waiters s p ws t =
     (if t \<in> set (ch_waiters (p s)) then MessageWaiter_Cancel ZX_ERR_CANCELED (ws t)
      else if t \<in> set (ch_waiters (p (other s))) then MessageWaiter_Cancel ZX_ERR_PEER_CLOSED (ws t)
      else ws t)"

lemma channel_waiters_disjoint:
  assumes "channel_inv p ws"
  shows "set (ch_waiters (p s)) \<inter> set (ch_waiters (p (other s))) = {}"
  using channel_invD [OF assms, of s] by (auto simp: wait_ok_def waiter_ok_def)

lemma Channel_on_zero_handles_eq:
  assumes "channel_inv p ws" "p_peer (p s)" "Channel_on_zero_handles ops s p (ws, w) = (p', ws', w')"
  shows "p' = p(s := (p s)\<lparr>p_peer := False, ch_waiters := []\<rparr>,
      other s := (p (other s))\<lparr>p_peer := False,
        d_signals := new_signals ZX_CHANNEL_WRITABLE ZX_CHANNEL_PEER_CLOSED (d_signals (p (other s))),
        d_observers := updated_observers ops ZX_CHANNEL_WRITABLE ZX_CHANNEL_PEER_CLOSED
          (d_signals (p (other s))) (d_observers (p (other s))) w, ch_waiters := []\<rparr>)"
    "ws' = closed_waiters s p ws"
proof -
  note e = channel_invD [OF assms(1), of s]
  let ?c = "\<lambda>status t ws. ws(t := MessageWaiter_Cancel status (ws t))"
  have d: "distinct (ch_waiters (p s))" "distinct (ch_waiters (p (other s)))" using e(5,6) by (simp_all add: wait_ok_def)
  have "ws' = fold (?c ZX_ERR_PEER_CLOSED) (ch_waiters (p (other s))) (fold (?c ZX_ERR_CANCELED) (ch_waiters (p s)) ws)"
    using assms(2,3) by (simp add: Channel_on_zero_handles_def Peered_on_zero_handles_def cancel_waiters_def
        Channel_on_zero_handles_locked_def Channel_OnPeerZeroHandlesLocked_def Channel_update_eq)
  then have "ws' t = closed_waiters s p ws t" for t
    using channel_waiters_disjoint [OF assms(1), of s] by (auto simp: fold_cancel [OF d(1)] fold_cancel [OF d(2)] closed_waiters_def)
  then show "ws' = closed_waiters s p ws" by (rule ext)
  show "p' = p(s := (p s)\<lparr>p_peer := False, ch_waiters := []\<rparr>,
      other s := (p (other s))\<lparr>p_peer := False,
        d_signals := new_signals ZX_CHANNEL_WRITABLE ZX_CHANNEL_PEER_CLOSED (d_signals (p (other s))),
        d_observers := updated_observers ops ZX_CHANNEL_WRITABLE ZX_CHANNEL_PEER_CLOSED
          (d_signals (p (other s))) (d_observers (p (other s))) w, ch_waiters := []\<rparr>)"
    using assms(2,3) by (simp add: Channel_on_zero_handles_def Peered_on_zero_handles_def cancel_waiters_def
        Channel_on_zero_handles_locked_def Channel_OnPeerZeroHandlesLocked_def Channel_update_eq)
qed

lemma Channel_on_zero_handles_closed:
  assumes "channel_inv p ws" "\<not> p_peer (p s)"
  shows "Channel_on_zero_handles ops s p (ws, w) = (p, ws, w)"
proof -
  have "ch_waiters (p s) = []" using channel_invD(5) [OF assms(1), of s] assms(2) by (simp add: wait_ok_def)
  moreover from this have "(p s)\<lparr>p_peer := False, ch_waiters := []\<rparr> = p s" using assms(2) by (cases "p s") simp
  then have "p(s := (p s)\<lparr>p_peer := False, ch_waiters := []\<rparr>) = p" by (simp only: fun_upd_triv)
  ultimately show ?thesis using assms(2)
    by (simp add: Channel_on_zero_handles_def Peered_on_zero_handles_def cancel_waiters_def
        Channel_on_zero_handles_locked_def)
qed

lemma no_waiters_ok:
  assumes "\<And>t. \<not> waits_on (d_koid x) (ws t)" "ch_waiters x = []"
  shows "wait_ok ws x"
  using assms by (simp add: wait_ok_def)

lemma Channel_on_zero_handles_inv:
  assumes "channel_inv p ws" "Channel_on_zero_handles ops s p (ws, w) = (p', ws', w')"
  shows "channel_inv p' ws'"
proof (cases "p_peer (p s)")
  case False
  with Channel_on_zero_handles_closed [OF assms(1) False, of ops w] assms show ?thesis by simp
next
  case True
  note e = channel_invD [OF assms(1), of s]
  note eq = Channel_on_zero_handles_eq [OF assms(1) True assms(2)]
  have k: "d_koid (p' s) = d_koid (p s)" "d_koid (p' (other s)) = d_koid (p (other s))" by (simp_all add: eq)
  have "\<not> waits_on (d_koid (p s)) (ws' t)" "\<not> waits_on (d_koid (p (other s))) (ws' t)" for t
    using e(5,6) by (auto simp: eq(2) closed_waiters_def waits_on_def MessageWaiter_Cancel_def wait_ok_def)
  then have "wait_ok ws' (p' s)" "wait_ok ws' (p' (other s))" 
    by (intro no_waiters_ok; simp add: eq(1))+
  moreover have "end_ok (p' s)" "end_ok (p' (other s))" using e(3,4) by (simp_all add: eq(1) end_ok_def)
  moreover have "p_peer (p' (other s)) = p_peer (p' s)" by (simp add: eq(1))
  moreover have "w_channel (ws' t) = None \<Longrightarrow> w_msg (ws' t) = None" for t
    using channel_inv_idle [OF assms(1), of t] by (auto simp: eq(2) closed_waiters_def MessageWaiter_Cancel_def split: if_splits)
  ultimately show ?thesis using e(2) k by (simp add: channel_inv_side [of _ _ s])
qed

text \<open>The invariant does not depend on the observers, the user signals, the owner or the handle count.\<close>

lemma channel_inv_cong:
  assumes "channel_inv p ws" "\<And>n. n < 24 \<Longrightarrow> bit (d_signals x) n = bit (d_signals (p s)) n"
    "x = (p s)\<lparr>d_signals := sg, d_observers := ob, d_handle_count := hc, ch_owner := ow\<rparr>"
  shows "channel_inv (p(s := x)) ws"
proof -
  note e = channel_invD [OF assms(1), of s]
  have "end_ok x" using e(3) assms(2) by (simp add: end_ok_def assms(3))
  moreover have "wait_ok ws x" by (rule wait_ok_cong [OF e(5)]) (simp_all add: assms(3))
  moreover have "d_koid x = d_koid (p s)" "p_peer x = p_peer (p s)" by (simp_all add: assms(3))
  ultimately show ?thesis
    using e channel_inv_idle [OF assms(1)] unfolding channel_inv_side [of _ _ s] by simp
qed

lemma Channel_Create_inv:
  fixes p :: "side \<Rightarrow> 'o channel"
  assumes "Channel_Create ac g = (Inr p, g')" "\<And>t. w_channel (ws t) = None \<Longrightarrow> w_msg (ws t) = None"
    "\<And>t s. w_channel (ws t) \<noteq> Some (d_koid (p s))"
  shows "channel_inv p ws" "ch_messages (p s) = []" "p_peer (p s)"
proof -
  define new where "new k pk = \<lparr>d_koid = k, d_handle_count = 0, d_signals = ZX_CHANNEL_WRITABLE, d_observers = [] :: 'o list,
    p_peer = True, p_peer_koid = pk, ch_messages = [], ch_message_count = 0, ch_max_message_count = 0,
    ch_owner = ZX_KOID_INVALID, ch_txid = 0, ch_waiters = []\<rparr>" for k pk
  have p: "p E0 = new g (g + 1)" "p E1 = new (g + 1) g"
    using assms(1) unfolding new_def
    by (auto simp: Channel_Create_def Channel_new_def Channel_Init_def Let_def GenerateKernelObjectId_def
        split: if_split_asm)
  have "ch_waiters (p t) = []" for t by (cases t) (simp_all add: p new_def)
  then have "wait_ok ws (p t)" for t
    by (intro no_waiters_ok) (simp_all add: waits_on_def assms(3))
  moreover have "end_ok (p t)" for t by (cases t) (simp_all add: p new_def end_ok_def)
  moreover have "p_peer (p E0) = p_peer (p E1)" "d_koid (p E0) \<noteq> d_koid (p E1)" by (simp_all add: p new_def)
  ultimately show "channel_inv p ws" using assms(2) by (simp add: channel_inv_def peers_linked_def)
  show "ch_messages (p s) = []" "p_peer (p s)" by (cases s; simp add: p new_def)+
qed

end
