(* ===== verification/Zx_Channel_History.thy ===== *)
theory Zx_Channel_History
  imports Zx_Channel
begin

unbundle bit_operations_syntax

text \<open>
  Histories of a channel: any sequence of writes, reads, calls, resumed calls, closes, signals and
  changes of observers and owners, interleaved with whatever threads do on other channels. The messages
  queued at an endpoint are those written to it that answered no call, in order, without those already
  read; no interleaving leaves a call stuck on a closed channel or erases a waiter that is not listed.
\<close>

section \<open>Steps\<close>

type_synonym message_log = "side \<Rightarrow> messagepacket list"

definition no_messages :: message_log where
  "no_messages = (\<lambda>_. [])"

definition messages_at :: "side \<Rightarrow> messagepacket list \<Rightarrow> message_log" where
  "messages_at s ms = (\<lambda>t. if t = s then ms else [])"

text \<open>A message whose transaction id is that of a waiter answers the call of that waiter.\<close>

definition answers :: "waiters \<Rightarrow> 'o channel \<Rightarrow> messagepacket \<Rightarrow> bool" where
  "answers ws x m \<longleftrightarrow> (\<exists>t \<in> set (ch_waiters x). w_txid (ws t) = MessagePacket_get_txid m)"

definition unanswered :: "waiters \<Rightarrow> 'o channel \<Rightarrow> messagepacket \<Rightarrow> messagepacket list" where
  "unanswered ws x m = (if answers ws x m then [] else [m])"

text \<open>The labels of a step are the messages it queues and the messages it takes from the queues. Calls
  that fail with \<open>ZX_ERR_BAD_HANDLE\<close> are left out: see \<open>Call_bad_handle_leak\<close>. So are calls on an endpoint
  that \<open>2 ^ 31\<close> threads already wait on, where the search for an unused transaction id would not end.\<close>

inductive channel_step ::
  "('o, 'w) observer_ops \<Rightarrow> (side \<Rightarrow> 'o channel) \<times> waiters \<times> 'w \<Rightarrow> message_log \<Rightarrow> message_log \<Rightarrow>
   (side \<Rightarrow> 'o channel) \<times> waiters \<times> 'w \<Rightarrow> bool" for ops where
  write_msg: "Channel_Write ops owner m s p ws w = (r, p', ws', w') \<Longrightarrow>
    q = (if r = ZX_OK then messages_at (other s) (unanswered ws (p (other s)) m) else no_messages) \<Longrightarrow>
    channel_step ops (p, ws, w) q no_messages (p', ws', w')"
| read_msg: "Channel_Read ops owner n h d s p w = ((r, sz, hc, m), p', w') \<Longrightarrow>
    channel_step ops (p, ws, w) no_messages (messages_at s (case m of None \<Rightarrow> [] | Some m \<Rightarrow> [m])) (p', ws, w')"
| call: "Channel_Call ops owner m t s p ws w = Some (r, p', ws', w') \<Longrightarrow> length (ch_waiters (p s)) < 2 ^ 31 \<Longrightarrow>
    r \<noteq> Call_returns ZX_ERR_BAD_HANDLE \<Longrightarrow>
    q = (if r = Call_waits
         then messages_at (other s) (unanswered ws (p (other s)) (MessagePacket_set_txid (w_txid (ws' t)) m))
         else no_messages) \<Longrightarrow>
    channel_step ops (p, ws, w) q no_messages (p', ws', w')"
| resume: "w_channel (ws t) = Some (d_koid (p s)) \<Longrightarrow> ResumeInterruptedCall es t s p ws = Some (r, p', ws') \<Longrightarrow>
    channel_step ops (p, ws, w) no_messages no_messages (p', ws', w)"
| thread_exit: "p' = MessageWaiter_dtor t E1 (MessageWaiter_dtor t E0 p ws) ws \<Longrightarrow> ws' = ws(t := MessageWaiter_new) \<Longrightarrow>
    channel_step ops (p, ws, w) no_messages no_messages (p', ws', w)"
| elsewhere: "(\<And>t s. ws' t = ws t \<or> \<not> waits_on (d_koid (p s)) (ws t) \<and> \<not> waits_on (d_koid (p s)) (ws' t)) \<Longrightarrow>
    (\<And>t. w_channel (ws' t) = None \<Longrightarrow> w_msg (ws' t) = None) \<Longrightarrow>
    channel_step ops (p, ws, w) no_messages no_messages (p, ws', w)"
| close: "Channel_on_zero_handles ops s p (ws, w) = (p', ws', w') \<Longrightarrow>
    channel_step ops (p, ws, w) no_messages no_messages (p', ws', w')"
| set_owner: "p' = Channel_set_owner k s p \<Longrightarrow> channel_step ops (p, ws, w) no_messages no_messages (p', ws, w)"
| signal_self: "Peered_user_signal_self ops 0 s c t p w = (r, p', w') \<Longrightarrow>
    channel_step ops (p, ws, w) no_messages no_messages (p', ws, w')"
| signal_peer: "Peered_user_signal_peer ops 0 s c t p w = (r, p', w') \<Longrightarrow>
    channel_step ops (p, ws, w) no_messages no_messages (p', ws, w')"
| observe: "Channel_AddObserver ops obs (p s) w = (r, x, w') \<Longrightarrow> p' = p(s := x) \<Longrightarrow>
    channel_step ops (p, ws, w) no_messages no_messages (p', ws, w')"
| cancel: "Cancel ops h (p s) w = (x, w') \<Longrightarrow> p' = p(s := x) \<Longrightarrow>
    channel_step ops (p, ws, w) no_messages no_messages (p', ws, w')"
| cancel_key: "CancelByKey ops h port key (p s) w = (b, x, w') \<Longrightarrow> p' = p(s := x) \<Longrightarrow>
    channel_step ops (p, ws, w) no_messages no_messages (p', ws, w')"

inductive channel_reach ::
  "('o, 'w) observer_ops \<Rightarrow> (side \<Rightarrow> 'o channel) \<times> waiters \<times> 'w \<Rightarrow> message_log \<Rightarrow> message_log \<Rightarrow> bool" for ops where
  create: "Channel_Create ac g = (Inr p, g') \<Longrightarrow> (\<And>t. w_channel (ws t) = None \<Longrightarrow> w_msg (ws t) = None) \<Longrightarrow>
    (\<And>t s. w_channel (ws t) \<noteq> Some (d_koid (p s))) \<Longrightarrow> channel_reach ops (p, ws, w) no_messages no_messages"
| step: "channel_reach ops c queued taken \<Longrightarrow> channel_step ops c q k c' \<Longrightarrow>
    channel_reach ops c' (\<lambda>t. queued t @ q t) (\<lambda>t. taken t @ k t)"

section \<open>The effect of the steps\<close>

lemma find_answers:
  "find (\<lambda>t. w_txid (ws t) = MessagePacket_get_txid m) (ch_waiters x) = None \<longleftrightarrow> \<not> answers ws x m"
  by (auto simp: find_None_iff answers_def)

lemma WriteSelf_messages:
  assumes "Channel_WriteSelf ops s m p ws w = (p', ws', w')"
  shows "ch_messages (p' s) = ch_messages (p s) @ unanswered ws (p s) m"
    "ch_messages (p' (other s)) = ch_messages (p (other s))"
  using assms find_answers [of ws m "p s"]
  by (auto simp: Channel_WriteSelf_def Channel_update_eq Let_def unanswered_def split: option.splits)

lemma Channel_Call_messages:
  assumes "channel_inv p ws" "length (ch_waiters (p s)) < 2 ^ 31"
    "Channel_Call ops owner m t s p ws w = Some (r, p', ws', w')"
    "q = (if r = Call_waits
         then messages_at (other s) (unanswered ws (p (other s)) (MessagePacket_set_txid (w_txid (ws' t)) m))
         else no_messages)"
  shows "ch_messages (p' u) = ch_messages (p u) @ q u"
  using assms(2,1)
proof (cases rule: Channel_Call_cases [where t = t and ops = ops and owner = owner and msg = m and w = w])
  case (waits txid counter p1 ws1)
  have W: "Channel_WriteSelf ops (other s) (MessagePacket_set_txid txid m) p1 ws1 w = (p', ws', w')" "r = Call_waits"
    using waits(7) assms(3) by simp_all
  have c: "ch_messages (p1 v) = ch_messages (p v)" "ch_waiters (p1 (other s)) = ch_waiters (p (other s))" for v
    using waits(6) by (auto simp: call_state_def)
  have t: "t \<notin> set (ch_waiters (p (other s)))"
    using channel_invD(6) [OF assms(1), of s] waits(1) by (auto simp: wait_ok_def waiter_ok_def)
  then have "ws1 v = ws v" if "v \<in> set (ch_waiters (p (other s)))" for v
    using that waits(6) by (auto simp: call_state_def)
  then have un: "unanswered ws1 (p1 (other s)) y = unanswered ws (p (other s)) y" for y
    by (simp add: c unanswered_def answers_def cong: bex_cong)
  have "w_txid (ws' t) = txid"
    using W(1) t waits(6) by (auto simp: Channel_WriteSelf_def Channel_update_eq Let_def call_state_def find_Some_iff
        split: option.splits)
  then show ?thesis
    using WriteSelf_messages [OF W(1)] side_cases [of u s] by (auto simp: c un assms(4) W(2) messages_at_def)
qed (use assms(3,4) in \<open>auto simp: no_messages_def\<close>)

lemma Resume_messages:
  "ResumeInterruptedCall es t s p ws = Some (r, p', ws') \<Longrightarrow> ch_messages (p' u) = ch_messages (p u)"
  by (auto simp: ResumeInterruptedCall_def EndWait_def waiters_erase_def Let_def split: if_splits prod.splits)

lemma dtor_messages: "ch_messages (MessageWaiter_dtor t s p ws u) = ch_messages (p u)"
  by (simp add: MessageWaiter_dtor_def RemoveWaiter_def)

lemma close_messages:
  "Channel_on_zero_handles ops s p (ws, w) = (p', ws', w') \<Longrightarrow> ch_messages (p' u) = ch_messages (p u)"
  by (auto simp: Channel_on_zero_handles_def Peered_on_zero_handles_def cancel_waiters_def Let_def
      Channel_on_zero_handles_locked_def Channel_OnPeerZeroHandlesLocked_def Channel_update_eq split: if_splits)

text \<open>Changes of observers, user signals and owners.\<close>

lemma observers_changed:
  "Channel_AddObserver ops obs x w = (r, y, w') \<Longrightarrow> y = x\<lparr>d_observers := d_observers y\<rparr>"
  "Cancel ops h x w = (y, w') \<Longrightarrow> y = x\<lparr>d_observers := d_observers y\<rparr>"
  "CancelByKey ops h port key x w = (b, y, w') \<Longrightarrow> y = x\<lparr>d_observers := d_observers y\<rparr>" for x :: "'o channel"
    apply (auto simp: Channel_AddObserver_def AddObserverHelper_def Let_def split: if_splits prod.splits) [1]
   apply (auto simp: Cancel_def CancelWithFunc_def split: prod.splits) [1]
  apply (auto simp: CancelByKey_def CancelWithFunc_def split: prod.splits) [1]
  done

lemma observers_step:
  assumes "channel_inv p ws" and x: "x = (p s)\<lparr>d_observers := ob\<rparr>"
  shows "channel_inv (p(s := x)) ws \<and> (\<forall>u. ch_messages ((p(s := x)) u) = ch_messages (p u))"
proof -
  have "x = (p s)\<lparr>d_signals := d_signals (p s), d_observers := ob, d_handle_count := d_handle_count (p s),
    ch_owner := ch_owner (p s)\<rparr>" by (simp add: x)
  from channel_inv_cong [OF assms(1) _ this] show ?thesis by (simp add: x)
qed

lemma signal_step:
  assumes "channel_inv p ws" "signals_allowed 0 c t"
    "p' = p(s := (p s)\<lparr>d_signals := new_signals c t (d_signals (p s)), d_observers := ob\<rparr>)"
  shows "channel_inv p' ws \<and> (\<forall>u. ch_messages (p' u) = ch_messages (p u))"
proof -
  define x where "x = (p s)\<lparr>d_signals := new_signals c t (d_signals (p s)), d_observers := ob,
    d_handle_count := d_handle_count (p s), ch_owner := ch_owner (p s)\<rparr>"
  have "channel_inv (p(s := x)) ws"
    by (rule channel_inv_cong [OF assms(1) _ x_def])
       (simp add: x_def new_signals_allowed [OF assms(2)] del: bit_new_signals)
  then show ?thesis by (simp add: x_def assms(3))
qed

lemma signal_self_step:
  assumes "Peered_user_signal_self ops 0 s c t p w = (r, p', w')" "channel_inv p ws"
  shows "channel_inv p' ws \<and> (\<forall>u. ch_messages (p' u) = ch_messages (p u))"
proof -
  consider "p' = p" | "signals_allowed 0 c t"
      "p' = p(s := (p s)\<lparr>d_signals := new_signals c t (d_signals (p s)),
        d_observers := updated_observers ops c t (d_signals (p s)) (d_observers (p s)) w\<rparr>)"
    using assms(1) by (cases "signals_allowed 0 c t") (simp_all add: Peered_user_signal_self_def UpdateStateHelper_eq)
  then show ?thesis by cases (use assms(2) signal_step [OF assms(2)] in blast)+
qed

lemma signal_peer_step:
  assumes "Peered_user_signal_peer ops 0 s c t p w = (r, p', w')" "channel_inv p ws"
  shows "channel_inv p' ws \<and> (\<forall>u. ch_messages (p' u) = ch_messages (p u))"
proof -
  let ?q = "p (other s)"
  consider "p' = p" | "signals_allowed 0 c t"
      "p' = p(other s := ?q\<lparr>d_signals := new_signals c t (d_signals ?q),
        d_observers := updated_observers ops c t (d_signals ?q) (d_observers ?q) w\<rparr>)"
    using assms(1) by (cases "signals_allowed 0 c t"; cases "p_peer (p s)")
      (simp_all add: Peered_user_signal_peer_def UpdateStateHelper_eq)
  then show ?thesis by cases (use assms(2) signal_step [OF assms(2)] in blast)+
qed

lemma owner_step:
  assumes "channel_inv p ws"
  shows "channel_inv (p(s := (p s)\<lparr>ch_owner := k\<rparr>)) ws"
proof -
  have "(p s)\<lparr>ch_owner := k\<rparr> = (p s)\<lparr>d_signals := d_signals (p s), d_observers := d_observers (p s),
    d_handle_count := d_handle_count (p s), ch_owner := k\<rparr>" by simp
  from channel_inv_cong [OF assms _ this] show ?thesis by simp
qed

lemma channel_step_ok:
  "channel_step ops c q k c' \<Longrightarrow> channel_inv (fst c) (fst (snd c)) \<Longrightarrow>
   channel_inv (fst c') (fst (snd c')) \<and> (\<forall>u. ch_messages (fst c u) @ q u = k u @ ch_messages (fst c' u))"
proof (induction rule: channel_step.induct)
  case (write_msg owner m s p ws w r p' ws' w' q)
  have "ch_messages (p u) @ q u = ch_messages (p' u)" for u
    using write_msg(1,2) WriteSelf_messages [of ops "other s" m p ws w p' ws' w'] side_cases [of u s]
    by (auto simp: Channel_Write_def messages_at_def no_messages_def split: if_splits)
  with Channel_Write_inv [OF _ write_msg(1)] write_msg(3) show ?case by (simp add: no_messages_def)
next
  case (read_msg owner n h d s p w r sz hc m p' w' ws)
  note R = Channel_Read_ok [of p ws, OF _ read_msg(1)]
  have "ch_messages (p u) = messages_at s (case m of None \<Rightarrow> [] | Some m \<Rightarrow> [m]) u @ ch_messages (p' u)" for u
    using R(2,3) read_msg(2) side_cases [of u s] by (auto simp: messages_at_def)
  with R(1) read_msg(2) show ?case by (simp add: no_messages_def)
next
  case (call owner m t s p ws w r p' ws' w' q)
  have i: "channel_inv p ws" using call(5) by simp
  show ?case
    using Channel_Call_inv [OF i call(2,1,3)] Channel_Call_messages [OF i call(2,1,4)] by (simp add: no_messages_def)
next
  case (resume ws t p s es r p' ws' w)
  then show ?case using ResumeInterruptedCall_inv [of p ws t s es r p' ws'] Resume_messages [OF resume(2)]
    by (simp add: no_messages_def)
next
  case (thread_exit p' t p ws ws' w)
  have "channel_inv p' ws'"
    unfolding thread_exit(1) using thread_exit(3,2) by (simp only: fst_conv snd_conv MessageWaiter_dtor_inv)
  moreover have "ch_messages (p' u) = ch_messages (p u)" for u unfolding thread_exit(1) by (simp add: dtor_messages)
  ultimately show ?case by (simp add: no_messages_def)
next
  case (elsewhere ws' ws p w)
  then show ?case using channel_inv_elsewhere [of p ws ws'] by (simp add: no_messages_def)
next
  case (close s p ws w p' ws' w')
  then show ?case using Channel_on_zero_handles_inv [of p ws ops s w p' ws' w'] close_messages [OF close(1)]
    by (simp add: no_messages_def)
next
  case (set_owner p' k s p ws w)
  have "channel_inv p' ws"
    using set_owner(2) unfolding set_owner(1) Channel_set_owner_def by (simp only: fst_conv snd_conv owner_step simp_thms split: if_split)
  moreover have "ch_messages (p' u) = ch_messages (p u)" for u
    unfolding set_owner(1) by (simp add: Channel_set_owner_def)
  ultimately show ?case by (simp add: no_messages_def)
next
  case (signal_self s c t p w r p' w' ws)
  from signal_self_step [OF signal_self(1)] signal_self(2) show ?case by (simp add: no_messages_def)
next
  case (signal_peer s c t p w r p' w' ws)
  from signal_peer_step [OF signal_peer(1)] signal_peer(2) show ?case by (simp add: no_messages_def)
next
  case (observe obs p s w r x w' p' ws)
  from observers_step [where p = p and s = s, OF _ observers_changed(1) [OF observe(1)]] observe(3) show ?case
    unfolding observe(2) by (simp add: no_messages_def del: fun_upd_apply)
next
  case (cancel h p s w x w' p' ws)
  from observers_step [where p = p and s = s, OF _ observers_changed(2) [OF cancel(1)]] cancel(3) show ?case
    unfolding cancel(2) by (simp add: no_messages_def del: fun_upd_apply)
next
  case (cancel_key h port key p s w b x w' p' ws)
  from observers_step [where p = p and s = s, OF _ observers_changed(3) [OF cancel_key(1)]] cancel_key(3) show ?case
    unfolding cancel_key(2) by (simp add: no_messages_def del: fun_upd_apply)
qed

lemma channel_reach_ok:
  "channel_reach ops c queued taken \<Longrightarrow>
   channel_inv (fst c) (fst (snd c)) \<and> (\<forall>u. queued u = taken u @ ch_messages (fst c u))"
proof (induction rule: channel_reach.induct)
  case (create ac g p g' ws w)
  from Channel_Create_inv [OF create] show ?case by (simp add: no_messages_def)
next
  case (step c queued taken q k c')
  then have i: "channel_inv (fst c) (fst (snd c))" by blast
  note S = channel_step_ok [OF step(2) i]
  have "queued u @ q u = (taken u @ k u) @ ch_messages (fst c' u)" for u
    using step(3) S by (metis append.assoc)
  with S show ?case by simp
qed

lemma find_the_only:
  assumes "t \<in> set ts" "P t" "\<And>u. u \<in> set ts \<Longrightarrow> P u \<Longrightarrow> u = t"
  shows "find P ts = Some t"
proof (cases "find P ts")
  case None
  with assms(1,2) show ?thesis by (auto simp: find_None_iff)
next
  case (Some u)
  then have "u \<in> set ts" "P u" by (auto simp: find_Some_iff)
  with assms(3) Some show ?thesis by blast
qed

lemma Channel_Call_sends:
  assumes "channel_inv p ws" "length (ch_waiters (p s)) < 2 ^ 31" "w_channel (ws t) = None"
    "owner = ch_owner (p s)" "p_peer (p s)"
  shows "\<exists>txid p' ws' w'. Channel_Call ops owner m t s p ws w = Some (Call_waits, p', ws', w') \<and>
    bit txid 31 \<and> txid \<notin> (\<lambda>u. w_txid (ws u)) ` set (ch_waiters (p s)) \<and>
    ch_waiters (p' s) = ch_waiters (p s) @ [t] \<and> w_txid (ws' t) = txid \<and> w_channel (ws' t) = Some (d_koid (p s)) \<and>
    ch_messages (p' (other s)) = ch_messages (p (other s)) @ unanswered ws (p (other s)) (MessagePacket_set_txid txid m)"
  using assms(2,1)
proof (cases rule: Channel_Call_cases [where t = t and ops = ops and owner = owner and msg = m and w = w])
  case (waits txid counter p1 ws1)
  obtain p' ws' w' where W: "Channel_WriteSelf ops (other s) (MessagePacket_set_txid txid m) p1 ws1 w = (p', ws', w')"
    by (metis prod_cases3)
  have C: "Channel_Call ops owner m t s p ws w = Some (Call_waits, p', ws', w')" using waits(7) W by simp
  have t: "t \<notin> set (ch_waiters (p (other s)))"
    using channel_invD(6) [OF assms(1), of s] waits(1) by (auto simp: wait_ok_def waiter_ok_def)
  have "w_txid (ws' t) = txid \<and> w_channel (ws' t) = Some (d_koid (p s)) \<and> ch_waiters (p' s) = ch_waiters (p s) @ [t]"
    using W t waits(6) by (auto simp: Channel_WriteSelf_def Channel_update_eq Let_def call_state_def find_Some_iff
        split: option.splits)
  moreover have "ch_messages (p' (other s)) =
      ch_messages (p (other s)) @ unanswered ws (p (other s)) (MessagePacket_set_txid (w_txid (ws' t)) m)"
    using Channel_Call_messages [OF assms(1,2) C refl, of "other s"] by (simp add: messages_at_def)
  ultimately show ?thesis using C waits(4,5) by (intro exI [of _ txid] exI [of _ p']) simp
qed (use assms in simp_all)

text \<open>A fresh channel, a message and a waiting call, for the examples.\<close>

definition new_channel :: "side \<Rightarrow> unit channel" where
  "new_channel = (case Channel_Create (\<lambda>_. True) 1024 of (Inr p, _) \<Rightarrow> p | _ \<Rightarrow> undefined)"

definition no_waiters :: waiters where
  "no_waiters = (\<lambda>_. MessageWaiter_new)"

lemma new_channel_create: "Channel_Create (\<lambda>_. True) 1024 = (Inr new_channel, 1026)"
  by (simp add: new_channel_def Channel_Create_def Let_def Channel_new_def GenerateKernelObjectId_def)

lemma new_channel_reach: "channel_reach idle_observer_ops (new_channel, no_waiters, ()) no_messages no_messages"
  by (rule channel_reach.create [OF new_channel_create]) (simp_all add: no_waiters_def MessageWaiter_new_def)

lemma new_channel_end:
  "d_koid (new_channel E0) = 1024" "d_koid (new_channel E1) = 1025" "p_peer (new_channel s)" "ch_waiters (new_channel s) = []"
  "ch_owner (new_channel s) = 0" "ch_messages (new_channel s) = []" "ch_txid (new_channel s) = 0"
  by (cases s; simp add: new_channel_def Channel_Create_def Let_def Channel_new_def GenerateKernelObjectId_def
      Channel_Init_def)+

lemma new_channel_write:
  obtains p w where "Channel_Write idle_observer_ops 0 m E0 new_channel no_waiters () = (ZX_OK, p, no_waiters, w)"
proof -
  have "fst (Channel_Write idle_observer_ops 0 m E0 new_channel no_waiters ()) = ZX_OK"
    "fst (snd (snd (Channel_Write idle_observer_ops 0 m E0 new_channel no_waiters ()))) = no_waiters"
    by (simp_all add: Channel_Write_def Channel_WriteSelf_def new_channel_end Channel_update_eq)
  then show thesis using that by (metis prod.collapse)
qed

lemma example_message: "\<exists>m. message_ok m \<and> mp_data_size m = 5"
proof -
  obtain p n' where e: "MessagePacket_Create (\<lambda>_ _. 0) (mem_of [1, 2, 3, 4, 5]) 0 5 2 pmm_one_page = (Inr p, n')"
    using one_page_create by blast
  then show ?thesis using MessagePacket_Create_ok [OF pmm_one_page_inv e] by auto
qed

lemma example_call:
  "\<exists>p ws w q m. channel_reach idle_observer_ops (p, ws, w) q no_messages \<and> ch_waiters (p E0) = [7] \<and> ch_waiters (p E1) = [] \<and>
     p_peer (p E0) \<and> MessagePacket_get_txid m = w_txid (ws 7)"
proof -
  obtain m where m: "message_ok m" "mp_data_size m = 5" using example_message by blast
  have i: "channel_inv new_channel no_waiters" using channel_reach_ok [OF new_channel_reach] by simp
  have idle: "w_channel (no_waiters 7) = None" by (simp add: no_waiters_def MessageWaiter_new_def)
  obtain txid p' ws' w' where C: "Channel_Call idle_observer_ops 0 m 7 E0 new_channel no_waiters () = Some (Call_waits, p', ws', w')"
      "ch_waiters (p' E0) = [7]" "w_txid (ws' 7) = txid"
    using Channel_Call_sends [OF i _ idle, of E0 0 idle_observer_ops m "()"] by (auto simp: new_channel_end)
  have "p_peer (p' E0) \<and> ch_waiters (p' E1) = []"
    using C(1) by (auto simp: Channel_Call_def BeginWait_def idle Let_def new_channel_end Channel_WriteSelf_def
        Channel_update_eq split: option.splits)
  moreover have "MessagePacket_get_txid (MessagePacket_set_txid txid m) = w_txid (ws' 7)"
    using set_txid_ok(3) [OF m(1)] m(2) C(3) by simp
  moreover have "channel_step idle_observer_ops (new_channel, no_waiters, ())
      (messages_at (other E0) (unanswered no_waiters (new_channel (other E0)) (MessagePacket_set_txid (w_txid (ws' 7)) m)))
      no_messages (p', ws', w')"
    by (rule channel_step.call [OF C(1)]) (simp_all add: new_channel_end)
  from channel_reach.step [OF new_channel_reach this]
  have "\<exists>q. channel_reach idle_observer_ops (p', ws', w') q no_messages" by (auto simp: no_messages_def)
  ultimately show ?thesis using C(2) by blast
qed

section \<open>Properties\<close>

text \<open>C6. In every history of a channel, with any interleaving of writes, reads, calls, replies, time-outs,
  thread exits and closes, as long as no call fails with \<open>ZX_ERR_BAD_HANDLE\<close> and fewer than \<open>2 ^ 31\<close> threads
  wait on an endpoint that is called, the invariant holds and each endpoint is a queue: the messages ever queued at
  it are exactly those read from it, in order, followed by those it still holds, whose number is the
  message count and whose presence is the readable signal.\<close>

theorem channel_history_fifo:
  assumes "channel_reach ops (p, ws, w) queued taken"
  shows "queued s = taken s @ ch_messages (p s) \<and> ch_message_count (p s) = length (queued s) - length (taken s) \<and>
    (has_signal (d_signals (p s)) ZX_CHANNEL_READABLE \<longleftrightarrow> queued s \<noteq> taken s)"
proof -
  note R = channel_reach_ok [OF assms]
  have e: "end_ok (p s)" and q: "queued s = taken s @ ch_messages (p s)"
    using R channel_invD(3) [of p ws s] by simp_all
  have "has_signal (d_signals (p s)) ZX_CHANNEL_READABLE \<longleftrightarrow> bit (d_signals (p s)) 0" by simp
  with e q show ?thesis by (simp add: end_ok_def)
qed

theorem channel_history_fifo_witness:
  "\<forall>m. \<exists>p w. Channel_Write idle_observer_ops 0 m E0 new_channel no_waiters () = (ZX_OK, p, no_waiters, w) \<and>
     ch_messages (p E1) = [m] \<and> ch_message_count (p E1) = 1 \<and> has_signal (d_signals (p E1)) ZX_CHANNEL_READABLE"
proof
  fix m
  obtain p w where W: "Channel_Write idle_observer_ops 0 m E0 new_channel no_waiters () = (ZX_OK, p, no_waiters, w)"
    by (rule new_channel_write)
  have u: "unanswered no_waiters (new_channel E1) m = [m]"
    by (simp add: unanswered_def answers_def new_channel_end)
  have "channel_reach idle_observer_ops (p, no_waiters, w)
      (\<lambda>t. no_messages t @ messages_at (other E0) [m] t) (\<lambda>t. no_messages t @ no_messages t)"
    by (rule channel_reach.step [OF new_channel_reach channel_step.write_msg [OF W]]) (simp add: u)
  from channel_history_fifo [OF this, of E1] W show
    "\<exists>p w. Channel_Write idle_observer_ops 0 m E0 new_channel no_waiters () = (ZX_OK, p, no_waiters, w) \<and>
     ch_messages (p E1) = [m] \<and> ch_message_count (p E1) = 1 \<and> has_signal (d_signals (p E1)) ZX_CHANNEL_READABLE"
    by (intro exI [of _ p] exI [of _ w]) (simp add: no_messages_def messages_at_def)
qed

text \<open>C7. A call returns its reply: in every history in which no call has failed with \<open>ZX_ERR_BAD_HANDLE\<close>
  and no call was made with \<open>2 ^ 31\<close> threads waiting, when the peer writes a message with the transaction
  id of a waiting call, the message bypasses the queues and reaches exactly that thread; its event is
  signalled and the call, unless interrupted, then returns \<open>ZX_OK\<close> with this message and waits no more.\<close>

theorem channel_call_reply:
  assumes "channel_reach ops (p, ws, w) queued taken" "t \<in> set (ch_waiters (p s))"
    "owner = ch_owner (p (other s))" "MessagePacket_get_txid m = w_txid (ws t)" "es \<noteq> ZX_ERR_INTERNAL_INTR_RETRY"
  shows "\<exists>p1 ws1 p2 ws2. Channel_Write ops owner m (other s) p ws w = (ZX_OK, p1, ws1, w) \<and>
    (\<forall>u. ch_messages (p1 u) = ch_messages (p u)) \<and> (\<forall>u. u \<noteq> t \<longrightarrow> ws1 u = ws u) \<and> w_event (ws1 t) \<and>
    ResumeInterruptedCall es t s p1 ws1 = Some ((ZX_OK, Some m), p2, ws2) \<and>
    t \<notin> set (ch_waiters (p2 s)) \<and> w_channel (ws2 t) = None"
proof -
  have i: "channel_inv p ws" using channel_reach_ok [OF assms(1)] by simp
  note e = channel_invD [OF i, of s]
  have ch: "w_channel (ws t) = Some (d_koid (p s))" and pe: "p_peer (p (other s))" and d: "distinct (ch_waiters (p s))"
    using e(1,5) assms(2) by (auto simp: wait_ok_def waiter_ok_def)
  have f: "find (\<lambda>u. w_txid (ws u) = MessagePacket_get_txid m) (ch_waiters (p s)) = Some t"
  proof (rule find_the_only [OF assms(2)])
    show "w_txid (ws t) = MessagePacket_get_txid m" by (simp add: assms(4))
    show "u = t" if "u \<in> set (ch_waiters (p s))" "w_txid (ws u) = MessagePacket_get_txid m" for u
      using e(5) that assms(2,4) by (auto simp: wait_ok_def dest: inj_onD)
  qed
  define p1 where "p1 = p(s := (p s)\<lparr>ch_waiters := remove1 t (ch_waiters (p s))\<rparr>)"
  define ws1 where "ws1 = ws(t := Deliver m (ws t))"
  have W: "Channel_Write ops owner m (other s) p ws w = (ZX_OK, p1, ws1, w)"
    using pe f by (simp add: Channel_Write_def assms(3) Channel_WriteSelf_def p1_def ws1_def)
  then have i1: "channel_inv p1 ws1" by (rule Channel_Write_inv [OF i])
  have ch1: "w_channel (ws1 t) = Some (d_koid (p1 s))" using ch by (simp add: ws1_def p1_def Deliver_def)
  define p2 where "p2 = p1(s := RemoveWaiter t (p1 s))"
  define ws2 where "ws2 = ws1(t := (ws1 t)\<lparr>w_msg := None, w_channel := None\<rparr>)"
  have v: "w_status (ws1 t) = ZX_OK" "w_msg (ws1 t) = Some m" "w_event (ws1 t)" "\<forall>u. u \<noteq> t \<longrightarrow> ws1 u = ws u"
    by (simp_all add: ws1_def Deliver_def)
  have R: "ResumeInterruptedCall es t s p1 ws1 = Some ((ZX_OK, Some m), p2, ws2)"
    using ResumeInterruptedCall_ok [OF i1 ch1, of es] assms(5) v unfolding p2_def ws2_def by (simp only: if_False)
  have "t \<notin> set (ch_waiters (p2 s))" "w_channel (ws2 t) = None" "\<forall>u. ch_messages (p1 u) = ch_messages (p u)"
    using d by (simp_all add: p2_def ws2_def p1_def RemoveWaiter_def)
  with W R v(3,4) show ?thesis by blast
qed

theorem channel_call_reply_witness:
  "\<exists>p ws w m p1 ws1 p2 ws2. ch_waiters (p E0) = [7] \<and>
     Channel_Write idle_observer_ops (ch_owner (p E1)) m E1 p ws w = (ZX_OK, p1, ws1, w) \<and>
     ResumeInterruptedCall ZX_OK 7 E0 p1 ws1 = Some ((ZX_OK, Some m), p2, ws2) \<and> ch_waiters (p2 E0) = []"
proof -
  obtain p ws w q m where R: "channel_reach idle_observer_ops (p, ws, w) q no_messages" "ch_waiters (p E0) = [7]"
      "MessagePacket_get_txid m = w_txid (ws 7)"
    using example_call by blast
  obtain p1 ws1 p2 ws2 where E: "Channel_Write idle_observer_ops (ch_owner (p E1)) m E1 p ws w = (ZX_OK, p1, ws1, w)"
      "ResumeInterruptedCall ZX_OK 7 E0 p1 ws1 = Some ((ZX_OK, Some m), p2, ws2)" "7 \<notin> set (ch_waiters (p2 E0))"
    using channel_call_reply [OF R(1), of 7 E0 "ch_owner (p E1)" m ZX_OK] R(2,3) by auto
  have i: "channel_inv p ws" using channel_reach_ok [OF R(1)] by simp
  have "set (ch_waiters (p2 E0)) \<subseteq> {7}"
    using E(1,2) R(2,3) by (auto simp: Channel_Write_def Channel_WriteSelf_def ResumeInterruptedCall_def EndWait_def
        waiters_erase_def Let_def split: if_splits dest: notin_set_remove1)
  with E R(2) show ?thesis by (metis set_empty subset_singletonD insertI1)
qed

text \<open>C27. A call sends its request under a fresh transaction id, when fewer than \<open>2 ^ 31\<close> threads wait on its
  endpoint and no earlier call has failed with \<open>ZX_ERR_BAD_HANDLE\<close>: the search for an id ends, the id has the
  high bit and no other waiting call has it, the thread joins the waiters of the endpoint, and the peer
  gets the message with its first four bytes replaced by the id (queued, unless it answers a call there).\<close>

theorem channel_call_request:
  assumes "channel_reach ops (p, ws, w) queued taken" "length (ch_waiters (p s)) < 2 ^ 31" "w_channel (ws t) = None"
    "owner = ch_owner (p s)" "p_peer (p s)" "message_ok m" "4 \<le> mp_data_size m"
  shows "\<exists>txid m' p' ws' w'. Channel_Call ops owner m t s p ws w = Some (Call_waits, p', ws', w') \<and>
    bit txid 31 \<and> txid \<notin> (\<lambda>u. w_txid (ws u)) ` set (ch_waiters (p s)) \<and>
    ch_waiters (p' s) = ch_waiters (p s) @ [t] \<and> w_txid (ws' t) = txid \<and> w_channel (ws' t) = Some (d_koid (p s)) \<and>
    ch_messages (p' (other s)) = ch_messages (p (other s)) @ unanswered ws (p (other s)) m' \<and>
    MessagePacket_get_txid m' = txid \<and> payload m' = bytes_of_u32 txid @ drop 4 (payload m)"
proof -
  have "channel_inv p ws" using channel_reach_ok [OF assms(1)] by simp
  from Channel_Call_sends [OF this assms(2-5), of ops m w] obtain txid p' ws' w' where
    C: "Channel_Call ops owner m t s p ws w = Some (Call_waits, p', ws', w')" "bit txid 31"
      "txid \<notin> (\<lambda>u. w_txid (ws u)) ` set (ch_waiters (p s))" "ch_waiters (p' s) = ch_waiters (p s) @ [t]"
      "w_txid (ws' t) = txid" "w_channel (ws' t) = Some (d_koid (p s))"
      "ch_messages (p' (other s)) = ch_messages (p (other s)) @ unanswered ws (p (other s)) (MessagePacket_set_txid txid m)"
    by blast
  then show ?thesis
    using set_txid_ok(2,3) [OF assms(6,7), of txid]
    by (intro exI [of _ txid] exI [of _ "MessagePacket_set_txid txid m"] exI [of _ p'] exI [of _ ws'] exI [of _ w']) simp
qed

theorem channel_call_request_witness:
  "\<exists>m txid p' ws' w'. message_ok m \<and>
     Channel_Call idle_observer_ops 0 m 7 E0 new_channel no_waiters () = Some (Call_waits, p', ws', w') \<and>
     ch_waiters (p' E0) = [7] \<and> w_txid (ws' 7) = txid \<and> bit txid 31 \<and> length (ch_messages (p' E1)) = 1"
proof -
  obtain m where m: "message_ok m" "mp_data_size m = 5" using example_message by blast
  have "w_channel (no_waiters 7) = None" by (simp add: no_waiters_def MessageWaiter_new_def)
  from channel_call_request [OF new_channel_reach _ this, of E0 0 m] m show ?thesis
    by (fastforce simp: new_channel_end unanswered_def answers_def)
qed

text \<open>C8. Closing an endpoint leaves no call waiting: in every history in which no call has failed with
  \<open>ZX_ERR_BAD_HANDLE\<close> and no call was made with \<open>2 ^ 31\<close> threads waiting, the threads waiting on the closed
  endpoint are woken with \<open>ZX_ERR_CANCELED\<close> and those waiting on its peer with \<open>ZX_ERR_PEER_CLOSED\<close>, their
  calls return that status without a message, and the surviving endpoint gets the peer-closed signal.\<close>

theorem channel_close_wakes_callers:
  assumes "channel_reach ops (p, ws, w) queued taken" "Channel_on_zero_handles ops s p (ws, w) = (p', ws', w')"
    "t \<in> set (ch_waiters (p u))" "es \<noteq> ZX_ERR_INTERNAL_INTR_RETRY"
  shows "w_event (ws' t) \<and> ch_waiters (p' v) = [] \<and>
    (\<exists>p2 ws2. ResumeInterruptedCall es t u p' ws' =
       Some ((if u = s then ZX_ERR_CANCELED else ZX_ERR_PEER_CLOSED, None), p2, ws2)) \<and>
    has_signal (d_signals (p' (other s))) ZX_CHANNEL_PEER_CLOSED \<and>
    \<not> has_signal (d_signals (p' (other s))) ZX_CHANNEL_WRITABLE"
proof -
  have i: "channel_inv p ws" using channel_reach_ok [OF assms(1)] by simp
  note e = channel_invD [OF i, of u]
  have t: "waiter_ok ws (d_koid (p u)) t" and "p_peer (p u)" using e(5) assms(3) by (auto simp: wait_ok_def)
  then have pe: "p_peer (p s)" using channel_invD(1) [OF i, of s] side_cases [of u s] by auto
  note eq = Channel_on_zero_handles_eq [OF i pe assms(2)]
  have i': "channel_inv p' ws'" by (rule Channel_on_zero_handles_inv [OF i assms(2)])
  have "t \<notin> set (ch_waiters (p (other u)))" using channel_waiters_disjoint [OF i, of u] assms(3) by blast
  then have v: "ws' t = MessageWaiter_Cancel (if u = s then ZX_ERR_CANCELED else ZX_ERR_PEER_CLOSED) (ws t)"
    using assms(3) side_cases [of u s] by (auto simp: eq(2) closed_waiters_def)
  have "d_koid (p' u) = d_koid (p u)" using side_cases [of u s] by (auto simp: eq(1))
  then have ch: "w_channel (ws' t) = Some (d_koid (p' u))" using t by (simp add: v waiter_ok_def MessageWaiter_Cancel_def)
  have "w_msg (ws' t) = None" "w_status (ws' t) = (if u = s then ZX_ERR_CANCELED else ZX_ERR_PEER_CLOSED)" "w_event (ws' t)"
    using t by (simp_all add: v waiter_ok_def MessageWaiter_Cancel_def)
  moreover have "ch_waiters (p' v) = []" for v using side_cases [of v s] by (auto simp: eq(1))
  moreover have "has_signal (d_signals (p' (other s))) ZX_CHANNEL_PEER_CLOSED"
    "\<not> has_signal (d_signals (p' (other s))) ZX_CHANNEL_WRITABLE" by (simp_all add: eq(1))
  ultimately show ?thesis using ResumeInterruptedCall_ok [OF i' ch, of es] assms(4) by simp
qed

theorem channel_close_wakes_callers_witness:
  "\<exists>p ws w p' ws' w' p2 ws2. ch_waiters (p E0) = [7] \<and>
     Channel_on_zero_handles idle_observer_ops E1 p (ws, w) = (p', ws', w') \<and>
     ResumeInterruptedCall ZX_OK 7 E0 p' ws' = Some ((ZX_ERR_PEER_CLOSED, None), p2, ws2)"
proof -
  obtain p ws w q where R: "channel_reach idle_observer_ops (p, ws, w) q no_messages" "ch_waiters (p E0) = [7]"
    using example_call by blast
  obtain p' ws' w' where Z: "Channel_on_zero_handles idle_observer_ops E1 p (ws, w) = (p', ws', w')" by (metis prod_cases3)
  from channel_close_wakes_callers [OF R(1) Z, of 7 E0 ZX_OK E0] R(2) Z show ?thesis by fastforce
qed

text \<open>C36. A call that fails because the handle changed owner leaves its thread marked as waiting, without
  being listed: the next call of the thread on any channel kills its process, and resuming the failed
  call erases a waiter that is on no list, which has no defined result.\<close>

theorem Call_bad_handle_leak:
  assumes "channel_inv p ws" "w_channel (ws t) = None" "owner \<noteq> ch_owner (p s)" "es \<noteq> ZX_ERR_INTERNAL_INTR_RETRY"
  shows "\<exists>ws'. Channel_Call ops owner m t s p ws w = Some (Call_returns ZX_ERR_BAD_HANDLE, p, ws', w) \<and>
    Channel_Call ops' owner' m' t s' p' ws' w' = Some (Call_kills_process, p', ws', w') \<and>
    ResumeInterruptedCall es t s p ws' = None"
proof -
  let ?x = "(ws t)\<lparr>w_status := ZX_ERR_TIMED_OUT, w_channel := Some (d_koid (p s)), w_event := False\<rparr>"
  have "t \<notin> set (ch_waiters (p s))"
    using channel_invD(5) [OF assms(1), of s] assms(2) by (auto simp: wait_ok_def waiter_ok_def)
  then have "ResumeInterruptedCall es t s p (ws(t := ?x)) = None"
    using assms(4) by (simp add: ResumeInterruptedCall_def MessageWaiter_Wait_def EndWait_def waiters_erase_def)
  moreover have "Channel_Call ops owner m t s p ws w = Some (Call_returns ZX_ERR_BAD_HANDLE, p, ws(t := ?x), w)"
    using assms(2,3) by (simp add: Channel_Call_def BeginWait_def)
  moreover have "Channel_Call ops' owner' m' t s' p' (ws(t := ?x)) w' = Some (Call_kills_process, p', ws(t := ?x), w')"
    by (simp add: Channel_Call_def BeginWait_def)
  ultimately show ?thesis by blast
qed

theorem Call_bad_handle_leak_witness:
  "\<forall>m. \<exists>ws'. Channel_Call idle_observer_ops 5 m 7 E0 new_channel no_waiters () =
       Some (Call_returns ZX_ERR_BAD_HANDLE, new_channel, ws', ()) \<and>
     ResumeInterruptedCall ZX_ERR_TIMED_OUT 7 E0 new_channel ws' = None"
proof
  fix m
  have i: "channel_inv new_channel no_waiters" using channel_reach_ok [OF new_channel_reach] by simp
  have "w_channel (no_waiters 7) = None" by (simp add: no_waiters_def MessageWaiter_new_def)
  from Call_bad_handle_leak [OF i this, of 5 E0 ZX_ERR_TIMED_OUT idle_observer_ops m "()"
      idle_observer_ops 0 m E0 new_channel "()"] show
    "\<exists>ws'. Channel_Call idle_observer_ops 5 m 7 E0 new_channel no_waiters () =
       Some (Call_returns ZX_ERR_BAD_HANDLE, new_channel, ws', ()) \<and>
     ResumeInterruptedCall ZX_ERR_TIMED_OUT 7 E0 new_channel ws' = None"
    by (auto simp: new_channel_end)
qed

text \<open>The search for a transaction id ends whenever fewer than \<open>2 ^ 31\<close> ids are in use, after at most as
  many steps, with the first unused id after the counter; the counter wraps around and the high bit is
  always set, so the ids reserved for user space are never chosen.\<close>

theorem alloc_txid_terminates:
  assumes "length used < 2 ^ 31"
  shows "\<exists>k < 2 ^ 31. alloc_txid c used = Some ((c + of_nat (Suc k)) OR 0x80000000, c + of_nat (Suc k)) \<and>
    (c + of_nat (Suc k)) OR 0x80000000 \<notin> set used \<and> bit ((c + of_nat (Suc k)) OR 0x80000000 :: u32) 31 \<and>
    (\<forall>i < k. (c + of_nat (Suc i)) OR 0x80000000 \<in> set used)"
proof -
  obtain k where k: "k < 2 ^ 31" "\<forall>i < k. (c + of_nat (Suc i)) OR 0x80000000 \<in> set used"
    "alloc_txid c used = Some ((c + of_nat (Suc k)) OR 0x80000000, c + of_nat (Suc k))"
    "(c + of_nat (Suc k)) OR 0x80000000 \<notin> set used"
    using assms by (rule alloc_txid_ok)
  show ?thesis using bit_txid_high k by blast
qed

theorem alloc_txid_terminates_witness:
  "\<exists>k < 2 ^ 31. alloc_txid 0xFFFFFFFE [0xFFFFFFFF, 0x80000000] =
     Some ((0xFFFFFFFE + of_nat (Suc k)) OR 0x80000000, 0xFFFFFFFE + of_nat (Suc k))"
  using alloc_txid_terminates [where used = "[0xFFFFFFFF, 0x80000000]" and c = "0xFFFFFFFE"] by fastforce

end
