(* ===== verification/Zx_Pow2.thy ===== *)
theory Zx_Pow2
  imports Zx_Prelude
begin

unbundle bit_operations_syntax

text \<open>
  Powers of two, \<^verbatim>\<open>kernel/include/pow2.h\<close>. An unsigned C integer is a natural number below
  \<open>2 ^ 32\<close> (\<open>2 ^ 64\<close> for \<^verbatim>\<open>ulong\<close>), with every wrap-around written out.
\<close>

type_synonym uint = nat

definition ispow2 :: "uint \<Rightarrow> bool" where
  "ispow2 val \<longleftrightarrow> ((val + 2 ^ 32 - 1) mod 2 ^ 32) AND val = 0"

text \<open>The number of leading zero bits of a value other than zero, in \<open>w\<close> bits.\<close>

definition builtin_clz :: "nat \<Rightarrow> nat \<Rightarrow> nat" where
  "builtin_clz w val = length (takeWhile (\<lambda>i. \<not> bit val i) (rev [0..<w]))"

definition log2_uint :: "uint \<Rightarrow> bool \<Rightarrow> nat" where
  "log2_uint val ceiling =
     (if val = 0 then 0
      else let l = 32 - 1 - builtin_clz 32 val in if ceiling \<and> val - 2 ^ l > 0 then l + 1 else l)"

definition log2_uint_floor :: "uint \<Rightarrow> nat" where
  "log2_uint_floor val = log2_uint val False"

definition log2_uint_ceil :: "uint \<Rightarrow> nat" where
  "log2_uint_ceil val = log2_uint val True"

definition log2_ulong :: "nat \<Rightarrow> bool \<Rightarrow> nat" where
  "log2_ulong val ceiling =
     (if val = 0 then 0
      else let l = 64 - 1 - builtin_clz 64 val in if ceiling \<and> val - 2 ^ l > 0 then l + 1 else l)"

definition log2_ulong_floor :: "nat \<Rightarrow> nat" where
  "log2_ulong_floor val = log2_ulong val False"

definition log2_ulong_ceil :: "nat \<Rightarrow> nat" where
  "log2_ulong_ceil val = log2_ulong val True"

definition valpow2 :: "nat \<Rightarrow> uint" where
  "valpow2 valp2 = 2 ^ valp2 mod 2 ^ 32"

definition divpow2 :: "uint \<Rightarrow> nat \<Rightarrow> uint" where
  "divpow2 val divp2 = drop_bit divp2 val"

definition modpow2 :: "uint \<Rightarrow> nat \<Rightarrow> uint" where
  "modpow2 val modp2 = val AND ((2 ^ modp2 mod 2 ^ 32 + 2 ^ 32 - 1) mod 2 ^ 32)"

definition round_up_pow2_u32 :: "uint \<Rightarrow> uint" where
  "round_up_pow2_u32 v =
     (let v = (v + 2 ^ 32 - 1) mod 2 ^ 32;
          v = v OR drop_bit 1 v;
          v = v OR drop_bit 2 v;
          v = v OR drop_bit 4 v;
          v = v OR drop_bit 8 v;
          v = v OR drop_bit 16 v in
      (v + 1) mod 2 ^ 32)"

section \<open>Reference definitions\<close>

lemma bit_high_clear: "bit val i \<Longrightarrow> 2 ^ i \<le> (val :: nat)"
  by (rule ccontr) (simp add: bit_iff_odd)

lemma bit_top:
  assumes "2 ^ l \<le> val" "val < 2 ^ Suc l"
  shows "bit (val :: nat) l"
proof -
  have "val div 2 ^ l = 1" using assms by (simp add: div_nat_eqI)
  then show ?thesis by (simp add: bit_iff_odd)
qed

lemma builtin_clz_eq:
  assumes "2 ^ l \<le> val" "val < 2 ^ Suc l" "l < w"
  shows "builtin_clz w val = w - 1 - l"
proof -
  have "[0..<w] = [0..<l] @ l # [Suc l..<w]"
    using assms(3) by (metis le_add_diff_inverse less_imp_le upt_add_eq_append upt_conv_Cons zero_le)
  then have r: "rev [0..<w] = rev [Suc l..<w] @ l # rev [0..<l]" by simp
  have "\<not> bit val i" if "i \<in> set (rev [Suc l..<w])" for i
  proof
    assume "bit val i"
    then have "2 ^ i \<le> val" by (rule bit_high_clear)
    moreover have "(2 :: nat) ^ Suc l \<le> 2 ^ i" using that by (intro power_increasing) auto
    ultimately show False using assms(2) by linarith
  qed
  then have "takeWhile (\<lambda>i. \<not> bit val i) (rev [0..<w]) = rev [Suc l..<w]"
    unfolding r using bit_top [OF assms(1,2)] by (subst takeWhile_append2) auto
  then show ?thesis by (simp add: builtin_clz_def)
qed

text \<open>Subtracting one without wrap-around.\<close>

lemma pred_mod: "0 < v \<Longrightarrow> v \<le> 2 ^ 32 \<Longrightarrow> (v + 2 ^ 32 - 1) mod 2 ^ 32 = v - 1" for v :: nat
  by (cases v) (simp_all del: power_Suc)

lemma modpow2_eq: "k < 32 \<Longrightarrow> modpow2 val k = val mod 2 ^ k"
proof -
  assume k: "k < 32"
  then have "(2 :: nat) ^ k < 2 ^ 32" by (intro power_strict_increasing) auto
  then have "(2 ^ k mod 2 ^ 32 + 2 ^ 32 - 1) mod 2 ^ 32 = (2 ^ k - 1 :: nat)"
    by (simp add: mod_if)
  then show ?thesis by (simp add: modpow2_def take_bit_eq_mask mask_eq_exp_minus_1 flip: take_bit_eq_mod)
qed

lemma ispow2_iff:
  assumes "val < 2 ^ 32"
  shows "ispow2 val \<longleftrightarrow> val = 0 \<or> (\<exists>k < 32. val = 2 ^ k)"
proof (cases "val = 0")
  case False
  then have "(val + 2 ^ 32 - 1) mod 2 ^ 32 = val - 1" using assms by (simp add: mod_if)
  then have i: "ispow2 val \<longleftrightarrow> val AND (val - 1) = 0" by (simp add: ispow2_def and.commute)
  have "\<exists>k < 32. val = 2 ^ k" if v: "val AND (val - 1) = 0"
  proof -
    obtain k where "val = 2 ^ k" using nat_and_pred_power [OF _ v] False by blast
    with assms show ?thesis using power_less_imp_less_exp [of "2 :: nat" k 32] by auto
  qed
  with i False show ?thesis using nat_power_and_pred by metis
qed (simp add: ispow2_def)

lemma log2_uint_floor_eq:
  assumes "2 ^ l \<le> val" "val < 2 ^ Suc l" "l < 32"
  shows "log2_uint_floor val = l"
  using builtin_clz_eq [OF assms] assms by (auto simp: log2_uint_floor_def log2_uint_def)

lemma log2_uint_floor_pow2: "k < 32 \<Longrightarrow> log2_uint_floor (2 ^ k) = k"
  by (rule log2_uint_floor_eq) auto

lemma valpow2_eq: "k < 32 \<Longrightarrow> valpow2 k = 2 ^ k"
  using power_strict_increasing [of k 32 "2 :: nat"] by (simp add: valpow2_def)

lemma smear_step:
  fixes x u :: nat
  assumes "\<And>n. bit x n \<longleftrightarrow> (\<exists>d < j. bit u (n + d))"
  shows "bit (x OR drop_bit j x) n \<longleftrightarrow> (\<exists>d < 2 * j. bit u (n + d))"
proof -
  have "(\<exists>d < 2 * j. bit u (n + d)) \<longleftrightarrow> (\<exists>d < j. bit u (n + d)) \<or> (\<exists>d < j. bit u (n + j + d))"
  proof
    assume "\<exists>d < 2 * j. bit u (n + d)"
    then obtain d where d: "d < 2 * j" "bit u (n + d)" by blast
    show "(\<exists>d < j. bit u (n + d)) \<or> (\<exists>d < j. bit u (n + j + d))"
    proof (cases "d < j")
      case False
      with d have "d - j < j" "bit u (n + j + (d - j))" by auto
      then show ?thesis by blast
    qed (use d in blast)
  next
    assume "(\<exists>d < j. bit u (n + d)) \<or> (\<exists>d < j. bit u (n + j + d))"
    then show "\<exists>d < 2 * j. bit u (n + d)" by (elim disjE exE conjE) (force simp: add.assoc)+
  qed
  then show ?thesis by (simp add: bit_or_iff bit_drop_bit_eq assms add.commute)
qed

lemma smear_ok:
  fixes u :: nat
  assumes "u < 2 ^ 32" "v1 = u OR drop_bit 1 u" "v2 = v1 OR drop_bit 2 v1" "v3 = v2 OR drop_bit 4 v2"
    "v4 = v3 OR drop_bit 8 v3" "v5 = v4 OR drop_bit 16 v4"
  shows "u = 0 \<Longrightarrow> v5 = 0" "2 ^ l \<le> u \<Longrightarrow> u < 2 ^ Suc l \<Longrightarrow> v5 = 2 ^ Suc l - 1"
proof -
  have "bit u n \<longleftrightarrow> (\<exists>d < 1. bit u (n + d))" for n by simp
  from smear_step [of u 1 u, OF this] have "bit v1 n \<longleftrightarrow> (\<exists>d < 2. bit u (n + d))" for n by (simp add: assms(2))
  from smear_step [of v1 2 u, OF this] have "bit v2 n \<longleftrightarrow> (\<exists>d < 4. bit u (n + d))" for n by (simp add: assms(3))
  from smear_step [of v2 4 u, OF this] have "bit v3 n \<longleftrightarrow> (\<exists>d < 8. bit u (n + d))" for n by (simp add: assms(4))
  from smear_step [of v3 8 u, OF this] have "bit v4 n \<longleftrightarrow> (\<exists>d < 16. bit u (n + d))" for n by (simp add: assms(5))
  from smear_step [of v4 16 u, OF this] have v5: "bit v5 n \<longleftrightarrow> (\<exists>d < 32. bit u (n + d))" for n by (simp add: assms(6))
  show "v5 = 0" if "u = 0" by (rule bit_eqI) (simp add: v5 that)
  show "v5 = 2 ^ Suc l - 1" if l: "2 ^ l \<le> u" "u < 2 ^ Suc l"
  proof -
    have "(2 :: nat) ^ l < 2 ^ 32" using l(1) assms(1) by linarith
    then have l32: "l < 32" by (rule power_less_imp_less_exp [rotated]) simp
    have "bit v5 n \<longleftrightarrow> n < Suc l" for n
    proof
      assume "bit v5 n"
      then obtain d where "bit u (n + d)" unfolding v5 by blast
      then have "2 ^ (n + d) < (2 :: nat) ^ Suc l" using bit_high_clear [of u "n + d"] l(2) by linarith
      then have "n + d < Suc l" by (rule power_less_imp_less_exp [rotated]) simp
      then show "n < Suc l" by simp
    next
      assume "n < Suc l"
      then have "l - n < 32" "bit u (n + (l - n))" using bit_top [OF l] l32 by auto
      then show "bit v5 n" unfolding v5 by blast
    qed
    then have "v5 = mask (Suc l)" by (intro bit_eqI) (simp add: bit_mask_iff)
    then show ?thesis by (simp only: mask_eq_exp_minus_1)
  qed
qed

lemma pow2_bracket: "0 < u \<Longrightarrow> \<exists>l. 2 ^ l \<le> u \<and> u < 2 ^ Suc l" for u :: nat
  using ex_power_ivl1 [of 2 u] by simp

lemma least_pow2:
  assumes "2 ^ l \<le> u" "u < 2 ^ Suc l"
  shows "(LEAST p. \<exists>k. p = 2 ^ k \<and> Suc u \<le> p) = 2 ^ Suc l"
proof (rule Least_equality)
  show "\<exists>k. (2 :: nat) ^ Suc l = 2 ^ k \<and> Suc u \<le> 2 ^ Suc l" using assms(2) by (intro exI [of _ "Suc l"]) simp
  fix p
  assume "\<exists>k. p = 2 ^ k \<and> Suc u \<le> p"
  then obtain k where k: "p = 2 ^ k" "Suc u \<le> 2 ^ k" by blast
  with assms(1) have "2 ^ l < (2 :: nat) ^ k" by linarith
  then have "l < k" by (rule power_less_imp_less_exp [rotated]) simp
  then show "2 ^ Suc l \<le> p" unfolding k(1) by (intro power_increasing) auto
qed

text \<open>The bit trick against its specification.\<close>

lemma round_up_pow2_u32_smear:
  assumes "u = (v + 2 ^ 32 - 1) mod 2 ^ 32"
  shows "u = 0 \<Longrightarrow> round_up_pow2_u32 v = 1" "2 ^ l \<le> u \<Longrightarrow> u < 2 ^ Suc l \<Longrightarrow> round_up_pow2_u32 v = 2 ^ Suc l mod 2 ^ 32"
proof -
  define v1 v2 v3 v4 v5 where "v1 = u OR drop_bit 1 u" and "v2 = v1 OR drop_bit 2 v1" and "v3 = v2 OR drop_bit 4 v2"
    and "v4 = v3 OR drop_bit 8 v3" and "v5 = v4 OR drop_bit 16 v4"
  have r: "round_up_pow2_u32 v = (v5 + 1) mod 2 ^ 32"
    by (simp only: round_up_pow2_u32_def Let_def v1_def v2_def v3_def v4_def v5_def assms)
  have u32: "u < 2 ^ 32" by (simp add: assms)
  note sm = smear_ok [OF u32 v1_def v2_def v3_def v4_def v5_def]
  show "round_up_pow2_u32 v = 1" if "u = 0" using sm(1) that by (simp add: r)
  show "round_up_pow2_u32 v = 2 ^ Suc l mod 2 ^ 32" if l: "2 ^ l \<le> u" "u < 2 ^ Suc l" using sm(2) [OF l] by (simp add: r)
qed

lemma round_up_pow2_u32_ok:
  assumes "0 < v" "v \<le> 2 ^ 31"
  shows "round_up_pow2_u32 v = (LEAST p. \<exists>k. p = 2 ^ k \<and> v \<le> p)"
proof -
  define u where "u = (v + 2 ^ 32 - 1) mod 2 ^ 32"
  have uv: "v = Suc u" "u < 2 ^ 31" using assms pred_mod [of v] by (simp_all add: u_def del: One_nat_def)
  note r = round_up_pow2_u32_smear [OF u_def]
  show ?thesis
  proof (cases "u = 0")
    case True
    have "(LEAST p. \<exists>k. p = 2 ^ k \<and> Suc 0 \<le> (p :: nat)) = 1" by (rule Least_equality) (auto intro: exI [of _ 0])
    with True r(1) show ?thesis unfolding uv(1) by simp
  next
    case False
    then obtain l where l: "2 ^ l \<le> u" "u < 2 ^ Suc l" using pow2_bracket by blast
    then have "(2 :: nat) ^ l < 2 ^ 31" using uv by linarith
    then have "l < 31" by (rule power_less_imp_less_exp [rotated]) simp
    then have "(2 :: nat) ^ Suc l < 2 ^ 32" by (intro power_strict_increasing) auto
    then show ?thesis using r(2) [OF l] least_pow2 [OF l] unfolding uv(1) by (simp only: mod_less)
  qed
qed

lemma round_up_pow2_u32_zero:
  assumes "v = 0 \<or> 2 ^ 31 < v" "v < 2 ^ 32"
  shows "round_up_pow2_u32 v = 0"
proof -
  define u where "u = (v + 2 ^ 32 - 1) mod 2 ^ 32"
  have "2 ^ 31 \<le> u" "u < 2 ^ Suc 31" using assms by (auto simp: u_def mod_if)
  from round_up_pow2_u32_smear(2) [OF u_def this] show ?thesis by simp
qed

section \<open>Properties\<close>

text \<open>C32. The bit trick of \<open>round_up_pow2_u32\<close> computes the least power of two that is not below its argument;
  it gives zero for zero, and for an argument above the largest 32-bit power of two.\<close>

theorem round_up_pow2_u32_correct:
  assumes "v < 2 ^ 32"
  shows "round_up_pow2_u32 v = (if v = 0 \<or> 2 ^ 31 < v then 0 else LEAST p. \<exists>k. p = 2 ^ k \<and> v \<le> p)"
proof (cases "v = 0 \<or> 2 ^ 31 < v")
  case True
  with round_up_pow2_u32_zero [OF True assms] show ?thesis by (simp only: if_True)
next
  case False
  then have "0 < v" "v \<le> 2 ^ 31" by simp_all
  with round_up_pow2_u32_ok [OF this] False show ?thesis by (simp only: if_False)
qed

theorem round_up_pow2_u32_correct_witness:
  "round_up_pow2_u32 5 = (LEAST p. \<exists>k. p = 2 ^ k \<and> 5 \<le> p) \<and> round_up_pow2_u32 (2 ^ 31 + 1) = 0"
  using round_up_pow2_u32_correct [of 5] round_up_pow2_u32_correct [of "2 ^ 31 + 1"] by simp

end
