(* ===== verification/Zx_P2ra.thy ===== *)
theory Zx_P2ra
  imports Zx_Pow2
begin

unbundle bit_operations_syntax

text \<open>
  The power-of-two range allocator, \<^verbatim>\<open>kernel/lib/pow2_range_allocator\<close>: ranges of integers (interrupt
  ids) are cut into aligned blocks whose sizes are powers of two, kept in one sorted list per size;
  freed blocks are merged with their buddies.

  The lists of the C code are lists; the block that an operation works on is removed from its list
  while it is a local variable. Allocations of bookkeeping succeed or fail as given by the argument
  \<open>ac\<close>, indexed by the attempt. The argument \<open>dbg\<close> says whether assertions are compiled in: a failed one
  has no result, like a loop that never ends. Of the assertions, only those on the chunk of a range that
  was just computed and on the block that a search just found are left out: the invariant implies them.
\<close>

section \<open>State\<close>

record p2ra_block =
  pb_bucket :: uint
  pb_start :: uint

record p2ra_range =
  pr_start :: uint
  pr_len :: uint

record p2ra_state =
  ps_ranges :: "p2ra_range list"
  ps_unused_blocks :: "p2ra_block list"
  ps_allocated_blocks :: "p2ra_block list"
  ps_free_block_buckets :: "p2ra_block list list"
  ps_bucket_count :: uint

definition p2ra_get_unused_block :: "bool \<Rightarrow> p2ra_state \<Rightarrow> p2ra_block option \<times> p2ra_state" where
  "p2ra_get_unused_block ok st =
     (case ps_unused_blocks st of
        b # bs \<Rightarrow> (Some b, st\<lparr>ps_unused_blocks := bs\<rparr>)
      | [] \<Rightarrow> (if ok then Some \<lparr>pb_bucket = 0, pb_start = 0\<rparr> else None, st))"

section \<open>Returning a block\<close>

text \<open>The block goes before the first one of its bucket with a larger start. The pair that might merge
  is the block and its predecessor or successor; with it comes the bucket without the two.\<close>

definition merge_pair ::
  "p2ra_block \<Rightarrow> p2ra_block list \<Rightarrow> p2ra_block list \<Rightarrow> (p2ra_block \<times> p2ra_block \<times> p2ra_block list) option" where
  "merge_pair block before after =
     (if pb_start block AND (2 * 2 ^ pb_bucket block - 1) \<noteq> 0
      then (if before = [] then None else Some (last before, block, butlast before @ after))
      else (case after of [] \<Rightarrow> None | a # as \<Rightarrow> Some (block, a, before @ as)))"

text \<open>The assertions about the block and the blocks of its bucket that the search for its place visits: the
  block is aligned to its size and overlaps none of them.\<close>

definition return_asserts :: "p2ra_block \<Rightarrow> p2ra_block list \<Rightarrow> bool" where
  "return_asserts block visited \<longleftrightarrow> pb_start block AND (2 ^ pb_bucket block - 1) = 0 \<and>
     list_all (\<lambda>after. pb_start block \<ge> pb_start after + 2 ^ pb_bucket after \<or>
       pb_start after \<ge> pb_start block + 2 ^ pb_bucket block) visited"

text \<open>A bucket outside the array fails an assertion, and without assertions there is no list to read.\<close>

partial_function (option) p2ra_return_free_block ::
  "bool \<Rightarrow> p2ra_block \<Rightarrow> bool \<Rightarrow> p2ra_state \<Rightarrow> p2ra_state option" where
  "p2ra_return_free_block dbg block merge_allowed st =
     (if ps_bucket_count st \<le> pb_bucket block then None
      else
        let l = ps_free_block_buckets st ! pb_bucket block;
            before = takeWhile (\<lambda>a. \<not> pb_start a > pb_start block) l;
            after = dropWhile (\<lambda>a. \<not> pb_start a > pb_start block) l;
            st1 = st\<lparr>ps_free_block_buckets := (ps_free_block_buckets st)[pb_bucket block := before @ block # after]\<rparr> in
        if dbg \<and> \<not> return_asserts block (before @ take 1 after) then None
        else if pb_bucket block + 1 = ps_bucket_count st then Some st1
        else
          case merge_pair block before after of
            None \<Rightarrow> Some st1
          | Some (first, second, rest) \<Rightarrow>
              if pb_start first + 2 ^ pb_bucket first = pb_start second then
                if dbg \<and> (\<not> merge_allowed \<or> pb_bucket first \<noteq> pb_bucket second) then None
                else
                  p2ra_return_free_block dbg (first\<lparr>pb_bucket := pb_bucket first + 1\<rparr>) merge_allowed
                    (st\<lparr>ps_free_block_buckets := (ps_free_block_buckets st)[pb_bucket block := rest],
                        ps_unused_blocks := ps_unused_blocks st @ [second]\<rparr>)
              else Some st1)"

section \<open>Setting up and tearing down\<close>

definition p2ra_init :: "bool \<Rightarrow> uint \<Rightarrow> zx_status + p2ra_state" where
  "p2ra_init ok max_alloc_size =
     (if max_alloc_size = 0 \<or> \<not> ispow2 max_alloc_size then Inl ZX_ERR_INVALID_ARGS
      else
        let bucket_count = log2_uint_floor max_alloc_size + 1 in
        if \<not> ok then Inl ZX_ERR_NO_MEMORY
        else Inr \<lparr>ps_ranges = [], ps_unused_blocks = [], ps_allocated_blocks = [],
                  ps_free_block_buckets = replicate bucket_count [], ps_bucket_count = bucket_count\<rparr>)"

text \<open>The storage of the bucket lists themselves is not released.\<close>

definition p2ra_free :: "bool \<Rightarrow> p2ra_state \<Rightarrow> p2ra_state option" where
  "p2ra_free dbg st =
     (if dbg \<and> (ps_bucket_count st = 0 \<or> ps_allocated_blocks st \<noteq> []) then None
      else Some (st\<lparr>ps_ranges := [], ps_unused_blocks := [], ps_allocated_blocks := [],
        ps_free_block_buckets := map (\<lambda>_. []) (ps_free_block_buckets st)\<rparr>))"

section \<open>Adding a range\<close>

definition ranges_overlap :: "uint \<Rightarrow> uint \<Rightarrow> p2ra_range \<Rightarrow> bool" where
  "ranges_overlap range_start range_len r \<longleftrightarrow>
     pr_start r \<ge> range_start \<and> pr_start r < range_start + range_len \<or>
     range_start \<ge> pr_start r \<and> range_start < pr_start r + pr_len r"

text \<open>The two inner loops, which change the chunk size. Shifting the largest chunk size left gives zero,
  and the mask below zero is all ones.\<close>

partial_function (option) shrink_chunk :: "uint \<Rightarrow> uint \<Rightarrow> uint \<Rightarrow> uint \<Rightarrow> bool \<Rightarrow> (uint \<times> uint \<times> bool) option" where
  "shrink_chunk range_start range_len csize bucket shrunk =
     (if range_start AND ((csize + 2 ^ 32 - 1) mod 2 ^ 32) \<noteq> 0 \<or> range_len < csize
      then shrink_chunk range_start range_len (drop_bit 1 csize) ((bucket + 2 ^ 32 - 1) mod 2 ^ 32) True
      else Some (csize, bucket, shrunk))"

partial_function (option) grow_chunk ::
  "bool \<Rightarrow> uint \<Rightarrow> uint \<Rightarrow> uint \<Rightarrow> uint \<Rightarrow> uint \<Rightarrow> uint \<Rightarrow> uint \<Rightarrow> (uint \<times> uint) option" where
  "grow_chunk dbg bucket_count range_start range_len max_csize csize tmp bucket =
     (if tmp \<le> max_csize \<and> tmp \<le> range_len \<and> range_start AND ((tmp + 2 ^ 32 - 1) mod 2 ^ 32) = 0
      then if dbg \<and> \<not> bucket + 1 < bucket_count then None
           else grow_chunk dbg bucket_count range_start range_len max_csize tmp (tmp * 2 mod 2 ^ 32) ((bucket + 1) mod 2 ^ 32)
      else Some (csize, bucket))"

text \<open>One round of the loop: the size and the bucket of the next chunk.\<close>

definition next_chunk :: "bool \<Rightarrow> uint \<Rightarrow> uint \<Rightarrow> uint \<Rightarrow> uint \<Rightarrow> uint \<Rightarrow> uint \<Rightarrow> (uint \<times> uint) option" where
  "next_chunk dbg bucket_count range_start range_len max_csize csize bucket =
     (case shrink_chunk range_start range_len csize bucket False of
        None \<Rightarrow> None
      | Some (csize', bucket', shrunk) \<Rightarrow>
          if \<not> shrunk
          then grow_chunk dbg bucket_count range_start range_len max_csize csize' (csize' * 2 mod 2 ^ 32) bucket'
          else Some (csize', bucket'))"

text \<open>The blocks of a range, or the failure to allocate their bookkeeping, which frees what was taken.\<close>

partial_function (option) range_blocks ::
  "bool \<Rightarrow> (nat \<Rightarrow> bool) \<Rightarrow> nat \<Rightarrow> uint \<Rightarrow> uint \<Rightarrow> uint \<Rightarrow> uint \<Rightarrow> uint \<Rightarrow> p2ra_block list \<Rightarrow> p2ra_state \<Rightarrow>
   (p2ra_block list option \<times> p2ra_state) option" where
  "range_blocks dbg ac i range_start range_len max_csize csize bucket new_blocks st =
     (if range_len = 0 then Some (Some new_blocks, st)
      else
        case next_chunk dbg (ps_bucket_count st) range_start range_len max_csize csize bucket of
          None \<Rightarrow> None
        | Some (csize', bucket') \<Rightarrow>
            case p2ra_get_unused_block (ac i) st of
              (None, st1) \<Rightarrow> Some (None, st1)
            | (Some block, st1) \<Rightarrow>
                range_blocks dbg ac (i + 1) (range_start + csize') (range_len - csize') max_csize csize' bucket'
                  (new_blocks @ [block\<lparr>pb_bucket := bucket', pb_start := range_start\<rparr>]) st1)"

fun return_blocks :: "bool \<Rightarrow> p2ra_block list \<Rightarrow> p2ra_state \<Rightarrow> p2ra_state option" where
  "return_blocks dbg [] st = Some st"
| "return_blocks dbg (b # bs) st = Option.bind (p2ra_return_free_block dbg b False st) (return_blocks dbg bs)"

definition p2ra_add_range ::
  "bool \<Rightarrow> (nat \<Rightarrow> bool) \<Rightarrow> uint \<Rightarrow> uint \<Rightarrow> p2ra_state \<Rightarrow> (zx_status \<times> p2ra_state) option" where
  "p2ra_add_range dbg ac range_start range_len st =
     (if range_len = 0 \<or> (range_start + range_len) mod 2 ^ 32 < range_start then Some (ZX_ERR_INVALID_ARGS, st)
      else if \<exists>r \<in> set (ps_ranges st). ranges_overlap range_start range_len r then Some (ZX_ERR_ALREADY_EXISTS, st)
      else if \<not> ac 0 then Some (ZX_ERR_NO_MEMORY, st)
      else
        let bucket = ps_bucket_count st - 1; csize = 2 ^ bucket in
        case range_blocks dbg ac 1 range_start range_len csize csize bucket [] st of
          None \<Rightarrow> None
        | Some (None, st1) \<Rightarrow> Some (ZX_ERR_NO_MEMORY, st1)
        | Some (Some new_blocks, st1) \<Rightarrow>
            map_option (\<lambda>st2. (ZX_OK, st2))
              (return_blocks dbg new_blocks
                (st1\<lparr>ps_ranges := ps_ranges st1 @ [\<lparr>pr_start = range_start, pr_len = range_len\<rparr>]\<rparr>)))"

section \<open>Allocating and freeing\<close>

text \<open>The first block of the smallest bucket that has one, from the given bucket up.\<close>

function find_block :: "uint \<Rightarrow> p2ra_state \<Rightarrow> (uint \<times> p2ra_block \<times> p2ra_state) option" where
  "find_block bucket st =
     (if bucket < ps_bucket_count st then
        case ps_free_block_buckets st ! bucket of
          b # bs \<Rightarrow> Some (bucket, b, st\<lparr>ps_free_block_buckets := (ps_free_block_buckets st)[bucket := bs]\<rparr>)
        | [] \<Rightarrow> find_block (bucket + 1) st
      else None)"
  by pat_completeness auto

termination find_block
  by (relation "measure (\<lambda>(bucket, st). ps_bucket_count st - bucket)") auto

declare find_block.simps [simp del]

text \<open>Halving a block down to the requested size. A failure returns the block and fails the allocation.\<close>

fun split_block_loop ::
  "bool \<Rightarrow> (nat \<Rightarrow> bool) \<Rightarrow> uint \<Rightarrow> uint \<Rightarrow> p2ra_block \<Rightarrow> p2ra_state \<Rightarrow> ((zx_status + p2ra_block) \<times> p2ra_state) option" where
  "split_block_loop dbg ac orig_bucket 0 block st = Some (Inr block, st)"
| "split_block_loop dbg ac orig_bucket (Suc bucket) block st =
     (if Suc bucket \<le> orig_bucket then Some (Inr block, st)
      else
        case p2ra_get_unused_block (ac bucket) st of
          (None, st1) \<Rightarrow> map_option (\<lambda>st2. (Inl ZX_ERR_NO_MEMORY, st2)) (p2ra_return_free_block dbg block True st1)
        | (Some split_block, st1) \<Rightarrow>
            let block' = block\<lparr>pb_bucket := bucket\<rparr>;
                split_block' = split_block\<lparr>pb_start := pb_start block' + 2 ^ pb_bucket block', pb_bucket := bucket\<rparr> in
            Option.bind (p2ra_return_free_block dbg split_block' False st1)
              (split_block_loop dbg ac orig_bucket bucket block'))"

definition p2ra_allocate_range ::
  "bool \<Rightarrow> (nat \<Rightarrow> bool) \<Rightarrow> uint \<Rightarrow> p2ra_state \<Rightarrow> ((zx_status + uint) \<times> p2ra_state) option" where
  "p2ra_allocate_range dbg ac sz st =
     (if sz = 0 \<or> \<not> ispow2 sz then Some (Inl ZX_ERR_INVALID_ARGS, st)
      else
        let orig_bucket = log2_uint_floor sz in
        if orig_bucket \<ge> ps_bucket_count st then Some (Inl ZX_ERR_INVALID_ARGS, st)
        else
          case find_block orig_bucket st of
            None \<Rightarrow> Some (Inl ZX_ERR_NO_RESOURCES, st)
          | Some (bucket, block, st1) \<Rightarrow>
              case split_block_loop dbg ac orig_bucket bucket block st1 of
                None \<Rightarrow> None
              | Some (Inl e, st2) \<Rightarrow> Some (Inl e, st2)
              | Some (Inr b, st2) \<Rightarrow>
                  Some (Inr (pb_start b), st2\<lparr>ps_allocated_blocks := b # ps_allocated_blocks st2\<rparr>))"

text \<open>With assertions the size is checked and the block is looked up, without them any block's bookkeeping is reused.\<close>

definition p2ra_free_range :: "bool \<Rightarrow> uint \<Rightarrow> uint \<Rightarrow> p2ra_state \<Rightarrow> p2ra_state option" where
  "p2ra_free_range dbg range_start sz st =
     (let bucket = log2_uint_floor sz in
      if dbg then
        if sz = 0 \<or> \<not> ispow2 sz then None
        else case find (\<lambda>b. pb_start b = range_start \<and> pb_bucket b = bucket) (ps_allocated_blocks st) of
          None \<Rightarrow> None
        | Some block \<Rightarrow>
            p2ra_return_free_block dbg block True (st\<lparr>ps_allocated_blocks := remove1 block (ps_allocated_blocks st)\<rparr>)
      else
        case ps_allocated_blocks st of
          [] \<Rightarrow> None
        | block # bs \<Rightarrow>
            p2ra_return_free_block dbg (block\<lparr>pb_start := range_start, pb_bucket := bucket\<rparr>) True
              (st\<lparr>ps_allocated_blocks := bs\<rparr>))"

section \<open>Pieces\<close>

text \<open>A piece is a size exponent and a start; it stands for an aligned interval of ids.\<close>

type_synonym piece = "nat \<times> nat"

definition ivl :: "piece \<Rightarrow> nat set" where
  "ivl p = {snd p..<snd p + 2 ^ fst p}"

definition aligned :: "piece \<Rightarrow> bool" where
  "aligned p \<longleftrightarrow> 2 ^ fst p dvd snd p"

definition ids :: "piece set \<Rightarrow> nat set" where
  "ids P = (\<Union>p \<in> P. ivl p)"

definition pieces_ok :: "nat \<Rightarrow> piece set \<Rightarrow> bool" where
  "pieces_ok n P \<longleftrightarrow> (\<forall>p \<in> P. fst p < n \<and> aligned p) \<and> (\<forall>p \<in> P. \<forall>q \<in> P. p \<noteq> q \<longrightarrow> ivl p \<inter> ivl q = {})"

text \<open>No two buddies are both present, except in the largest size.\<close>

definition coalesced :: "nat \<Rightarrow> piece set \<Rightarrow> bool" where
  "coalesced n P \<longleftrightarrow> (\<forall>k s. k + 1 < n \<longrightarrow> 2 ^ (k + 1) dvd s \<longrightarrow> \<not> ((k, s) \<in> P \<and> (k, s + 2 ^ k) \<in> P))"

definition buddy :: "piece \<Rightarrow> nat" where
  "buddy p = (if 2 ^ (fst p + 1) dvd snd p then snd p + 2 ^ fst p else snd p - 2 ^ fst p)"

lemma ivl_nonempty: "snd p \<in> ivl p"
  by (simp add: ivl_def)

lemma ivl_eq_iff: "ivl p = ivl q \<longleftrightarrow> p = q"
  by (auto simp: ivl_def atLeastLessThan_eq_iff prod_eq_iff)

text \<open>Aligned intervals are nested or disjoint.\<close>

lemma dvd_block:
  fixes s t d e :: nat
  assumes "d dvd e" "e dvd t" "d dvd s" "s < t + e" "t < s + d"
  shows "t \<le> s \<and> s + d \<le> t + e"
proof -
  obtain a b c where a: "s = d * a" "t = d * b" "e = d * c" using assms(1-3) by (meson dvdE dvd_trans)
  have "d * a < d * (b + c)" "d * b < d * (a + 1)" using assms(4,5) by (simp_all add: a algebra_simps)
  then have "a < b + c" "b < a + 1" by (simp_all only: nat_mult_less_cancel_disj)
  then have "b \<le> a" "a + 1 \<le> b + c" by simp_all
  then have "d * b \<le> d * a" "d * (a + 1) \<le> d * (b + c)" by (simp_all only: mult_le_mono2)
  then show ?thesis by (simp add: a algebra_simps)
qed

lemma nested:
  assumes "aligned p" "aligned q" "fst p \<le> fst q" "ivl p \<inter> ivl q \<noteq> {}"
  shows "ivl p \<subseteq> ivl q"
proof -
  have "(2 :: nat) ^ fst p dvd 2 ^ fst q" using assms(3) by (rule le_imp_power_dvd)
  then have "snd q \<le> snd p \<and> snd p + 2 ^ fst p \<le> snd q + 2 ^ fst q"
    by (rule dvd_block) (use assms in \<open>auto simp: aligned_def ivl_def\<close>)
  then show ?thesis by (auto simp: ivl_def)
qed

lemma ivl_subset_level: "ivl p \<subseteq> ivl q \<Longrightarrow> fst p \<le> fst q"
proof -
  assume "ivl p \<subseteq> ivl q"
  then have "card (ivl p) \<le> card (ivl q)" by (intro card_mono) (simp add: ivl_def)
  then have "(2 :: nat) ^ fst p \<le> 2 ^ fst q" by (simp add: ivl_def)
  then show ?thesis by (rule power_le_imp_le_exp [rotated]) simp
qed

text \<open>In a coalesced set every aligned free region lies in a single piece.\<close>

lemma coalesced_complete:
  assumes "pieces_ok n P" "coalesced n P"
  shows "k < n \<Longrightarrow> aligned (k, s) \<Longrightarrow> ivl (k, s) \<subseteq> ids P \<Longrightarrow> \<exists>p \<in> P. ivl (k, s) \<subseteq> ivl p"
proof (induction k arbitrary: s)
  case 0
  then obtain p where "p \<in> P" "s \<in> ivl p" by (auto simp: ivl_def ids_def)
  then show ?case by (auto simp: ivl_def)
next
  case (Suc k)
  have al: "2 ^ Suc k dvd s" "(2 :: nat) ^ k dvd s" "2 ^ k dvd s + 2 ^ k"
    using Suc.prems(2) by (auto simp: aligned_def intro: dvd_trans [OF le_imp_power_dvd])
  have split: "ivl (Suc k, s) = ivl (k, s) \<union> ivl (k, s + 2 ^ k)" by (auto simp: ivl_def)
  obtain p where p: "p \<in> P" "ivl (k, s) \<subseteq> ivl p"
    using Suc.IH [of s] Suc.prems(1,3) al split by (auto simp: aligned_def)
  obtain q where q: "q \<in> P" "ivl (k, s + 2 ^ k) \<subseteq> ivl q"
    using Suc.IH [of "s + 2 ^ k"] Suc.prems(1,3) al split by (auto simp: aligned_def)
  have big: "\<exists>r \<in> P. ivl (Suc k, s) \<subseteq> ivl r" if "r \<in> P" "ivl (k, t) \<subseteq> ivl r" "fst r \<noteq> k" "t = s \<or> t = s + 2 ^ k" for r t
  proof -
    have "k \<le> fst r" using ivl_subset_level [OF that(2)] by simp
    then have "fst (Suc k, s) \<le> fst r" using that(3) by simp
    moreover have "t \<in> ivl (Suc k, s)" using that(4) by (auto simp: ivl_def)
    moreover have "t \<in> ivl r" using that(2) ivl_nonempty [of "(k, t)"] by auto
    ultimately have "ivl (Suc k, s) \<subseteq> ivl r"
      using nested [of "(Suc k, s)" r] Suc.prems(2) assms(1) that(1) by (auto simp: pieces_ok_def)
    then show ?thesis using that(1) by blast
  qed
  have same: "r = (k, t)" if "ivl (k, t) \<subseteq> ivl r" "fst r = k" for r t
  proof -
    have "card (ivl (k, t)) = card (ivl r)" using that(2) by (simp add: ivl_def)
    then have "ivl (k, t) = ivl r" using that(1) by (intro card_subset_eq) (simp_all add: ivl_def)
    then show ?thesis by (simp add: ivl_eq_iff)
  qed
  show ?case
  proof (rule ccontr)
    assume no: "\<not> (\<exists>r \<in> P. ivl (Suc k, s) \<subseteq> ivl r)"
    then have "p = (k, s)" "q = (k, s + 2 ^ k)" using big p q same by blast+
    then show False using assms(2) p(1) q(1) Suc.prems(1) al(1) by (auto simp: coalesced_def)
  qed
qed

text \<open>The pieces are determined by the ids they cover.\<close>

lemma coalesced_unique:
  assumes "pieces_ok n P" "coalesced n P" "pieces_ok n Q" "coalesced n Q" "ids P = ids Q"
  shows "P \<subseteq> Q"
proof
  fix p
  assume p: "p \<in> P"
  then have pk: "fst p < n" "aligned p" "ivl p \<subseteq> ids Q" using assms(1,5) by (auto simp: pieces_ok_def ids_def)
  then obtain q where q: "q \<in> Q" "ivl p \<subseteq> ivl q"
    using coalesced_complete [OF assms(3,4), of "fst p" "snd p"] by auto
  then have qk: "fst q < n" "aligned q" "ivl q \<subseteq> ids P" using assms(3,5) by (auto simp: pieces_ok_def ids_def)
  then obtain p' where p': "p' \<in> P" "ivl q \<subseteq> ivl p'"
    using coalesced_complete [OF assms(1,2), of "fst q" "snd q"] by auto
  have "p = p'"
  proof (rule ccontr)
    assume "p \<noteq> p'"
    then have "ivl p \<inter> ivl p' = {}" using assms(1) p p'(1) by (auto simp: pieces_ok_def)
    then show False using q(2) p'(2) ivl_nonempty [of p] by blast
  qed
  then have "ivl p = ivl q" using q(2) p'(2) by blast
  then show "p \<in> Q" using q(1) by (simp add: ivl_eq_iff)
qed

section \<open>Buckets\<close>

definition bucket_ok :: "nat \<Rightarrow> p2ra_block list \<Rightarrow> bool" where
  "bucket_ok k l \<longleftrightarrow> sorted_wrt (\<lambda>a b. pb_start a < pb_start b) l \<and> (\<forall>b \<in> set l. pb_bucket b = k \<and> 2 ^ k dvd pb_start b)"

definition lists_ok :: "p2ra_state \<Rightarrow> bool" where
  "lists_ok st \<longleftrightarrow> length (ps_free_block_buckets st) = ps_bucket_count st \<and>
     (\<forall>k < ps_bucket_count st. bucket_ok k (ps_free_block_buckets st ! k))"

definition free_pieces :: "p2ra_state \<Rightarrow> piece set" where
  "free_pieces st = {(k, s). k < ps_bucket_count st \<and> s \<in> pb_start ` set (ps_free_block_buckets st ! k)}"

definition piece_of :: "p2ra_block \<Rightarrow> piece" where
  "piece_of b = (pb_bucket b, pb_start b)"

definition free_ok :: "p2ra_state \<Rightarrow> bool" where
  "free_ok st \<longleftrightarrow> lists_ok st \<and> pieces_ok (ps_bucket_count st) (free_pieces st) \<and>
     coalesced (ps_bucket_count st) (free_pieces st)"

lemma and_mask_dvd: "s AND (2 * 2 ^ k - 1) = 0 \<longleftrightarrow> 2 ^ (k + 1) dvd s" for s :: nat
  using take_bit_eq_mask [of "k + 1" s] by (simp add: mask_eq_exp_minus_1 take_bit_eq_mod dvd_eq_mod_eq_0)

lemma dvd_less_add: "d dvd x \<Longrightarrow> d dvd y \<Longrightarrow> x < y \<Longrightarrow> x + d \<le> y" for d x y :: nat
  by (metis add.commute add_le_cancel_right dvd_diff_nat dvd_imp_le le_add_diff_inverse2 less_imp_le zero_less_diff)

text \<open>Where a block goes in its bucket.\<close>

lemma insert_position:
  assumes "bucket_ok k l" "s \<notin> pb_start ` set l" "before = takeWhile (\<lambda>a. \<not> pb_start a > s) l"
    "after = dropWhile (\<lambda>a. \<not> pb_start a > s) l"
  shows "l = before @ after" "\<forall>a \<in> set before. pb_start a < s" "\<forall>a \<in> set after. s < pb_start a"
proof -
  show l: "l = before @ after" by (simp add: assms(3,4))
  have "pb_start a \<le> s" if "a \<in> set before" for a 
    using that set_takeWhileD [of a "\<lambda>a. \<not> pb_start a > s" l] by (simp add: assms(3))
  then show "\<forall>a \<in> set before. pb_start a < s" using assms(2) l by (force simp: le_less)
  show "\<forall>a \<in> set after. s < pb_start a"
  proof (cases after)
    case (Cons c cs)
    then have "s < pb_start c" using hd_dropWhile [of "\<lambda>a. \<not> pb_start a > s" l] by (simp add: assms(4) [symmetric])
    moreover have "\<forall>a \<in> set cs. pb_start c < pb_start a"
      using assms(1) unfolding bucket_ok_def l Cons by (simp add: sorted_wrt_append)
    ultimately show ?thesis using Cons by auto
  qed simp
qed

lemma insert_bucket_ok:
  assumes "bucket_ok k (before @ after)" "\<forall>a \<in> set before. pb_start a < pb_start b" "\<forall>a \<in> set after. pb_start b < pb_start a"
    "pb_bucket b = k" "2 ^ k dvd pb_start b"
  shows "bucket_ok k (before @ b # after)"
  using assms by (auto simp: bucket_ok_def sorted_wrt_append)

lemma bucket_ok_sub:
  assumes "bucket_ok k (xs @ a # ys)"
  shows "bucket_ok k (xs @ ys)" "pb_start ` set (xs @ ys) = pb_start ` set (xs @ a # ys) - {pb_start a}"
proof -
  show "bucket_ok k (xs @ ys)" using assms by (simp add: bucket_ok_def sorted_wrt_append)
  have "\<forall>x \<in> set xs. pb_start x < pb_start a" "\<forall>y \<in> set ys. pb_start a < pb_start y"
    using assms by (simp_all add: bucket_ok_def sorted_wrt_append)
  then have "pb_start a \<notin> pb_start ` set (xs @ ys)" by (metis UnE imageE less_irrefl set_append)
  moreover have "pb_start ` set (xs @ a # ys) = insert (pb_start a) (pb_start ` set (xs @ ys))" by auto
  ultimately show "pb_start ` set (xs @ ys) = pb_start ` set (xs @ a # ys) - {pb_start a}" by simp
qed

text \<open>The pair that the code looks at fits together exactly when the buddy is in the bucket.\<close>

lemma merge_pair_odd:
  assumes "bucket_ok k (before @ after)" "\<forall>a \<in> set before. pb_start a < pb_start b" "\<forall>a \<in> set after. pb_start b < pb_start a"
    "pb_bucket b = k" "2 ^ k dvd pb_start b" "\<not> 2 ^ (k + 1) dvd pb_start b"
  shows "case merge_pair b before after of
      None \<Rightarrow> buddy (piece_of b) \<notin> pb_start ` set (before @ after)
    | Some (first, second, rest) \<Rightarrow>
        (pb_start first + 2 ^ pb_bucket first = pb_start second \<longleftrightarrow> buddy (piece_of b) \<in> pb_start ` set (before @ after)) \<and>
        (buddy (piece_of b) \<in> pb_start ` set (before @ after) \<longrightarrow>
           pb_bucket first = k \<and> pb_start first = min (pb_start b) (buddy (piece_of b)) \<and> bucket_ok k rest \<and>
           pb_start ` set rest = pb_start ` set (before @ after) - {buddy (piece_of b)})"
proof -
  let ?s = "pb_start b"
  have s: "2 ^ k \<le> ?s" using assms(5,6) by (intro dvd_imp_le) (auto intro: Nat.gr0I)
  have bud: "buddy (piece_of b) = ?s - 2 ^ k" using assms(4,6) by (simp add: buddy_def piece_of_def)
  have odd: "?s AND (2 * 2 ^ pb_bucket b - 1) \<noteq> 0" using assms(4,6) and_mask_dvd by simp
  have in_before: "?s - 2 ^ k \<in> pb_start ` set before" if "?s - 2 ^ k \<in> pb_start ` set (before @ after)"
    using that assms(3) by fastforce
  show ?thesis
  proof (cases "before = []")
    case True
    then show ?thesis using in_before odd by (auto simp: merge_pair_def bud)
  next
    case False
    then obtain bs f where b: "before = bs @ [f]" by (metis rev_exhaust)
    have f: "pb_bucket f = k" "2 ^ k dvd pb_start f" "pb_start f < ?s" "\<forall>a \<in> set bs. pb_start a < pb_start f"
      using assms(1,2) by (auto simp: b bucket_ok_def sorted_wrt_append)
    have le: "pb_start f + 2 ^ k \<le> ?s" by (rule dvd_less_add [OF f(2) assms(5) f(3)])
    have iff: "pb_start f + 2 ^ k = ?s \<longleftrightarrow> ?s - 2 ^ k \<in> pb_start ` set (before @ after)"
    proof
      assume "pb_start f + 2 ^ k = ?s"
      then have "?s - 2 ^ k = pb_start f" by simp
      then show "?s - 2 ^ k \<in> pb_start ` set (before @ after)" by (simp add: b)
    next
      assume "?s - 2 ^ k \<in> pb_start ` set (before @ after)"
      then have "?s - 2 ^ k \<le> pb_start f" using in_before f(4) by (fastforce simp: b)
      then show "pb_start f + 2 ^ k = ?s" using le by simp
    qed
    have m: "merge_pair b before after = Some (f, b, bs @ after)" using odd by (simp add: merge_pair_def b)
    have r: "bucket_ok k (bs @ after)" "pb_start ` set (bs @ after) = pb_start ` set (before @ after) - {pb_start f}"
      using bucket_ok_sub [of k bs f after] assms(1) by (simp_all add: b)
    have "pb_start f = ?s - 2 ^ k" "pb_start f = min ?s (?s - 2 ^ k)" if "?s - 2 ^ k \<in> pb_start ` set (before @ after)"
      using iff that by auto
    then show ?thesis unfolding m bud option.case prod.case f(1) using iff r by metis
  qed
qed

lemma merge_pair_even:
  assumes "bucket_ok k (before @ after)" "\<forall>a \<in> set before. pb_start a < pb_start b" "\<forall>a \<in> set after. pb_start b < pb_start a"
    "pb_bucket b = k" "2 ^ k dvd pb_start b" "2 ^ (k + 1) dvd pb_start b"
  shows "case merge_pair b before after of
      None \<Rightarrow> buddy (piece_of b) \<notin> pb_start ` set (before @ after)
    | Some (first, second, rest) \<Rightarrow>
        (pb_start first + 2 ^ pb_bucket first = pb_start second \<longleftrightarrow> buddy (piece_of b) \<in> pb_start ` set (before @ after)) \<and>
        (buddy (piece_of b) \<in> pb_start ` set (before @ after) \<longrightarrow>
           pb_bucket first = k \<and> pb_start first = min (pb_start b) (buddy (piece_of b)) \<and> bucket_ok k rest \<and>
           pb_start ` set rest = pb_start ` set (before @ after) - {buddy (piece_of b)})"
proof -
  let ?s = "pb_start b"
  have bud: "buddy (piece_of b) = ?s + 2 ^ k" using assms(4,6) by (simp add: buddy_def piece_of_def)
  have even: "?s AND (2 * 2 ^ pb_bucket b - 1) = 0" using assms(4,6) and_mask_dvd by simp
  have in_after: "?s + 2 ^ k \<in> pb_start ` set after" if "?s + 2 ^ k \<in> pb_start ` set (before @ after)"
    using that assms(2) by fastforce
  show ?thesis
  proof (cases after)
    case Nil
    then show ?thesis using in_after even by (auto simp: merge_pair_def bud)
  next
    case (Cons a as)
    have a: "pb_bucket a = k" "2 ^ k dvd pb_start a" "?s < pb_start a" "\<forall>c \<in> set as. pb_start a < pb_start c"
      using assms(1,3) by (auto simp: Cons bucket_ok_def sorted_wrt_append)
    have le: "?s + 2 ^ k \<le> pb_start a" by (rule dvd_less_add [OF assms(5) a(2,3)])
    have iff: "?s + 2 ^ k = pb_start a \<longleftrightarrow> ?s + 2 ^ k \<in> pb_start ` set (before @ after)"
    proof
      assume "?s + 2 ^ k \<in> pb_start ` set (before @ after)"
      then have "pb_start a \<le> ?s + 2 ^ k" using in_after a(4) by (fastforce simp: Cons)
      then show "?s + 2 ^ k = pb_start a" using le by simp
    qed (simp add: Cons)
    have m: "merge_pair b before after = Some (b, a, before @ as)" using even by (simp add: merge_pair_def Cons)
    have r: "bucket_ok k (before @ as)" "pb_start ` set (before @ as) = pb_start ` set (before @ after) - {pb_start a}"
      using bucket_ok_sub [of k before a as] assms(1) by (simp_all add: Cons)
    have "?s = min ?s (?s + 2 ^ k)" by simp
    then show ?thesis unfolding m bud option.case prod.case assms(4) using iff r by metis
  qed
qed

lemmas merge_pair_ok = merge_pair_odd merge_pair_even

lemma odd_multiple:
  fixes s :: nat
  assumes "2 ^ k dvd s" "\<not> 2 ^ (k + 1) dvd s"
  shows "2 ^ k \<le> s" "2 ^ (k + 1) dvd s - 2 ^ k"
proof -
  obtain a where a: "s = 2 ^ k * a" using assms(1) by (rule dvdE)
  with assms(2) have "odd a" by (auto elim!: evenE)
  then obtain c where c: "a = 2 * c + 1" by (rule oddE)
  then have "s = 2 ^ (k + 1) * c + 2 ^ k" by (simp add: a algebra_simps)
  then show "2 ^ k \<le> s" "2 ^ (k + 1) dvd s - 2 ^ k" by simp_all
qed

lemma buddy_merge:
  assumes "aligned (k, s)"
  shows "aligned (Suc k, min s (buddy (k, s)))" "ivl (Suc k, min s (buddy (k, s))) = ivl (k, s) \<union> ivl (k, buddy (k, s))"
    "buddy (k, s) \<noteq> s"
proof -
  consider "2 ^ (k + 1) dvd s" | "\<not> 2 ^ (k + 1) dvd s" "2 ^ k \<le> s" "2 ^ (k + 1) dvd s - 2 ^ k"
    using odd_multiple [of k s] assms by (auto simp: aligned_def)
  then have "aligned (Suc k, min s (buddy (k, s))) \<and> ivl (Suc k, min s (buddy (k, s))) = ivl (k, s) \<union> ivl (k, buddy (k, s)) \<and>
    buddy (k, s) \<noteq> s"
  proof cases
    case 1
    then show ?thesis by (auto simp: buddy_def aligned_def ivl_def)
  next
    case 2
    then have b: "buddy (k, s) = s - 2 ^ k" by (simp add: buddy_def)
    have "0 < (2 :: nat) ^ k" by simp
    then have "s - 2 ^ k \<noteq> s" "min s (s - 2 ^ k) = s - 2 ^ k" using 2(2) by linarith+
    moreover have "ivl (Suc k, s - 2 ^ k) = ivl (k, s) \<union> ivl (k, s - 2 ^ k)" using 2(2) by (auto simp: ivl_def)
    ultimately show ?thesis using 2(3) by (simp add: b aligned_def)
  qed
  then show "aligned (Suc k, min s (buddy (k, s)))" "ivl (Suc k, min s (buddy (k, s))) = ivl (k, s) \<union> ivl (k, buddy (k, s))"
    "buddy (k, s) \<noteq> s" by blast+
qed

text \<open>Adding a piece whose buddy is absent keeps a set of pieces coalesced.\<close>

lemma coalesced_insert:
  assumes "coalesced n P" "k + 1 < n \<Longrightarrow> (k, buddy (k, s)) \<notin> P" "aligned (k, s)"
  shows "coalesced n (insert (k, s) P)"
proof -
  have "\<not> ((j, t) \<in> insert (k, s) P \<and> (j, t + 2 ^ j) \<in> insert (k, s) P)" if "j + 1 < n" "2 ^ (j + 1) dvd t" for j t
  proof
    assume *: "(j, t) \<in> insert (k, s) P \<and> (j, t + 2 ^ j) \<in> insert (k, s) P"
    moreover have "\<not> ((j, t) \<in> P \<and> (j, t + 2 ^ j) \<in> P)" using assms(1) that by (simp add: coalesced_def)
    ultimately consider "(j, t) = (k, s)" "(j, t + 2 ^ j) \<in> P" | "(j, t) \<in> P" "(j, t + 2 ^ j) = (k, s)" by auto
    then show False
    proof cases
      case 1
      then have "buddy (k, s) = s + 2 ^ k" using that(2) by (simp add: buddy_def)
      then show False using 1 assms(2) that(1) by simp
    next
      case 2
      then have "\<not> 2 ^ (k + 1) dvd s" using that(2) by (auto simp: dvd_add_right_iff dest: dvd_imp_le)
      then have "buddy (k, s) = t" using 2(2) by (auto simp: buddy_def)
      then show False using 2 assms(2) that(1) by simp
    qed
  qed
  then show ?thesis by (simp add: coalesced_def)
qed

lemma pieces_ok_insert:
  assumes "pieces_ok n P" "k < n" "aligned (k, s)" "ivl (k, s) \<inter> ids P = {}"
  shows "pieces_ok n (insert (k, s) P)"
  using assms by (auto simp: pieces_ok_def ids_def)

lemma pieces_ok_mono: "pieces_ok n P \<Longrightarrow> Q \<subseteq> P \<Longrightarrow> pieces_ok n Q"
  unfolding pieces_ok_def by blast

lemma coalesced_mono: "coalesced n P \<Longrightarrow> Q \<subseteq> P \<Longrightarrow> coalesced n Q"
  unfolding coalesced_def by blast

lemma free_pieces_upd:
  assumes "k < ps_bucket_count st" "length (ps_free_block_buckets st) = ps_bucket_count st"
  shows "free_pieces (st\<lparr>ps_free_block_buckets := (ps_free_block_buckets st)[k := l]\<rparr>) =
    {p \<in> free_pieces st. fst p \<noteq> k} \<union> Pair k ` pb_start ` set l"
  using assms by (auto simp: free_pieces_def nth_list_update split: if_splits)

lemma lists_ok_upd:
  assumes "lists_ok st" "k < ps_bucket_count st" "bucket_ok k l"
  shows "lists_ok (st\<lparr>ps_free_block_buckets := (ps_free_block_buckets st)[k := l]\<rparr>)"
  using assms by (auto simp: lists_ok_def nth_list_update)

text \<open>Returning a block: it ends up in the free pieces, merged with every buddy that was free. The only way
  not to return is a merge that an assertion forbids.\<close>

definition returned :: "p2ra_state \<Rightarrow> piece \<Rightarrow> p2ra_state \<Rightarrow> bool" where
  "returned st p st' \<longleftrightarrow> free_ok st' \<and> ps_bucket_count st' = ps_bucket_count st \<and> ps_ranges st' = ps_ranges st \<and>
     ps_allocated_blocks st' = ps_allocated_blocks st \<and> ids (free_pieces st') = ids (free_pieces st) \<union> ivl p"

lemma return_unmerged:
  assumes "free_ok st" "k < ps_bucket_count st" "aligned (k, s)" "ivl (k, s) \<inter> ids (free_pieces st) = {}"
    "k + 1 < ps_bucket_count st \<Longrightarrow> (k, buddy (k, s)) \<notin> free_pieces st"
    "bucket_ok k l" "pb_start ` set l = insert s (pb_start ` set (ps_free_block_buckets st ! k))"
  shows "returned st (k, s) (st\<lparr>ps_free_block_buckets := (ps_free_block_buckets st)[k := l]\<rparr>)" (is "returned st _ ?st")
proof -
  have lk: "lists_ok st" using assms(1) by (simp add: free_ok_def)
  then have "free_pieces ?st = {p \<in> free_pieces st. fst p \<noteq> k} \<union> Pair k ` pb_start ` set l"
    by (intro free_pieces_upd [OF assms(2)]) (simp add: lists_ok_def)
  also have "\<dots> = insert (k, s) (free_pieces st)" unfolding assms(7) using assms(2) by (auto simp: free_pieces_def)
  finally have F: "free_pieces ?st = insert (k, s) (free_pieces st)" .
  have "pieces_ok (ps_bucket_count st) (free_pieces ?st)"
    unfolding F using assms(1) by (intro pieces_ok_insert [OF _ assms(2-4)]) (simp add: free_ok_def)
  moreover have "coalesced (ps_bucket_count st) (free_pieces ?st)"
    unfolding F using assms(1) by (intro coalesced_insert [OF _ assms(5,3)]) (simp_all add: free_ok_def)
  moreover have "lists_ok ?st" by (rule lists_ok_upd [OF lk assms(2,6)])
  moreover have "ids (free_pieces ?st) = ids (free_pieces st) \<union> ivl (k, s)" unfolding F by (auto simp: ids_def)
  ultimately show ?thesis by (simp add: returned_def free_ok_def)
qed

lemma return_merge_state:
  assumes "free_ok st" "k < ps_bucket_count st" "aligned (k, s)" "ivl (k, s) \<inter> ids (free_pieces st) = {}"
    "(k, buddy (k, s)) \<in> free_pieces st" "bucket_ok k l"
    "pb_start ` set l = pb_start ` set (ps_free_block_buckets st ! k) - {buddy (k, s)}"
    "st' = st\<lparr>ps_free_block_buckets := (ps_free_block_buckets st)[k := l], ps_unused_blocks := u\<rparr>"
  shows "free_ok st'" "ivl (Suc k, min s (buddy (k, s))) \<inter> ids (free_pieces st') = {}"
    "ids (free_pieces st') \<union> ivl (Suc k, min s (buddy (k, s))) = ids (free_pieces st) \<union> ivl (k, s)"
proof -
  let ?b = "(k, buddy (k, s))"
  have lk: "lists_ok st" and pk: "pieces_ok (ps_bucket_count st) (free_pieces st)" using assms(1) by (simp_all add: free_ok_def)
  have "free_pieces st' = free_pieces (st\<lparr>ps_free_block_buckets := (ps_free_block_buckets st)[k := l]\<rparr>)"
    by (simp add: assms(8) free_pieces_def)
  also have "\<dots> = {p \<in> free_pieces st. fst p \<noteq> k} \<union> Pair k ` pb_start ` set l"
    using lk by (intro free_pieces_upd [OF assms(2)]) (simp add: lists_ok_def)
  also have "\<dots> = free_pieces st - {?b}" unfolding assms(7) using assms(2) by (auto simp: free_pieces_def)
  finally have F: "free_pieces st' = free_pieces st - {?b}" .
  have "lists_ok st'" using lists_ok_upd [OF lk assms(2,6)] by (simp add: assms(8) lists_ok_def)
  then show "free_ok st'"
    using assms(1) pieces_ok_mono [OF pk, of "free_pieces st'"] coalesced_mono [of _ "free_pieces st" "free_pieces st'"]
    by (simp add: free_ok_def F) (simp add: assms(8))
  have "ivl ?b \<inter> ids (free_pieces st') = {}"
    using pk assms(5) unfolding F ids_def pieces_ok_def by blast
  moreover have "ids (free_pieces st) = ids (free_pieces st') \<union> ivl ?b" unfolding F using assms(5) by (auto simp: ids_def)
  ultimately show "ivl (Suc k, min s (buddy (k, s))) \<inter> ids (free_pieces st') = {}"
    "ids (free_pieces st') \<union> ivl (Suc k, min s (buddy (k, s))) = ids (free_pieces st) \<union> ivl (k, s)"
    using assms(4) unfolding buddy_merge(2) [OF assms(3)] by blast+
qed

lemma free_piece_disjoint: "p \<in> free_pieces st \<Longrightarrow> ivl q \<inter> ids (free_pieces st) = {} \<Longrightarrow> q \<noteq> p"
  using ivl_nonempty by (fastforce simp: ids_def)

lemma return_step:
  assumes "k < ps_bucket_count st" "k = pb_bucket b" "s = pb_start b" "l = ps_free_block_buckets st ! k"
    "before = takeWhile (\<lambda>a. \<not> pb_start a > s) l" "after = dropWhile (\<lambda>a. \<not> pb_start a > s) l"
    "st1 = st\<lparr>ps_free_block_buckets := (ps_free_block_buckets st)[k := before @ b # after]\<rparr>"
    "return_asserts b (before @ take 1 after)"
  shows "p2ra_return_free_block dbg b m st =
     (if k + 1 = ps_bucket_count st then Some st1
      else case merge_pair b before after of
          None \<Rightarrow> Some st1
        | Some (first, second, rest) \<Rightarrow>
            if pb_start first + 2 ^ pb_bucket first = pb_start second then
              if dbg \<and> (\<not> m \<or> pb_bucket first \<noteq> pb_bucket second) then None
              else p2ra_return_free_block dbg (first\<lparr>pb_bucket := pb_bucket first + 1\<rparr>) m
                (st\<lparr>ps_free_block_buckets := (ps_free_block_buckets st)[k := rest],
                    ps_unused_blocks := ps_unused_blocks st @ [second]\<rparr>)
            else Some st1)"
proof -
  have "(ps_bucket_count st \<le> pb_bucket b) = False" "(dbg \<and> \<not> return_asserts b (before @ take 1 after)) = False"
    using assms(1,2,8) by simp_all
  then show ?thesis by (subst p2ra_return_free_block.simps) (simp only: Let_def assms(2-7) if_False)
qed

text \<open>The assertions hold for an aligned block that is disjoint from the free pieces.\<close>

lemma return_asserts_ok:
  assumes "bucket_ok k l" "k = pb_bucket b" "s = pb_start b" "2 ^ k dvd s" "k < ps_bucket_count st"
    "ivl (k, s) \<inter> ids (free_pieces st) = {}" "l = ps_free_block_buckets st ! k" "set visited \<subseteq> set l"
  shows "return_asserts b visited"
proof -
  have "s \<ge> pb_start a + 2 ^ pb_bucket a \<or> pb_start a \<ge> s + 2 ^ k" if "a \<in> set visited" for a
  proof -
    have a: "pb_bucket a = k" "(k, pb_start a) \<in> free_pieces st"
      using that assms(1,5,7,8) by (auto simp: bucket_ok_def free_pieces_def)
    then have "ivl (k, s) \<inter> ivl (k, pb_start a) = {}" using assms(6) by (auto simp: ids_def)
    then show ?thesis unfolding a(1) by (auto simp: ivl_def)
  qed
  moreover have "s AND (2 ^ k - 1) = 0"
    using assms(4) unfolding mask_eq_exp_minus_1 [symmetric] take_bit_eq_mask [symmetric] take_bit_eq_mod by simp
  ultimately show ?thesis using assms(2,3) by (auto simp: return_asserts_def list_all_iff)
qed

text \<open>The pair of a block, by the position of the block in its bucket.\<close>

lemma merge_pair_block:
  assumes "bucket_ok k l" "s \<notin> pb_start ` set l" "before = takeWhile (\<lambda>a. \<not> pb_start a > s) l"
    "after = dropWhile (\<lambda>a. \<not> pb_start a > s) l" "k = pb_bucket b" "s = pb_start b" "2 ^ k dvd s"
  shows "bucket_ok k (before @ b # after)" "pb_start ` set (before @ b # after) = insert s (pb_start ` set l)"
    "case merge_pair b before after of
      None \<Rightarrow> buddy (k, s) \<notin> pb_start ` set l
    | Some (first, second, rest) \<Rightarrow>
        (pb_start first + 2 ^ pb_bucket first = pb_start second \<longleftrightarrow> buddy (k, s) \<in> pb_start ` set l) \<and>
        (buddy (k, s) \<in> pb_start ` set l \<longrightarrow>
           pb_bucket first = k \<and> pb_start first = min s (buddy (k, s)) \<and> bucket_ok k rest \<and>
           pb_start ` set rest = pb_start ` set l - {buddy (k, s)})"
proof -
  note pos = insert_position [OF assms(1-4)]
  have ba: "bucket_ok k (before @ after)" "\<forall>a \<in> set before. pb_start a < pb_start b" "\<forall>a \<in> set after. pb_start b < pb_start a"
    using assms(1,6) pos by simp_all
  show "bucket_ok k (before @ b # after)"
    by (rule insert_bucket_ok [OF ba]) (use assms(5-7) in simp_all)
  show "pb_start ` set (before @ b # after) = insert s (pb_start ` set l)"
    unfolding pos(1) assms(6) by auto
  have p: "(k, pb_start b) = piece_of b" by (simp add: piece_of_def assms(5))
  show "case merge_pair b before after of
      None \<Rightarrow> buddy (k, s) \<notin> pb_start ` set l
    | Some (first, second, rest) \<Rightarrow>
        (pb_start first + 2 ^ pb_bucket first = pb_start second \<longleftrightarrow> buddy (k, s) \<in> pb_start ` set l) \<and>
        (buddy (k, s) \<in> pb_start ` set l \<longrightarrow>
           pb_bucket first = k \<and> pb_start first = min s (buddy (k, s)) \<and> bucket_ok k rest \<and>
           pb_start ` set rest = pb_start ` set l - {buddy (k, s)})"
    unfolding pos(1) assms(6) p
    by (cases "2 ^ (k + 1) dvd pb_start b"; rule merge_pair_ok [OF ba]) (use assms(5-7) in simp_all)
qed

lemma merge_pair_second:
  "merge_pair b before after = Some (first, second, rest) \<Longrightarrow> bucket_ok k (before @ b # after) \<Longrightarrow> pb_bucket second = k"
  by (auto simp: merge_pair_def bucket_ok_def split: if_splits list.splits)

definition forbidden_merge :: "bool \<Rightarrow> bool \<Rightarrow> p2ra_block \<Rightarrow> p2ra_state \<Rightarrow> bool" where
  "forbidden_merge dbg m b st \<longleftrightarrow> dbg \<and> \<not> m \<and> pb_bucket b + 1 < ps_bucket_count st \<and>
     (pb_bucket b, buddy (piece_of b)) \<in> free_pieces st"

lemma return_ok:
  assumes "free_ok st" "pb_bucket b < ps_bucket_count st" "aligned (piece_of b)"
    "ivl (piece_of b) \<inter> ids (free_pieces st) = {}"
  shows "case p2ra_return_free_block dbg b m st of
      None \<Rightarrow> forbidden_merge dbg m b st
    | Some st' \<Rightarrow> returned st (piece_of b) st' \<and> \<not> forbidden_merge dbg m b st"
  using assms
proof (induction "ps_bucket_count st - pb_bucket b" arbitrary: b st rule: less_induct)
  case (less b st)
  define k s where "k = pb_bucket b" and "s = pb_start b"
  define l where "l = ps_free_block_buckets st ! k"
  define before where "before = takeWhile (\<lambda>a. \<not> pb_start a > s) l"
  define after where "after = dropWhile (\<lambda>a. \<not> pb_start a > s) l"
  have p: "piece_of b = (k, s)" by (simp add: piece_of_def k_def s_def)
  have kn: "k < ps_bucket_count st" using less.prems(2) by (simp add: k_def)
  have lk: "bucket_ok k l" using less.prems(1) kn by (simp add: free_ok_def lists_ok_def l_def)
  have al: "aligned (k, s)" and ds: "2 ^ k dvd s" using less.prems(3) by (simp_all add: p aligned_def)
  have dj: "ivl (k, s) \<inter> ids (free_pieces st) = {}" using less.prems(4) by (simp add: p)
  have "(k, s) \<notin> free_pieces st" using free_piece_disjoint [OF _ dj] by blast
  then have sl: "s \<notin> pb_start ` set l" using kn by (simp add: free_pieces_def l_def)
  have bud: "(k, t) \<in> free_pieces st \<longleftrightarrow> t \<in> pb_start ` set l" for t using kn by (simp add: free_pieces_def l_def)
  note mb = merge_pair_block [OF lk sl before_def after_def k_def s_def ds]
  define st1 where "st1 = st\<lparr>ps_free_block_buckets := (ps_free_block_buckets st)[k := before @ b # after]\<rparr>"
  have ret1: "returned st (k, s) st1" if "k + 1 < ps_bucket_count st \<Longrightarrow> (k, buddy (k, s)) \<notin> free_pieces st"
    unfolding st1_def by (rule return_unmerged [OF less.prems(1) kn al dj that mb(1)]) (simp_all only: mb(2) l_def)
  have "set (before @ take 1 after) \<subseteq> set l"
    by (auto simp: before_def after_def dest: set_takeWhileD set_dropWhileD in_set_takeD)
  then have "return_asserts b (before @ take 1 after)" by (rule return_asserts_ok [OF lk k_def s_def ds kn dj l_def])
  note step = return_step [OF kn k_def s_def l_def before_def after_def st1_def this, of dbg m]
  show ?case
  proof (cases "k + 1 = ps_bucket_count st \<or> buddy (k, s) \<notin> pb_start ` set l")
    case True
    then have "p2ra_return_free_block dbg b m st = Some st1" using step mb(3) by (auto split: option.splits if_splits)
    moreover have "returned st (k, s) st1" by (rule ret1) (use True bud in auto)
    moreover have "\<not> forbidden_merge dbg m b st" using True bud by (auto simp: forbidden_merge_def p) (auto simp: k_def)
    ultimately show ?thesis by (simp add: p)
  next
    case False
    then obtain first second rest where M: "merge_pair b before after = Some (first, second, rest)"
      "pb_start first + 2 ^ pb_bucket first = pb_start second" "pb_bucket first = k" "pb_start first = min s (buddy (k, s))"
      "bucket_ok k rest" "pb_start ` set rest = pb_start ` set l - {buddy (k, s)}"
      using mb(3) by (auto split: option.splits)
    have "pb_bucket second = k" using merge_pair_second [OF M(1) mb(1)] .
    have bin: "(k, buddy (k, s)) \<in> free_pieces st" using False bud by blast
    define st2 where "st2 = st\<lparr>ps_free_block_buckets := (ps_free_block_buckets st)[k := rest],
      ps_unused_blocks := ps_unused_blocks st @ [second]\<rparr>"
    define f where "f = first\<lparr>pb_bucket := pb_bucket first + 1\<rparr>"
    have pf: "piece_of f = (Suc k, min s (buddy (k, s)))" by (simp add: f_def piece_of_def M)
    have n2: "ps_bucket_count st2 = ps_bucket_count st" by (simp add: st2_def)
    note ms = return_merge_state [OF less.prems(1) kn al dj bin M(5) _ st2_def, folded l_def, OF M(6)]
    have kn': "Suc k < ps_bucket_count st" using False kn by simp
    have IH: "case p2ra_return_free_block dbg f m st2 of None \<Rightarrow> forbidden_merge dbg m f st2
      | Some st' \<Rightarrow> returned st2 (piece_of f) st' \<and> \<not> forbidden_merge dbg m f st2"
    proof (rule less.hyps)
      show "ps_bucket_count st2 - pb_bucket f < ps_bucket_count st - pb_bucket b" using kn n2 M(3) by (simp add: f_def k_def)
      show "pb_bucket f < ps_bucket_count st2" using kn' n2 M(3) by (simp add: f_def)
      show "aligned (piece_of f)" unfolding pf by (rule buddy_merge(1) [OF al])
    qed (use ms in \<open>simp_all add: pf\<close>)
    have e: "p2ra_return_free_block dbg b m st = (if dbg \<and> \<not> m then None else p2ra_return_free_block dbg f m st2)"
      using step False M(1-3) \<open>pb_bucket second = k\<close> by (simp add: st2_def f_def)
    show ?thesis
    proof (cases "dbg \<and> \<not> m")
      case True
      then show ?thesis using e bin kn' by (simp add: p forbidden_merge_def) (simp add: k_def)
    next
      case nf: False
      then obtain st' where st': "p2ra_return_free_block dbg f m st2 = Some st'" "returned st2 (piece_of f) st'"
        using IH by (auto simp: forbidden_merge_def split: option.splits)
      then have "returned st (k, s) st'" using ms(3) by (simp add: returned_def pf n2) (simp add: st2_def)
      with e nf st'(1) show ?thesis by (auto simp: p forbidden_merge_def)
    qed
  qed
qed

end
