(* ===== verification/Zx_P2ra_History.thy ===== *)
theory Zx_P2ra_History
  imports Zx_P2ra
begin

unbundle bit_operations_syntax

text \<open>
  Histories of the power-of-two range allocator. The blocks that clients hold are ghost state: without
  assertions compiled in, the list of allocated blocks only counts them. The free blocks are always the
  coalesced pieces of the ids that are managed and not held, so that allocation fails only when no
  aligned region is free, and freeing what was allocated restores the buckets exactly.
\<close>

section \<open>Cutting a range into chunks\<close>

lemma dvd_mask: "k < 32 \<Longrightarrow> s AND ((2 ^ k + 2 ^ 32 - 1) mod 2 ^ 32) = 0 \<longleftrightarrow> 2 ^ k dvd s" for s :: nat
proof -
  assume "k < 32"
  then have "(2 :: nat) ^ k \<le> 2 ^ 32" by (intro power_increasing) auto
  then have "(2 ^ k + 2 ^ 32 - 1) mod 2 ^ 32 = (2 ^ k - 1 :: nat)" by (intro pred_mod) auto
  then show ?thesis
    using take_bit_eq_mask [of k s] by (simp only: mask_eq_exp_minus_1 take_bit_eq_mod dvd_eq_mod_eq_0)
qed

lemma shrink_chunk_ok:
  assumes "b < 32" "1 \<le> len"
  shows "\<exists>b' f'. b' \<le> b \<and> shrink_chunk s len (2 ^ b) b f = Some (2 ^ b', b', f') \<and> 2 ^ b' dvd s \<and> 2 ^ b' \<le> len"
  using assms(1)
proof (induction b arbitrary: f)
  case 0
  have "shrink_chunk s len (2 ^ 0) 0 f = Some (2 ^ 0, 0, f)"
    using assms(2) by (subst shrink_chunk.simps) simp
  then show ?case using assms(2) by (intro exI [of _ 0]) simp
next
  case (Suc b)
  show ?case
  proof (cases "2 ^ Suc b dvd s \<and> 2 ^ Suc b \<le> len")
    case True
    then have "\<not> (s AND ((2 ^ Suc b + 2 ^ 32 - 1) mod 2 ^ 32) \<noteq> 0 \<or> len < 2 ^ Suc b)"
      using dvd_mask [OF Suc.prems, of s] by linarith
    then have "shrink_chunk s len (2 ^ Suc b) (Suc b) f = Some (2 ^ Suc b, Suc b, f)"
      by (subst shrink_chunk.simps) (simp only: if_False)
    with True show ?thesis by (intro exI [of _ "Suc b"]) simp
  next
    case False
    then have c: "s AND ((2 ^ Suc b + 2 ^ 32 - 1) mod 2 ^ 32) \<noteq> 0 \<or> len < 2 ^ Suc b"
      using dvd_mask [OF Suc.prems, of s] by linarith
    have "(Suc b + 2 ^ 32 - 1) mod 2 ^ 32 = Suc b - 1" using Suc.prems by (intro pred_mod) auto
    then have "(Suc b + 2 ^ 32 - 1) mod 2 ^ 32 = b" by simp
    moreover have "drop_bit 1 (2 ^ Suc b) = (2 ^ b :: nat)" by (simp add: drop_bit_eq_div)
    ultimately have "shrink_chunk s len (2 ^ Suc b) (Suc b) f = shrink_chunk s len (2 ^ b) b True"
      by (subst shrink_chunk.simps) (simp only: c if_True)
    then show ?thesis using Suc.IH [of True] Suc.prems by (auto intro: le_SucI)
  qed
qed

lemma grow_chunk_ok:
  assumes "n \<le> 31" "b < n" "2 ^ b dvd s" "2 ^ b \<le> len"
  shows "\<exists>b'. b' < n \<and> grow_chunk dbg n s len (2 ^ (n - 1)) (2 ^ b) (2 ^ b * 2 mod 2 ^ 32) b = Some (2 ^ b', b') \<and>
    2 ^ b' dvd s \<and> 2 ^ b' \<le> len"
  using assms(2-4)
proof (induction "n - b" arbitrary: b rule: less_induct)
  case (less b)
  have "(2 :: nat) ^ Suc b < 2 ^ 32" using less.prems(1) assms(1) by (intro power_strict_increasing) auto
  then have tmp: "2 ^ b * 2 mod 2 ^ 32 = (2 ^ Suc b :: nat)" by (simp add: mult.commute)
  have b32: "Suc b < 32" using less.prems(1) assms(1) by simp
  show ?case
  proof (cases "Suc b < n \<and> 2 ^ Suc b \<le> len \<and> 2 ^ Suc b dvd s")
    case True
    have "(2 :: nat) ^ Suc b \<le> 2 ^ (n - 1)" using True by (intro power_increasing) auto
    then have c: "2 ^ Suc b \<le> (2 :: nat) ^ (n - 1) \<and> 2 ^ Suc b \<le> len \<and> s AND ((2 ^ Suc b + 2 ^ 32 - 1) mod 2 ^ 32) = 0"
      using True dvd_mask [OF b32, of s] by blast
    have d: "\<not> (dbg \<and> \<not> b + 1 < n)" "(b + 1) mod 2 ^ 32 = Suc b" using True b32 by simp_all
    have e: "grow_chunk dbg n s len (2 ^ (n - 1)) (2 ^ b) (2 ^ b * 2 mod 2 ^ 32) b =
        grow_chunk dbg n s len (2 ^ (n - 1)) (2 ^ Suc b) (2 ^ Suc b * 2 mod 2 ^ 32) (Suc b)"
      unfolding tmp by (subst grow_chunk.simps) (simp only: c d if_True if_False simp_thms)
    have "n - Suc b < n - b" using less.prems(1) by simp
    from less.hyps [OF this] True show ?thesis unfolding e by blast
  next
    case False
    have "\<not> (2 ^ Suc b \<le> (2 :: nat) ^ (n - 1) \<and> 2 ^ Suc b \<le> len \<and> s AND ((2 ^ Suc b + 2 ^ 32 - 1) mod 2 ^ 32) = 0)"
    proof
      assume *: "2 ^ Suc b \<le> (2 :: nat) ^ (n - 1) \<and> 2 ^ Suc b \<le> len \<and> s AND ((2 ^ Suc b + 2 ^ 32 - 1) mod 2 ^ 32) = 0"
      then have "2 ^ Suc b \<le> (2 :: nat) ^ (n - 1)" by blast
      then have "Suc b \<le> n - 1" by (rule power_le_imp_le_exp [rotated]) simp
      then have "Suc b < n" using less.prems(1) by linarith
      with * False dvd_mask [OF b32, of s] show False by blast
    qed
    then have "grow_chunk dbg n s len (2 ^ (n - 1)) (2 ^ b) (2 ^ b * 2 mod 2 ^ 32) b = Some (2 ^ b, b)"
      unfolding tmp by (subst grow_chunk.simps) (simp only: if_False)
    then show ?thesis using less.prems by blast
  qed
qed

lemma next_chunk_ok:
  assumes "n \<le> 31" "b < n" "1 \<le> len"
  shows "\<exists>b'. b' < n \<and> next_chunk dbg n s len (2 ^ (n - 1)) (2 ^ b) b = Some (2 ^ b', b') \<and> 2 ^ b' dvd s \<and> 2 ^ b' \<le> len"
proof -
  obtain b' f' where S: "b' \<le> b" "shrink_chunk s len (2 ^ b) b False = Some (2 ^ b', b', f')" "2 ^ b' dvd s" "2 ^ b' \<le> len"
    using shrink_chunk_ok [of b len s False] assms by auto
  then show ?thesis
    using grow_chunk_ok [OF assms(1), of b' s len dbg] assms(2) by (cases f') (auto simp: next_chunk_def)
qed

text \<open>The chunks follow each other from the start of the range to its end.\<close>

fun chunks :: "nat \<Rightarrow> nat \<Rightarrow> nat \<Rightarrow> p2ra_block list \<Rightarrow> bool" where
  "chunks n s len [] \<longleftrightarrow> len = 0"
| "chunks n s len (c # cs) \<longleftrightarrow> pb_start c = s \<and> pb_bucket c < n \<and> 2 ^ pb_bucket c dvd s \<and> 2 ^ pb_bucket c \<le> len \<and>
     chunks n (s + 2 ^ pb_bucket c) (len - 2 ^ pb_bucket c) cs"

lemma range_blocks_ok:
  assumes "ps_bucket_count st \<le> 31" "b < ps_bucket_count st"
  shows "\<exists>r u. range_blocks dbg ac i s len (2 ^ (ps_bucket_count st - 1)) (2 ^ b) b nb st =
      Some (r, st\<lparr>ps_unused_blocks := u\<rparr>) \<and>
    (case r of None \<Rightarrow> \<exists>j \<ge> i. \<not> ac j | Some bs \<Rightarrow> \<exists>cs. bs = nb @ cs \<and> chunks (ps_bucket_count st) s len cs)"
  using assms
proof (induction len arbitrary: s i b nb st rule: less_induct)
  case (less len s i b nb st)
  let ?n = "ps_bucket_count st"
  show ?case
  proof (cases "len = 0")
    case True
    then have "range_blocks dbg ac i s len (2 ^ (?n - 1)) (2 ^ b) b nb st =
      Some (Some nb, st\<lparr>ps_unused_blocks := ps_unused_blocks st\<rparr>)"
      by (subst range_blocks.simps) simp
    then show ?thesis using True by (intro exI conjI) (assumption, simp)
  next
    case False
    then obtain b' where N: "b' < ?n" "next_chunk dbg ?n s len (2 ^ (?n - 1)) (2 ^ b) b = Some (2 ^ b', b')"
      "2 ^ b' dvd s" "2 ^ b' \<le> len"
      using next_chunk_ok [OF less.prems, of len dbg s] by auto
    obtain g st1 where G: "p2ra_get_unused_block (ac i) st = (g, st1)" by fastforce
    then obtain u where u: "st1 = st\<lparr>ps_unused_blocks := u\<rparr>" "g = None \<Longrightarrow> \<not> ac i"
      by (auto simp: p2ra_get_unused_block_def split: list.splits if_splits) (metis p2ra_state.surjective p2ra_state.update_convs(2))+
    show ?thesis
    proof (cases g)
      case None
      then have "range_blocks dbg ac i s len (2 ^ (?n - 1)) (2 ^ b) b nb st = Some (None, st\<lparr>ps_unused_blocks := u\<rparr>)"
        using False N(2) G u(1) by (subst range_blocks.simps) simp
      then show ?thesis using u(2) None by (intro exI conjI) (assumption, auto)
    next
      case (Some block)
      let ?c = "block\<lparr>pb_bucket := b', pb_start := s\<rparr>"
      have n1: "ps_bucket_count st1 = ?n" by (simp add: u(1))
      have "len - 2 ^ b' < len" using False by simp
      from less.IH [OF this, where st = st1 and b = b' and i = "Suc i" and s = "s + 2 ^ b'" and nb = "nb @ [?c]",
          unfolded n1, OF less.prems(1) N(1)] obtain r u' where R:
        "range_blocks dbg ac (Suc i) (s + 2 ^ b') (len - 2 ^ b') (2 ^ (?n - 1)) (2 ^ b') b' (nb @ [?c]) st1 =
          Some (r, st1\<lparr>ps_unused_blocks := u'\<rparr>)"
        "case r of None \<Rightarrow> \<exists>j \<ge> Suc i. \<not> ac j | Some bs \<Rightarrow> \<exists>cs. bs = (nb @ [?c]) @ cs \<and> chunks ?n (s + 2 ^ b') (len - 2 ^ b') cs"
        by blast
      have "range_blocks dbg ac i s len (2 ^ (?n - 1)) (2 ^ b) b nb st = Some (r, st\<lparr>ps_unused_blocks := u'\<rparr>)"
        using False N(2) G Some R(1) u(1) by (subst range_blocks.simps) simp
      moreover have "case r of None \<Rightarrow> \<exists>j \<ge> i. \<not> ac j | Some bs \<Rightarrow> \<exists>cs. bs = nb @ cs \<and> chunks ?n s len cs"
      proof (cases r)
        case None
        then show ?thesis using R(2) by (auto dest: Suc_leD)
      next
        case (Some bs)
        then obtain cs where "bs = nb @ ?c # cs" "chunks ?n (s + 2 ^ b') (len - 2 ^ b') cs" using R(2) by auto
        moreover from this(2) N have "chunks ?n s len (?c # cs)" by simp
        ultimately show ?thesis using Some by auto
      qed
      ultimately show ?thesis by blast
    qed
  qed
qed

section \<open>The effect of the operations on the pieces\<close>

lemma return_blocks_ok:
  assumes "free_ok st" "chunks (ps_bucket_count st) s len cs" "{s..<s + len} \<inter> ids (free_pieces st) = {}"
  shows "case return_blocks dbg cs st of
      None \<Rightarrow> dbg
    | Some st' \<Rightarrow> free_ok st' \<and> ps_bucket_count st' = ps_bucket_count st \<and> ps_ranges st' = ps_ranges st \<and>
        ps_allocated_blocks st' = ps_allocated_blocks st \<and> ids (free_pieces st') = ids (free_pieces st) \<union> {s..<s + len}"
  using assms
proof (induction cs arbitrary: s len st)
  case (Cons c cs)
  let ?k = "pb_bucket c"
  have c: "pb_start c = s" "?k < ps_bucket_count st" "2 ^ ?k dvd s" "2 ^ ?k \<le> len"
    "chunks (ps_bucket_count st) (s + 2 ^ ?k) (len - 2 ^ ?k) cs" using Cons.prems(2) by simp_all
  have p: "ivl (piece_of c) = {s..<s + 2 ^ ?k}" by (simp add: piece_of_def ivl_def c(1))
  have d0: "ivl (piece_of c) \<inter> ids (free_pieces st) = {}"
    using Cons.prems(3) c(4) unfolding p by (meson disjoint_iff atLeastLessThan_iff add_le_cancel_left order_less_le_trans)
  have "aligned (piece_of c)" using c by (simp add: aligned_def piece_of_def)
  from return_ok [OF Cons.prems(1) c(2) this d0, of dbg False]
  have R: "case p2ra_return_free_block dbg c False st of None \<Rightarrow> dbg | Some st' \<Rightarrow> returned st (piece_of c) st'"
    by (auto simp: forbidden_merge_def split: option.splits)
  show ?case
  proof (cases "p2ra_return_free_block dbg c False st")
    case None
    then show ?thesis using R by simp
  next
    case (Some st1)
    then have r: "free_ok st1" "ps_bucket_count st1 = ps_bucket_count st" "ps_ranges st1 = ps_ranges st"
      "ps_allocated_blocks st1 = ps_allocated_blocks st" "ids (free_pieces st1) = ids (free_pieces st) \<union> {s..<s + 2 ^ ?k}"
      using R by (simp_all add: returned_def p)
    have d: "{s + 2 ^ ?k..<s + 2 ^ ?k + (len - 2 ^ ?k)} \<inter> ids (free_pieces st1) = {}"
    proof -
      have "{s + 2 ^ ?k..<s + 2 ^ ?k + (len - 2 ^ ?k)} \<subseteq> {s..<s + len}"
        "{s + 2 ^ ?k..<s + 2 ^ ?k + (len - 2 ^ ?k)} \<inter> {s..<s + 2 ^ ?k} = {}" using c(4) by auto
      with Cons.prems(3) show ?thesis unfolding r(5) by blast
    qed
    have u: "{s..<s + 2 ^ ?k} \<union> {s + 2 ^ ?k..<s + 2 ^ ?k + (len - 2 ^ ?k)} = {s..<s + len}" using c(4) by auto
    show ?thesis
      using Cons.IH [OF r(1) _ d] c(5) r Some u by (auto split: option.splits)
  qed
qed simp

lemma get_unused_block_frame:
  assumes "p2ra_get_unused_block ok st = (g, st1)"
  shows "free_pieces st1 = free_pieces st" "free_ok st1 = free_ok st" "ps_bucket_count st1 = ps_bucket_count st"
    "ps_ranges st1 = ps_ranges st" "ps_allocated_blocks st1 = ps_allocated_blocks st" "g = None \<Longrightarrow> \<not> ok"
  using assms by (auto simp: p2ra_get_unused_block_def free_pieces_def free_ok_def lists_ok_def split: list.splits if_splits)

lemma split_half_ok:
  assumes "free_ok st" "pb_bucket b = Suc bucket" "Suc bucket < ps_bucket_count st" "aligned (piece_of b)"
    "ivl (piece_of b) \<inter> ids (free_pieces st) = {}" "b1 = b\<lparr>pb_bucket := bucket\<rparr>"
    "b2 = sb\<lparr>pb_start := pb_start b1 + 2 ^ pb_bucket b1, pb_bucket := bucket\<rparr>"
  shows "\<exists>st2. p2ra_return_free_block dbg b2 False st = Some st2 \<and> returned st (piece_of b2) st2 \<and>
    aligned (piece_of b1) \<and> ivl (piece_of b1) \<inter> ids (free_pieces st2) = {} \<and>
    ivl (piece_of b) = ivl (piece_of b1) \<union> ivl (piece_of b2) \<and> ivl (piece_of b1) \<inter> ivl (piece_of b2) = {}"
proof -
  let ?s = "pb_start b"
  have p: "piece_of b = (Suc bucket, ?s)" "piece_of b1 = (bucket, ?s)" "piece_of b2 = (bucket, ?s + 2 ^ bucket)"
    using assms(2) by (simp_all add: piece_of_def assms(6,7))
  have al: "2 ^ Suc bucket dvd ?s" "2 ^ bucket dvd ?s"
    using assms(4) unfolding p by (auto simp: aligned_def intro: dvd_trans [OF le_imp_power_dvd])
  have iv: "ivl (piece_of b) = ivl (piece_of b1) \<union> ivl (piece_of b2)" "ivl (piece_of b1) \<inter> ivl (piece_of b2) = {}"
    unfolding p by (auto simp: ivl_def)
  have d: "ivl (piece_of b2) \<inter> ids (free_pieces st) = {}" "ivl (piece_of b1) \<inter> ids (free_pieces st) = {}"
    using assms(5) iv by auto
  have "\<not> 2 ^ (bucket + 1) dvd ?s + 2 ^ bucket" using al(1) by (auto simp: dvd_add_right_iff dest: dvd_imp_le)
  then have "buddy (piece_of b2) = ?s" unfolding p by (simp add: buddy_def)
  then have nb: "(pb_bucket b2, buddy (piece_of b2)) \<notin> free_pieces st"
    using free_piece_disjoint [OF _ d(2)] by (auto simp: p assms(7))
  have "aligned (piece_of b2)" "pb_bucket b2 < ps_bucket_count st"
    using al(2) assms(3) by (simp_all add: p(3) aligned_def) (simp add: assms(7))
  from return_ok [OF assms(1) this(2,1) d(1), of dbg False] nb
  obtain st2 where S: "p2ra_return_free_block dbg b2 False st = Some st2" "returned st (piece_of b2) st2"
    by (auto simp: forbidden_merge_def split: option.splits)
  moreover have "ivl (piece_of b1) \<inter> ids (free_pieces st2) = {}" using S(2) d iv(2) by (auto simp: returned_def)
  moreover have "aligned (piece_of b1)" using al by (simp add: p aligned_def)
  ultimately show ?thesis using iv by blast
qed

text \<open>Splitting: the first part is kept, the rest becomes free; or nothing changes.\<close>

lemma split_block_loop_ok:
  assumes "free_ok st" "bucket = pb_bucket b" "bucket < ps_bucket_count st" "aligned (piece_of b)"
    "ivl (piece_of b) \<inter> ids (free_pieces st) = {}" "orig \<le> bucket"
  shows "\<exists>r st'. split_block_loop dbg ac orig bucket b st = Some (r, st') \<and> free_ok st' \<and>
    ps_bucket_count st' = ps_bucket_count st \<and> ps_ranges st' = ps_ranges st \<and>
    ps_allocated_blocks st' = ps_allocated_blocks st \<and>
    (case r of
       Inl e \<Rightarrow> e = ZX_ERR_NO_MEMORY \<and> (\<exists>i. \<not> ac i) \<and> ids (free_pieces st') = ids (free_pieces st) \<union> ivl (piece_of b)
     | Inr b' \<Rightarrow> piece_of b' = (orig, pb_start b) \<and>
         ids (free_pieces st') = ids (free_pieces st) \<union> (ivl (piece_of b) - ivl (piece_of b')))"
  using assms
proof (induction bucket arbitrary: b st)
  case 0
  then show ?case by (auto simp: piece_of_def)
next
  case (Suc bucket)
  let ?s = "pb_start b"
  show ?case
  proof (cases "Suc bucket \<le> orig")
    case True
    with Suc.prems show ?thesis by (auto simp: piece_of_def)
  next
    case False
    obtain g st1 where G: "p2ra_get_unused_block (ac bucket) st = (g, st1)" by fastforce
    note fr = get_unused_block_frame [OF G]
    have ok1: "free_ok st1" using Suc.prems(1) fr by simp
    show ?thesis
    proof (cases g)
      case None
      have "case p2ra_return_free_block dbg b True st1 of None \<Rightarrow> False | Some st' \<Rightarrow> returned st1 (piece_of b) st'"
        using return_ok [OF ok1, of b dbg True] Suc.prems(2-5) fr by (auto simp: forbidden_merge_def split: option.splits)
      then obtain st2 where "p2ra_return_free_block dbg b True st1 = Some st2" "returned st1 (piece_of b) st2"
        by (auto split: option.splits)
      then show ?thesis using False G None fr by (auto simp: returned_def)
    next
      case (Some sb)
      define b1 where "b1 = b\<lparr>pb_bucket := bucket\<rparr>"
      define b2 where "b2 = sb\<lparr>pb_start := pb_start b1 + 2 ^ pb_bucket b1, pb_bucket := bucket\<rparr>"
      have pre: "pb_bucket b = Suc bucket" "Suc bucket < ps_bucket_count st1" "ivl (piece_of b) \<inter> ids (free_pieces st1) = {}"
        using Suc.prems(2,3,5) fr by simp_all
      obtain st2 where S: "p2ra_return_free_block dbg b2 False st1 = Some st2" "returned st1 (piece_of b2) st2"
        "aligned (piece_of b1)" "ivl (piece_of b1) \<inter> ids (free_pieces st2) = {}"
        "ivl (piece_of b) = ivl (piece_of b1) \<union> ivl (piece_of b2)" "ivl (piece_of b1) \<inter> ivl (piece_of b2) = {}"
        using split_half_ok [OF ok1 pre(1,2) Suc.prems(4) pre(3) b1_def b2_def] by blast
      then obtain r st' where R: "split_block_loop dbg ac orig bucket b1 st2 = Some (r, st')" "free_ok st'"
        "ps_bucket_count st' = ps_bucket_count st2" "ps_ranges st' = ps_ranges st2"
        "ps_allocated_blocks st' = ps_allocated_blocks st2"
        "case r of Inl e \<Rightarrow> e = ZX_ERR_NO_MEMORY \<and> (\<exists>i. \<not> ac i) \<and> ids (free_pieces st') = ids (free_pieces st2) \<union> ivl (piece_of b1)
         | Inr b' \<Rightarrow> piece_of b' = (orig, pb_start b1) \<and>
             ids (free_pieces st') = ids (free_pieces st2) \<union> (ivl (piece_of b1) - ivl (piece_of b'))"
        using Suc.IH [of st2 b1] Suc.prems(3) False fr by (auto simp: returned_def b1_def)
      have e: "split_block_loop dbg ac orig (Suc bucket) b st = Some (r, st')"
        using False G Some S(1) R(1) by (simp add: b1_def b2_def)
      have F2: "ids (free_pieces st2) = ids (free_pieces st) \<union> ivl (piece_of b2)" using S(2) fr by (simp add: returned_def)
      have sub: "ivl (piece_of b') \<subseteq> ivl (piece_of b1)" if "piece_of b' = (orig, pb_start b1)" for b'
      proof -
        have "(2 :: nat) ^ orig \<le> 2 ^ bucket" using False by (intro power_increasing) auto
        then show ?thesis using that by (auto simp: ivl_def piece_of_def b1_def)
      qed
      have "case r of Inl e \<Rightarrow> e = ZX_ERR_NO_MEMORY \<and> (\<exists>i. \<not> ac i) \<and> ids (free_pieces st') = ids (free_pieces st) \<union> ivl (piece_of b)
         | Inr b' \<Rightarrow> piece_of b' = (orig, pb_start b) \<and>
             ids (free_pieces st') = ids (free_pieces st) \<union> (ivl (piece_of b) - ivl (piece_of b'))"
        using R(6) S(5,6) sub unfolding F2 by (cases r) (auto simp: b1_def)
      then show ?thesis using e R(2-5) S(2) fr by (simp add: returned_def)
    qed
  qed
qed

lemma find_block_ok:
  assumes "lists_ok st"
  shows "case find_block k st of
      None \<Rightarrow> \<forall>j. k \<le> j \<and> j < ps_bucket_count st \<longrightarrow> ps_free_block_buckets st ! j = []
    | Some (j, b, st1) \<Rightarrow> k \<le> j \<and> j < ps_bucket_count st \<and> pb_bucket b = j \<and> piece_of b \<in> free_pieces st \<and>
        free_pieces st1 = free_pieces st - {piece_of b} \<and> lists_ok st1 \<and> ps_bucket_count st1 = ps_bucket_count st \<and>
        ps_ranges st1 = ps_ranges st \<and> ps_allocated_blocks st1 = ps_allocated_blocks st"
  using assms
proof (induction k st rule: find_block.induct)
  case (1 k st)
  show ?case
  proof (cases "k < ps_bucket_count st")
    case False
    then show ?thesis by (subst find_block.simps) auto
  next
    case kn: True
    show ?thesis
    proof (cases "ps_free_block_buckets st ! k")
      case Nil
      have IH: "case find_block (k + 1) st of
          None \<Rightarrow> \<forall>j. k + 1 \<le> j \<and> j < ps_bucket_count st \<longrightarrow> ps_free_block_buckets st ! j = []
        | Some (j, b, st1) \<Rightarrow> k + 1 \<le> j \<and> j < ps_bucket_count st \<and> pb_bucket b = j \<and> piece_of b \<in> free_pieces st \<and>
            free_pieces st1 = free_pieces st - {piece_of b} \<and> lists_ok st1 \<and> ps_bucket_count st1 = ps_bucket_count st \<and>
            ps_ranges st1 = ps_ranges st \<and> ps_allocated_blocks st1 = ps_allocated_blocks st"
        by (rule "1.IH" [OF kn Nil "1.prems"])
      have e: "find_block k st = find_block (k + 1) st" using kn Nil by (subst find_block.simps) simp
      show ?thesis
      proof (cases "find_block (k + 1) st")
        case None
        have "ps_free_block_buckets st ! j = []" if "k \<le> j" "j < ps_bucket_count st" for j
          using that IH Nil unfolding None option.case by (cases "j = k") simp_all
        then show ?thesis unfolding e None option.case by blast
      next
        case (Some r)
        obtain j b st1 where "r = (j, b, st1)" by (cases r)
        then show ?thesis using IH unfolding e Some option.case by simp
      qed
    next
      case (Cons b bs)
      define st1 where "st1 = st\<lparr>ps_free_block_buckets := (ps_free_block_buckets st)[k := bs]\<rparr>"
      have bk: "bucket_ok k ([] @ b # bs)" using "1.prems" kn Cons by (simp add: lists_ok_def) metis
      note sub = bucket_ok_sub [OF bk]
      have pb: "pb_bucket b = k" using bk by (simp add: bucket_ok_def)
      have "free_pieces st1 = {p \<in> free_pieces st. fst p \<noteq> k} \<union> Pair k ` pb_start ` set bs"
        unfolding st1_def using "1.prems" by (intro free_pieces_upd [OF kn]) (simp add: lists_ok_def)
      also have "pb_start ` set bs = pb_start ` set (ps_free_block_buckets st ! k) - {pb_start b}"
        using sub(2) unfolding Cons by (simp only: append_Nil)
      also have "{p \<in> free_pieces st. fst p \<noteq> k} \<union> Pair k ` (pb_start ` set (ps_free_block_buckets st ! k) - {pb_start b}) =
          free_pieces st - {piece_of b}"
        using kn by (auto simp: free_pieces_def piece_of_def pb)
      finally have "free_pieces st1 = free_pieces st - {piece_of b}" .
      moreover have "lists_ok st1" unfolding st1_def using lists_ok_upd [OF "1.prems" kn] sub(1) by simp
      moreover have "piece_of b \<in> free_pieces st" using kn by (simp add: free_pieces_def piece_of_def pb Cons)
      moreover have "find_block k st = Some (k, b, st1)" using kn Cons by (subst find_block.simps) (simp add: st1_def)
      ultimately show ?thesis using kn pb by (simp add: st1_def)
    qed
  qed
qed

section \<open>The invariant with the blocks that are held\<close>

definition range_ids :: "p2ra_state \<Rightarrow> nat set" where
  "range_ids st = (\<Union>r \<in> set (ps_ranges st). {pr_start r..<pr_start r + pr_len r})"

definition p2ra_inv :: "bool \<Rightarrow> p2ra_state \<Rightarrow> piece set \<Rightarrow> bool" where
  "p2ra_inv dbg st H \<longleftrightarrow>
     free_ok st \<and> 0 < ps_bucket_count st \<and> ps_bucket_count st \<le> 31 \<and> finite H \<and> pieces_ok (ps_bucket_count st) H \<and>
     ids (free_pieces st) \<inter> ids H = {} \<and> ids (free_pieces st) \<union> ids H = range_ids st \<and>
     length (ps_allocated_blocks st) = card H \<and>
     (dbg \<longrightarrow> distinct (map piece_of (ps_allocated_blocks st)) \<and> piece_of ` set (ps_allocated_blocks st) = H)"

lemma ids_insert: "ids (insert p P) = ivl p \<union> ids P"
  by (simp add: ids_def)

lemma ids_remove: "pieces_ok n P \<Longrightarrow> p \<in> P \<Longrightarrow> ids (P - {p}) = ids P - ivl p"
  unfolding pieces_ok_def ids_def by blast

text \<open>A successful search takes a free piece out of the free pieces.\<close>

lemma find_block_free:
  assumes "free_ok st" "find_block k st = Some (j, b, st1)"
  shows "free_ok st1" "ids (free_pieces st) = ids (free_pieces st1) \<union> ivl (piece_of b)"
    "ivl (piece_of b) \<inter> ids (free_pieces st1) = {}" "aligned (piece_of b)" "k \<le> j" "j < ps_bucket_count st" "pb_bucket b = j"
    "ps_bucket_count st1 = ps_bucket_count st" "ps_ranges st1 = ps_ranges st"
    "ps_allocated_blocks st1 = ps_allocated_blocks st"
proof -
  have lk: "lists_ok st" and pk: "pieces_ok (ps_bucket_count st) (free_pieces st)"
    and co: "coalesced (ps_bucket_count st) (free_pieces st)" using assms(1) by (simp_all add: free_ok_def)
  have F: "k \<le> j" "j < ps_bucket_count st" "pb_bucket b = j" "piece_of b \<in> free_pieces st"
    "free_pieces st1 = free_pieces st - {piece_of b}" "lists_ok st1" "ps_bucket_count st1 = ps_bucket_count st"
    "ps_ranges st1 = ps_ranges st" "ps_allocated_blocks st1 = ps_allocated_blocks st"
    using find_block_ok [OF lk, of k] assms(2) by simp_all
  show "k \<le> j" "j < ps_bucket_count st" "pb_bucket b = j" "ps_bucket_count st1 = ps_bucket_count st"
    "ps_ranges st1 = ps_ranges st" "ps_allocated_blocks st1 = ps_allocated_blocks st" by (fact F)+
  show "free_ok st1"
    using pieces_ok_mono [OF pk, of "free_pieces st1"] coalesced_mono [OF co, of "free_pieces st1"] F
    by (simp add: free_ok_def)
  show "aligned (piece_of b)" using pk F(4) by (simp add: pieces_ok_def)
  have "ids (free_pieces st1) = ids (free_pieces st) - ivl (piece_of b)" unfolding F(5) by (rule ids_remove [OF pk F(4)])
  moreover have "ivl (piece_of b) \<subseteq> ids (free_pieces st)" using F(4) by (auto simp: ids_def)
  ultimately show "ids (free_pieces st) = ids (free_pieces st1) \<union> ivl (piece_of b)"
    "ivl (piece_of b) \<inter> ids (free_pieces st1) = {}" by blast+
qed

text \<open>A failed search means that no aligned region of the size is free.\<close>

lemma find_block_none:
  assumes "free_ok st" "find_block k st = None" "k < ps_bucket_count st" "aligned (k, a)"
  shows "\<not> ivl (k, a) \<subseteq> ids (free_pieces st)"
proof
  assume "ivl (k, a) \<subseteq> ids (free_pieces st)"
  then obtain p where p: "p \<in> free_pieces st" "ivl (k, a) \<subseteq> ivl p"
    using coalesced_complete [of "ps_bucket_count st" "free_pieces st" k a] assms by (auto simp: free_ok_def)
  have "k \<le> fst p" using ivl_subset_level [OF p(2)] by simp
  moreover have "fst p < ps_bucket_count st" "ps_free_block_buckets st ! fst p \<noteq> []" using p(1) by (auto simp: free_pieces_def)
  ultimately show False
    using find_block_ok [of st k] assms(1,2) by (auto simp: free_ok_def)
qed

lemma pow2_size: "k < 32 \<Longrightarrow> (2 :: nat) ^ k \<noteq> 0 \<and> ispow2 (2 ^ k) \<and> log2_uint_floor (2 ^ k) = k"
  using ispow2_iff [of "2 ^ k"] power_strict_increasing [of k 32 "2 :: nat"] by (auto simp: log2_uint_floor_pow2)

lemma p2ra_invD:
  assumes "p2ra_inv dbg st H"
  shows "free_ok st" "0 < ps_bucket_count st" "ps_bucket_count st \<le> 31" "finite H" "pieces_ok (ps_bucket_count st) H"
    "ids (free_pieces st) \<inter> ids H = {}" "ids (free_pieces st) \<union> ids H = range_ids st"
    "length (ps_allocated_blocks st) = card H"
    "dbg \<Longrightarrow> distinct (map piece_of (ps_allocated_blocks st))" "dbg \<Longrightarrow> piece_of ` set (ps_allocated_blocks st) = H"
  using assms by (simp_all add: p2ra_inv_def)

lemma p2ra_inv_frame:
  assumes "p2ra_inv dbg st H" "free_ok st'" "ps_bucket_count st' = ps_bucket_count st" "ps_ranges st' = ps_ranges st"
    "ps_allocated_blocks st' = ps_allocated_blocks st" "ids (free_pieces st') = ids (free_pieces st)"
  shows "p2ra_inv dbg st' H"
  using assms by (simp add: p2ra_inv_def range_ids_def)

text \<open>Holding a piece that was free.\<close>

lemma p2ra_inv_hold:
  assumes "p2ra_inv dbg st H" "free_ok st'" "ps_bucket_count st' = ps_bucket_count st" "ps_ranges st' = ps_ranges st"
    "ps_allocated_blocks st' = b # ps_allocated_blocks st" "aligned (piece_of b)" "pb_bucket b < ps_bucket_count st"
    "ids (free_pieces st') = ids (free_pieces st) - ivl (piece_of b)" "ivl (piece_of b) \<subseteq> ids (free_pieces st)"
  shows "p2ra_inv dbg st' (insert (piece_of b) H)" "piece_of b \<notin> H"
proof -
  note i = p2ra_invD [OF assms(1)]
  have dj: "ivl (piece_of b) \<inter> ids H = {}" using assms(9) i(6) by blast
  then show new: "piece_of b \<notin> H" using ivl_nonempty [of "piece_of b"] by (auto simp: ids_def)
  have "pieces_ok (ps_bucket_count st) (insert (piece_of b) H)"
    using pieces_ok_insert [OF i(5), of "pb_bucket b" "pb_start b"] assms(6,7) dj by (simp add: piece_of_def)
  moreover have "ids (free_pieces st') \<inter> ids (insert (piece_of b) H) = {}"
    "ids (free_pieces st') \<union> ids (insert (piece_of b) H) = range_ids st"
    unfolding ids_insert assms(8) using i(6,7) dj assms(9) by blast+
  ultimately show "p2ra_inv dbg st' (insert (piece_of b) H)"
    using i new assms(2-5) by (auto simp: p2ra_inv_def range_ids_def)
qed

lemma p2ra_allocate_ok:
  assumes "p2ra_inv dbg st H" "k < ps_bucket_count st"
  shows "\<exists>r st'. p2ra_allocate_range dbg ac (2 ^ k) st = Some (r, st') \<and> ps_ranges st' = ps_ranges st \<and>
    ps_bucket_count st' = ps_bucket_count st \<and>
    (case r of
       Inr a \<Rightarrow> aligned (k, a) \<and> ivl (k, a) \<subseteq> range_ids st - ids H \<and> (k, a) \<notin> H \<and> p2ra_inv dbg st' (insert (k, a) H)
     | Inl e \<Rightarrow> p2ra_inv dbg st' H \<and>
         (if \<exists>a. aligned (k, a) \<and> ivl (k, a) \<subseteq> range_ids st - ids H then e = ZX_ERR_NO_MEMORY \<and> (\<exists>i. \<not> ac i)
          else e = ZX_ERR_NO_RESOURCES \<and> st' = st))"
proof -
  note i = p2ra_invD [OF assms(1)]
  have F: "range_ids st - ids H = ids (free_pieces st)" using i(6,7) by blast
  have k: "(2 :: nat) ^ k \<noteq> 0" "ispow2 (2 ^ k)" "log2_uint_floor (2 ^ k) = k" using pow2_size [of k] assms(2) i(3) by auto
  show ?thesis
  proof (cases "find_block k st")
    case None
    then have "p2ra_allocate_range dbg ac (2 ^ k) st = Some (Inl ZX_ERR_NO_RESOURCES, st)"
      using k assms(2) by (simp add: p2ra_allocate_range_def)
    moreover have "\<not> (\<exists>a. aligned (k, a) \<and> ivl (k, a) \<subseteq> ids (free_pieces st))"
      using find_block_none [OF i(1) None assms(2)] by blast
    ultimately show ?thesis using assms(1) unfolding F by simp
  next
    case (Some r)
    obtain j b st1 where fb: "find_block k st = Some (j, b, st1)" using Some by (cases r) simp
    note B = find_block_free [OF i(1) fb]
    obtain r st2 where S: "split_block_loop dbg ac k j b st1 = Some (r, st2)" "free_ok st2"
      "ps_bucket_count st2 = ps_bucket_count st" "ps_ranges st2 = ps_ranges st" "ps_allocated_blocks st2 = ps_allocated_blocks st"
      "case r of Inl e \<Rightarrow> e = ZX_ERR_NO_MEMORY \<and> (\<exists>i. \<not> ac i) \<and> ids (free_pieces st2) = ids (free_pieces st1) \<union> ivl (piece_of b)
       | Inr b' \<Rightarrow> piece_of b' = (k, pb_start b) \<and>
           ids (free_pieces st2) = ids (free_pieces st1) \<union> (ivl (piece_of b) - ivl (piece_of b'))"
      using split_block_loop_ok [OF B(1) B(7) [symmetric] _ B(4,3,5), of dbg ac] B(6,8-10) by auto
    have sub: "ivl (k, pb_start b) \<subseteq> ivl (piece_of b)" "aligned (k, pb_start b)"
    proof -
      have "(2 :: nat) ^ k \<le> 2 ^ j" "(2 :: nat) ^ k dvd 2 ^ j" using B(5) by (auto intro: power_increasing le_imp_power_dvd)
      then show "ivl (k, pb_start b) \<subseteq> ivl (piece_of b)" "aligned (k, pb_start b)"
        using B(4,7) by (auto simp: ivl_def aligned_def piece_of_def intro: dvd_trans)
    qed
    then have ex: "ivl (k, pb_start b) \<subseteq> ids (free_pieces st)" using B(2) by blast
    show ?thesis
    proof (cases r)
      case (Inl e)
      have "p2ra_inv dbg st2 H" by (rule p2ra_inv_frame [OF assms(1) S(2-5)]) (use S(6) B(2) Inl in simp)
      moreover have "p2ra_allocate_range dbg ac (2 ^ k) st = Some (Inl e, st2)"
        using k assms(2) fb S(1) Inl by (simp add: p2ra_allocate_range_def)
      ultimately show ?thesis using S(3,4,6) Inl ex sub(2) unfolding F by auto
    next
      case (Inr b')
      let ?st = "st2\<lparr>ps_allocated_blocks := b' # ps_allocated_blocks st2\<rparr>"
      have b': "piece_of b' = (k, pb_start b)" using S(6) Inr by simp
      have fs: "free_pieces ?st = free_pieces st2" "free_ok ?st = free_ok st2" by (simp_all add: free_pieces_def free_ok_def lists_ok_def)
      have "ids (free_pieces ?st) = ids (free_pieces st) - ivl (piece_of b')"
        using S(6) B(2,3) sub(1) unfolding fs Inr b' by auto
      then have "p2ra_inv dbg ?st (insert (piece_of b') H)" "piece_of b' \<notin> H"
        using p2ra_inv_hold [OF assms(1), of ?st b'] S(2-5) fs sub(2) ex b' assms(2) by (auto simp: piece_of_def)
      moreover have "p2ra_allocate_range dbg ac (2 ^ k) st = Some (Inr (pb_start b), ?st)"
        using k assms(2) fb S(1) Inr b' by (simp add: p2ra_allocate_range_def piece_of_def)
      ultimately show ?thesis using S(3,4) ex sub(2) unfolding F b' by simp
    qed
  qed
qed

text \<open>The bookkeeping that freeing takes from the allocated blocks, in either build.\<close>

lemma remove1_pieces:
  assumes "distinct (map piece_of xs)" "b \<in> set xs"
  shows "distinct (map piece_of (remove1 b xs))" "piece_of ` set (remove1 b xs) = piece_of ` set xs - {piece_of b}"
proof -
  have d: "distinct xs" "inj_on piece_of (set xs)" using assms(1) by (simp_all add: distinct_map)
  then show "distinct (map piece_of (remove1 b xs))" by (auto simp: distinct_map intro: inj_on_subset)
  show "piece_of ` set (remove1 b xs) = piece_of ` set xs - {piece_of b}"
    using d assms(2) by (simp add: inj_on_image_set_diff [OF d(2)])
qed

lemma free_bookkeeping:
  assumes "p2ra_inv dbg st H" "(k, a) \<in> H" "log2_uint_floor (2 ^ k) = k" "ispow2 (2 ^ k)"
  shows "\<exists>b bs. p2ra_free_range dbg a (2 ^ k) st = p2ra_return_free_block dbg b True (st\<lparr>ps_allocated_blocks := bs\<rparr>) \<and>
    piece_of b = (k, a) \<and> length bs = card (H - {(k, a)}) \<and>
    (dbg \<longrightarrow> distinct (map piece_of bs) \<and> piece_of ` set bs = H - {(k, a)})"
proof -
  note i = p2ra_invD [OF assms(1)]
  let ?al = "ps_allocated_blocks st"
  have c: "card (H - {(k, a)}) = length ?al - 1" "0 < length ?al"
    using i(4,8) assms(2) by (auto simp: card_gt_0_iff)
  show ?thesis
  proof (cases dbg)
    case True
    let ?P = "\<lambda>b. pb_start b = a \<and> pb_bucket b = k"
    have "\<exists>b \<in> set ?al. ?P b" using i(10) [OF True] assms(2) by (force simp: piece_of_def)
    then obtain b where b: "find ?P ?al = Some b" "b \<in> set ?al" "piece_of b = (k, a)"
      by (cases "find ?P ?al") (auto simp: find_None_iff find_Some_iff piece_of_def)
    note r = remove1_pieces [OF i(9) [OF True] b(2)]
    have "p2ra_free_range dbg a (2 ^ k) st =
        p2ra_return_free_block dbg b True (st\<lparr>ps_allocated_blocks := remove1 b ?al\<rparr>)"
      using True b(1) by (simp add: p2ra_free_range_def assms(3,4))
    then show ?thesis using b r i(10) [OF True] c by (intro exI [of _ b] exI [of _ "remove1 b ?al"]) (simp add: length_remove1)
  next
    case False
    obtain b bs where al: "?al = b # bs" using c(2) by (cases ?al) auto
    let ?b = "b\<lparr>pb_start := a, pb_bucket := k\<rparr>"
    have "p2ra_free_range dbg a (2 ^ k) st = p2ra_return_free_block dbg ?b True (st\<lparr>ps_allocated_blocks := bs\<rparr>)"
      using False al by (simp add: p2ra_free_range_def assms(3))
    then show ?thesis using False c al by (intro exI [of _ ?b] exI [of _ bs]) (simp add: piece_of_def)
  qed
qed

lemma p2ra_free_range_ok:
  assumes "p2ra_inv dbg st H" "(k, a) \<in> H"
  shows "\<exists>st'. p2ra_free_range dbg a (2 ^ k) st = Some st' \<and> p2ra_inv dbg st' (H - {(k, a)}) \<and>
    ps_ranges st' = ps_ranges st \<and> ps_bucket_count st' = ps_bucket_count st \<and>
    ids (free_pieces st') = ids (free_pieces st) \<union> ivl (k, a)"
proof -
  note i = p2ra_invD [OF assms(1)]
  have kn: "k < ps_bucket_count st" "aligned (k, a)" using i(5) assms(2) by (auto simp: pieces_ok_def)
  have k: "log2_uint_floor (2 ^ k) = k" "ispow2 (2 ^ k)" using pow2_size [of k] kn i(3) by auto
  have "ivl (k, a) \<subseteq> ids H" using assms(2) by (auto simp: ids_def)
  then have dj: "ivl (k, a) \<inter> ids (free_pieces st) = {}" using i(6) by blast
  obtain b bs where B: "p2ra_free_range dbg a (2 ^ k) st = p2ra_return_free_block dbg b True (st\<lparr>ps_allocated_blocks := bs\<rparr>)"
    "piece_of b = (k, a)" "length bs = card (H - {(k, a)})"
    "dbg \<Longrightarrow> distinct (map piece_of bs) \<and> piece_of ` set bs = H - {(k, a)}"
    using free_bookkeeping [OF assms k] by blast
  define st1 where "st1 = st\<lparr>ps_allocated_blocks := bs\<rparr>"
  have f1: "free_ok st1" "free_pieces st1 = free_pieces st" "ps_bucket_count st1 = ps_bucket_count st" "ps_ranges st1 = ps_ranges st"
    using i(1) by (simp_all add: st1_def free_ok_def lists_ok_def free_pieces_def)
  have pb: "pb_bucket b = k" using B(2) by (simp add: piece_of_def)
  obtain st' where R: "p2ra_return_free_block dbg b True st1 = Some st'" "returned st1 (k, a) st'"
    using return_ok [OF f1(1), of b dbg True] kn dj B(2) pb f1 by (auto simp: forbidden_merge_def split: option.splits)
  have I: "ids (free_pieces st') = ids (free_pieces st) \<union> ivl (k, a)" "free_ok st'" "ps_bucket_count st' = ps_bucket_count st"
    "ps_ranges st' = ps_ranges st" "ps_allocated_blocks st' = bs"
    using R(2) f1 by (simp_all add: returned_def) (simp add: st1_def)
  have "ids (H - {(k, a)}) = ids H - ivl (k, a)" by (rule ids_remove [OF i(5) assms(2)])
  then have "ids (free_pieces st') \<inter> ids (H - {(k, a)}) = {}" "ids (free_pieces st') \<union> ids (H - {(k, a)}) = range_ids st"
    using i(6,7) \<open>ivl (k, a) \<subseteq> ids H\<close> unfolding I(1) by blast+
  then have "p2ra_inv dbg st' (H - {(k, a)})"
    using i I B(3,4) pieces_ok_mono [OF i(5), of "H - {(k, a)}"] by (simp add: p2ra_inv_def range_ids_def)
  then show ?thesis using B(1) R(1) I by (simp add: st1_def)
qed

lemma ranges_disjoint:
  assumes "\<not> (\<exists>r \<in> set (ps_ranges st). ranges_overlap s len r)"
  shows "{s..<s + len} \<inter> range_ids st = {}"
proof -
  have "x \<notin> {s..<s + len}" if "r \<in> set (ps_ranges st)" "x \<in> {pr_start r..<pr_start r + pr_len r}" for r x
  proof
    assume "x \<in> {s..<s + len}"
    with that(2) have "ranges_overlap s len r" by (cases "pr_start r \<ge> s") (auto simp: ranges_overlap_def)
    with assms that(1) show False by blast
  qed
  then show ?thesis by (auto simp: range_ids_def)
qed

lemma p2ra_add_range_ok:
  assumes "p2ra_inv dbg st H"
  shows "case p2ra_add_range dbg ac s len st of
      None \<Rightarrow> dbg
    | Some (r, st') \<Rightarrow> p2ra_inv dbg st' H \<and> ps_bucket_count st' = ps_bucket_count st \<and>
        (if r = ZX_OK
         then {s..<s + len} \<inter> range_ids st = {} \<and> range_ids st' = range_ids st \<union> {s..<s + len}
         else range_ids st' = range_ids st) \<and>
        (len \<noteq> 0 \<and> s + len < 2 ^ 32 \<and> \<not> (\<exists>r \<in> set (ps_ranges st). ranges_overlap s len r) \<and> (\<forall>i. ac i) \<longrightarrow> r = ZX_OK)"
proof -
  note i = p2ra_invD [OF assms]
  let ?n = "ps_bucket_count st"
  let ?bad = "len = 0 \<or> (s + len) mod 2 ^ 32 < s"
  let ?ov = "\<exists>r \<in> set (ps_ranges st). ranges_overlap s len r"
  show ?thesis
  proof (cases "?bad \<or> ?ov \<or> \<not> ac 0")
    case True
    then show ?thesis using assms by (auto simp: p2ra_add_range_def)
  next
    case False
    obtain r u where B: "range_blocks dbg ac 1 s len (2 ^ (?n - 1)) (2 ^ (?n - 1)) (?n - 1) [] st = Some (r, st\<lparr>ps_unused_blocks := u\<rparr>)"
      "case r of None \<Rightarrow> \<exists>j \<ge> 1. \<not> ac j | Some bs \<Rightarrow> \<exists>cs. bs = [] @ cs \<and> chunks ?n s len cs"
      using range_blocks_ok [of st "?n - 1" dbg ac 1 s len "[]"] i(2,3) by auto
    define st1 where "st1 = st\<lparr>ps_unused_blocks := u\<rparr>"
    have dj: "{s..<s + len} \<inter> range_ids st = {}" using ranges_disjoint [of st s len] False by blast
    show ?thesis
    proof (cases r)
      case None
      have "p2ra_inv dbg st1 H" using assms by (simp add: st1_def p2ra_inv_def free_ok_def lists_ok_def free_pieces_def range_ids_def)
      moreover have "p2ra_add_range dbg ac s len st = Some (ZX_ERR_NO_MEMORY, st1)"
        using False B(1) None by (simp add: p2ra_add_range_def Let_def st1_def)
      ultimately show ?thesis using B(2) None by (auto simp: st1_def range_ids_def)
    next
      case (Some cs)
      define st2 where "st2 = st1\<lparr>ps_ranges := ps_ranges st1 @ [\<lparr>pr_start = s, pr_len = len\<rparr>]\<rparr>"
      have f2: "free_ok st2" "free_pieces st2 = free_pieces st" "ps_bucket_count st2 = ?n"
        using i(1) by (simp_all add: st2_def st1_def free_ok_def lists_ok_def free_pieces_def)
      have e: "p2ra_add_range dbg ac s len st = map_option (\<lambda>st'. (ZX_OK, st')) (return_blocks dbg cs st2)"
        using False B(1) Some by (simp add: p2ra_add_range_def Let_def st1_def st2_def)
      have R: "case return_blocks dbg cs st2 of None \<Rightarrow> dbg
        | Some st' \<Rightarrow> free_ok st' \<and> ps_bucket_count st' = ps_bucket_count st2 \<and> ps_ranges st' = ps_ranges st2 \<and>
            ps_allocated_blocks st' = ps_allocated_blocks st2 \<and> ids (free_pieces st') = ids (free_pieces st2) \<union> {s..<s + len}"
        by (rule return_blocks_ok [OF f2(1)]) (use B(2) Some f2 dj i(7) in auto)
      show ?thesis
      proof (cases "return_blocks dbg cs st2")
        case None
        then show ?thesis using R e by simp
      next
        case (Some st')
        have st': "free_ok st'" "ps_bucket_count st' = ?n" "ps_allocated_blocks st' = ps_allocated_blocks st"
          "ids (free_pieces st') = ids (free_pieces st) \<union> {s..<s + len}" "range_ids st' = range_ids st \<union> {s..<s + len}"
          using R Some f2 by (auto simp: st2_def st1_def range_ids_def)
        have "ids (free_pieces st') \<inter> ids H = {}" "ids (free_pieces st') \<union> ids H = range_ids st'"
          using i(6,7) dj unfolding st'(4,5) by blast+
        then have "p2ra_inv dbg st' H" using i st' by (simp add: p2ra_inv_def)
        then show ?thesis using e Some st' dj by simp
      qed
    qed
  qed
qed

section \<open>Histories\<close>

inductive p2ra_step :: "bool \<Rightarrow> p2ra_state \<times> piece set \<Rightarrow> p2ra_state \<times> piece set \<Rightarrow> bool" for dbg where
  add: "p2ra_add_range dbg ac s len st = Some (r, st') \<Longrightarrow> p2ra_step dbg (st, H) (st', H)"
| allocate: "p2ra_allocate_range dbg ac sz st = Some (r, st') \<Longrightarrow> sz < 2 ^ 32 \<Longrightarrow>
    H' = (case r of Inl _ \<Rightarrow> H | Inr a \<Rightarrow> insert (log2_uint_floor sz, a) H) \<Longrightarrow> p2ra_step dbg (st, H) (st', H')"
| release: "(k, a) \<in> H \<Longrightarrow> p2ra_free_range dbg a (2 ^ k) st = Some st' \<Longrightarrow> p2ra_step dbg (st, H) (st', H - {(k, a)})"

inductive p2ra_reach :: "bool \<Rightarrow> p2ra_state \<times> piece set \<Rightarrow> bool" for dbg where
  init: "p2ra_init True max_alloc_size = Inr st \<Longrightarrow> max_alloc_size < 2 ^ 31 \<Longrightarrow> p2ra_reach dbg (st, {})"
| step: "p2ra_reach dbg c \<Longrightarrow> p2ra_step dbg c c' \<Longrightarrow> p2ra_reach dbg c'"

lemma p2ra_init_inv:
  assumes "p2ra_init ok max_alloc_size = Inr st" "max_alloc_size < 2 ^ 31"
  shows "p2ra_inv dbg st {}"
proof -
  have "max_alloc_size \<noteq> 0" "ispow2 max_alloc_size" using assms(1) by (auto simp: p2ra_init_def split: if_splits)
  moreover have "max_alloc_size < 2 ^ 32" using assms(2) by simp
  ultimately obtain k where k: "max_alloc_size = 2 ^ k" using ispow2_iff by blast
  with assms(2) have "k < 31" using power_less_imp_less_exp [of "2 :: nat" k 31] by simp
  then have "log2_uint_floor max_alloc_size = k" using k log2_uint_floor_pow2 [of k] by simp
  then have st: "st = \<lparr>ps_ranges = [], ps_unused_blocks = [], ps_allocated_blocks = [],
      ps_free_block_buckets = replicate (k + 1) [], ps_bucket_count = k + 1\<rparr>"
    using assms(1) by (auto simp: p2ra_init_def Let_def split: if_splits)
  have "free_pieces st = {}" by (auto simp: free_pieces_def st simp del: replicate_Suc)
  moreover have "lists_ok st" by (auto simp: lists_ok_def bucket_ok_def st simp del: replicate_Suc)
  ultimately show ?thesis
    using \<open>k < 31\<close> by (simp add: p2ra_inv_def free_ok_def pieces_ok_def coalesced_def ids_def range_ids_def) (simp add: st)
qed

lemma allocate_args:
  assumes "sz < 2 ^ 32"
  obtains "p2ra_allocate_range dbg ac sz st = Some (Inl ZX_ERR_INVALID_ARGS, st)"
  | k where "sz = 2 ^ k" "k < 32" "k < ps_bucket_count st" "log2_uint_floor sz = k"
proof (cases "sz = 0 \<or> \<not> ispow2 sz")
  case True
  then show thesis using that(1) by (simp add: p2ra_allocate_range_def)
next
  case False
  then obtain k where k: "sz = 2 ^ k" "k < 32" using ispow2_iff [OF assms] by blast
  then have l: "log2_uint_floor sz = k" by (simp add: log2_uint_floor_pow2)
  show thesis
  proof (cases "k < ps_bucket_count st")
    case True
    then show thesis using that(2) k l by blast
  next
    case False
    then show thesis using that(1) l \<open>\<not> (sz = 0 \<or> \<not> ispow2 sz)\<close> by (simp add: p2ra_allocate_range_def)
  qed
qed

lemma p2ra_reach_inv: "p2ra_reach dbg c \<Longrightarrow> p2ra_inv dbg (fst c) (snd c)"
proof (induction rule: p2ra_reach.induct)
  case (init max_alloc_size st)
  then show ?case using p2ra_init_inv by simp
next
  case (step c c')
  from step(2,3) show ?case
  proof (induction rule: p2ra_step.induct)
    case (add ac s len st r st' H)
    with p2ra_add_range_ok [where dbg = dbg and st = st and H = H and ac = ac and s = s and len = len] show ?case by simp
  next
    case (allocate ac sz st r st' H' H)
    show ?case
    proof (rule allocate_args [OF allocate(2), of dbg ac st])
      assume "p2ra_allocate_range dbg ac sz st = Some (Inl ZX_ERR_INVALID_ARGS, st)"
      with allocate show ?thesis by auto
    next
      fix k
      assume k: "sz = 2 ^ k" "k < ps_bucket_count st" "log2_uint_floor sz = k"
      then show ?thesis
        using p2ra_allocate_ok [where dbg = dbg and st = st and H = H and k = k and ac = ac] allocate by (cases r) auto
    qed
  next
    case (release k a H st st')
    with p2ra_free_range_ok [of dbg st H k a] show ?case by auto
  qed
qed

text \<open>The buckets are determined by the free pieces.\<close>

lemma bucket_unique:
  assumes "bucket_ok k xs" "bucket_ok k ys" "pb_start ` set xs = pb_start ` set ys"
  shows "xs = ys"
proof -
  have "sorted_wrt (<) (map pb_start xs)" "sorted_wrt (<) (map pb_start ys)"
    using assms(1,2) by (simp_all add: bucket_ok_def sorted_wrt_map)
  then have m: "map pb_start xs = map pb_start ys"
    using assms(3) by (intro strict_sorted_equal) simp_all
  have "zs = map (\<lambda>s. \<lparr>pb_bucket = k, pb_start = s\<rparr>) (map pb_start zs)" if "bucket_ok k zs" for zs
    using that by (auto simp: bucket_ok_def intro!: map_idI [symmetric])
  then show ?thesis using assms(1,2) m by metis
qed

lemma buckets_unique:
  assumes "free_ok st" "free_ok st'" "ps_bucket_count st' = ps_bucket_count st" "ids (free_pieces st') = ids (free_pieces st)"
  shows "ps_free_block_buckets st' = ps_free_block_buckets st"
proof (rule nth_equalityI)
  show "length (ps_free_block_buckets st') = length (ps_free_block_buckets st)"
    using assms by (simp add: free_ok_def lists_ok_def)
  have "free_pieces st' = free_pieces st"
    using assms by (intro equalityI coalesced_unique [of "ps_bucket_count st"]) (simp_all add: free_ok_def)
  then have "k < ps_bucket_count st \<Longrightarrow> pb_start ` set (ps_free_block_buckets st' ! k) = pb_start ` set (ps_free_block_buckets st ! k)" for k
    using assms(3) unfolding free_pieces_def set_eq_iff by simp blast
  then show "ps_free_block_buckets st' ! k = ps_free_block_buckets st ! k" if "k < length (ps_free_block_buckets st')" for k
    using that assms(1-3) by (intro bucket_unique [of k]) (simp_all add: free_ok_def lists_ok_def)
qed

text \<open>An allocator for the eight ids from zero, for the examples.\<close>

lemma example_p2ra:
  "\<exists>st. p2ra_reach False (st, {}) \<and> range_ids st = {0..<8} \<and> ps_bucket_count st = 3"
proof -
  have k: "log2_uint_floor 4 = 2" "ispow2 4" using pow2_size [of 2] by simp_all
  then obtain st0 where i: "p2ra_init True 4 = Inr st0" by (simp add: p2ra_init_def Let_def)
  then have st0: "ps_ranges st0 = []" "ps_bucket_count st0 = 3" using k by (auto simp: p2ra_init_def Let_def)
  have e0: "range_ids st0 = {}" by (simp add: range_ids_def st0)
  have r0: "p2ra_reach False (st0, {})" by (rule p2ra_reach.init [OF i]) simp
  then have inv: "p2ra_inv False st0 {}" using p2ra_reach_inv by fastforce
  obtain r st where A: "p2ra_add_range False (\<lambda>_. True) 0 8 st0 = Some (r, st)"
    using p2ra_add_range_ok [OF inv, where ac = "\<lambda>_. True" and s = 0 and len = 8] by (auto split: option.splits)
  then have "r = ZX_OK \<and> range_ids st = {0..<8} \<and> ps_bucket_count st = 3"
    using p2ra_add_range_ok [OF inv, where ac = "\<lambda>_. True" and s = 0 and len = 8] st0 e0 by auto
  then show ?thesis using p2ra_reach.step [OF r0 p2ra_step.add [OF A]] by blast
qed

lemma example_allocate:
  "\<exists>st a st1. p2ra_reach False (st, {}) \<and> 1 < ps_bucket_count st \<and>
     p2ra_allocate_range False (\<lambda>_. True) (2 ^ 1) st = Some (Inr a, st1)"
proof -
  obtain st where st: "p2ra_reach False (st, {})" "range_ids st = {0..<8}" "ps_bucket_count st = 3" using example_p2ra by blast
  have inv: "p2ra_inv False st {}" using p2ra_reach_inv [OF st(1)] by simp
  have "aligned (1, 0)" "ivl (1, 0) \<subseteq> range_ids st - ids {}" by (auto simp: aligned_def ivl_def ids_def st(2))
  then have ex: "\<exists>a. aligned (1, a) \<and> ivl (1, a) \<subseteq> range_ids st - ids {}" by blast
  have "1 < ps_bucket_count st" by (simp add: st(3))
  from p2ra_allocate_ok [OF inv this, of "\<lambda>_. True"] ex
  obtain r st1 where A: "p2ra_allocate_range False (\<lambda>_. True) (2 ^ 1) st = Some (r, st1)"
    "\<And>e. r \<noteq> Inl e" by (metis (no_types, lifting) old.sum.simps(5))
  then obtain a where "r = Inr a" by (cases r) auto
  then show ?thesis using st A(1) by auto
qed

section \<open>Properties\<close>

text \<open>C9. In every history of a range allocator whose maximum size is below \<open>2 ^ 31\<close>, with any failures
  of bookkeeping allocations, the blocks that clients hold are aligned to their power-of-two size, disjoint, and inside the ranges that were
  added; and every other id of these ranges is free. No history reaches a state where an allocation
  or a free of a held block does not return.\<close>

theorem p2ra_history_ok:
  assumes "p2ra_reach dbg (st, H)"
  shows "(\<forall>(k, a) \<in> H. 2 ^ k dvd a \<and> {a..<a + 2 ^ k} \<subseteq> range_ids st) \<and>
    (\<forall>p \<in> H. \<forall>q \<in> H. p \<noteq> q \<longrightarrow> ivl p \<inter> ivl q = {}) \<and>
    ids (free_pieces st) = range_ids st - ids H \<and>
    (\<forall>ac sz. sz < 2 ^ 32 \<longrightarrow> p2ra_allocate_range dbg ac sz st \<noteq> None) \<and>
    (\<forall>(k, a) \<in> H. p2ra_free_range dbg a (2 ^ k) st \<noteq> None)"
proof -
  have inv: "p2ra_inv dbg st H" using p2ra_reach_inv [OF assms] by simp
  note i = p2ra_invD [OF inv]
  have "p2ra_allocate_range dbg ac sz st \<noteq> None" if "sz < 2 ^ 32" for ac sz
  proof (rule allocate_args [OF that, of dbg ac st])
    fix k
    assume "sz = 2 ^ k" "k < ps_bucket_count st"
    then show ?thesis using p2ra_allocate_ok [OF inv, of k ac] by auto
  qed simp
  moreover have "p2ra_free_range dbg a (2 ^ k) st \<noteq> None" if "(k, a) \<in> H" for k a
    using p2ra_free_range_ok [OF inv that] by auto
  moreover have "2 ^ k dvd a \<and> {a..<a + 2 ^ k} \<subseteq> range_ids st" if "(k, a) \<in> H" for k a
  proof -
    have "ivl (k, a) \<subseteq> ids H" "aligned (k, a)" using that i(5) by (auto simp: ids_def pieces_ok_def)
    then have "ivl (k, a) \<subseteq> range_ids st" using i(7) by blast
    then show ?thesis using \<open>aligned (k, a)\<close> by (simp add: ivl_def aligned_def)
  qed
  moreover have "ids (free_pieces st) = range_ids st - ids H" using i(6,7) by blast
  moreover have "\<forall>p \<in> H. \<forall>q \<in> H. p \<noteq> q \<longrightarrow> ivl p \<inter> ivl q = {}" using i(5) by (simp add: pieces_ok_def)
  ultimately show ?thesis by blast
qed

theorem p2ra_history_ok_witness:
  "\<exists>st a st1. p2ra_allocate_range False (\<lambda>_. True) 2 st = Some (Inr a, st1) \<and> 2 dvd a \<and> {a..<a + 2} \<subseteq> range_ids st1 \<and>
     p2ra_free_range False a 2 st1 \<noteq> None"
proof -
  obtain st a st1 where A: "p2ra_reach False (st, {})" "p2ra_allocate_range False (\<lambda>_. True) 2 st = Some (Inr a, st1)"
    using example_allocate by auto
  have "log2_uint_floor 2 = 1" using pow2_size [of 1] by simp
  then have "p2ra_reach False (st1, {(1, a)})"
    using p2ra_reach.step [OF A(1) p2ra_step.allocate [OF A(2)]] by simp
  from p2ra_history_ok [OF this] A(2) show ?thesis by (intro exI [of _ st] exI [of _ a] exI [of _ st1]) simp
qed

text \<open>C10. Allocation is complete: in every history of an allocator whose maximum size is below \<open>2 ^ 31\<close>, a
  request for a power of two up to the maximum fails with
  \<open>ZX_ERR_NO_RESOURCES\<close> exactly when no aligned region of that size is free, and changes nothing then; when
  there is one it succeeds, with such a region, unless bookkeeping cannot be allocated.\<close>

theorem p2ra_allocate_complete:
  assumes "p2ra_reach dbg (st, H)" "k < ps_bucket_count st" "p2ra_allocate_range dbg ac (2 ^ k) st = Some (r, st')"
  shows "(r = Inl ZX_ERR_NO_RESOURCES \<longleftrightarrow> \<not> (\<exists>a. 2 ^ k dvd a \<and> {a..<a + 2 ^ k} \<subseteq> range_ids st - ids H)) \<and>
    (r = Inl ZX_ERR_NO_RESOURCES \<longrightarrow> st' = st) \<and>
    ((\<forall>i. ac i) \<longrightarrow> r \<noteq> Inl ZX_ERR_NO_RESOURCES \<longrightarrow> (\<exists>a. r = Inr a)) \<and>
    (\<forall>a. r = Inr a \<longrightarrow> 2 ^ k dvd a \<and> {a..<a + 2 ^ k} \<subseteq> range_ids st - ids H)"
proof -
  have "p2ra_inv dbg st H" using p2ra_reach_inv [OF assms(1)] by simp
  from p2ra_allocate_ok [OF this assms(2), of ac] assms(3) show ?thesis
    by (cases r) (auto simp: aligned_def ivl_def split: if_splits)
qed

theorem p2ra_allocate_complete_witness:
  "\<exists>st a st1. p2ra_reach False (st, {}) \<and> p2ra_allocate_range False (\<lambda>_. True) (2 ^ 1) st = Some (Inr a, st1) \<and>
     2 dvd a \<and> {a..<a + 2} \<subseteq> range_ids st"
proof -
  obtain st a st1 where A: "p2ra_reach False (st, {})" "1 < ps_bucket_count st"
      "p2ra_allocate_range False (\<lambda>_. True) (2 ^ 1) st = Some (Inr a, st1)"
    using example_allocate by auto
  from p2ra_allocate_complete [OF A] A show ?thesis
    by (intro exI [of _ st] exI [of _ a] exI [of _ st1]) (auto simp: ids_def)
qed

text \<open>C29. In every history of an allocator whose maximum size is below \<open>2 ^ 31\<close>, freeing a block right after
  allocating it restores every bucket exactly: the free blocks are merged
  back to what they were before the allocation split them.\<close>

theorem p2ra_free_restores:
  assumes "p2ra_reach dbg (st, H)" "k < ps_bucket_count st" "p2ra_allocate_range dbg ac (2 ^ k) st = Some (Inr a, st1)"
  shows "\<exists>st2. p2ra_free_range dbg a (2 ^ k) st1 = Some st2 \<and> ps_free_block_buckets st2 = ps_free_block_buckets st"
proof -
  have inv: "p2ra_inv dbg st H" using p2ra_reach_inv [OF assms(1)] by simp
  have A: "p2ra_inv dbg st1 (insert (k, a) H)" "(k, a) \<notin> H" "ps_ranges st1 = ps_ranges st" "ps_bucket_count st1 = ps_bucket_count st"
    using p2ra_allocate_ok [OF inv assms(2), of ac] assms(3) by simp_all
  obtain st2 where S: "p2ra_free_range dbg a (2 ^ k) st1 = Some st2" "p2ra_inv dbg st2 (insert (k, a) H - {(k, a)})"
    "ps_ranges st2 = ps_ranges st1" "ps_bucket_count st2 = ps_bucket_count st1"
    using p2ra_free_range_ok [OF A(1), of k a] by blast
  have "insert (k, a) H - {(k, a)} = H" using A(2) by simp
  with S(2) have inv2: "p2ra_inv dbg st2 H" by simp
  have "range_ids st2 = range_ids st" using S(3) A(3) by (simp add: range_ids_def)
  then have "ids (free_pieces st2) = ids (free_pieces st)"
    using p2ra_invD(6,7) [OF inv2] p2ra_invD(6,7) [OF inv] by blast
  then have "ps_free_block_buckets st2 = ps_free_block_buckets st"
    using buckets_unique [of st st2] p2ra_invD(1) [OF inv2] p2ra_invD(1) [OF inv] S(4) A(4) by simp
  with S(1) show ?thesis by blast
qed

theorem p2ra_free_restores_witness:
  "\<exists>st a st1 st2. p2ra_allocate_range False (\<lambda>_. True) (2 ^ 1) st = Some (Inr a, st1) \<and>
     p2ra_free_range False a (2 ^ 1) st1 = Some st2 \<and> ps_free_block_buckets st2 = ps_free_block_buckets st"
proof -
  obtain st a st1 where A: "p2ra_reach False (st, {})" "1 < ps_bucket_count st"
      "p2ra_allocate_range False (\<lambda>_. True) (2 ^ 1) st = Some (Inr a, st1)"
    using example_allocate by auto
  from p2ra_free_restores [OF A] A(3) show ?thesis by blast
qed

text \<open>Two ways for adding a range not to return.\<close>

lemma grow_zero_stuck: "grow_chunk dbg n 0 len m c 0 b = None"
proof -
  have "t = 0 \<longrightarrow> s = 0 \<longrightarrow> False" if "grow_chunk dbg n s len m c t b = Some r" for dbg n s len m c t b r
    by (rule grow_chunk.raw_induct [where P = "\<lambda>dbg n s len m c t b r. t = 0 \<longrightarrow> s = 0 \<longrightarrow> False", OF _ that])
       (auto split: if_splits intro!: Nat.gr0I)
  then show ?thesis by (metis not_None_eq)
qed

lemma add_largest_range_stuck:
  assumes "p2ra_init True (2 ^ 31) = Inr st" "ac 0"
  shows "p2ra_add_range dbg ac 0 (2 ^ 31) st = None"
proof -
  have "log2_uint_floor (2 ^ 31) = 31" "ispow2 (2 ^ 31)" using pow2_size [of 31] by simp_all
  then have st: "ps_bucket_count st = 32" "ps_ranges st = []" using assms(1) by (auto simp: p2ra_init_def Let_def split: if_splits)
  have "shrink_chunk 0 (2 ^ 31) (2 ^ 31) 31 False = Some (2 ^ 31, 31, False)"
    by (subst shrink_chunk.simps) simp
  then have "next_chunk dbg 32 0 (2 ^ 31) (2 ^ 31) (2 ^ 31) 31 = None"
    using grow_zero_stuck [of dbg 32 "2 ^ 31" "2 ^ 31" "2 ^ 31" 31] by (simp add: next_chunk_def)
  then have "range_blocks dbg ac 1 0 (2 ^ 31) (2 ^ 31) (2 ^ 31) 31 [] st = None"
    by (subst range_blocks.simps) (simp add: st)
  then show ?thesis using assms(2) by (simp add: p2ra_add_range_def st)
qed

lemma add_buddy_stuck:
  assumes "p2ra_inv True st H" "1 < ps_bucket_count st" "even s" "(0, s) \<in> free_pieces st" "s + 2 < 2 ^ 32"
    "\<not> (\<exists>r \<in> set (ps_ranges st). ranges_overlap (s + 1) 1 r)" "ac 0" "ac 1"
  shows "p2ra_add_range True ac (s + 1) 1 st = None"
proof -
  note i = p2ra_invD [OF assms(1)]
  let ?n = "ps_bucket_count st"
  obtain b where N: "next_chunk True ?n (s + 1) 1 (2 ^ (?n - 1)) (2 ^ (?n - 1)) (?n - 1) = Some (2 ^ b, b)" "2 ^ b \<le> (1 :: nat)"
    using next_chunk_ok [of ?n "?n - 1" 1 True "s + 1"] i(2,3) by auto
  have "(2 :: nat) ^ b \<le> 2 ^ 0" using N(2) by simp
  then have "b \<le> 0" by (rule power_le_imp_le_exp [rotated]) simp
  then have "b = 0" by simp
  obtain g st1 where G: "p2ra_get_unused_block (ac 1) st = (Some g, st1)"
    using assms(8) by (cases "ps_unused_blocks st") (simp_all add: p2ra_get_unused_block_def)
  note fr = get_unused_block_frame [OF G]
  define c where "c = g\<lparr>pb_bucket := 0, pb_start := s + 1\<rparr>"
  have blocks: "range_blocks True ac 1 (s + 1) 1 (2 ^ (?n - 1)) (2 ^ (?n - 1)) (?n - 1) [] st = Some (Some [c], st1)"
    using N(1) G \<open>b = 0\<close> by (subst range_blocks.simps) (simp add: range_blocks.simps c_def)
  define st2 where "st2 = st1\<lparr>ps_ranges := ps_ranges st1 @ [\<lparr>pr_start = s + 1, pr_len = 1\<rparr>]\<rparr>"
  have f2: "free_ok st2" "free_pieces st2 = free_pieces st" "ps_bucket_count st2 = ?n"
    using i(1) fr by (simp_all add: st2_def free_ok_def lists_ok_def free_pieces_def)
  have pc: "piece_of c = (0, s + 1)" "buddy (0, s + 1) = s" "pb_bucket c = 0"
    using assms(3) by (simp_all add: piece_of_def buddy_def c_def)
  have "{s + 1..<s + 1 + 1} \<inter> range_ids st = {}" by (rule ranges_disjoint [OF assms(6)])
  then have "ivl (piece_of c) \<inter> ids (free_pieces st2) = {}" using i(7) f2(2) unfolding pc by (auto simp: ivl_def)
  then have "case p2ra_return_free_block True c False st2 of None \<Rightarrow> forbidden_merge True False c st2
      | Some st' \<Rightarrow> returned st2 (piece_of c) st' \<and> \<not> forbidden_merge True False c st2"
    by (intro return_ok [OF f2(1)]) (use assms(2) f2(3) in \<open>simp_all add: pc aligned_def\<close>)
  moreover have "forbidden_merge True False c st2" using assms(2,4) f2 unfolding forbidden_merge_def pc by simp
  ultimately have "p2ra_return_free_block True c False st2 = None" by (auto split: option.splits)
  moreover have "(s + 1 + 1) mod 2 ^ 32 = s + 2" using assms(5) by simp
  ultimately show ?thesis
    using assms(6,7) blocks by (simp add: p2ra_add_range_def Let_def st2_def)
qed

text \<open>C37. Two edges of adding a range. With assertions compiled in, adding a single id whose buddy is free
  fails the assertion that the blocks of a new range never merge. And with the largest maximum size,
  adding the range of that size at zero never returns: doubling the chunk size wraps to zero, and a
  chunk of size zero always fits.\<close>

theorem p2ra_add_range_stuck:
  assumes "ac 0" "ac 1"
  shows "(p2ra_inv True st H \<and> 1 < ps_bucket_count st \<and> even s \<and> (0, s) \<in> free_pieces st \<and> s + 2 < 2 ^ 32 \<and>
      \<not> (\<exists>r \<in> set (ps_ranges st). ranges_overlap (s + 1) 1 r) \<longrightarrow> p2ra_add_range True ac (s + 1) 1 st = None) \<and>
    (p2ra_init True (2 ^ 31) = Inr st' \<longrightarrow> p2ra_add_range dbg ac 0 (2 ^ 31) st' = None)"
  using add_buddy_stuck [of st H s ac] add_largest_range_stuck [of st' ac dbg] assms by blast

text \<open>The allocator of maximum size two after its first id was added.\<close>

definition one_id :: p2ra_state where
  "one_id = \<lparr>ps_ranges = [\<lparr>pr_start = 0, pr_len = 1\<rparr>], ps_unused_blocks = [], ps_allocated_blocks = [],
     ps_free_block_buckets = [[\<lparr>pb_bucket = 0, pb_start = 0\<rparr>], []], ps_bucket_count = 2\<rparr>"

lemma one_id_free: "free_pieces one_id = {(0, 0)}"
  by (auto simp: free_pieces_def one_id_def less_2_cases_iff)

lemma one_id_inv: "p2ra_inv True one_id {}"
  by (auto simp: p2ra_inv_def free_ok_def one_id_free pieces_ok_def coalesced_def aligned_def ids_def range_ids_def ivl_def)
     (auto simp: one_id_def lists_ok_def bucket_ok_def less_2_cases_iff)

theorem p2ra_add_range_stuck_witness:
  "p2ra_add_range True (\<lambda>_. True) (0 + 1) 1 one_id = None \<and>
   (\<exists>st. p2ra_init True (2 ^ 31) = Inr st \<and> p2ra_add_range False (\<lambda>_. True) 0 (2 ^ 31) st = None)"
proof -
  have "log2_uint_floor (2 ^ 31) = 31" "ispow2 (2 ^ 31)" using pow2_size [of 31] by simp_all
  then obtain st where st: "p2ra_init True (2 ^ 31) = Inr st" by (auto simp: p2ra_init_def Let_def)
  have "1 < ps_bucket_count one_id" "\<not> (\<exists>r \<in> set (ps_ranges one_id). ranges_overlap (0 + 1) 1 r)"
    by (simp_all add: one_id_def ranges_overlap_def)
  with p2ra_add_range_stuck [of "\<lambda>_. True" one_id "{}" 0 st False] one_id_inv one_id_free st show ?thesis by simp
qed

end
