(* ===== verification/Zx_JobPolicy.thy ===== *)
theory Zx_JobPolicy
  imports Zx_Prelude
begin

unbundle bit_operations_syntax

text \<open>
  Job policies: \<^verbatim>\<open>kernel/object/job_policy.cpp\<close> and its header.

  A policy packs one action per condition into the four-bit fields of a 64-bit cookie. The theory
  models the encoding and the operations on it, and shows that they implement a finite map from
  conditions to actions in which an explicit entry is never overridden.
\<close>

section \<open>Conditions, actions, modes\<close>

abbreviation (input) ZX_JOB_POL_RELATIVE :: u32 where "ZX_JOB_POL_RELATIVE \<equiv> 0"
abbreviation (input) ZX_JOB_POL_ABSOLUTE :: u32 where "ZX_JOB_POL_ABSOLUTE \<equiv> 1"

abbreviation (input) ZX_POL_BAD_HANDLE :: u32 where "ZX_POL_BAD_HANDLE \<equiv> 0"
abbreviation (input) ZX_POL_WRONG_OBJECT :: u32 where "ZX_POL_WRONG_OBJECT \<equiv> 1"
abbreviation (input) ZX_POL_VMAR_WX :: u32 where "ZX_POL_VMAR_WX \<equiv> 2"
abbreviation (input) ZX_POL_NEW_ANY :: u32 where "ZX_POL_NEW_ANY \<equiv> 3"
abbreviation (input) ZX_POL_NEW_VMO :: u32 where "ZX_POL_NEW_VMO \<equiv> 4"
abbreviation (input) ZX_POL_NEW_CHANNEL :: u32 where "ZX_POL_NEW_CHANNEL \<equiv> 5"
abbreviation (input) ZX_POL_NEW_EVENT :: u32 where "ZX_POL_NEW_EVENT \<equiv> 6"
abbreviation (input) ZX_POL_NEW_EVENTPAIR :: u32 where "ZX_POL_NEW_EVENTPAIR \<equiv> 7"
abbreviation (input) ZX_POL_NEW_PORT :: u32 where "ZX_POL_NEW_PORT \<equiv> 8"
abbreviation (input) ZX_POL_NEW_SOCKET :: u32 where "ZX_POL_NEW_SOCKET \<equiv> 9"
abbreviation (input) ZX_POL_NEW_FIFO :: u32 where "ZX_POL_NEW_FIFO \<equiv> 10"
abbreviation (input) ZX_POL_NEW_TIMER :: u32 where "ZX_POL_NEW_TIMER \<equiv> 11"
abbreviation (input) ZX_POL_NEW_PROCESS :: u32 where "ZX_POL_NEW_PROCESS \<equiv> 12"
abbreviation (input) ZX_POL_NEW_PROFILE :: u32 where "ZX_POL_NEW_PROFILE \<equiv> 13"
abbreviation (input) ZX_POL_MAX :: u32 where "ZX_POL_MAX \<equiv> 14"

abbreviation (input) ZX_POL_ACTION_ALLOW :: u32 where "ZX_POL_ACTION_ALLOW \<equiv> 0"
abbreviation (input) ZX_POL_ACTION_DENY :: u32 where "ZX_POL_ACTION_DENY \<equiv> 1"
abbreviation (input) ZX_POL_ACTION_DENY_EXCEPTION :: u32 where "ZX_POL_ACTION_DENY_EXCEPTION \<equiv> 3"
abbreviation (input) ZX_POL_ACTION_KILL :: u32 where "ZX_POL_ACTION_KILL \<equiv> 4"
abbreviation (input) ZX_POL_ACTION_MAX :: u32 where "ZX_POL_ACTION_MAX \<equiv> 5"

section \<open>The encoding\<close>

text \<open>Field \<open>k\<close> of the union \<open>Encoding\<close> is the \<open>k\<close>-th group of four bits, in the order of its declaration.\<close>

definition enc_get :: "nat \<Rightarrow> u64 \<Rightarrow> u64" where
  "enc_get k encoded = take_bit 4 (drop_bit (4 * k) encoded)"

definition enc_put :: "nat \<Rightarrow> u64 \<Rightarrow> u64" where
  "enc_put k item = push_bit (4 * k) (take_bit 4 item)"

abbreviation (input) kExplicitBit :: u64 where "kExplicitBit \<equiv> 8"
abbreviation (input) kActionBits :: u64 where "kActionBits \<equiv> 7"

definition Encoding_action :: "u64 \<Rightarrow> u32" where
  "Encoding_action item = ucast (item AND kActionBits)"

definition Encoding_is_default :: "u64 \<Rightarrow> bool" where
  "Encoding_is_default item \<longleftrightarrow> item = 0"

definition kNewObjectPolicies :: "u32 list" where
  "kNewObjectPolicies =
     [ZX_POL_NEW_VMO, ZX_POL_NEW_CHANNEL, ZX_POL_NEW_EVENT, ZX_POL_NEW_EVENTPAIR, ZX_POL_NEW_PORT,
      ZX_POL_NEW_SOCKET, ZX_POL_NEW_FIFO, ZX_POL_NEW_TIMER, ZX_POL_NEW_PROCESS, ZX_POL_NEW_PROFILE]"

definition CanSetEntry :: "u64 \<Rightarrow> u32 \<Rightarrow> bool" where
  "CanSetEntry existing new_action =
     (if Encoding_is_default existing then True else new_action = Encoding_action existing)"

definition GetEffectiveAction :: "u64 \<Rightarrow> u32" where
  "GetEffectiveAction policy =
     (if Encoding_is_default policy then ZX_POL_ACTION_ALLOW else Encoding_action policy)"

text \<open>The field each case of the two \<open>switch\<close> statements reads or writes.\<close>

definition AddPartial_switch :: "(u32 \<times> nat) list" where
  "AddPartial_switch =
     [(ZX_POL_BAD_HANDLE, 0), (ZX_POL_WRONG_OBJECT, 1), (ZX_POL_VMAR_WX, 2), (ZX_POL_NEW_VMO, 3),
      (ZX_POL_NEW_CHANNEL, 4), (ZX_POL_NEW_EVENT, 5), (ZX_POL_NEW_EVENTPAIR, 6), (ZX_POL_NEW_PORT, 7),
      (ZX_POL_NEW_SOCKET, 8), (ZX_POL_NEW_FIFO, 9), (ZX_POL_NEW_TIMER, 10), (ZX_POL_NEW_PROCESS, 11),
      (ZX_POL_NEW_PROFILE, 12)]"

definition QueryBasicPolicy_switch :: "(u32 \<times> nat) list" where
  "QueryBasicPolicy_switch =
     [(ZX_POL_BAD_HANDLE, 0), (ZX_POL_WRONG_OBJECT, 1), (ZX_POL_NEW_VMO, 3),
      (ZX_POL_NEW_CHANNEL, 4), (ZX_POL_NEW_EVENT, 5), (ZX_POL_NEW_EVENTPAIR, 6), (ZX_POL_NEW_PORT, 7),
      (ZX_POL_NEW_SOCKET, 8), (ZX_POL_NEW_FIFO, 9), (ZX_POL_NEW_TIMER, 10), (ZX_POL_NEW_PROCESS, 11),
      (ZX_POL_NEW_PROFILE, 12), (ZX_POL_VMAR_WX, 2)]"

text \<open>The macro \<open>POLMAN_SET_ENTRY\<close>: the item it stores, or the error it returns from its caller.\<close>

definition POLMAN_SET_ENTRY :: "u32 \<Rightarrow> u64 \<Rightarrow> u32 \<Rightarrow> zx_status + u64" where
  "POLMAN_SET_ENTRY mode existing in_pol =
     (if CanSetEntry existing in_pol then Inr ((ucast in_pol AND kActionBits) OR kExplicitBit)
      else if mode = ZX_JOB_POL_ABSOLUTE then Inl ZX_ERR_ALREADY_EXISTS
      else Inr 0)"

definition AddPartial :: "u32 \<Rightarrow> u64 \<Rightarrow> u32 \<Rightarrow> u32 \<Rightarrow> zx_status + u64" where
  "AddPartial mode existing_policy condition policy =
     (if policy \<ge> ZX_POL_ACTION_MAX then Inl ZX_ERR_NOT_SUPPORTED
      else
        case map_of AddPartial_switch condition of
          None \<Rightarrow> Inl ZX_ERR_NOT_SUPPORTED
        | Some k \<Rightarrow> map_sum id (enc_put k) (POLMAN_SET_ENTRY mode (enc_get k existing_policy) policy))"

section \<open>The policy object\<close>

record zx_policy_basic =
  zp_condition :: u32
  zp_policy :: u32

datatype slack_mode = TIMER_SLACK_CENTER | TIMER_SLACK_LATE | TIMER_SLACK_EARLY

record timer_slack =
  ts_amount :: int
  ts_mode :: slack_mode

record job_policy =
  jp_cookie :: u64
  jp_slack :: timer_slack

text \<open>The two loops of \<open>AddBasicPolicy\<close> over the array of partial results.\<close>

fun add_partials :: "u32 \<Rightarrow> u64 \<Rightarrow> u32 list \<Rightarrow> u32 \<Rightarrow> u64 list \<Rightarrow> zx_status + u64 list" where
  "add_partials mode new_cookie [] policy partials = Inr partials"
| "add_partials mode new_cookie (pol # pols) policy partials =
     (case AddPartial mode new_cookie pol policy of
        Inl res \<Rightarrow> Inl res
      | Inr partial \<Rightarrow> add_partials mode new_cookie pols policy (partials[unat pol := partial]))"

fun add_inputs :: "u32 \<Rightarrow> u64 \<Rightarrow> zx_policy_basic list \<Rightarrow> u64 list \<Rightarrow> zx_status + u64 list" where
  "add_inputs mode new_cookie [] partials = Inr partials"
| "add_inputs mode new_cookie (inp # ins) partials =
     (if zp_condition inp \<ge> ZX_POL_MAX then Inl ZX_ERR_INVALID_ARGS
      else
        case add_partials mode new_cookie
               (if zp_condition inp = ZX_POL_NEW_ANY then kNewObjectPolicies else [zp_condition inp])
               (zp_policy inp) partials of
          Inl res \<Rightarrow> Inl res
        | Inr partials' \<Rightarrow> add_inputs mode new_cookie ins partials')"

definition AddBasicPolicy :: "u32 \<Rightarrow> zx_policy_basic list \<Rightarrow> job_policy \<Rightarrow> zx_status \<times> job_policy" where
  "AddBasicPolicy mode policy_input jp =
     (if length policy_input > unat ZX_POL_MAX then (ZX_ERR_OUT_OF_RANGE, jp)
      else
        case add_inputs mode (jp_cookie jp) policy_input (replicate (unat ZX_POL_MAX) 0) of
          Inl res \<Rightarrow> (res, jp)
        | Inr partials \<Rightarrow>
            (ZX_OK, jp\<lparr>jp_cookie := fold (\<lambda>partial new_cookie. new_cookie OR partial) partials (jp_cookie jp)\<rparr>))"

definition QueryBasicPolicy :: "job_policy \<Rightarrow> u32 \<Rightarrow> u32" where
  "QueryBasicPolicy jp condition =
     (if jp_cookie jp = 0 then ZX_POL_ACTION_ALLOW
      else
        case map_of QueryBasicPolicy_switch condition of
          Some k \<Rightarrow> GetEffectiveAction (enc_get k (jp_cookie jp))
        | None \<Rightarrow> ZX_POL_ACTION_DENY)"

definition SetTimerSlack :: "timer_slack \<Rightarrow> job_policy \<Rightarrow> job_policy" where
  "SetTimerSlack slack jp = jp\<lparr>jp_slack := slack\<rparr>"

definition GetTimerSlack :: "job_policy \<Rightarrow> timer_slack" where
  "GetTimerSlack jp = jp_slack jp"

definition JobPolicy_eq :: "job_policy \<Rightarrow> job_policy \<Rightarrow> bool" where
  "JobPolicy_eq lhs rhs \<longleftrightarrow> jp_cookie lhs = jp_cookie rhs \<and> jp_slack lhs = jp_slack rhs"

text \<open>The violation counters, one array for denials and one for kills; the entry of the pseudo condition is null.\<close>

datatype counter_array = counters_deny | counters_kill

definition IncrementCounter ::
  "u32 \<Rightarrow> u32 \<Rightarrow> (counter_array \<Rightarrow> u32 \<Rightarrow> nat) \<Rightarrow> counter_array \<Rightarrow> u32 \<Rightarrow> nat" where
  "IncrementCounter action condition counters =
     (let arr = (if action = ZX_POL_ACTION_DENY \<or> action = ZX_POL_ACTION_DENY_EXCEPTION then Some counters_deny
                 else if action = ZX_POL_ACTION_KILL then Some counters_kill else None) in
      case arr of
        None \<Rightarrow> counters
      | Some a \<Rightarrow>
          if condition = ZX_POL_NEW_ANY then counters
          else counters(a := (counters a)(condition := counters a condition + 1)))"

section \<open>The abstract policy\<close>

text \<open>A policy is a partial map from conditions to actions. A cookie is well formed when every field is
  empty or an explicit action, and the bits above the fields are clear.\<close>

definition pol_wf :: "u64 \<Rightarrow> bool" where
  "pol_wf c \<longleftrightarrow> (\<forall>k \<in> set [0..<13]. enc_get k c \<in> {0, 8, 9, 10, 11, 12}) \<and> drop_bit 52 c = 0"

definition pol_abs :: "u64 \<Rightarrow> u32 \<rightharpoonup> u32" where
  "pol_abs c condition =
     (case map_of AddPartial_switch condition of
        None \<Rightarrow> None
      | Some k \<Rightarrow> if enc_get k c = 0 then None else Some (Encoding_action (enc_get k c)))"

text \<open>The entries an input stands for, the first error of an entry, and the merge.\<close>

definition expand :: "zx_policy_basic list \<Rightarrow> (u32 \<times> u32) list" where
  "expand ins = concat (map (\<lambda>i. map (\<lambda>c. (c, zp_policy i))
     (if zp_condition i = ZX_POL_NEW_ANY then kNewObjectPolicies else [zp_condition i])) ins)"

definition entry_error :: "u32 \<Rightarrow> (u32 \<rightharpoonup> u32) \<Rightarrow> u32 \<times> u32 \<Rightarrow> zx_status option" where
  "entry_error mode pol e =
     (if fst e \<ge> ZX_POL_MAX then Some ZX_ERR_INVALID_ARGS
      else if snd e \<ge> ZX_POL_ACTION_MAX then Some ZX_ERR_NOT_SUPPORTED
      else if mode = ZX_JOB_POL_ABSOLUTE \<and> pol (fst e) \<noteq> None \<and> pol (fst e) \<noteq> Some (snd e)
      then Some ZX_ERR_ALREADY_EXISTS else None)"

definition policy_merge :: "(u32 \<rightharpoonup> u32) \<Rightarrow> (u32 \<times> u32) list \<Rightarrow> u32 \<rightharpoonup> u32" where
  "policy_merge pol es c = (case pol c of Some a \<Rightarrow> Some a | None \<Rightarrow> map_of (rev es) c)"

definition add_spec :: "u32 \<Rightarrow> (u32 \<times> u32) list \<Rightarrow> (u32 \<rightharpoonup> u32) \<Rightarrow> zx_status \<times> (u32 \<rightharpoonup> u32)" where
  "add_spec mode es pol =
     (case List.map_filter (entry_error mode pol) es of
        e # _ \<Rightarrow> (e, pol)
      | [] \<Rightarrow> (ZX_OK, policy_merge pol es))"

section \<open>Fields\<close>

lemma enc_get_or: "enc_get k (c OR d) = enc_get k c OR enc_get k d"
  by (simp add: enc_get_def)

lemma enc_get_0 [simp]: "enc_get k 0 = 0"
  by (simp add: enc_get_def)

lemma enc_get_put:
  assumes "j < 13" "k < 13"
  shows "enc_get k (enc_put j v) = (if j = k then take_bit 4 v else 0)"
proof (rule bit_word_eqI)
  fix n assume "n < LENGTH(64)"
  show "bit (enc_get k (enc_put j v)) n = bit (if j = k then take_bit 4 v else 0) n"
  proof (cases "j = k")
    case True
    with assms show ?thesis by (auto simp: enc_get_def enc_put_def bit_simps)
  next
    case False
    have "\<not> (n < 4 \<and> 4 * j \<le> 4 * k + n \<and> 4 * k + n - 4 * j < 4)" using False by presburger
    with False show ?thesis by (auto simp: enc_get_def enc_put_def bit_simps)
  qed
qed

lemma drop_enc_put: "j < 13 \<Longrightarrow> drop_bit 52 (enc_put j v) = 0"
  by (rule bit_word_eqI) (auto simp: enc_put_def bit_simps)

lemma enc_put_0 [simp]: "enc_put k 0 = 0"
  by (simp add: enc_put_def)

lemma condition_cases:
  fixes c :: u32
  assumes "c < 14"
  shows "c \<in> {0, 1, 2, 3, 4, 5, 6, 7, 8, 9, 10, 11, 12, 13}"
proof -
  have "unat c < 14" using assms by (simp add: word_less_nat_alt)
  then have "unat c \<in> {0, 1, 2, 3, 4, 5, 6, 7, 8, 9, 10, 11, 12, 13}" by (simp only: insert_iff empty_iff) arith
  then have "(of_nat (unat c) :: u32) \<in> of_nat ` {0, 1, 2, 3, 4, 5, 6, 7, 8, 9, 10, 11, 12, 13}" by (rule imageI)
  then show ?thesis by simp
qed

lemma switch_Some: "c < 14 \<Longrightarrow> c \<noteq> 3 \<Longrightarrow> \<exists>k. map_of AddPartial_switch c = Some k"
  using condition_cases [of c] by (auto simp: AddPartial_switch_def)

lemma switch_field: "map_of AddPartial_switch c = Some k \<Longrightarrow> k < 13 \<and> c < 14 \<and> c \<noteq> 3"
  by (auto simp: AddPartial_switch_def split: if_splits)

lemma switch_inj: "map_of AddPartial_switch c = Some k \<Longrightarrow> map_of AddPartial_switch d = Some k \<Longrightarrow> c = d"
  by (auto simp: AddPartial_switch_def split: if_splits)

lemma switch_surj: "k < 13 \<Longrightarrow> \<exists>c. map_of AddPartial_switch c = Some k"
proof -
  assume "k < 13"
  then have "k \<in> snd ` set AddPartial_switch"
    unfolding AddPartial_switch_def by (simp only: list.set image_insert image_empty snd_conv insert_iff empty_iff) arith
  then obtain c where "(c, k) \<in> set AddPartial_switch" by auto
  moreover have "distinct (map fst AddPartial_switch)" by (simp add: AddPartial_switch_def)
  ultimately show ?thesis by auto
qed

lemma query_switch: "map_of QueryBasicPolicy_switch c = map_of AddPartial_switch c"
  by (simp add: QueryBasicPolicy_switch_def AddPartial_switch_def)

text \<open>An explicit field determines its action, and the stored item its action.\<close>

lemma action_cases:
  fixes a :: u32
  assumes "a < 5"
  shows "a \<in> {0, 1, 2, 3, 4}"
proof -
  have "unat a < 5" using assms by (simp add: word_less_nat_alt)
  then have "unat a \<in> {0, 1, 2, 3, 4}" by (simp only: insert_iff empty_iff) arith
  then have "(of_nat (unat a) :: u32) \<in> of_nat ` {0, 1, 2, 3, 4}" by (rule imageI)
  then show ?thesis by simp
qed

definition item :: "u32 \<Rightarrow> u64" where
  "item a = (ucast a AND kActionBits) OR kExplicitBit"

lemma item_ok:
  assumes "a < 5"
  shows "item a \<in> {8, 9, 10, 11, 12}" "take_bit 4 (item a) = item a" "item a \<noteq> 0" "Encoding_action (item a) = a"
  using action_cases [OF assms] by (auto simp: item_def Encoding_action_def)

lemma item_action:
  assumes "f \<in> {8, 9, 10, 11, 12}"
  shows "item (Encoding_action f) = f"
  using assms by (auto simp: item_def Encoding_action_def)

section \<open>The loops compute the last partial result of every condition\<close>

text \<open>The nested loop runs over the expanded entries.\<close>

fun add_entries :: "u32 \<Rightarrow> u64 \<Rightarrow> (u32 \<times> u32) list \<Rightarrow> u64 list \<Rightarrow> zx_status + u64 list" where
  "add_entries mode ck [] ps = Inr ps"
| "add_entries mode ck ((c, a) # es) ps =
     (if c \<ge> ZX_POL_MAX then Inl ZX_ERR_INVALID_ARGS
      else case AddPartial mode ck c a of
             Inl res \<Rightarrow> Inl res
           | Inr p \<Rightarrow> add_entries mode ck es (ps[unat c := p]))"

lemma add_entries_append:
  "add_entries mode ck (es @ fs) ps =
     (case add_entries mode ck es ps of Inl res \<Rightarrow> Inl res | Inr ps' \<Rightarrow> add_entries mode ck fs ps')"
  by (induction mode ck es ps rule: add_entries.induct) (auto split: sum.splits)

lemma add_partials_entries:
  "\<forall>c \<in> set cs. c < 14 \<Longrightarrow> add_partials mode ck cs a ps = add_entries mode ck (map (\<lambda>c. (c, a)) cs) ps"
  by (induction cs arbitrary: ps) (auto simp: not_le split: sum.splits)

lemma add_inputs_entries: "add_inputs mode ck ins ps = add_entries mode ck (expand ins) ps"
proof (induction ins arbitrary: ps)
  case (Cons i ins)
  define cs where "cs = (if zp_condition i = ZX_POL_NEW_ANY then kNewObjectPolicies else [zp_condition i])"
  have ex: "expand (i # ins) = map (\<lambda>c. (c, zp_policy i)) cs @ expand ins"
    by (simp add: expand_def cs_def)
  show ?case
  proof (cases "zp_condition i < 14")
    case True
    then have "\<forall>c \<in> set cs. c < 14" by (simp add: cs_def kNewObjectPolicies_def)
    moreover have "\<not> 14 \<le> zp_condition i" using True by (simp add: not_le)
    ultimately show ?thesis
      using add_partials_entries [of cs mode ck "zp_policy i" ps]
      by (simp add: ex add_entries_append Cons.IH cs_def [symmetric] cong: sum.case_cong)
  next
    case False
    then have "zp_condition i \<noteq> 3" by auto
    then have "cs = [zp_condition i]" by (simp add: cs_def)
    moreover have "14 \<le> zp_condition i" using False by (simp add: not_less)
    ultimately show ?thesis by (simp add: ex)
  qed
qed (simp add: expand_def)

lemma expand_no_any: "(c, a) \<in> set (expand ins) \<Longrightarrow> c \<noteq> 3"
  by (auto simp: expand_def kNewObjectPolicies_def split: if_splits)

text \<open>The partial result of an entry that is not an error.\<close>

definition partial_of :: "u64 \<Rightarrow> u32 \<Rightarrow> u32 \<Rightarrow> u64" where
  "partial_of ck c a = (case map_of AddPartial_switch c of None \<Rightarrow> 0
     | Some k \<Rightarrow> if pol_abs ck c = None \<or> pol_abs ck c = Some a then enc_put k (item a) else 0)"

lemma AddPartial_eq:
  assumes c: "c < 14" "c \<noteq> 3"
  shows "AddPartial mode ck c a =
    (case entry_error mode (pol_abs ck) (c, a) of Some e \<Rightarrow> Inl e | None \<Rightarrow> Inr (partial_of ck c a))"
proof -
  obtain k where k: "map_of AddPartial_switch c = Some k" using switch_Some [OF c] by blast
  have set: "CanSetEntry (enc_get k ck) a \<longleftrightarrow> pol_abs ck c = None \<or> pol_abs ck c = Some a"
    by (auto simp: CanSetEntry_def Encoding_is_default_def pol_abs_def k)
  show ?thesis using c
    by (auto simp: AddPartial_def entry_error_def k POLMAN_SET_ENTRY_def set partial_of_def item_def)
qed

lemma add_entries_eq:
  assumes "\<forall>(c, a) \<in> set es. c \<noteq> 3" "length ps = 14"
  shows "add_entries mode ck es ps =
    (case List.map_filter (entry_error mode (pol_abs ck)) es of
       e # _ \<Rightarrow> Inl e
     | [] \<Rightarrow> Inr (map (\<lambda>i. case map_of (rev es) (of_nat i) of None \<Rightarrow> ps ! i | Some a \<Rightarrow> partial_of ck (of_nat i) a) [0..<14]))"
  using assms
proof (induction es arbitrary: ps)
  case Nil
  then show ?case by (auto simp: map_filter_simps intro: nth_equalityI)
next
  case (Cons e es)
  obtain c a where e: "e = (c, a)" by force
  have c3: "c \<noteq> 3" using Cons.prems e by auto
  show ?case
  proof (cases "entry_error mode (pol_abs ck) (c, a)")
    case (Some err)
    then show ?thesis
      by (cases "c < 14") (auto simp: e map_filter_simps AddPartial_eq c3 not_le entry_error_def split: if_splits)
  next
    case None
    then have c: "c < 14" by (auto simp: entry_error_def split: if_splits)
    have uc: "unat c < 14" using c by (simp add: word_less_nat_alt)
    have of: "of_nat i = c \<longleftrightarrow> i = unat c" if "i < 14" for i
      using that by (auto simp: unat_of_nat)
    have "(case map_of (rev es) (of_nat i) of None \<Rightarrow> ps[unat c := partial_of ck c a] ! i | Some b \<Rightarrow> partial_of ck (of_nat i) b)
        = (case map_of (rev (e # es)) (of_nat i) of None \<Rightarrow> ps ! i | Some b \<Rightarrow> partial_of ck (of_nat i) b)"
      if "i < 14" for i
      using Cons.prems(2) uc that of [OF that]
      by (auto simp: e map_add_def split: option.splits)
    then have eq: "map (\<lambda>i. case map_of (rev es) (of_nat i) of None \<Rightarrow> ps[unat c := partial_of ck c a] ! i | Some b \<Rightarrow> partial_of ck (of_nat i) b) [0..<14]
        = map (\<lambda>i. case map_of (rev (e # es)) (of_nat i) of None \<Rightarrow> ps ! i | Some b \<Rightarrow> partial_of ck (of_nat i) b) [0..<14]"
      by (intro map_cong) simp_all
    have "\<not> 14 \<le> c" using c by (simp add: not_le)
    then have "add_entries mode ck (e # es) ps = add_entries mode ck es (ps[unat c := partial_of ck c a])"
      by (simp add: e AddPartial_eq c c3 None)
    moreover have "List.map_filter (entry_error mode (pol_abs ck)) (e # es) = List.map_filter (entry_error mode (pol_abs ck)) es"
      by (simp add: e map_filter_simps None)
    ultimately show ?thesis
      using Cons.IH [of "ps[unat c := partial_of ck c a]"] Cons.prems by (simp only: eq) simp
  qed
qed

section \<open>The merge is a disjunction of fields\<close>

lemma enc_get_fold:
  "enc_get k (fold (\<lambda>partial new_cookie. new_cookie OR partial) ps c) =
   fold (\<lambda>partial new_cookie. new_cookie OR partial) (map (enc_get k) ps) (enc_get k c)"
  by (induction ps arbitrary: c) (simp_all add: enc_get_or)

lemma drop_fold:
  "drop_bit 52 (fold (\<lambda>partial new_cookie. new_cookie OR partial) ps c) =
   fold (\<lambda>partial new_cookie. new_cookie OR partial) (map (drop_bit 52) ps) (drop_bit 52 (c :: u64))"
  by (induction ps arbitrary: c) simp_all

lemma fold_or_single:
  fixes f :: "nat \<Rightarrow> u64"
  assumes "i < n" "\<And>j. j < n \<Longrightarrow> j \<noteq> i \<Longrightarrow> f j = 0"
  shows "fold (\<lambda>partial new_cookie. new_cookie OR partial) (map f [0..<n]) x = x OR f i"
  using assms
proof (induction n)
  case (Suc n)
  have zero: "fold (\<lambda>partial new_cookie. new_cookie OR partial) (map f [0..<n]) x = x" if "i = n"
    using Suc.prems(2) that
  proof (induction n arbitrary: i)
    case (Suc m)
    then have "fold (\<lambda>partial new_cookie. new_cookie OR partial) (map f [0..<m]) x = x" by simp
    with Suc.prems show ?case by simp
  qed simp
  show ?case
  proof (cases "i = n")
    case True
    with zero show ?thesis by simp
  next
    case False
    with Suc show ?thesis by simp
  qed
qed simp

text \<open>The partial of a condition lies in its own field.\<close>

lemma enc_get_partial:
  assumes "map_of AddPartial_switch c = Some k" "a < 5"
  shows "enc_get k (partial_of ck d a) =
    (if d = c \<and> (pol_abs ck c = None \<or> pol_abs ck c = Some a) then item a else 0)"
proof (cases "map_of AddPartial_switch d")
  case None
  with assms show ?thesis by (auto simp: partial_of_def)
next
  case (Some j)
  have "j = k \<longleftrightarrow> d = c" using Some assms(1) switch_inj by auto
  moreover have "j < 13" "k < 13" using switch_field Some assms(1) by blast+
  ultimately show ?thesis using Some assms by (auto simp: partial_of_def enc_get_put item_ok(2))
qed

lemma drop_partial: "drop_bit 52 (partial_of ck d a) = 0"
  by (auto simp: partial_of_def drop_enc_put dest: switch_field split: option.splits)

definition merged :: "u64 \<Rightarrow> (u32 \<times> u32) list \<Rightarrow> u64" where
  "merged ck es = fold (\<lambda>partial new_cookie. new_cookie OR partial)
     (map (\<lambda>i. case map_of (rev es) (of_nat i) of None \<Rightarrow> replicate 14 0 ! i | Some a \<Rightarrow> partial_of ck (of_nat i) a) [0..<14]) ck"

lemma merged_field:
  assumes wf: "pol_wf ck" and es: "\<forall>(c, a) \<in> set es. a < 5" and k: "map_of AddPartial_switch c = Some k"
  shows "enc_get k (merged ck es) =
    (case policy_merge (pol_abs ck) es c of None \<Rightarrow> 0 | Some a \<Rightarrow> item a)"
proof -
  let ?f = "\<lambda>i. enc_get k (case map_of (rev es) (of_nat i) of None \<Rightarrow> replicate 14 0 ! i | Some a \<Rightarrow> partial_of ck (of_nat i) a)"
  have c: "k < 13" "c < 14" using switch_field [OF k] by auto
  then have uc: "unat c < 14" by (simp add: word_less_nat_alt)
  have act: "a < 5" if "map_of (rev es) d = Some a" for d a
    using map_of_SomeD [OF that] es by auto
  have "?f j = 0" if "j < 14" "j \<noteq> unat c" for j
  proof -
    have "(of_nat j :: u32) \<noteq> c" using that by (auto simp: unat_of_nat)
    with that show ?thesis by (auto simp: enc_get_partial [OF k act] split: option.splits)
  qed
  then have "enc_get k (merged ck es) = enc_get k ck OR ?f (unat c)"
    unfolding merged_def enc_get_fold map_map comp_def using uc by (intro fold_or_single)
  moreover have "?f (unat c) = (case map_of (rev es) c of None \<Rightarrow> 0
      | Some a \<Rightarrow> if pol_abs ck c = None \<or> pol_abs ck c = Some a then item a else 0)"
    using uc by (auto simp: enc_get_partial [OF k act] split: option.splits)
  moreover have "enc_get k ck = (case pol_abs ck c of None \<Rightarrow> 0 | Some a \<Rightarrow> item a)"
  proof (cases "enc_get k ck = 0")
    case False
    with wf c have "enc_get k ck \<in> {8, 9, 10, 11, 12}" by (auto simp: pol_wf_def)
    from item_action [OF this] False show ?thesis by (simp add: pol_abs_def k)
  qed (simp add: pol_abs_def k)
  ultimately show ?thesis by (auto simp: policy_merge_def split: option.splits)
qed

lemma pol_abs_action: "pol_wf ck \<Longrightarrow> pol_abs ck c = Some a \<Longrightarrow> a < 5"
  using switch_field
  by (force simp: pol_abs_def pol_wf_def Encoding_action_def split: option.splits if_splits)

lemma merged_ok:
  assumes wf: "pol_wf ck" and es: "\<forall>(c, a) \<in> set es. a < 5 \<and> c < 14 \<and> c \<noteq> 3"
  shows "pol_wf (merged ck es)" "pol_abs (merged ck es) = policy_merge (pol_abs ck) es"
proof -
  have act: "a < 5" if "policy_merge (pol_abs ck) es c = Some a" for c a
    using that es pol_abs_action [OF wf] by (auto simp: policy_merge_def split: option.splits dest!: map_of_SomeD)
  have field: "enc_get k (merged ck es) = (case policy_merge (pol_abs ck) es c of None \<Rightarrow> 0 | Some a \<Rightarrow> item a)"
    if "map_of AddPartial_switch c = Some k" for c k
    using es that by (intro merged_field [OF wf]) auto
  have "enc_get k (merged ck es) \<in> {0, 8, 9, 10, 11, 12}" if "k < 13" for k
  proof -
    from switch_surj [OF that] obtain c where c: "map_of AddPartial_switch c = Some k" ..
    show ?thesis
      using item_ok(1) [OF act] by (auto simp: field [OF c] split: option.split)
  qed
  moreover have "drop_bit 52 (merged ck es) = 0"
  proof -
    have "drop_bit 52 (merged ck es) = fold (\<lambda>partial new_cookie. new_cookie OR partial) (map (\<lambda>_. 0) [0..<14]) (drop_bit 52 ck)"
      unfolding merged_def drop_fold map_map comp_def
      by (rule arg_cong [where f = "\<lambda>ps. fold (\<lambda>partial new_cookie. new_cookie OR partial) ps (drop_bit 52 ck)"], rule map_cong)
         (auto simp: drop_partial split: option.splits)
    also have "\<dots> = drop_bit 52 ck" using fold_or_single [of 0 14 "\<lambda>_. 0" "drop_bit 52 ck"] by simp
    finally show ?thesis using wf by (simp add: pol_wf_def)
  qed
  ultimately show "pol_wf (merged ck es)" by (simp add: pol_wf_def)
  show "pol_abs (merged ck es) = policy_merge (pol_abs ck) es"
  proof
    fix c
    show "pol_abs (merged ck es) c = policy_merge (pol_abs ck) es c"
    proof (cases "map_of AddPartial_switch c")
      case None
      have "map_of (rev es) c = None"
      proof (rule ccontr)
        assume "map_of (rev es) c \<noteq> None"
        then obtain a where "(c, a) \<in> set es" by (auto dest: map_of_SomeD)
        with es switch_Some [of c] None show False by auto
      qed
      with None show ?thesis by (simp add: pol_abs_def policy_merge_def)
    next
      case (Some k)
      then show ?thesis
        using item_ok(3,4) [OF act] by (auto simp: pol_abs_def field [OF Some] split: option.splits)
    qed
  qed
qed

section \<open>Properties\<close>

lemma QueryBasicPolicy_abs:
  "QueryBasicPolicy jp c =
     (if c < ZX_POL_MAX \<and> c \<noteq> ZX_POL_NEW_ANY
      then case pol_abs (jp_cookie jp) c of Some a \<Rightarrow> a | None \<Rightarrow> ZX_POL_ACTION_ALLOW
      else if jp_cookie jp = 0 then ZX_POL_ACTION_ALLOW else ZX_POL_ACTION_DENY)"
proof (cases "map_of AddPartial_switch c")
  case None
  then have "\<not> (c < 14 \<and> c \<noteq> 3)" using switch_Some [of c] by auto
  with None show ?thesis by (auto simp: QueryBasicPolicy_def query_switch)
next
  case (Some k)
  with switch_field [OF Some] show ?thesis
    by (auto simp: QueryBasicPolicy_def query_switch pol_abs_def GetEffectiveAction_def Encoding_is_default_def)
qed

lemma map_filter_Nil: "List.map_filter f xs = [] \<longleftrightarrow> (\<forall>x \<in> set xs. f x = None)"
  by (induction xs) (auto simp: map_filter_simps split: option.splits)

lemma add_inputs_spec:
  assumes "pol_wf (jp_cookie jp)" "length ins \<le> 14"
  shows "fst (AddBasicPolicy mode ins jp) = fst (add_spec mode (expand ins) (pol_abs (jp_cookie jp)))
    \<and> pol_wf (jp_cookie (snd (AddBasicPolicy mode ins jp)))
    \<and> pol_abs (jp_cookie (snd (AddBasicPolicy mode ins jp))) = snd (add_spec mode (expand ins) (pol_abs (jp_cookie jp)))"
proof -
  let ?ck = "jp_cookie jp" and ?es = "expand ins"
  have any: "\<forall>(c, a) \<in> set ?es. c \<noteq> 3" using expand_no_any by blast
  note eq = add_entries_eq [OF any, of "replicate 14 0" mode ?ck]
  show ?thesis
  proof (cases "List.map_filter (entry_error mode (pol_abs ?ck)) ?es")
    case Nil
    then have "\<forall>(c, a) \<in> set ?es. a < 5 \<and> c < 14 \<and> c \<noteq> 3"
      using any by (fastforce simp: map_filter_Nil entry_error_def split: if_splits)
    note ok = merged_ok [OF assms(1) this]
    have "AddBasicPolicy mode ins jp = (ZX_OK, jp\<lparr>jp_cookie := merged ?ck ?es\<rparr>)"
      using assms(2) eq Nil by (simp add: AddBasicPolicy_def add_inputs_entries merged_def del: upt_conv_Cons)
    with ok Nil show ?thesis by (simp add: add_spec_def)
  next
    case (Cons e es')
    with assms eq show ?thesis by (simp add: AddBasicPolicy_def add_inputs_entries add_spec_def)
  qed
qed

text \<open>C12. Adding basic policies implements the abstract merge. The status is the error of the first
  invalid, unsupported or (in absolute mode) conflicting entry - an unknown condition gives \<open>ZX_ERR_INVALID_ARGS\<close>,
  although the documentation of the system call names \<open>ZX_ERR_OUT_OF_RANGE\<close> - with the wildcard standing
  for every object condition; on an error nothing changes. Otherwise an explicit entry keeps its action and a
  default one takes the action of the last input for it. Querying reads the merged map, with the
  default action for a default entry; an unknown condition is denied, except in an empty policy,
  where it is allowed.\<close>

theorem AddBasicPolicy_refines:
  assumes "pol_wf (jp_cookie jp)"
  shows "let (status, jp') = AddBasicPolicy mode ins jp;
             (status', pol) = (if length ins > 14 then (ZX_ERR_OUT_OF_RANGE, pol_abs (jp_cookie jp))
                               else add_spec mode (expand ins) (pol_abs (jp_cookie jp))) in
         status = status' \<and> pol_wf (jp_cookie jp') \<and> pol_abs (jp_cookie jp') = pol \<and> jp_slack jp' = jp_slack jp \<and>
         QueryBasicPolicy jp' =
           (\<lambda>c. if c < ZX_POL_MAX \<and> c \<noteq> ZX_POL_NEW_ANY then case pol c of Some a \<Rightarrow> a | None \<Rightarrow> ZX_POL_ACTION_ALLOW
                else if jp_cookie jp' = 0 then ZX_POL_ACTION_ALLOW else ZX_POL_ACTION_DENY)"
proof -
  obtain st jp' where a: "AddBasicPolicy mode ins jp = (st, jp')" by force
  have slack: "jp_slack jp' = jp_slack jp"
    using a by (auto simp: AddBasicPolicy_def split: if_splits sum.splits)
  show ?thesis
  proof (cases "length ins > 14")
    case True
    then have "st = ZX_ERR_OUT_OF_RANGE" "jp' = jp" using a by (simp_all add: AddBasicPolicy_def)
    with True assms show ?thesis by (simp add: a fun_eq_iff QueryBasicPolicy_abs)
  next
    case False
    obtain st' pol where s: "add_spec mode (expand ins) (pol_abs (jp_cookie jp)) = (st', pol)" by force
    have "st = st'" "pol_wf (jp_cookie jp')" and pol: "pol_abs (jp_cookie jp') = pol"
      using add_inputs_spec [OF assms, of ins mode] False by (simp_all add: a s)
    moreover have "QueryBasicPolicy jp' = (\<lambda>c. if c < 14 \<and> c \<noteq> 3 then case pol c of Some a \<Rightarrow> a | None \<Rightarrow> 0
                else if jp_cookie jp' = 0 then 0 else 1)"
      unfolding pol [symmetric] by (rule ext) (rule QueryBasicPolicy_abs)
    ultimately show ?thesis using False slack by (simp only: a s Let_def case_prod_conv if_False simp_thms)
  qed
qed

theorem AddBasicPolicy_refines_witness:
  "let jp = \<lparr>jp_cookie = 0x90, jp_slack = \<lparr>ts_amount = 0, ts_mode = TIMER_SLACK_CENTER\<rparr>\<rparr>;
       ins = [\<lparr>zp_condition = 3, zp_policy = 1\<rparr>, \<lparr>zp_condition = 5, zp_policy = 0\<rparr>, \<lparr>zp_condition = 1, zp_policy = 4\<rparr>];
       (status, jp') = AddBasicPolicy ZX_JOB_POL_RELATIVE ins jp in
   status = ZX_OK \<and> QueryBasicPolicy jp' 1 = 1 \<and> QueryBasicPolicy jp' 5 = 0 \<and> QueryBasicPolicy jp' 13 = 1 \<and>
   fst (AddBasicPolicy ZX_JOB_POL_ABSOLUTE ins jp) = ZX_ERR_ALREADY_EXISTS"
proof -
  define jp where "jp = \<lparr>jp_cookie = 0x90, jp_slack = \<lparr>ts_amount = 0, ts_mode = TIMER_SLACK_CENTER\<rparr>\<rparr>"
  define ins where "ins = [\<lparr>zp_condition = 3, zp_policy = 1\<rparr>, \<lparr>zp_condition = 5, zp_policy = 0\<rparr>, \<lparr>zp_condition = 1, zp_policy = (4 :: u32)\<rparr>]"
  have wf: "pol_wf (jp_cookie jp)" unfolding jp_def by code_simp
  have spec: "fst (add_spec 0 (expand ins) (pol_abs (jp_cookie jp))) = ZX_OK"
    "snd (add_spec 0 (expand ins) (pol_abs (jp_cookie jp))) 1 = Some 1"
    "snd (add_spec 0 (expand ins) (pol_abs (jp_cookie jp))) 5 = Some 0"
    "snd (add_spec 0 (expand ins) (pol_abs (jp_cookie jp))) 13 = Some 1"
    "fst (add_spec 1 (expand ins) (pol_abs (jp_cookie jp))) = ZX_ERR_ALREADY_EXISTS"
    unfolding jp_def ins_def by code_simp+
  have len: "\<not> length ins > 14" by (simp add: ins_def)
  from AddBasicPolicy_refines [OF wf, of 0 ins] AddBasicPolicy_refines [OF wf, of 1 ins] spec len
  show ?thesis unfolding jp_def [symmetric] ins_def [symmetric]
    by (simp add: case_prod_unfold Let_def)
qed

end
