(* ===== verification/Zx_Time.thy ===== *)
theory Zx_Time
  imports Zx_Prelude
begin

text \<open>
  Overflow-safe time arithmetic: \<^verbatim>\<open>system/public/zircon/time.h\<close>.

  A \<^verbatim>\<open>zx_time_t\<close> or \<^verbatim>\<open>zx_duration_t\<close> is a 64-bit signed integer, modelled by an
  integer with the wrap-around of the overflow built-ins written out. The theory shows that every operation
  clamps the exact result to the 64-bit range.
\<close>

type_synonym zx_time = int
type_synonym zx_duration = int

definition ZX_TIME_INFINITE :: zx_time where
  "ZX_TIME_INFINITE = 2 ^ 63 - 1"

definition ZX_TIME_INFINITE_PAST :: zx_time where
  "ZX_TIME_INFINITE_PAST = - (2 ^ 63)"

text \<open>The compiler's overflow built-ins store the wrapped result and say whether it differs from the exact one.\<close>

definition wrap64 :: "int \<Rightarrow> int" where
  "wrap64 x = (x + 2 ^ 63) mod 2 ^ 64 - 2 ^ 63"

definition add_overflow :: "int \<Rightarrow> int \<Rightarrow> bool \<times> int" where
  "add_overflow a b = (wrap64 (a + b) \<noteq> a + b, wrap64 (a + b))"

definition sub_overflow :: "int \<Rightarrow> int \<Rightarrow> bool \<times> int" where
  "sub_overflow a b = (wrap64 (a - b) \<noteq> a - b, wrap64 (a - b))"

definition mul_overflow :: "int \<Rightarrow> int \<Rightarrow> bool \<times> int" where
  "mul_overflow a b = (wrap64 (a * b) \<noteq> a * b, wrap64 (a * b))"

definition zx_time_add_duration :: "zx_time \<Rightarrow> zx_duration \<Rightarrow> zx_time" where
  "zx_time_add_duration time duration =
     (let (overflow, x) = add_overflow time duration in
      if overflow then if x \<ge> 0 then ZX_TIME_INFINITE_PAST else ZX_TIME_INFINITE else x)"

definition zx_time_sub_duration :: "zx_time \<Rightarrow> zx_duration \<Rightarrow> zx_time" where
  "zx_time_sub_duration time duration =
     (let (overflow, x) = sub_overflow time duration in
      if overflow then if x \<ge> 0 then ZX_TIME_INFINITE_PAST else ZX_TIME_INFINITE else x)"

definition zx_time_sub_time :: "zx_time \<Rightarrow> zx_time \<Rightarrow> zx_duration" where
  "zx_time_sub_time time1 time2 =
     (let (overflow, x) = sub_overflow time1 time2 in
      if overflow then if x \<ge> 0 then ZX_TIME_INFINITE_PAST else ZX_TIME_INFINITE else x)"

definition zx_duration_add_duration :: "zx_duration \<Rightarrow> zx_duration \<Rightarrow> zx_duration" where
  "zx_duration_add_duration dur1 dur2 =
     (let (overflow, x) = add_overflow dur1 dur2 in
      if overflow then if x \<ge> 0 then ZX_TIME_INFINITE_PAST else ZX_TIME_INFINITE else x)"

definition zx_duration_sub_duration :: "zx_duration \<Rightarrow> zx_duration \<Rightarrow> zx_duration" where
  "zx_duration_sub_duration dur1 dur2 =
     (let (overflow, x) = sub_overflow dur1 dur2 in
      if overflow then if x \<ge> 0 then ZX_TIME_INFINITE_PAST else ZX_TIME_INFINITE else x)"

definition zx_duration_mul_int64 :: "zx_duration \<Rightarrow> int \<Rightarrow> zx_duration" where
  "zx_duration_mul_int64 duration multiplier =
     (let (overflow, x) = mul_overflow duration multiplier in
      if overflow then
        if duration > 0 \<and> multiplier > 0 \<or> duration < 0 \<and> multiplier < 0
        then ZX_TIME_INFINITE else ZX_TIME_INFINITE_PAST
      else x)"

definition zx_duration_from_nsec :: "int \<Rightarrow> zx_duration" where
  "zx_duration_from_nsec n = zx_duration_mul_int64 1 n"

definition zx_duration_from_usec :: "int \<Rightarrow> zx_duration" where
  "zx_duration_from_usec n = zx_duration_mul_int64 1000 n"

definition zx_duration_from_msec :: "int \<Rightarrow> zx_duration" where
  "zx_duration_from_msec n = zx_duration_mul_int64 1000000 n"

definition zx_duration_from_sec :: "int \<Rightarrow> zx_duration" where
  "zx_duration_from_sec n = zx_duration_mul_int64 1000000000 n"

definition zx_duration_from_min :: "int \<Rightarrow> zx_duration" where
  "zx_duration_from_min n = zx_duration_mul_int64 60000000000 n"

definition zx_duration_from_hour :: "int \<Rightarrow> zx_duration" where
  "zx_duration_from_hour n = zx_duration_mul_int64 3600000000000 n"

section \<open>Clamping\<close>

definition in64 :: "int \<Rightarrow> bool" where
  "in64 x \<longleftrightarrow> - (2 ^ 63) \<le> x \<and> x < 2 ^ 63"

definition clamp64 :: "int \<Rightarrow> int" where
  "clamp64 x = max (- (2 ^ 63)) (min (2 ^ 63 - 1) x)"

lemma wrap64_eq: "wrap64 x = x \<longleftrightarrow> in64 x"
proof
  assume "wrap64 x = x"
  moreover have "0 \<le> (x + 2 ^ 63) mod 2 ^ 64" "(x + 2 ^ 63) mod 2 ^ 64 < 2 ^ 64" by simp_all
  ultimately show "in64 x" by (simp add: wrap64_def in64_def)
next
  assume "in64 x"
  then show "wrap64 x = x" by (simp add: wrap64_def in64_def mod_pos_pos_trivial)
qed

lemma wrap64_over: "2 ^ 63 \<le> x \<Longrightarrow> x < 2 ^ 64 \<Longrightarrow> wrap64 x < 0"
proof -
  assume x: "2 ^ 63 \<le> x" "x < 2 ^ 64"
  have "(x + 2 ^ 63) mod 2 ^ 64 = (x - 2 ^ 63 + 1 * 2 ^ 64) mod 2 ^ 64" by (simp add: add.commute)
  also have "\<dots> = x - 2 ^ 63" unfolding mod_mult_self1 using x by (simp add: mod_pos_pos_trivial)
  finally show ?thesis using x by (simp add: wrap64_def)
qed

lemma wrap64_under: "- (2 ^ 64) \<le> x \<Longrightarrow> x < - (2 ^ 63) \<Longrightarrow> 0 \<le> wrap64 x"
proof -
  assume x: "- (2 ^ 64) \<le> x" "x < - (2 ^ 63)"
  have "(x + 2 ^ 63) mod 2 ^ 64 = (x + 2 ^ 63 + 1 * 2 ^ 64) mod 2 ^ 64" unfolding mod_mult_self1 ..
  also have "\<dots> = x + 2 ^ 63 + 2 ^ 64" using x by (simp add: mod_pos_pos_trivial)
  finally show ?thesis using x by (simp add: wrap64_def)
qed

text \<open>An exact result within twice the range is clamped by the test on the sign of the wrapped one.\<close>

lemma sign_test_clamps:
  assumes "- (2 ^ 64) \<le> x" "x < 2 ^ 64"
  shows "(if wrap64 x \<noteq> x then if wrap64 x \<ge> 0 then ZX_TIME_INFINITE_PAST else ZX_TIME_INFINITE else wrap64 x) = clamp64 x"
proof -
  consider "in64 x" | "2 ^ 63 \<le> x" | "x < - (2 ^ 63)" by (force simp: in64_def)
  then show ?thesis
  proof cases
    case 1
    then show ?thesis by (auto simp: wrap64_eq clamp64_def in64_def)
  next
    case 2
    with wrap64_over [OF 2 assms(2)] show ?thesis
      by (auto simp: wrap64_eq clamp64_def in64_def ZX_TIME_INFINITE_def)
  next
    case 3
    with wrap64_under [OF assms(1) 3] show ?thesis
      by (auto simp: wrap64_eq clamp64_def in64_def ZX_TIME_INFINITE_PAST_def)
  qed
qed

lemma mul_clamps: "zx_duration_mul_int64 a b = clamp64 (a * b)"
proof (cases "in64 (a * b)")
  case True
  then have "wrap64 (a * b) = a * b" by (simp add: wrap64_eq)
  with True show ?thesis by (simp add: zx_duration_mul_int64_def mul_overflow_def clamp64_def in64_def)
next
  case False
  then have w: "wrap64 (a * b) \<noteq> a * b" by (simp add: wrap64_eq)
  have "(a > 0 \<and> b > 0 \<or> a < 0 \<and> b < 0) \<longleftrightarrow> 2 ^ 63 \<le> a * b"
    using False zero_less_mult_iff [of a b] by (auto simp: in64_def)
  with w False show ?thesis
    by (auto simp: zx_duration_mul_int64_def mul_overflow_def clamp64_def in64_def
          ZX_TIME_INFINITE_def ZX_TIME_INFINITE_PAST_def)
qed

text \<open>On 64-bit operands the time operations return the exact result clamped to the 64-bit range,
  so that an overflow gives the infinite future and an underflow the infinite past.\<close>

theorem zx_time_clamps:
  assumes "in64 a" "in64 b"
  shows "zx_time_add_duration a b = clamp64 (a + b) \<and> zx_duration_add_duration a b = clamp64 (a + b) \<and>
    zx_time_sub_duration a b = clamp64 (a - b) \<and> zx_time_sub_time a b = clamp64 (a - b) \<and>
    zx_duration_sub_duration a b = clamp64 (a - b) \<and> zx_duration_mul_int64 a b = clamp64 (a * b)"
proof -
  have add: "- (2 ^ 64) \<le> a + b" "a + b < 2 ^ 64" and sub: "- (2 ^ 64) \<le> a - b" "a - b < 2 ^ 64"
    using assms by (simp_all add: in64_def)
  have "zx_time_add_duration a b = clamp64 (a + b)" "zx_duration_add_duration a b = clamp64 (a + b)"
    using sign_test_clamps [OF add]
    by (simp_all add: zx_time_add_duration_def zx_duration_add_duration_def add_overflow_def)
  moreover have "zx_time_sub_duration a b = clamp64 (a - b)" "zx_time_sub_time a b = clamp64 (a - b)"
    "zx_duration_sub_duration a b = clamp64 (a - b)"
    using sign_test_clamps [OF sub]
    by (simp_all add: zx_time_sub_duration_def zx_time_sub_time_def zx_duration_sub_duration_def sub_overflow_def)
  ultimately show ?thesis by (simp only: mul_clamps)
qed

theorem zx_time_clamps_witness:
  "zx_time_add_duration (2 ^ 63 - 1) 5 = 2 ^ 63 - 1 \<and> zx_time_sub_time (- (2 ^ 63)) 1 = - (2 ^ 63)"
  using zx_time_clamps [of "2 ^ 63 - 1" 5] zx_time_clamps [of "- (2 ^ 63)" 1]
  by (simp add: in64_def clamp64_def)

end
