(* ===== verification/Zx_Thread.thy ===== *)
theory Zx_Thread
  imports Zx_Time
begin

unbundle bit_operations_syntax

text \<open>
  Threads, processors and wait queues as data: the parts of \<^verbatim>\<open>kernel/include/kernel/thread.h\<close>,
  \<^verbatim>\<open>percpu.h\<close>, \<^verbatim>\<open>cpu.h\<close>, \<^verbatim>\<open>mp.h\<close> and \<^verbatim>\<open>wait.h\<close> that the scheduler and
  the wait queues use.

  A thread and a wait queue are named by numbers, which stand for their addresses; the kernel state maps the
  names to their contents. A list node threaded through the threads is the list of the names in it.
\<close>

section \<open>Threads\<close>

type_synonym tid = nat
type_synonym wqid = nat
type_synonym cpu_num = nat
type_synonym cpu_mask = u32

datatype thread_state =
    THREAD_INITIAL
  | THREAD_READY
  | THREAD_RUNNING
  | THREAD_BLOCKED
  | THREAD_BLOCKED_READ_LOCK
  | THREAD_SLEEPING
  | THREAD_SUSPENDED
  | THREAD_DEATH

definition THREAD_FLAG_DETACHED :: u32 where "THREAD_FLAG_DETACHED = push_bit 0 1"
definition THREAD_FLAG_FREE_STRUCT :: u32 where "THREAD_FLAG_FREE_STRUCT = push_bit 1 1"
definition THREAD_FLAG_REAL_TIME :: u32 where "THREAD_FLAG_REAL_TIME = push_bit 2 1"
definition THREAD_FLAG_IDLE :: u32 where "THREAD_FLAG_IDLE = push_bit 3 1"
definition THREAD_FLAG_NO_BOOST :: u32 where "THREAD_FLAG_NO_BOOST = push_bit 4 1"

definition THREAD_SIGNAL_KILL :: u32 where "THREAD_SIGNAL_KILL = push_bit 0 1"
definition THREAD_SIGNAL_SUSPEND :: u32 where "THREAD_SIGNAL_SUSPEND = push_bit 1 1"
definition THREAD_SIGNAL_POLICY_EXCEPTION :: u32 where "THREAD_SIGNAL_POLICY_EXCEPTION = push_bit 2 1"

abbreviation (input) LOWEST_PRIORITY :: int where "LOWEST_PRIORITY \<equiv> 0"
abbreviation (input) HIGHEST_PRIORITY :: int where "HIGHEST_PRIORITY \<equiv> 31"
abbreviation (input) DEFAULT_PRIORITY :: int where "DEFAULT_PRIORITY \<equiv> 16"

text \<open>A processor number is absent where the code stores \<open>INVALID_CPU\<close>. The queue of the threads that join
  a thread is part of the thread; the field names it.\<close>

record thread =
  th_state :: thread_state
  th_last_started_running :: zx_time
  th_remaining_time_slice :: zx_duration
  th_flags :: u32
  th_signals :: u32
  th_runtime_ns :: zx_duration
  th_effec_priority :: int
  th_base_priority :: int
  th_priority_boost :: int
  th_inherited_priority :: int
  th_curr_cpu :: "cpu_num option"
  th_last_cpu :: "cpu_num option"
  th_cpu_affinity :: cpu_mask
  th_blocking_wait_queue :: "wqid option"
  th_blocked_status :: zx_status
  th_interruptable :: bool
  th_stack_base :: u64
  th_retcode :: int
  th_retcode_wait_queue :: wqid
  th_disable_counts :: u32
  th_preempt_pending :: bool

definition thread_is_realtime :: "thread \<Rightarrow> bool" where
  "thread_is_realtime t \<longleftrightarrow> has_signal (th_flags t) THREAD_FLAG_REAL_TIME \<and> th_base_priority t > DEFAULT_PRIORITY"

definition thread_is_idle :: "thread \<Rightarrow> bool" where
  "thread_is_idle t \<longleftrightarrow> has_signal (th_flags t) THREAD_FLAG_IDLE"

definition thread_is_real_time_or_idle :: "thread \<Rightarrow> bool" where
  "thread_is_real_time_or_idle t \<longleftrightarrow> has_signal (th_flags t) (THREAD_FLAG_REAL_TIME OR THREAD_FLAG_IDLE)"

definition thread_cannot_boost :: "thread \<Rightarrow> bool" where
  "thread_cannot_boost t \<longleftrightarrow>
     has_signal (th_flags t) (THREAD_FLAG_REAL_TIME OR THREAD_FLAG_IDLE OR THREAD_FLAG_NO_BOOST)"

section \<open>Processors\<close>

abbreviation (input) SMP_MAX_CPUS :: nat where "SMP_MAX_CPUS \<equiv> 32"

definition cpu_num_to_mask :: "cpu_num option \<Rightarrow> cpu_mask" where
  "cpu_num_to_mask num = (case num of None \<Rightarrow> 0 | Some n \<Rightarrow> if \<not> n < SMP_MAX_CPUS then 0 else push_bit n 1)"

fun count_leading :: "nat \<Rightarrow> u32 \<Rightarrow> nat" where
  "count_leading 0 m = 0"
| "count_leading (Suc n) m = (if bit m n then 0 else Suc (count_leading n m))"

fun count_trailing :: "nat \<Rightarrow> nat \<Rightarrow> u32 \<Rightarrow> nat" where
  "count_trailing 0 i m = 0"
| "count_trailing (Suc n) i m = (if bit m i then 0 else Suc (count_trailing n (Suc i) m))"

text \<open>\<open>__builtin_clz\<close> and \<open>__builtin_ctz\<close> of a nonzero m.\<close>

abbreviation builtin_clz32 :: "u32 \<Rightarrow> nat" where "builtin_clz32 m \<equiv> count_leading 32 m"
abbreviation builtin_ctz32 :: "u32 \<Rightarrow> nat" where "builtin_ctz32 m \<equiv> count_trailing 32 0 m"

definition highest_cpu_set :: "cpu_mask \<Rightarrow> cpu_num" where
  "highest_cpu_set m = (if m = 0 then 0 else 31 - builtin_clz32 m)"

definition lowest_cpu_set :: "cpu_mask \<Rightarrow> cpu_num" where
  "lowest_cpu_set m = (if m = 0 then 0 else builtin_ctz32 m)"

record percpu =
  pc_run_queue :: "nat \<Rightarrow> tid list"
  pc_run_queue_bitmap :: u32
  pc_preempt_timer_deadline :: zx_time
  pc_idle_time :: zx_duration
  pc_idle_thread :: tid

section \<open>Wait queues\<close>

text \<open>The list of heads in the order of priority, each with the threads queued behind it.\<close>

record wait_queue =
  wq_count :: int
  wq_heads :: "(tid \<times> tid list) list"

datatype resource_ownership = Normal | Reader

section \<open>The kernel state\<close>

text \<open>The masks of \<open>mp\<close>, the threads running on the processors, the counter of \<open>rand_cpu\<close>, and the
  processors that were sent a request to reschedule.\<close>

record kernel =
  k_thread :: "tid \<Rightarrow> thread"
  k_wq :: "wqid \<Rightarrow> wait_queue"
  k_cpu :: "cpu_num \<Rightarrow> percpu"
  k_current :: "cpu_num \<Rightarrow> tid"
  k_active_cpus :: cpu_mask
  k_idle_cpus :: cpu_mask
  k_realtime_cpus :: cpu_mask
  k_rot :: nat
  k_ipi :: cpu_mask

definition upd_thread :: "tid \<Rightarrow> (thread \<Rightarrow> thread) \<Rightarrow> kernel \<Rightarrow> kernel" where
  "upd_thread t f k = k\<lparr>k_thread := (k_thread k)(t := f (k_thread k t))\<rparr>"

definition upd_wq :: "wqid \<Rightarrow> (wait_queue \<Rightarrow> wait_queue) \<Rightarrow> kernel \<Rightarrow> kernel" where
  "upd_wq q f k = k\<lparr>k_wq := (k_wq k)(q := f (k_wq k q))\<rparr>"

definition upd_cpu :: "cpu_num \<Rightarrow> (percpu \<Rightarrow> percpu) \<Rightarrow> kernel \<Rightarrow> kernel" where
  "upd_cpu c f k = k\<lparr>k_cpu := (k_cpu k)(c := f (k_cpu k c))\<rparr>"

lemma upd_thread_sel [simp]:
  "k_thread (upd_thread t f k) = (k_thread k)(t := f (k_thread k t))"
  "k_wq (upd_thread t f k) = k_wq k" "k_cpu (upd_thread t f k) = k_cpu k"
  "k_current (upd_thread t f k) = k_current k" "k_active_cpus (upd_thread t f k) = k_active_cpus k"
  "k_idle_cpus (upd_thread t f k) = k_idle_cpus k" "k_rot (upd_thread t f k) = k_rot k"
  by (simp_all add: upd_thread_def)

lemma upd_wq_sel [simp]:
  "k_thread (upd_wq q f k) = k_thread k"
  "k_wq (upd_wq q f k) = (k_wq k)(q := f (k_wq k q))" "k_cpu (upd_wq q f k) = k_cpu k"
  "k_current (upd_wq q f k) = k_current k" "k_active_cpus (upd_wq q f k) = k_active_cpus k"
  "k_idle_cpus (upd_wq q f k) = k_idle_cpus k" "k_rot (upd_wq q f k) = k_rot k"
  by (simp_all add: upd_wq_def)

lemma upd_cpu_sel [simp]:
  "k_thread (upd_cpu c f k) = k_thread k" "k_wq (upd_cpu c f k) = k_wq k"
  "k_cpu (upd_cpu c f k) = (k_cpu k)(c := f (k_cpu k c))"
  "k_current (upd_cpu c f k) = k_current k" "k_active_cpus (upd_cpu c f k) = k_active_cpus k"
  "k_idle_cpus (upd_cpu c f k) = k_idle_cpus k" "k_rot (upd_cpu c f k) = k_rot k"
  by (simp_all add: upd_cpu_def)

section \<open>The processors of the machine\<close>

definition mp_set_cpu_idle :: "cpu_num \<Rightarrow> kernel \<Rightarrow> kernel" where
  "mp_set_cpu_idle c k = k\<lparr>k_idle_cpus := k_idle_cpus k OR cpu_num_to_mask (Some c)\<rparr>"

definition mp_set_cpu_busy :: "cpu_num \<Rightarrow> kernel \<Rightarrow> kernel" where
  "mp_set_cpu_busy c k = k\<lparr>k_idle_cpus := k_idle_cpus k AND NOT (cpu_num_to_mask (Some c))\<rparr>"

definition mp_set_cpu_realtime :: "cpu_num \<Rightarrow> kernel \<Rightarrow> kernel" where
  "mp_set_cpu_realtime c k = k\<lparr>k_realtime_cpus := k_realtime_cpus k OR cpu_num_to_mask (Some c)\<rparr>"

definition mp_set_cpu_non_realtime :: "cpu_num \<Rightarrow> kernel \<Rightarrow> kernel" where
  "mp_set_cpu_non_realtime c k = k\<lparr>k_realtime_cpus := k_realtime_cpus k AND NOT (cpu_num_to_mask (Some c))\<rparr>"

definition mp_set_curr_cpu_active :: "cpu_num \<Rightarrow> bool \<Rightarrow> kernel \<Rightarrow> kernel" where
  "mp_set_curr_cpu_active cpu active k =
     (if active then k\<lparr>k_active_cpus := k_active_cpus k OR cpu_num_to_mask (Some cpu)\<rparr>
      else k\<lparr>k_active_cpus := k_active_cpus k AND NOT (cpu_num_to_mask (Some cpu))\<rparr>)"

text \<open>\<open>mp_reschedule\<close> with no flags; the request to the other processors is recorded.\<close>

definition mp_reschedule :: "cpu_num \<Rightarrow> cpu_mask \<Rightarrow> kernel \<Rightarrow> kernel" where
  "mp_reschedule local_cpu m k =
     (let m = m AND k_active_cpus k AND NOT (cpu_num_to_mask (Some local_cpu)) AND NOT (k_realtime_cpus k) in
      if m = 0 then k else k\<lparr>k_ipi := k_ipi k OR m\<rparr>)"

section \<open>Bit scans\<close>

lemma count_leading_bit:
  assumes "\<exists>i < n. bit m i"
  shows "count_leading n m < n \<and> bit m (n - 1 - count_leading n m) \<and> (\<forall>j. n - 1 - count_leading n m < j \<and> j < n \<longrightarrow> \<not> bit m j)"
  using assms
proof (induction n)
  case (Suc n)
  show ?case
  proof (cases "bit m n")
    case False
    with Suc.prems have "\<exists>i < n. bit m i" by (auto simp: less_Suc_eq)
    from Suc.IH [OF this] False show ?thesis by (auto simp: less_Suc_eq)
  qed auto
qed simp

lemma count_trailing_bit:
  assumes "\<exists>j. i \<le> j \<and> j < i + n \<and> bit m j"
  shows "count_trailing n i m < n \<and> bit m (i + count_trailing n i m)"
  using assms
proof (induction n arbitrary: i)
  case (Suc n)
  show ?case
  proof (cases "bit m i")
    case False
    with Suc.prems have "\<exists>j. Suc i \<le> j \<and> j < Suc i + n \<and> bit m j"
      by (metis Suc_leI add_Suc_right add_Suc le_neq_implies_less)
    from Suc.IH [OF this] False show ?thesis by auto
  qed auto
qed auto

lemma u32_nonzero_bit: "m \<noteq> 0 \<longleftrightarrow> (\<exists>i < 32. bit (m :: u32) i)"
  by (auto simp: bit_eq_iff dest: bit_imp_le_length)

lemma highest_cpu_set_bit:
  assumes "m \<noteq> 0"
  shows "highest_cpu_set m < 32 \<and> bit m (highest_cpu_set m) \<and> (\<forall>j > highest_cpu_set m. \<not> bit m j)"
proof -
  have "\<exists>i < 32. bit m i" using assms by (simp add: u32_nonzero_bit)
  note c = count_leading_bit [OF this]
  have "j < 32" if "bit m j" for j using bit_imp_le_length [OF that] by simp
  with c assms show ?thesis by (auto simp: highest_cpu_set_def simp del: count_leading.simps)
qed

lemma lowest_cpu_set_bit:
  assumes "m \<noteq> 0"
  shows "lowest_cpu_set m < 32 \<and> bit m (lowest_cpu_set m)"
proof -
  have "\<exists>j. 0 \<le> j \<and> j < 0 + 32 \<and> bit m j" using assms by (auto simp: u32_nonzero_bit)
  from count_trailing_bit [OF this] assms show ?thesis
    by (simp add: lowest_cpu_set_def del: count_trailing.simps)
qed

lemma bit_cpu_num_to_mask: "bit (cpu_num_to_mask c) n \<longleftrightarrow> c = Some n \<and> n < 32"
  by (auto simp: cpu_num_to_mask_def bit_simps split: option.splits)

end
