(* ===== verification/Zx_WaitQueue.thy ===== *)
theory Zx_WaitQueue
  imports Zx_Thread
begin

unbundle bit_operations_syntax

text \<open>
  Wait queues: the queue operations of \<^verbatim>\<open>kernel/kernel/wait.cpp\<close> and
  \<^verbatim>\<open>kernel/include/kernel/wait_queue_internal.h\<close>.

  A wait queue is a list of heads, one for each priority, each with the list of threads of its priority behind
  it. The theory shows that the operations implement a list of threads in the order of priority, in which
  threads of equal priority stay in the order of arrival. Waking and blocking, which also need the scheduler,
  are in \<^verbatim>\<open>Zx_Wait\<close>. Only plain wait queues are modelled: none is owned, so a change of priority
  is not propagated to an owner.
\<close>

section \<open>Queue operations\<close>

definition wait_queue_init :: wait_queue where
  "wait_queue_init = \<lparr>wq_count = 0, wq_heads = []\<rparr>"

fun heads_insert :: "(tid \<Rightarrow> int) \<Rightarrow> tid \<Rightarrow> (tid \<times> tid list) list \<Rightarrow> (tid \<times> tid list) list" where
  "heads_insert pri t [] = [(t, [])]"
| "heads_insert pri t ((temp, q) # hs) =
     (if pri t > pri temp then (t, []) # (temp, q) # hs
      else if pri temp = pri t then (temp, q @ [t]) # hs
      else (temp, q) # heads_insert pri t hs)"

abbreviation effec :: "kernel \<Rightarrow> tid \<Rightarrow> int" where
  "effec k t \<equiv> th_effec_priority (k_thread k t)"

definition wait_queue_insert :: "wqid \<Rightarrow> tid \<Rightarrow> kernel \<Rightarrow> kernel" where
  "wait_queue_insert wait t k = upd_wq wait (\<lambda>w. w\<lparr>wq_heads := heads_insert (effec k) t (wq_heads w)\<rparr>) k"

fun heads_remove_head :: "tid \<Rightarrow> (tid \<times> tid list) list \<Rightarrow> (tid \<times> tid list) list" where
  "heads_remove_head t [] = []"
| "heads_remove_head t ((h, q) # hs) =
     (if h = t then (case q of [] \<Rightarrow> hs | newhead # q' \<Rightarrow> (newhead, q') # hs)
      else (h, q) # heads_remove_head t hs)"

text \<open>The thread finds its list through its own nodes; here the queue it is in is an argument.\<close>

definition heads_remove_thread :: "tid \<Rightarrow> (tid \<times> tid list) list \<Rightarrow> (tid \<times> tid list) list" where
  "heads_remove_thread t hs =
     (if t \<notin> fst ` set hs then map (\<lambda>(h, q). (h, remove1 t q)) hs else heads_remove_head t hs)"

definition wait_queue_remove_thread :: "wqid \<Rightarrow> tid \<Rightarrow> kernel \<Rightarrow> kernel" where
  "wait_queue_remove_thread wait t k = upd_wq wait (\<lambda>w. w\<lparr>wq_heads := heads_remove_thread t (wq_heads w)\<rparr>) k"

definition wait_queue_peek :: "wait_queue \<Rightarrow> tid option" where
  "wait_queue_peek w = (case wq_heads w of [] \<Rightarrow> None | (t, _) # _ \<Rightarrow> Some t)"

definition wait_queue_blocked_priority :: "wqid \<Rightarrow> kernel \<Rightarrow> int" where
  "wait_queue_blocked_priority wait k = (case wait_queue_peek (k_wq k wait) of None \<Rightarrow> - 1 | Some t \<Rightarrow> effec k t)"

fun validate_heads :: "(tid \<Rightarrow> int) \<Rightarrow> tid option \<Rightarrow> (tid \<times> tid list) list \<Rightarrow> bool" where
  "validate_heads pri prev [] = True"
| "validate_heads pri prev ((temp, q) # hs) =
     ((case prev of None \<Rightarrow> True | Some l \<Rightarrow> pri l > pri temp) \<and>
      list_all (\<lambda>temp2. pri temp = pri temp2) q \<and> validate_heads pri (Some temp) hs)"

definition wait_queue_validate_queue :: "wqid \<Rightarrow> kernel \<Rightarrow> bool" where
  "wait_queue_validate_queue wait k = validate_heads (effec k) None (wq_heads (k_wq k wait))"

definition wait_queue_is_empty :: "wait_queue \<Rightarrow> bool" where
  "wait_queue_is_empty w \<longleftrightarrow> wq_count w = 0"

definition wait_queue_dequeue_thread_internal :: "wqid \<Rightarrow> tid \<Rightarrow> zx_status \<Rightarrow> kernel \<Rightarrow> kernel" where
  "wait_queue_dequeue_thread_internal wait t wait_queue_error k =
     upd_thread t (\<lambda>th. th\<lparr>th_blocked_status := wait_queue_error, th_blocking_wait_queue := None\<rparr>)
       (upd_wq wait (\<lambda>w. w\<lparr>wq_count := wq_count w - 1\<rparr>) (wait_queue_remove_thread wait t k))"

definition wait_queue_dequeue_one :: "wqid \<Rightarrow> zx_status \<Rightarrow> kernel \<Rightarrow> tid option \<times> kernel" where
  "wait_queue_dequeue_one wait wait_queue_error k =
     (case wait_queue_peek (k_wq k wait) of
        None \<Rightarrow> (None, k)
      | Some t \<Rightarrow> (Some t, wait_queue_dequeue_thread_internal wait t wait_queue_error k))"

definition wait_queue_move_thread :: "wqid \<Rightarrow> wqid \<Rightarrow> tid \<Rightarrow> kernel \<Rightarrow> kernel" where
  "wait_queue_move_thread source dest t k =
     (let k1 = wait_queue_insert dest t (wait_queue_remove_thread source t k);
          k2 = upd_wq dest (\<lambda>w. w\<lparr>wq_count := wq_count w + 1\<rparr>)
                 (upd_wq source (\<lambda>w. w\<lparr>wq_count := wq_count w - 1\<rparr>) k1) in
      upd_thread t (\<lambda>th. th\<lparr>th_blocking_wait_queue := Some dest\<rparr>) k2)"

text \<open>Re-queues a thread whose effective priority has been recomputed.\<close>

definition wait_queue_priority_changed :: "tid \<Rightarrow> kernel \<Rightarrow> kernel" where
  "wait_queue_priority_changed t k =
     (case th_blocking_wait_queue (k_thread k t) of
        None \<Rightarrow> k
      | Some wq \<Rightarrow> wait_queue_insert wq t (wait_queue_remove_thread wq t k))"

text \<open>The first half of blocking: the early returns, or the current thread is put on the queue.\<close>

definition wait_queue_block_etc_pre ::
  "zx_time \<Rightarrow> tid \<Rightarrow> wqid \<Rightarrow> zx_time \<Rightarrow> u32 \<Rightarrow> resource_ownership \<Rightarrow> kernel \<Rightarrow> zx_status \<times> kernel" where
  "wait_queue_block_etc_pre now current_thread wait deadline signal_mask reason k =
     (let th = k_thread k current_thread; pending = th_signals th AND NOT signal_mask in
      if deadline \<noteq> ZX_TIME_INFINITE \<and> deadline \<le> now then (ZX_ERR_TIMED_OUT, k)
      else if th_interruptable th \<and> pending \<noteq> 0 \<and> has_signal (th_signals th) THREAD_SIGNAL_KILL
      then (ZX_ERR_INTERNAL_INTR_KILLED, k)
      else if th_interruptable th \<and> pending \<noteq> 0 \<and> has_signal (th_signals th) THREAD_SIGNAL_SUSPEND
      then (ZX_ERR_INTERNAL_INTR_RETRY, k)
      else
        (ZX_OK,
         upd_thread current_thread
           (\<lambda>th. th\<lparr>th_state := (case reason of Normal \<Rightarrow> THREAD_BLOCKED | Reader \<Rightarrow> THREAD_BLOCKED_READ_LOCK),
                      th_blocking_wait_queue := Some wait, th_blocked_status := ZX_OK\<rparr>)
           (upd_wq wait (\<lambda>w. w\<lparr>wq_count := wq_count w + 1\<rparr>) (wait_queue_insert wait current_thread k))))"

text \<open>Destroying a queue with waiters panics.\<close>

definition wait_queue_destroy :: "wqid \<Rightarrow> kernel \<Rightarrow> kernel option" where
  "wait_queue_destroy wait k = (if wq_count (k_wq k wait) \<noteq> 0 then None else Some k)"

section \<open>The list of waiting threads\<close>

definition heads_threads :: "(tid \<times> tid list) list \<Rightarrow> tid list" where
  "heads_threads hs = concat (map (\<lambda>(h, q). h # q) hs)"

definition wq_threads :: "wait_queue \<Rightarrow> tid list" where
  "wq_threads w = heads_threads (wq_heads w)"

text \<open>The abstract insertion: before the first thread of lower priority.\<close>

definition insert_stable :: "(tid \<Rightarrow> int) \<Rightarrow> tid \<Rightarrow> tid list \<Rightarrow> tid list" where
  "insert_stable pri t ts = takeWhile (\<lambda>s. pri s \<ge> pri t) ts @ t # dropWhile (\<lambda>s. pri s \<ge> pri t) ts"

abbreviation by_priority :: "(tid \<Rightarrow> int) \<Rightarrow> tid list \<Rightarrow> bool" where
  "by_priority pri \<equiv> sorted_wrt (\<lambda>s t. pri s \<ge> pri t)"

lemma heads_threads_simps [simp]:
  "heads_threads [] = []" "heads_threads ((h, q) # hs) = h # q @ heads_threads hs"
  by (simp_all add: heads_threads_def)

lemma heads_threads_mem: "t \<in> fst ` set hs \<Longrightarrow> t \<in> set (heads_threads hs)"
  by (force simp: heads_threads_def)

lemma validate_last: "validate_heads pri prev hs \<Longrightarrow> prev = Some l \<Longrightarrow> t \<in> set (heads_threads hs) \<Longrightarrow> pri t < pri l"
proof (induction hs arbitrary: prev l)
  case (Cons p hs)
  obtain h q where p: "p = (h, q)" by force
  with Cons.prems have lt: "pri h < pri l" and q: "list_all (\<lambda>t. pri h = pri t) q" and v: "validate_heads pri (Some h) hs"
    by auto
  from Cons.prems(3) p consider "t = h \<or> t \<in> set q" | "t \<in> set (heads_threads hs)" by auto
  then show ?case
  proof cases
    case 1
    with q lt show ?thesis by (auto simp: list_all_iff)
  next
    case 2
    from Cons.IH [OF v refl 2] lt show ?thesis by simp
  qed
qed simp

lemma validate_by_priority: "validate_heads pri prev hs \<Longrightarrow> by_priority pri (heads_threads hs)"
proof (induction hs arbitrary: prev)
  case (Cons p hs)
  obtain h q where p: "p = (h, q)" by force
  with Cons.prems have q: "list_all (\<lambda>t. pri h = pri t) q" and v: "validate_heads pri (Some h) hs" by auto
  have less: "pri t < pri h" if "t \<in> set (heads_threads hs)" for t using validate_last [OF v refl that] .
  have "by_priority pri (h # q)" using q by (induction q) (auto simp: list_all_iff)
  with Cons.IH [OF v] less q show ?case by (fastforce simp: p sorted_wrt_append list_all_iff)
qed simp

lemma validate_weaken:
  "validate_heads pri l hs \<Longrightarrow> (\<forall>x. l' = Some x \<longrightarrow> (\<forall>t \<in> set (heads_threads hs). pri t < pri x)) \<Longrightarrow> validate_heads pri l' hs"
  by (cases hs) (auto split: option.splits)

lemma validate_cong:
  "validate_heads pri l hs \<Longrightarrow> (\<forall>t \<in> set (heads_threads hs). pri t = pri' t) \<Longrightarrow> (\<forall>x. l = Some x \<longrightarrow> pri x = pri' x) \<Longrightarrow>
   validate_heads pri' l hs"
  by (induction hs arbitrary: l) (auto simp: list_all_iff split: option.splits)

lemma heads_insert_threads:
  "validate_heads pri l hs \<Longrightarrow> heads_threads (heads_insert pri t hs) = insert_stable pri t (heads_threads hs)"
proof (induction hs arbitrary: l)
  case (Cons p hs)
  obtain h q where p: "p = (h, q)" by force
  with Cons.prems have q: "\<forall>s \<in> set q. pri h = pri s" and v: "validate_heads pri (Some h) hs"
    by (auto simp: list_all_iff)
  have less: "pri s < pri h" if "s \<in> set (heads_threads hs)" for s using validate_last [OF v refl that] .
  consider "pri t > pri h" | "pri h = pri t" | "pri t < pri h" by force
  then show ?case
  proof cases
    case 2
    with less have none: "takeWhile (\<lambda>s. pri s \<ge> pri t) (heads_threads hs) = []" "dropWhile (\<lambda>s. pri s \<ge> pri t) (heads_threads hs) = heads_threads hs"
      by (cases "heads_threads hs"; force)+
    with 2 q show ?thesis by (simp add: p insert_stable_def takeWhile_append2 dropWhile_append2)
  next
    case 3
    with q have "pri t \<le> pri s" if "s \<in> set q" for s using that by force
    with 3 Cons.IH [OF v] show ?thesis by (simp add: p insert_stable_def takeWhile_append2 dropWhile_append2)
  qed (simp add: p insert_stable_def)
qed (simp add: insert_stable_def)

lemma heads_insert_valid:
  "validate_heads pri l hs \<Longrightarrow> (\<forall>x. l = Some x \<longrightarrow> pri t < pri x) \<Longrightarrow> validate_heads pri l (heads_insert pri t hs)"
  by (induction hs arbitrary: l) (auto simp: list_all_iff split: option.splits)

lemma heads_remove_threads:
  assumes "distinct (heads_threads hs)"
  shows "heads_threads (heads_remove_thread t hs) = remove1 t (heads_threads hs)"
proof (cases "t \<in> fst ` set hs")
  case True
  with assms have "heads_threads (heads_remove_head t hs) = remove1 t (heads_threads hs)"
  proof (induction hs)
    case (Cons p hs)
    obtain h q where p: "p = (h, q)" by force
    show ?case
    proof (cases "h = t")
      case False
      with Cons.prems p have "t \<in> fst ` set hs" by auto
      moreover have "t \<notin> set q" using heads_threads_mem [OF calculation] Cons.prems p by auto
      ultimately show ?thesis using Cons False by (simp add: p remove1_append)
    qed (simp add: p split: list.splits)
  qed simp
  with True show ?thesis by (simp add: heads_remove_thread_def)
next
  case False
  with assms have "heads_threads (map (\<lambda>(h, q). (h, remove1 t q)) hs) = remove1 t (heads_threads hs)"
  proof (induction hs)
    case (Cons p hs)
    obtain h q where p: "p = (h, q)" by force
    have "t \<notin> set (heads_threads hs)" if "t \<in> set q" using Cons.prems that by (auto simp: p)
    with Cons p show ?case by (cases "t \<in> set q") (auto simp: remove1_append remove1_idem)
  qed simp
  with False show ?thesis by (simp add: heads_remove_thread_def)
qed

lemma heads_remove_head_valid:
  "validate_heads pri l hs \<Longrightarrow> validate_heads pri l (heads_remove_head t hs)"
proof (induction hs arbitrary: l)
  case (Cons p hs)
  obtain h q where p: "p = (h, q)" by force
  with Cons.prems have q: "\<forall>s \<in> set q. pri h = pri s" and v: "validate_heads pri (Some h) hs"
    and l: "\<forall>x. l = Some x \<longrightarrow> pri h < pri x"
    by (auto simp: list_all_iff split: option.splits)
  have less: "pri s < pri h" if "s \<in> set (heads_threads hs)" for s using validate_last [OF v refl that] .
  show ?case
  proof (cases "h = t")
    case True
    then show ?thesis
    proof (cases q)
      case Nil
      have "validate_heads pri l hs" using less l by (intro validate_weaken [OF v]) force
      with True Nil show ?thesis by (simp add: p)
    next
      case (Cons n ns)
      have "validate_heads pri (Some n) hs" using less q Cons by (intro validate_weaken [OF v]) auto
      with True Cons q l show ?thesis by (auto simp: p list_all_iff split: option.splits)
    qed
  next
    case False
    with Cons.IH [OF v] q l show ?thesis by (auto simp: p list_all_iff split: option.splits)
  qed
qed simp

lemma validate_remove1: "validate_heads pri l hs \<Longrightarrow> validate_heads pri l (map (\<lambda>(h, q). (h, remove1 t q)) hs)"
  by (induction hs arbitrary: l) (auto simp: list_all_iff dest!: set_remove1_subset [THEN subsetD])

text \<open>The priority of the removed thread does not matter: it may have changed while the thread was queued.\<close>

lemma heads_remove_valid:
  assumes "validate_heads pri l hs" "distinct (heads_threads hs)" "\<forall>s. s \<noteq> t \<longrightarrow> pri' s = pri s" "l \<noteq> Some t"
  shows "validate_heads pri' l (heads_remove_thread t hs)"
proof -
  have "validate_heads pri l (heads_remove_thread t hs)"
    using assms(1) by (simp add: heads_remove_thread_def validate_remove1 heads_remove_head_valid)
  moreover have "t \<notin> set (heads_threads (heads_remove_thread t hs))"
    unfolding heads_remove_threads [OF assms(2)] using assms(2) by simp
  ultimately show ?thesis using assms(3,4) by (elim validate_cong) auto
qed

section \<open>The invariant of a queue\<close>

definition wq_ok :: "(tid \<Rightarrow> int) \<Rightarrow> wait_queue \<Rightarrow> bool" where
  "wq_ok pri w \<longleftrightarrow> validate_heads pri None (wq_heads w) \<and> distinct (wq_threads w) \<and> wq_count w = int (length (wq_threads w))"

lemma wq_ok_init: "wq_ok pri wait_queue_init"
  by (simp add: wq_ok_def wait_queue_init_def wq_threads_def)

lemma insert_stable_split:
  obtains xs ys where "ts = xs @ ys" "insert_stable pri t ts = xs @ t # ys"
  by (rule that [of "takeWhile (\<lambda>s. pri s \<ge> pri t) ts" "dropWhile (\<lambda>s. pri s \<ge> pri t) ts"])
     (simp_all add: insert_stable_def)

lemma insert_stable_set [simp]: "set (insert_stable pri t ts) = insert t (set ts)"
  by (rule insert_stable_split [of ts pri t]) simp

lemma insert_stable_distinct [simp]: "distinct (insert_stable pri t ts) \<longleftrightarrow> distinct ts \<and> t \<notin> set ts"
  by (rule insert_stable_split [of ts pri t]) auto

lemma insert_stable_length [simp]: "length (insert_stable pri t ts) = Suc (length ts)"
  by (rule insert_stable_split [of ts pri t]) simp

lemma wq_insert_ok:
  assumes "wq_ok pri w" "t \<notin> set (wq_threads w)"
  shows "wq_ok pri (w\<lparr>wq_count := wq_count w + 1, wq_heads := heads_insert pri t (wq_heads w)\<rparr>)"
    "wq_threads (w\<lparr>wq_heads := heads_insert pri t (wq_heads w)\<rparr>) = insert_stable pri t (wq_threads w)"
  using assms by (simp_all add: wq_ok_def wq_threads_def heads_insert_valid heads_insert_threads [where l = None])

lemma wq_remove_ok:
  assumes "wq_ok pri w" "t \<in> set (wq_threads w)" "\<forall>s. s \<noteq> t \<longrightarrow> pri' s = pri s"
  shows "wq_ok pri' (w\<lparr>wq_count := wq_count w - 1, wq_heads := heads_remove_thread t (wq_heads w)\<rparr>)"
    "wq_threads (w\<lparr>wq_heads := heads_remove_thread t (wq_heads w)\<rparr>) = remove1 t (wq_threads w)"
proof -
  have len: "int (length (wq_threads w) - Suc 0) = int (length (wq_threads w)) - 1"
    using assms(2) by (cases "wq_threads w") auto
  show "wq_threads (w\<lparr>wq_heads := heads_remove_thread t (wq_heads w)\<rparr>) = remove1 t (wq_threads w)"
    using assms(1) by (simp add: wq_ok_def wq_threads_def heads_remove_threads)
  then show "wq_ok pri' (w\<lparr>wq_count := wq_count w - 1, wq_heads := heads_remove_thread t (wq_heads w)\<rparr>)"
    using assms len by (auto simp: wq_ok_def wq_threads_def heads_remove_valid length_remove1)
qed

lemma peek_threads: "wait_queue_peek w = (case wq_threads w of [] \<Rightarrow> None | t # _ \<Rightarrow> Some t)"
  by (auto simp: wait_queue_peek_def wq_threads_def split: list.splits prod.splits)

lemma wq_ok_cong: "wq_ok pri w \<Longrightarrow> \<forall>t \<in> set (wq_threads w). pri' t = pri t \<Longrightarrow> wq_ok pri' w"
  using validate_cong [of pri None "wq_heads w" pri'] by (simp add: wq_ok_def wq_threads_def)

section \<open>The contract of a queue\<close>

text \<open>What the users of a wait queue rely on: a list of threads in the order of priority, in which a new thread comes
  behind the threads of its own priority and only the first thread is seen.\<close>

locale priority_queue =
  fixes pri :: "tid \<Rightarrow> int" and ok :: "'q \<Rightarrow> bool" and waiting :: "'q \<Rightarrow> tid list"
    and ins :: "tid \<Rightarrow> 'q \<Rightarrow> 'q" and del :: "tid \<Rightarrow> 'q \<Rightarrow> 'q" and front :: "'q \<Rightarrow> tid option"
  assumes ins: "ok q \<Longrightarrow> t \<notin> set (waiting q) \<Longrightarrow> ok (ins t q) \<and> waiting (ins t q) = insert_stable pri t (waiting q)"
    and del: "ok q \<Longrightarrow> t \<in> set (waiting q) \<Longrightarrow> ok (del t q) \<and> waiting (del t q) = remove1 t (waiting q)"
    and front: "front q = (case waiting q of [] \<Rightarrow> None | t # _ \<Rightarrow> Some t)"
    and ordered: "ok q \<Longrightarrow> by_priority pri (waiting q)"
begin

lemma front_highest: "ok q \<Longrightarrow> front q = Some t \<Longrightarrow> s \<in> set (waiting q) \<Longrightarrow> pri s \<le> pri t"
  using ordered [of q] by (auto simp: front split: list.splits)

lemma del_front: "ok q \<Longrightarrow> waiting q = t # ts \<Longrightarrow> front q = Some t \<and> waiting (del t q) = ts"
  using del [of q t] by (simp add: front)

lemma ins_front:
  assumes "ok q" "t \<notin> set (waiting q)"
  shows "front (ins t q) = Some t \<longleftrightarrow> (\<forall>s \<in> set (waiting q). pri s < pri t)"
proof (cases "waiting q")
  case Nil
  with ins [OF assms] show ?thesis by (simp add: front insert_stable_def)
next
  case (Cons s ss)
  with ordered [OF assms(1)] have "\<forall>u \<in> set ss. pri u \<le> pri s" by simp
  with Cons ins [OF assms] assms(2) show ?thesis by (auto simp: front insert_stable_def)
qed

end

interpretation wqq: priority_queue pri "wq_ok pri" wq_threads
  "\<lambda>t w. w\<lparr>wq_count := wq_count w + 1, wq_heads := heads_insert pri t (wq_heads w)\<rparr>"
  "\<lambda>t w. w\<lparr>wq_count := wq_count w - 1, wq_heads := heads_remove_thread t (wq_heads w)\<rparr>"
  wait_queue_peek for pri :: "tid \<Rightarrow> int"
proof (unfold_locales, goal_cases)
  case (1 q t)
  then show ?case using wq_insert_ok [OF 1] by (simp add: wq_threads_def)
next
  case (2 q t)
  have "\<forall>s. s \<noteq> t \<longrightarrow> pri s = pri s" by simp
  from wq_remove_ok [OF 2 this] show ?case by (simp add: wq_threads_def)
next
  case (3 q)
  show ?case by (rule peek_threads)
next
  case (4 q)
  then show ?case using validate_by_priority [of pri None] by (simp add: wq_ok_def wq_threads_def)
qed

end
