(* ===== verification/Zx_Sched.thy ===== *)
theory Zx_Sched
  imports Zx_WaitQueue
begin

unbundle bit_operations_syntax

text \<open>
  The scheduler: \<^verbatim>\<open>kernel/kernel/sched.cpp\<close>.

  Every operation runs on a processor \<open>cpu\<close>, whose current thread is \<open>k_current k cpu\<close>, and takes the time
  \<open>now\<close> where the code reads the clock. A context switch makes another thread the current one; the calls of the
  switched-out thread go on when it is current again. Tracing, counters and address-space switches are left out.
\<close>

abbreviation (input) MAX_PRIORITY_ADJ :: int where "MAX_PRIORITY_ADJ \<equiv> 4"
abbreviation (input) THREAD_INITIAL_TIME_SLICE :: zx_duration where "THREAD_INITIAL_TIME_SLICE \<equiv> 10000000"

section \<open>Priorities\<close>

definition compute_effec_priority :: "tid \<Rightarrow> kernel \<Rightarrow> kernel" where
  "compute_effec_priority t k =
     (let th = k_thread k t;
          ep = th_base_priority th + th_priority_boost th;
          ep = (if th_inherited_priority th > ep then th_inherited_priority th else ep) in
      upd_thread t (\<lambda>th. th\<lparr>th_effec_priority := ep\<rparr>) k)"

definition post_boost_bookkeeping :: "tid \<Rightarrow> kernel \<Rightarrow> kernel" where
  "post_boost_bookkeeping t k =
     (let old_ep = effec k t; k1 = compute_effec_priority t k in
      if old_ep \<noteq> effec k1 t \<and> th_blocking_wait_queue (k_thread k1 t) \<noteq> None
      then wait_queue_priority_changed t k1 else k1)"

definition boost_thread :: "tid \<Rightarrow> kernel \<Rightarrow> kernel" where
  "boost_thread t k =
     (let th = k_thread k t in
      if thread_cannot_boost th then k
      else if th_priority_boost th < MAX_PRIORITY_ADJ \<and> th_base_priority th + th_priority_boost th < HIGHEST_PRIORITY
      then post_boost_bookkeeping t (upd_thread t (\<lambda>th. th\<lparr>th_priority_boost := th_priority_boost th + 1\<rparr>) k)
      else k)"

definition boost_floor :: "bool \<Rightarrow> int \<Rightarrow> int" where
  "boost_floor quantum_expiration base_priority =
     (if quantum_expiration
      then if base_priority + - MAX_PRIORITY_ADJ < LOWEST_PRIORITY then base_priority - LOWEST_PRIORITY
           else - MAX_PRIORITY_ADJ
      else 0)"

definition deboost_thread :: "tid \<Rightarrow> bool \<Rightarrow> kernel \<Rightarrow> kernel" where
  "deboost_thread t quantum_expiration k =
     (let th = k_thread k t in
      if thread_cannot_boost th then k
      else if th_priority_boost th \<le> boost_floor quantum_expiration (th_base_priority th) then k
      else post_boost_bookkeeping t (upd_thread t (\<lambda>th. th\<lparr>th_priority_boost := th_priority_boost th - 1\<rparr>) k))"

section \<open>Choosing a processor\<close>

text \<open>The endless loop of \<open>rand_cpu\<close>, with a bound on its rounds.\<close>

fun rand_loop :: "nat \<Rightarrow> nat \<Rightarrow> cpu_mask \<Rightarrow> nat \<Rightarrow> nat option" where
  "rand_loop 0 highest_cpu m rot = None"
| "rand_loop (Suc fuel) highest_cpu m rot =
     (let rot = (if rot + 1 > highest_cpu then 0 else rot + 1) in
      if bit m rot then Some rot else rand_loop fuel highest_cpu m rot)"

definition rand_cpu :: "cpu_mask \<Rightarrow> kernel \<Rightarrow> cpu_mask \<times> kernel" where
  "rand_cpu m k =
     (let m = m AND k_active_cpus k in
      if m = 0 then (0, k)
      else case rand_loop 33 (highest_cpu_set m) m (k_rot k) of
             None \<Rightarrow> (0, k)
           | Some rot \<Rightarrow> (push_bit rot 1, k\<lparr>k_rot := rot\<rparr>))"

definition find_cpu_mask :: "cpu_num \<Rightarrow> tid \<Rightarrow> kernel \<Rightarrow> cpu_mask \<times> kernel" where
  "find_cpu_mask cpu t k =
     (let last_ran_cpu_mask = cpu_num_to_mask (th_last_cpu (k_thread k t));
          curr_cpu_mask = cpu_num_to_mask (Some cpu);
          cpu_affinity = th_cpu_affinity (k_thread k t);
          active_cpu_mask = k_active_cpus k;
          candidate_cpu_mask = k_idle_cpus k AND (cpu_affinity AND active_cpu_mask) in
      if candidate_cpu_mask \<noteq> 0 then
        if candidate_cpu_mask AND curr_cpu_mask \<noteq> 0 then (curr_cpu_mask, k)
        else if last_ran_cpu_mask AND candidate_cpu_mask \<noteq> 0 then (last_ran_cpu_mask, k)
        else rand_cpu candidate_cpu_mask k
      else if last_ran_cpu_mask AND cpu_affinity AND active_cpu_mask \<noteq> 0 \<and> last_ran_cpu_mask \<noteq> curr_cpu_mask
      then (last_ran_cpu_mask, k)
      else
        let m = cpu_affinity AND NOT curr_cpu_mask in
        if m = 0 then (curr_cpu_mask, k)
        else let (m, k1) = rand_cpu m k in if m = 0 then (curr_cpu_mask, k1) else (m, k1))"

section \<open>Run queues\<close>

definition insert_in_run_queue_head :: "cpu_num \<Rightarrow> tid \<Rightarrow> kernel \<Rightarrow> kernel" where
  "insert_in_run_queue_head c t k =
     (let pri = nat (effec k t) in
      mp_set_cpu_busy c (upd_cpu c
        (\<lambda>p. p\<lparr>pc_run_queue := (pc_run_queue p)(pri := t # pc_run_queue p pri),
               pc_run_queue_bitmap := pc_run_queue_bitmap p OR push_bit pri 1\<rparr>) k))"

definition insert_in_run_queue_tail :: "cpu_num \<Rightarrow> tid \<Rightarrow> kernel \<Rightarrow> kernel" where
  "insert_in_run_queue_tail c t k =
     (let pri = nat (effec k t) in
      mp_set_cpu_busy c (upd_cpu c
        (\<lambda>p. p\<lparr>pc_run_queue := (pc_run_queue p)(pri := pc_run_queue p pri @ [t]),
               pc_run_queue_bitmap := pc_run_queue_bitmap p OR push_bit pri 1\<rparr>) k))"

text \<open>Taking a list out of a processor's queues and clearing the bit of a queue that became empty.\<close>

definition shrink_queue :: "nat \<Rightarrow> tid list \<Rightarrow> percpu \<Rightarrow> percpu" where
  "shrink_queue prio_queue q p =
     p\<lparr>pc_run_queue := (pc_run_queue p)(prio_queue := q),
       pc_run_queue_bitmap := (if q = [] then pc_run_queue_bitmap p AND NOT (push_bit prio_queue 1)
                               else pc_run_queue_bitmap p)\<rparr>"

definition remove_from_run_queue :: "tid \<Rightarrow> int \<Rightarrow> kernel \<Rightarrow> kernel" where
  "remove_from_run_queue t prio_queue k =
     (case th_curr_cpu (k_thread k t) of
        None \<Rightarrow> k
      | Some c \<Rightarrow>
          upd_cpu c (\<lambda>p. shrink_queue (nat prio_queue) (remove1 t (pc_run_queue p (nat prio_queue))) p) k)"

definition highest_run_queue :: "percpu \<Rightarrow> nat" where
  "highest_run_queue c = 31 - builtin_clz32 (pc_run_queue_bitmap c) - (32 - 32)"

definition sched_get_top_thread :: "cpu_num \<Rightarrow> kernel \<Rightarrow> tid \<times> kernel" where
  "sched_get_top_thread cpu k =
     (let c = k_cpu k cpu in
      if pc_run_queue_bitmap c \<noteq> 0 then
        let highest_queue = highest_run_queue c; q = pc_run_queue c highest_queue in
        (hd q, upd_cpu cpu (shrink_queue highest_queue (tl q)) k)
      else (pc_idle_thread c, k))"

definition sched_init_thread :: "tid \<Rightarrow> int \<Rightarrow> kernel \<Rightarrow> kernel" where
  "sched_init_thread t priority k =
     compute_effec_priority t
       (upd_thread t (\<lambda>th. th\<lparr>th_base_priority := priority, th_priority_boost := 0, th_inherited_priority := - 1\<rparr>) k)"

section \<open>Switching\<close>

text \<open>The preemption timer of the processor is set to a deadline, or cancelled.\<close>

definition timer_preempt_reset :: "cpu_num \<Rightarrow> zx_time \<Rightarrow> kernel \<Rightarrow> kernel" where
  "timer_preempt_reset cpu deadline k = upd_cpu cpu (\<lambda>p. p\<lparr>pc_preempt_timer_deadline := deadline\<rparr>) k"

text \<open>The accounting of a switch from one thread to another one.\<close>

definition account_old :: "zx_time \<Rightarrow> thread \<Rightarrow> thread" where
  "account_old now th =
     (let old_runtime = zx_time_sub_time now (th_last_started_running th) in
      th\<lparr>th_runtime_ns := zx_duration_add_duration (th_runtime_ns th) old_runtime,
         th_remaining_time_slice :=
           zx_duration_sub_duration (th_remaining_time_slice th) (min old_runtime (th_remaining_time_slice th)),
         th_curr_cpu := (if th_state th \<noteq> THREAD_READY then None else th_curr_cpu th)\<rparr>)"

definition account_new :: "cpu_num \<Rightarrow> zx_time \<Rightarrow> thread \<Rightarrow> thread" where
  "account_new cpu now th =
     th\<lparr>th_remaining_time_slice :=
          (if th_remaining_time_slice th = 0 then THREAD_INITIAL_TIME_SLICE else th_remaining_time_slice th),
        th_last_started_running := now, th_last_cpu := Some cpu, th_curr_cpu := Some cpu\<rparr>"

definition switch_cpu_state :: "cpu_num \<Rightarrow> zx_time \<Rightarrow> tid \<Rightarrow> tid \<Rightarrow> kernel \<Rightarrow> kernel" where
  "switch_cpu_state cpu now oldthread newthread k =
     (let new = k_thread k newthread; old = k_thread k oldthread;
          k1 = (if thread_is_idle new then mp_set_cpu_idle cpu k else k);
          k2 = (if thread_is_realtime new then mp_set_cpu_realtime cpu k1 else mp_set_cpu_non_realtime cpu k1);
          k3 = (if thread_is_idle old
                then upd_cpu cpu (\<lambda>p. p\<lparr>pc_idle_time := zx_duration_add_duration (pc_idle_time p)
                                         (zx_time_sub_time now (th_last_started_running old))\<rparr>) k2
                else k2) in
      if thread_is_real_time_or_idle new
      then if \<not> thread_is_real_time_or_idle old then timer_preempt_reset cpu ZX_TIME_INFINITE k3 else k3
      else timer_preempt_reset cpu (zx_time_add_duration now (th_remaining_time_slice new)) k3)"

definition sched_resched_internal :: "cpu_num \<Rightarrow> zx_time \<Rightarrow> kernel \<Rightarrow> kernel" where
  "sched_resched_internal cpu now k =
     (let oldthread = k_current k cpu;
          (newthread, k1) = sched_get_top_thread cpu k;
          k2 = upd_thread oldthread (\<lambda>th. th\<lparr>th_preempt_pending := False\<rparr>)
                 (upd_thread newthread (\<lambda>th. th\<lparr>th_state := THREAD_RUNNING\<rparr>) k1) in
      if newthread = oldthread then k2
      else
        let k3 = upd_thread newthread (account_new cpu now) (upd_thread oldthread (account_old now) k2);
            k4 = switch_cpu_state cpu now oldthread newthread k3 in
        k4\<lparr>k_current := (k_current k4)(cpu := newthread)\<rparr>)"

definition sched_block :: "cpu_num \<Rightarrow> zx_time \<Rightarrow> kernel \<Rightarrow> kernel" where
  "sched_block cpu now k = sched_resched_internal cpu now k"

section \<open>Making threads runnable\<close>

text \<open>The accumulated results of the code's out parameters come first in the result.\<close>

definition find_cpu_and_insert :: "cpu_num \<Rightarrow> tid \<Rightarrow> bool \<times> cpu_mask \<times> kernel \<Rightarrow> bool \<times> cpu_mask \<times> kernel" where
  "find_cpu_and_insert cpu t = (\<lambda>(local_resched, accum_cpu_mask, k).
     let (m, k1) = find_cpu_mask cpu t k;
         n = lowest_cpu_set m;
         k2 = upd_thread t (\<lambda>th. th\<lparr>th_curr_cpu := Some n\<rparr>) k1;
         k3 = (if th_remaining_time_slice (k_thread k2 t) > 0 then insert_in_run_queue_head n t k2
               else insert_in_run_queue_tail n t k2) in
     if n = cpu then (True, accum_cpu_mask, k3)
     else (local_resched, accum_cpu_mask OR cpu_num_to_mask (Some n), k3))"

definition make_ready :: "tid \<Rightarrow> kernel \<Rightarrow> kernel" where
  "make_ready t k = upd_thread t (\<lambda>th. th\<lparr>th_state := THREAD_READY\<rparr>) k"

definition send_ipis :: "cpu_num \<Rightarrow> cpu_mask \<Rightarrow> kernel \<Rightarrow> kernel" where
  "send_ipis cpu accum_cpu_mask k = (if accum_cpu_mask \<noteq> 0 then mp_reschedule cpu accum_cpu_mask k else k)"

definition sched_unblock :: "cpu_num \<Rightarrow> tid \<Rightarrow> kernel \<Rightarrow> bool \<times> kernel" where
  "sched_unblock cpu t k =
     (let (local_resched, m, k1) = find_cpu_and_insert cpu t (False, 0, make_ready t (boost_thread t k)) in
      (local_resched, send_ipis cpu m k1))"

text \<open>The list is taken from its tail.\<close>

definition sched_unblock_list :: "cpu_num \<Rightarrow> tid list \<Rightarrow> kernel \<Rightarrow> bool \<times> kernel" where
  "sched_unblock_list cpu ts k =
     (let (local_resched, m, k1) =
            fold (\<lambda>t (lr, acc, k). find_cpu_and_insert cpu t (lr, acc, make_ready t (boost_thread t k)))
              (rev ts) (False, 0, k) in
      (local_resched, send_ipis cpu m k1))"

definition sched_unblock_idle :: "tid \<Rightarrow> kernel \<Rightarrow> kernel" where
  "sched_unblock_idle t k =
     (let cpu = lowest_cpu_set (th_cpu_affinity (k_thread k t)) in
      insert_in_run_queue_head cpu t
        (upd_thread t (\<lambda>th. th\<lparr>th_state := THREAD_READY, th_curr_cpu := Some cpu\<rparr>) k))"

section \<open>Giving up the processor\<close>

definition migrate_current_thread :: "cpu_num \<Rightarrow> zx_time \<Rightarrow> tid \<Rightarrow> kernel \<Rightarrow> kernel" where
  "migrate_current_thread cpu now current_thread k =
     (let (local_resched, m, k1) = find_cpu_and_insert cpu current_thread (False, 0, make_ready current_thread k) in
      sched_resched_internal cpu now (send_ipis cpu m k1))"

definition local_migrate_if_needed :: "cpu_num \<Rightarrow> zx_time \<Rightarrow> tid \<Rightarrow> kernel \<Rightarrow> bool \<times> kernel" where
  "local_migrate_if_needed cpu now curr_thread k =
     (let th = k_thread k curr_thread in
      if th_cpu_affinity th AND cpu_num_to_mask (th_curr_cpu th) = 0
      then (True, migrate_current_thread cpu now curr_thread k) else (False, k))"

definition sched_yield :: "cpu_num \<Rightarrow> zx_time \<Rightarrow> kernel \<Rightarrow> kernel" where
  "sched_yield cpu now k =
     (let current_thread = k_current k cpu;
          k1 = make_ready current_thread (deboost_thread current_thread False
                 (upd_thread current_thread (\<lambda>th. th\<lparr>th_remaining_time_slice := 0\<rparr>) k));
          (migrated, k2) = local_migrate_if_needed cpu now current_thread k1 in
      if migrated then k2
      else sched_resched_internal cpu now (insert_in_run_queue_tail cpu current_thread k2))"

text \<open>The common end of preemption and rescheduling for a thread other than the idle thread.\<close>

definition requeue_current :: "cpu_num \<Rightarrow> zx_time \<Rightarrow> tid \<Rightarrow> kernel \<Rightarrow> kernel" where
  "requeue_current cpu now current_thread k =
     (let (migrated, k1) = local_migrate_if_needed cpu now current_thread k in
      if migrated then k1
      else sched_resched_internal cpu now
             (if th_remaining_time_slice (k_thread k1 current_thread) > 0
              then insert_in_run_queue_head cpu current_thread k1
              else insert_in_run_queue_tail cpu current_thread k1))"

definition sched_preempt :: "cpu_num \<Rightarrow> zx_time \<Rightarrow> kernel \<Rightarrow> kernel" where
  "sched_preempt cpu now k =
     (let current_thread = k_current k cpu; k1 = make_ready current_thread k in
      if thread_is_idle (k_thread k1 current_thread) then sched_resched_internal cpu now k1
      else requeue_current cpu now current_thread
             (if th_remaining_time_slice (k_thread k1 current_thread) \<le> 0
              then deboost_thread current_thread True k1 else k1))"

definition sched_reschedule :: "cpu_num \<Rightarrow> zx_time \<Rightarrow> kernel \<Rightarrow> kernel" where
  "sched_reschedule cpu now k =
     (let current_thread = k_current k cpu in
      if th_disable_counts (k_thread k current_thread) \<noteq> 0
      then upd_thread current_thread (\<lambda>th. th\<lparr>th_preempt_pending := True\<rparr>) k
      else
        let k1 = make_ready current_thread k in
        if thread_is_idle (k_thread k1 current_thread) then sched_resched_internal cpu now k1
        else requeue_current cpu now current_thread (deboost_thread current_thread False k1))"

section \<open>Moving threads and changing priorities\<close>

text \<open>The loop that empties the queues of a processor that is taken away, collecting the pinned threads. The
  assertion that no thread was put back on this processor is left out. Where it fails the loop does not return
  either, as \<open>Zx_Sched_History\<close> shows.\<close>

partial_function (option) transition_loop ::
  "cpu_num \<Rightarrow> tid list \<Rightarrow> bool \<times> cpu_mask \<times> kernel \<Rightarrow> (tid list \<times> bool \<times> cpu_mask \<times> kernel) option" where
  "transition_loop old_cpu pinned_threads acc =
     (case acc of (local_resched, accum_cpu_mask, k) \<Rightarrow>
        let (t, k1) = sched_get_top_thread old_cpu k in
        if thread_is_idle (k_thread k1 t) then Some (pinned_threads, local_resched, accum_cpu_mask, k1)
        else if th_cpu_affinity (k_thread k1 t) \<noteq> cpu_num_to_mask (Some old_cpu)
        then transition_loop old_cpu pinned_threads (find_cpu_and_insert old_cpu t (local_resched, accum_cpu_mask, k1))
        else transition_loop old_cpu (t # pinned_threads) (local_resched, accum_cpu_mask, k1))"

definition sched_transition_off_cpu :: "cpu_num \<Rightarrow> kernel \<Rightarrow> kernel option" where
  "sched_transition_off_cpu old_cpu k =
     (case transition_loop old_cpu [] (False, 0, mp_set_curr_cpu_active old_cpu False k) of
        None \<Rightarrow> None
      | Some (pinned_threads, local_resched, accum_cpu_mask, k1) \<Rightarrow>
          Some (send_ipis old_cpu accum_cpu_mask (fold (insert_in_run_queue_head old_cpu) pinned_threads k1)))"

definition sched_migrate :: "cpu_num \<Rightarrow> zx_time \<Rightarrow> tid \<Rightarrow> kernel \<Rightarrow> kernel" where
  "sched_migrate cpu now t k =
     (let th = k_thread k t; here = (th_cpu_affinity th AND cpu_num_to_mask (th_curr_cpu th) \<noteq> 0) in
      case th_state th of
        THREAD_RUNNING \<Rightarrow>
          if here then k
          else if t = k_current k cpu then migrate_current_thread cpu now t k
          else send_ipis cpu (cpu_num_to_mask (th_curr_cpu th)) k
      | THREAD_READY \<Rightarrow>
          if here then k
          else
            let (local_resched, m, k1) =
                  find_cpu_and_insert cpu t (False, 0, remove_from_run_queue t (th_effec_priority th) k);
                k2 = send_ipis cpu m k1 in
            if local_resched then sched_reschedule cpu now k2 else k2
      | _ \<Rightarrow> k)"

definition sched_priority_changed ::
  "cpu_num \<Rightarrow> tid \<Rightarrow> int \<Rightarrow> bool \<times> cpu_mask \<times> kernel \<Rightarrow> bool \<times> cpu_mask \<times> kernel" where
  "sched_priority_changed cpu t old_prio = (\<lambda>(local_resched, accum_cpu_mask, k).
     let th = k_thread k t in
     case th_state th of
       THREAD_RUNNING \<Rightarrow>
         if th_effec_priority th < old_prio then
           if t = k_current k cpu then (True, accum_cpu_mask, k)
           else (local_resched, accum_cpu_mask OR cpu_num_to_mask (th_curr_cpu th), k)
         else (local_resched, accum_cpu_mask, k)
     | THREAD_READY \<Rightarrow>
         let k1 = remove_from_run_queue t old_prio k; c = (case th_curr_cpu th of None \<Rightarrow> 0 | Some c \<Rightarrow> c) in
         if th_effec_priority th > old_prio then
           let k2 = insert_in_run_queue_head c t k1 in
           if c = cpu then (True, accum_cpu_mask, k2)
           else (local_resched, accum_cpu_mask OR cpu_num_to_mask (th_curr_cpu th), k2)
         else (local_resched, accum_cpu_mask, insert_in_run_queue_tail c t k1)
     | THREAD_BLOCKED \<Rightarrow>
         (local_resched, accum_cpu_mask, if th_blocking_wait_queue th \<noteq> None then wait_queue_priority_changed t k else k)
     | THREAD_BLOCKED_READ_LOCK \<Rightarrow>
         (local_resched, accum_cpu_mask, if th_blocking_wait_queue th \<noteq> None then wait_queue_priority_changed t k else k)
     | _ \<Rightarrow> (local_resched, accum_cpu_mask, k))"

definition sched_inherit_priority ::
  "cpu_num \<Rightarrow> tid \<Rightarrow> int \<Rightarrow> bool \<times> cpu_mask \<times> kernel \<Rightarrow> bool \<times> cpu_mask \<times> kernel" where
  "sched_inherit_priority cpu t pri = (\<lambda>(local_resched, accum_cpu_mask, k).
     let pri = (if pri > HIGHEST_PRIORITY then HIGHEST_PRIORITY else pri);
         old_ep = effec k t;
         k1 = compute_effec_priority t (upd_thread t (\<lambda>th. th\<lparr>th_inherited_priority := pri\<rparr>) k) in
     if old_ep = effec k1 t then (local_resched, accum_cpu_mask, k1)
     else sched_priority_changed cpu t old_ep (local_resched, accum_cpu_mask, k1))"

definition sched_change_priority :: "cpu_num \<Rightarrow> zx_time \<Rightarrow> tid \<Rightarrow> int \<Rightarrow> kernel \<Rightarrow> kernel" where
  "sched_change_priority cpu now t pri k =
     (if th_state (k_thread k t) = THREAD_DEATH then k
      else
        let pri = (if pri > HIGHEST_PRIORITY then HIGHEST_PRIORITY else pri);
            old_ep = effec k t;
            k1 = compute_effec_priority t
                   (upd_thread t (\<lambda>th. th\<lparr>th_base_priority := pri, th_priority_boost := 0\<rparr>) k) in
        if old_ep = effec k1 t then k1
        else
          let (local_resched, m, k2) = sched_priority_changed cpu t old_ep (False, 0, k1);
              k3 = send_ipis cpu m k2 in
          if local_resched then sched_reschedule cpu now k3 else k3)"

definition sched_preempt_timer_tick :: "cpu_num \<Rightarrow> zx_time \<Rightarrow> kernel \<Rightarrow> kernel" where
  "sched_preempt_timer_tick cpu now k =
     (let current_thread = k_current k cpu; th = k_thread k current_thread in
      if thread_is_real_time_or_idle th then k
      else
        let delta = zx_time_sub_time now (th_last_started_running th) in
        if delta \<ge> th_remaining_time_slice th then
          upd_thread current_thread (\<lambda>th. th\<lparr>th_preempt_pending := True\<rparr>)
            (timer_preempt_reset cpu (zx_time_add_duration now THREAD_INITIAL_TIME_SLICE)
              (upd_thread current_thread (\<lambda>th. th\<lparr>th_remaining_time_slice := 0\<rparr>) k))
        else timer_preempt_reset cpu
               (zx_time_add_duration (th_last_started_running th) (th_remaining_time_slice th)) k)"

end
