(* ===== verification/Zx_Sched_Inv.thy ===== *)
theory Zx_Sched_Inv
  imports Zx_Sched
begin

unbundle bit_operations_syntax

text \<open>
  The invariant of the scheduler and its preservation by the steps that the operations of
  \<^verbatim>\<open>kernel/kernel/sched.cpp\<close> are made of.

  The invariant is stated for a set \<open>C\<close> of started processors, a set \<open>X\<close> of threads in transit, which are in
  no queue, and a set \<open>D\<close> of processors whose current thread has given up its processor but is not yet switched
  out. Between operations \<open>X\<close> and \<open>D\<close> are empty.
\<close>

section \<open>The invariant\<close>

abbreviation rq :: "kernel \<Rightarrow> cpu_num \<Rightarrow> nat \<Rightarrow> tid list" where
  "rq k c p \<equiv> pc_run_queue (k_cpu k c) p"

abbreviation wq :: "kernel \<Rightarrow> wqid \<Rightarrow> tid list" where
  "wq k q \<equiv> wq_threads (k_wq k q)"

abbreviation idle_of :: "kernel \<Rightarrow> cpu_num \<Rightarrow> tid" where
  "idle_of k c \<equiv> pc_idle_thread (k_cpu k c)"

definition blocked :: "thread \<Rightarrow> bool" where
  "blocked th \<longleftrightarrow> (th_state th = THREAD_BLOCKED \<or> th_state th = THREAD_BLOCKED_READ_LOCK) \<and> \<not> thread_is_idle th"

definition prio_ok :: "thread \<Rightarrow> bool" where
  "prio_ok th \<longleftrightarrow> 0 \<le> th_base_priority th \<and> th_base_priority th \<le> 31 \<and>
     - 4 \<le> th_priority_boost th \<and> th_priority_boost th \<le> 4 \<and>
     0 \<le> th_base_priority th + th_priority_boost th \<and> th_base_priority th + th_priority_boost th \<le> 31 \<and>
     th_inherited_priority th \<le> 31 \<and>
     th_effec_priority th = max (th_base_priority th + th_priority_boost th) (th_inherited_priority th)"

definition on_queue :: "thread \<Rightarrow> cpu_num \<Rightarrow> nat \<Rightarrow> bool" where
  "on_queue th c p \<longleftrightarrow> th_state th = THREAD_READY \<and> \<not> thread_is_idle th \<and> th_curr_cpu th = Some c \<and> th_effec_priority th = int p"

text \<open>What holds of a thread: it is in exactly the queue its fields say.\<close>

definition tinv :: "cpu_num set \<Rightarrow> tid set \<Rightarrow> cpu_num set \<Rightarrow> kernel \<Rightarrow> tid \<Rightarrow> bool" where
  "tinv C X D k t \<longleftrightarrow>
     prio_ok (k_thread k t) \<and>
     (\<forall>c p. t \<in> set (rq k c p) \<longleftrightarrow> t \<notin> X \<and> on_queue (k_thread k t) c p) \<and>
     (t \<notin> X \<and> th_state (k_thread k t) = THREAD_READY \<and> \<not> thread_is_idle (k_thread k t) \<longrightarrow>
        th_curr_cpu (k_thread k t) \<in> Some ` C) \<and>
     (th_state (k_thread k t) = THREAD_RUNNING \<longrightarrow> t \<in> k_current k ` (C - D)) \<and>
     (\<forall>q. t \<in> set (wq k q) \<longleftrightarrow> th_blocking_wait_queue (k_thread k t) = Some q) \<and>
     (if t \<in> X then th_blocking_wait_queue (k_thread k t) = None
      else (blocked (k_thread k t) \<longleftrightarrow> th_blocking_wait_queue (k_thread k t) \<noteq> None))"

text \<open>What holds of a processor: the bitmap tells the queues that are not empty, and its current thread runs on it.\<close>

definition percpu_ok :: "percpu \<Rightarrow> bool" where
  "percpu_ok p \<longleftrightarrow> (\<forall>i. bit (pc_run_queue_bitmap p) i \<longleftrightarrow> pc_run_queue p i \<noteq> []) \<and> (\<forall>i. distinct (pc_run_queue p i))"

definition running_on :: "thread \<Rightarrow> cpu_num \<Rightarrow> bool" where
  "running_on th c \<longleftrightarrow> th_state th = THREAD_RUNNING \<and> th_curr_cpu th = Some c"

definition idle_ok :: "thread \<Rightarrow> bool" where
  "idle_ok th \<longleftrightarrow> thread_is_idle th \<and> th_state th \<in> {THREAD_READY, THREAD_RUNNING}"

definition cinv :: "cpu_num set \<Rightarrow> cpu_num set \<Rightarrow> kernel \<Rightarrow> cpu_num \<Rightarrow> bool" where
  "cinv C D k c \<longleftrightarrow>
     percpu_ok (k_cpu k c) \<and>
     (c \<in> C - D \<longrightarrow> running_on (k_thread k (k_current k c)) c) \<and>
     (c \<in> C \<longrightarrow> idle_ok (k_thread k (idle_of k c)) \<and>
        (thread_is_idle (k_thread k (k_current k c)) \<longrightarrow> k_current k c = idle_of k c))"

definition sinv :: "cpu_num set \<Rightarrow> tid set \<Rightarrow> cpu_num set \<Rightarrow> kernel \<Rightarrow> bool" where
  "sinv C X D k \<longleftrightarrow> (\<forall>t. tinv C X D k t) \<and> (\<forall>c. cinv C D k c) \<and> (\<forall>q. wq_ok (effec k) (k_wq k q)) \<and>
     inj_on (idle_of k) C \<and> C \<subseteq> {..<32} \<and> (\<forall>c. bit (k_active_cpus k) c \<longrightarrow> c \<in> C)"

lemma sinvD:
  assumes "sinv C X D k"
  shows "tinv C X D k t" "cinv C D k c" "wq_ok (effec k) (k_wq k q)" "inj_on (idle_of k) C" "C \<subseteq> {..<32}"
    "bit (k_active_cpus k) c \<Longrightarrow> c \<in> C"
  using assms unfolding sinv_def by blast+

lemma sinvI:
  assumes "\<And>t. tinv C X D k t" "\<And>c. cinv C D k c" "\<And>q. wq_ok (effec k) (k_wq k q)" "inj_on (idle_of k) C" "C \<subseteq> {..<32}"
    "\<And>c. bit (k_active_cpus k) c \<Longrightarrow> c \<in> C"
  shows "sinv C X D k"
  using assms unfolding sinv_def by blast

lemma tinvD:
  assumes "tinv C X D k t"
  shows "prio_ok (k_thread k t)" "t \<in> set (rq k c p) \<longleftrightarrow> t \<notin> X \<and> on_queue (k_thread k t) c p"
    "t \<notin> X \<Longrightarrow> th_state (k_thread k t) = THREAD_READY \<Longrightarrow> \<not> thread_is_idle (k_thread k t) \<Longrightarrow>
     th_curr_cpu (k_thread k t) \<in> Some ` C"
    "th_state (k_thread k t) = THREAD_RUNNING \<Longrightarrow> t \<in> k_current k ` (C - D)"
    "t \<in> set (wq k q) \<longleftrightarrow> th_blocking_wait_queue (k_thread k t) = Some q"
    "t \<in> X \<Longrightarrow> th_blocking_wait_queue (k_thread k t) = None"
    "t \<notin> X \<Longrightarrow> blocked (k_thread k t) \<longleftrightarrow> th_blocking_wait_queue (k_thread k t) \<noteq> None"
  using assms unfolding tinv_def by (auto split: if_splits)

lemma tinvI:
  assumes "prio_ok (k_thread k t)" "\<And>c p. t \<in> set (rq k c p) \<longleftrightarrow> t \<notin> X \<and> on_queue (k_thread k t) c p"
    "t \<notin> X \<Longrightarrow> th_state (k_thread k t) = THREAD_READY \<Longrightarrow> \<not> thread_is_idle (k_thread k t) \<Longrightarrow>
     th_curr_cpu (k_thread k t) \<in> Some ` C"
    "th_state (k_thread k t) = THREAD_RUNNING \<Longrightarrow> t \<in> k_current k ` (C - D)"
    "\<And>q. t \<in> set (wq k q) \<longleftrightarrow> th_blocking_wait_queue (k_thread k t) = Some q"
    "t \<in> X \<Longrightarrow> th_blocking_wait_queue (k_thread k t) = None"
    "t \<notin> X \<Longrightarrow> blocked (k_thread k t) \<longleftrightarrow> th_blocking_wait_queue (k_thread k t) \<noteq> None"
  shows "tinv C X D k t"
  using assms unfolding tinv_def by auto

lemma cinvD:
  assumes "cinv C D k c"
  shows "percpu_ok (k_cpu k c)" "c \<in> C - D \<Longrightarrow> running_on (k_thread k (k_current k c)) c"
    "c \<in> C \<Longrightarrow> idle_ok (k_thread k (idle_of k c))"
    "c \<in> C \<Longrightarrow> thread_is_idle (k_thread k (k_current k c)) \<Longrightarrow> k_current k c = idle_of k c"
  using assms unfolding cinv_def by blast+

lemma cinvI:
  assumes "percpu_ok (k_cpu k c)" "c \<in> C - D \<Longrightarrow> running_on (k_thread k (k_current k c)) c"
    "c \<in> C \<Longrightarrow> idle_ok (k_thread k (idle_of k c))"
    "c \<in> C \<Longrightarrow> thread_is_idle (k_thread k (k_current k c)) \<Longrightarrow> k_current k c = idle_of k c"
  shows "cinv C D k c"
  using assms unfolding cinv_def by blast

text \<open>A thread the change does not touch.\<close>

lemma tinv_cong:
  assumes "tinv C X D k t" "k_thread k' t = k_thread k t" "t \<in> X' \<longleftrightarrow> t \<in> X"
    "\<And>c p. t \<in> set (rq k' c p) \<longleftrightarrow> t \<in> set (rq k c p)" "\<And>q. t \<in> set (wq k' q) \<longleftrightarrow> t \<in> set (wq k q)"
    "t \<in> k_current k ` (C - D) \<Longrightarrow> t \<in> k_current k' ` (C - D')"
  shows "tinv C X' D' k' t"
  using assms(1,6) unfolding tinv_def assms(2-5) by (elim conjE, intro conjI) (assumption | blast)+

lemma effec_range: "prio_ok th \<Longrightarrow> 0 \<le> th_effec_priority th \<and> th_effec_priority th \<le> 31"
  by (auto simp: prio_ok_def)

section \<open>Updates of one thread\<close>

text \<open>Updates of fields the invariant does not mention.\<close>

definition same_view :: "thread \<Rightarrow> thread \<Rightarrow> bool" where
  "same_view a b \<longleftrightarrow> th_state a = th_state b \<and> th_flags a = th_flags b \<and> th_curr_cpu a = th_curr_cpu b \<and>
     th_effec_priority a = th_effec_priority b \<and> th_base_priority a = th_base_priority b \<and>
     th_priority_boost a = th_priority_boost b \<and> th_inherited_priority a = th_inherited_priority b \<and>
     th_blocking_wait_queue a = th_blocking_wait_queue b"

lemma same_viewD:
  assumes "same_view a b"
  shows "prio_ok a = prio_ok b" "on_queue a c p = on_queue b c p" "blocked a = blocked b" "idle_ok a = idle_ok b"
    "running_on a c = running_on b c"
    "thread_is_idle a = thread_is_idle b" "th_state a = th_state b" "th_curr_cpu a = th_curr_cpu b"
    "th_effec_priority a = th_effec_priority b" "th_blocking_wait_queue a = th_blocking_wait_queue b"
  using assms
  by (simp_all only: same_view_def prio_ok_def on_queue_def blocked_def thread_is_idle_def idle_ok_def running_on_def)

lemma sinv_cong:
  assumes inv: "sinv C X D k" and view: "\<And>t. same_view (k_thread k' t) (k_thread k t)"
    and wq: "k_wq k' = k_wq k" and cpu: "\<And>c. pc_run_queue (k_cpu k' c) = pc_run_queue (k_cpu k c)"
      "\<And>c. pc_run_queue_bitmap (k_cpu k' c) = pc_run_queue_bitmap (k_cpu k c)"
      "\<And>c. pc_idle_thread (k_cpu k' c) = pc_idle_thread (k_cpu k c)"
    and rest: "k_current k' = k_current k" "k_active_cpus k' = k_active_cpus k"
  shows "sinv C X D k'"
proof -
  have "sinv C X D k' = sinv C X D k"
    unfolding sinv_def tinv_def cinv_def percpu_ok_def
    by (simp only: same_viewD [OF view] wq cpu rest)
  with inv show ?thesis by simp
qed

lemma sinv_same:
  assumes "sinv C X D k" "same_view (f (k_thread k t)) (k_thread k t)"
  shows "sinv C X D (upd_thread t f k)"
  using assms(2) by (intro sinv_cong [OF assms(1)]) (auto simp: same_view_def)

lemma wq_ok_upd: "wq_ok (effec k) w \<Longrightarrow> t \<notin> set (wq_threads w) \<Longrightarrow> wq_ok (effec (upd_thread t f k)) w"
  by (erule wq_ok_cong) auto

text \<open>A thread that leaves its processor, or is already in transit, is in transit after the update.\<close>

lemma sinv_transit:
  assumes inv: "sinv C X D k"
    and not_queued: "t \<in> X \<or> th_state (k_thread k t) \<noteq> THREAD_READY \<or> thread_is_idle (k_thread k t)"
    and free: "th_blocking_wait_queue (k_thread k t) = None"
    and cur: "\<And>c. c \<in> C - D' \<Longrightarrow> k_current k c \<noteq> t" "D \<subseteq> D'" "\<And>c. c \<in> D' - D \<Longrightarrow> k_current k c = t"
    and new: "prio_ok (f (k_thread k t))" "th_state (f (k_thread k t)) \<noteq> THREAD_RUNNING"
      "thread_is_idle (f (k_thread k t)) = thread_is_idle (k_thread k t)"
      "th_blocking_wait_queue (f (k_thread k t)) = None"
    and idle: "\<And>c. c \<in> C \<Longrightarrow> t \<noteq> idle_of k c"
  shows "sinv C (insert t X) D' (upd_thread t f k)"
proof (rule sinvI)
  note I = sinvD [OF inv]
  note T = tinvD [OF I(1) [of t]]
  let ?k = "upd_thread t f k"
  have nq: "t \<notin> set (rq k c p)" for c p using T(2) not_queued by (auto simp: on_queue_def)
  have nw: "t \<notin> set (wq k q)" for q using T(5) free by simp
  fix s
  show "tinv C (insert t X) D' ?k s"
  proof (cases "s = t")
    case True
    show ?thesis unfolding True using new nq nw by (intro tinvI) simp_all
  next
    case False
    have "s \<in> k_current k ` (C - D')" if "s \<in> k_current k ` (C - D)" using that False cur by blast
    then show ?thesis using False by (intro tinv_cong [OF I(1)]) simp_all
  qed
  show "cinv C D' ?k c" for c
  proof (rule cinvI)
    show "percpu_ok (k_cpu ?k c)" using cinvD(1) [OF I(2)] by simp
    show "running_on (k_thread ?k (k_current ?k c)) c" if "c \<in> C - D'"
      using cinvD(2) [OF I(2)] cur(1) [OF that] that cur(2) by auto
    show "idle_ok (k_thread ?k (idle_of ?k c))" if "c \<in> C" using cinvD(3) [OF I(2) that] idle [OF that] by auto
    show "k_current ?k c = idle_of ?k c" if "c \<in> C" "thread_is_idle (k_thread ?k (k_current ?k c))"
      using cinvD(4) [OF I(2) that(1)] that(2) new(3) by (auto split: if_splits)
  qed
  show "wq_ok (effec ?k) (k_wq ?k q)" for q using wq_ok_upd [OF I(3) nw] by simp
  show "inj_on (idle_of ?k) C" "C \<subseteq> {..<32}" using I(4,5) by simp_all
  show "c \<in> C" if "bit (k_active_cpus ?k) c" for c using I(6) that by simp
qed

text \<open>The idle thread gives up its processor.\<close>

lemma current_inj:
  assumes "sinv C X D k" "a \<in> C - D" "b \<in> C - D" "k_current k a = k_current k b"
  shows "a = b"
  using cinvD(2) [OF sinvD(2) [OF assms(1)] assms(2)] cinvD(2) [OF sinvD(2) [OF assms(1)] assms(3)] assms(4)
  by (simp add: running_on_def)

lemma sinv_idle_ready:
  assumes inv: "sinv C {} {} k" and cpu: "cpu \<in> C" and idle: "thread_is_idle (k_thread k (k_current k cpu))"
  shows "sinv C {} {cpu} (make_ready (k_current k cpu) k)"
proof (rule sinvI)
  note I = sinvD [OF inv]
  let ?t = "k_current k cpu" and ?k = "make_ready (k_current k cpu) k"
  have k: "k_thread ?k s = (if s = ?t then (k_thread k s)\<lparr>th_state := THREAD_READY\<rparr> else k_thread k s)"
    "k_cpu ?k = k_cpu k" "k_current ?k = k_current k" "k_wq ?k = k_wq k" "k_active_cpus ?k = k_active_cpus k" for s
    by (simp_all add: make_ready_def)
  have idles: "thread_is_idle (k_thread ?k s) = thread_is_idle (k_thread k s)" for s by (simp add: thread_is_idle_def k)
  have run: "th_state (k_thread k ?t) = THREAD_RUNNING" using cinvD(2) [OF I(2), of cpu] cpu by (simp add: running_on_def)
  note T = tinvD [OF I(1) [of ?t]]
  have other: "k_current k c \<noteq> ?t" if "c \<in> C - {cpu}" for c using current_inj [OF inv, of c cpu] that cpu by auto
  show "tinv C {} {cpu} ?k s" for s
  proof (cases "s = ?t")
    case True
    have "blocked (k_thread k ?t) = False" using run by (simp add: blocked_def)
    then show ?thesis unfolding True
      by (intro tinvI) (use T idle idles [of ?t] run in \<open>simp_all add: k prio_ok_def on_queue_def blocked_def\<close>)
  next
    case False
    then have "s \<in> k_current k ` (C - {cpu})" if "s \<in> k_current k ` (C - {})" using that by blast
    with False show ?thesis by (intro tinv_cong [OF I(1)]) (simp_all add: k)
  qed
  show "cinv C {cpu} ?k c" for c
  proof (rule cinvI)
    show "percpu_ok (k_cpu ?k c)" using cinvD(1) [OF I(2)] by (simp add: k)
    show "running_on (k_thread ?k (k_current ?k c)) c" if "c \<in> C - {cpu}"
      using cinvD(2) [OF I(2)] other [OF that] that by (simp add: k)
    show "idle_ok (k_thread ?k (idle_of ?k c))" if "c \<in> C"
      using cinvD(3) [OF I(2) that] idles [of "idle_of k c"] by (simp add: k idle_ok_def)
    show "k_current ?k c = idle_of ?k c" if "c \<in> C" "thread_is_idle (k_thread ?k (k_current ?k c))"
      using cinvD(4) [OF I(2) that(1)] that(2) unfolding idles by (simp add: k)
  qed
  show "wq_ok (effec ?k) (k_wq ?k q)" for q unfolding k(4) by (rule wq_ok_cong [OF I(3)]) (simp add: k)
  show "inj_on (idle_of ?k) C" "C \<subseteq> {..<32}" using I(4,5) by (simp_all add: k)
  show "c \<in> C" if "bit (k_active_cpus ?k) c" for c using I(6) that by (simp add: k)
qed

section \<open>Run queues\<close>

lemma sinv_enqueue:
  assumes inv: "sinv C X D k" and t: "t \<in> X" "on_queue (k_thread k t) c p" and c: "c \<in> C"
    and P: "set (pc_run_queue P p) = insert t (set (rq k c p))" "distinct (pc_run_queue P p)"
      "\<And>i. i \<noteq> p \<Longrightarrow> pc_run_queue P i = rq k c i"
      "\<And>i. bit (pc_run_queue_bitmap P) i \<longleftrightarrow> i = p \<or> bit (pc_run_queue_bitmap (k_cpu k c)) i"
      "pc_idle_thread P = idle_of k c"
  shows "sinv C (X - {t}) D (upd_cpu c (\<lambda>_. P) k)"
proof (rule sinvI)
  note I = sinvD [OF inv]
  let ?k = "upd_cpu c (\<lambda>_. P) k"
  have mem: "s \<in> set (rq ?k d i) \<longleftrightarrow> s \<in> set (rq k d i) \<or> s = t \<and> d = c \<and> i = p" for s d i
    using P(1,3) by (cases "d = c"; cases "i = p") auto
  show "tinv C (X - {t}) D ?k s" for s
  proof (cases "s = t")
    case True
    note T = tinvD [OF I(1) [of t]]
    have uniq: "on_queue (k_thread k t) d i \<longleftrightarrow> d = c \<and> i = p" for d i using t(2) by (auto simp: on_queue_def)
    have "t \<in> set (rq ?k d i) \<longleftrightarrow> on_queue (k_thread k t) d i" for d i using mem T(2) [of d i] t(1) uniq by simp
    moreover have "\<not> blocked (k_thread k t)" "th_curr_cpu (k_thread k t) \<in> Some ` C"
      using t(2) c by (auto simp: on_queue_def blocked_def)
    ultimately show ?thesis unfolding True using T t by (intro tinvI) (simp_all add: on_queue_def)
  next
    case False
    then show ?thesis using mem by (intro tinv_cong [OF I(1)]) auto
  qed
  show "cinv C D ?k d" for d
  proof (rule cinvI)
    have "percpu_ok P"
      unfolding percpu_ok_def
    proof (intro conjI allI)
      fix i
      have "percpu_ok (k_cpu k c)" by (rule cinvD(1) [OF I(2)])
      then show "bit (pc_run_queue_bitmap P) i \<longleftrightarrow> pc_run_queue P i \<noteq> []" "distinct (pc_run_queue P i)"
        using P by (cases "i = p"; auto simp: percpu_ok_def)+
    qed
    then show "percpu_ok (k_cpu ?k d)" using cinvD(1) [OF I(2)] by simp
    show "running_on (k_thread ?k (k_current ?k d)) d" if "d \<in> C - D" using cinvD(2) [OF I(2) that] by simp
    show "idle_ok (k_thread ?k (idle_of ?k d))" if "d \<in> C" using cinvD(3) [OF I(2) that] P(5) by (cases "d = c") simp_all
    show "k_current ?k d = idle_of ?k d" if "d \<in> C" "thread_is_idle (k_thread ?k (k_current ?k d))"
      using cinvD(4) [OF I(2) that(1)] that(2) P(5) by (cases "d = c") simp_all
  qed
  show "wq_ok (effec ?k) (k_wq ?k q)" for q using I(3) by simp
  have "idle_of ?k = idle_of k" using P(5) by (auto simp: fun_eq_iff)
  then show "inj_on (idle_of ?k) C" "C \<subseteq> {..<32}" using I(4,5) by simp_all
  show "d \<in> C" if "bit (k_active_cpus ?k) d" for d using I(6) that by simp
qed

lemma sinv_masks:
  assumes "sinv C X D k"
  shows "sinv C X D (mp_set_cpu_busy c k)" "sinv C X D (mp_set_cpu_idle c k)"
    "sinv C X D (mp_set_cpu_realtime c k)" "sinv C X D (mp_set_cpu_non_realtime c k)"
    "sinv C X D (mp_reschedule c m k)" "sinv C X D (send_ipis c m k)" "sinv C X D (k\<lparr>k_rot := r\<rparr>)"
  by (rule sinv_cong [OF assms];
      simp add: same_view_def mp_set_cpu_busy_def mp_set_cpu_idle_def mp_set_cpu_realtime_def mp_set_cpu_non_realtime_def
        mp_reschedule_def send_ipis_def Let_def)+

lemma effec_nat: "prio_ok th \<Longrightarrow> th_effec_priority th = int (nat (th_effec_priority th)) \<and> nat (th_effec_priority th) < 32"
  using effec_range [of th] by auto

lemma bit_set_queue: "p < 32 \<Longrightarrow> bit (b OR push_bit p (1 :: u32)) i \<longleftrightarrow> i = p \<or> bit b i"
  by (auto simp: bit_simps)

lemma bit_clear_queue: "bit (b AND NOT (push_bit p (1 :: u32))) i \<longleftrightarrow> i \<noteq> p \<and> bit b i"
  using bit_imp_le_length [of b i] by (auto simp: bit_simps)

lemma sinv_insert:
  assumes inv: "sinv C X D k" and t: "t \<in> X" "th_state (k_thread k t) = THREAD_READY" "\<not> thread_is_idle (k_thread k t)"
    "th_curr_cpu (k_thread k t) = Some c" and c: "c \<in> C"
  shows "sinv C (X - {t}) D (insert_in_run_queue_head c t k)" "sinv C (X - {t}) D (insert_in_run_queue_tail c t k)"
proof -
  let ?p = "nat (effec k t)"
  note T = tinvD [OF sinvD(1) [OF inv, of t]]
  have q: "on_queue (k_thread k t) c ?p" and p: "?p < 32" using t effec_nat [OF T(1)] by (auto simp: on_queue_def)
  have new: "t \<notin> set (rq k c ?p)" using T(2) t(1) by simp
  have dist: "distinct (rq k c ?p)" using cinvD(1) [OF sinvD(2) [OF inv, of c]] by (simp add: percpu_ok_def)
  have bits: "bit (pc_run_queue_bitmap (k_cpu k c) OR push_bit ?p 1) i \<longleftrightarrow> i = ?p \<or> bit (pc_run_queue_bitmap (k_cpu k c)) i" for i
    by (rule bit_set_queue [OF p])
  have upd: "upd_cpu c f k = upd_cpu c (\<lambda>_. f (k_cpu k c)) k" for f by (simp add: upd_cpu_def)
  show "sinv C (X - {t}) D (insert_in_run_queue_head c t k)"
    unfolding insert_in_run_queue_head_def Let_def
    by (subst upd, intro sinv_masks sinv_enqueue [OF inv t(1) q c]) (use new dist bits in simp_all)
  show "sinv C (X - {t}) D (insert_in_run_queue_tail c t k)"
    unfolding insert_in_run_queue_tail_def Let_def
    by (subst upd, intro sinv_masks sinv_enqueue [OF inv t(1) q c]) (use new dist bits in simp_all)
qed

lemma sinv_dequeue:
  assumes inv: "sinv C X D k" and t: "t \<in> set (rq k c p)"
  shows "sinv C (insert t X) D (upd_cpu c (shrink_queue p (remove1 t (rq k c p))) k)"
proof (rule sinvI)
  note I = sinvD [OF inv]
  let ?P = "shrink_queue p (remove1 t (rq k c p)) (k_cpu k c)" and ?k = "upd_cpu c (shrink_queue p (remove1 t (rq k c p))) k"
  note T = tinvD [OF I(1) [of t]]
  have q: "t \<notin> X" "on_queue (k_thread k t) c p" using T(2) t by auto
  have p: "p < 32" using effec_nat [OF T(1)] q(2) by (auto simp: on_queue_def)
  have ok: "percpu_ok (k_cpu k d)" for d by (rule cinvD(1) [OF I(2)])
  have dist: "distinct (rq k c p)" using ok by (simp add: percpu_ok_def)
  have mem: "s \<in> set (rq ?k d i) \<longleftrightarrow> s \<in> set (rq k d i) \<and> \<not> (s = t \<and> d = c \<and> i = p)" for s d i
    using dist by (auto simp: shrink_queue_def)
  show "tinv C (insert t X) D ?k s" for s
  proof (cases "s = t")
    case True
    have "t \<notin> set (rq ?k d i)" for d i using mem T(2) q by (auto simp: on_queue_def)
    moreover have "th_blocking_wait_queue (k_thread k t) = None" using T(7) [OF q(1)] q(2) by (auto simp: on_queue_def blocked_def)
    ultimately show ?thesis unfolding True using T q by (intro tinvI) (simp_all add: on_queue_def)
  next
    case False
    then show ?thesis using mem by (intro tinv_cong [OF I(1)]) auto
  qed
  show "cinv C D ?k d" for d
  proof (rule cinvI)
    have "percpu_ok ?P"
      unfolding percpu_ok_def
    proof (intro conjI allI)
      fix i
      have "rq k c p \<noteq> []" using t by auto
      then show "bit (pc_run_queue_bitmap ?P) i \<longleftrightarrow> pc_run_queue ?P i \<noteq> []" "distinct (pc_run_queue ?P i)"
        using ok [of c] by (auto simp: percpu_ok_def shrink_queue_def bit_clear_queue simp del: push_bit_of_1)
    qed
    then show "percpu_ok (k_cpu ?k d)" using ok by simp
    show "running_on (k_thread ?k (k_current ?k d)) d" if "d \<in> C - D" using cinvD(2) [OF I(2) that] by simp
    show "idle_ok (k_thread ?k (idle_of ?k d))" if "d \<in> C" using cinvD(3) [OF I(2) that] by (cases "d = c") (simp_all add: shrink_queue_def)
    show "k_current ?k d = idle_of ?k d" if "d \<in> C" "thread_is_idle (k_thread ?k (k_current ?k d))"
      using cinvD(4) [OF I(2) that(1)] that(2) by (cases "d = c") (simp_all add: shrink_queue_def)
  qed
  show "wq_ok (effec ?k) (k_wq ?k q)" for q using I(3) by simp
  have "idle_of ?k = idle_of k" by (auto simp: fun_eq_iff shrink_queue_def)
  then show "inj_on (idle_of ?k) C" "C \<subseteq> {..<32}" using I(4,5) by simp_all
  show "d \<in> C" if "bit (k_active_cpus ?k) d" for d using I(6) that by simp
qed

section \<open>Switching\<close>

text \<open>The thread \<open>n\<close>, taken from the queue or idle, becomes the current one of a processor that was given up.\<close>

lemma sinv_switch:
  assumes inv: "sinv C X {cpu} k" and cpu: "cpu \<in> C" and old: "th_state (k_thread k (k_current k cpu)) \<noteq> THREAD_RUNNING"
    and n: "th_state (k_thread k n) = THREAD_READY" "X = {n} \<and> \<not> thread_is_idle (k_thread k n) \<or> X = {} \<and> n = idle_of k cpu"
    and new: "same_view (k_thread k' n) ((k_thread k n)\<lparr>th_state := THREAD_RUNNING, th_curr_cpu := Some cpu\<rparr>)"
    and others: "\<And>s. s \<noteq> n \<Longrightarrow> same_view (k_thread k' s) (k_thread k s) \<or>
      th_state (k_thread k s) \<noteq> THREAD_READY \<and> s = k_current k cpu \<and> same_view (k_thread k' s) ((k_thread k s)\<lparr>th_curr_cpu := None\<rparr>)"
    and cpus: "\<And>c. pc_run_queue (k_cpu k' c) = pc_run_queue (k_cpu k c)"
      "\<And>c. pc_run_queue_bitmap (k_cpu k' c) = pc_run_queue_bitmap (k_cpu k c)" "\<And>c. idle_of k' c = idle_of k c"
    and rest: "k_wq k' = k_wq k" "k_current k' = (k_current k)(cpu := n)" "k_active_cpus k' = k_active_cpus k"
  shows "sinv C {} {} k'"
proof (rule sinvI)
  note I = sinvD [OF inv]
  have flags: "thread_is_idle (k_thread k' s) = thread_is_idle (k_thread k s)" "effec k' s = effec k s"
    "th_blocking_wait_queue (k_thread k' s) = th_blocking_wait_queue (k_thread k s)"
    "prio_ok (k_thread k' s) = prio_ok (k_thread k s)" for s
    using new others [of s] by (cases "s = n"; auto simp: same_view_def thread_is_idle_def prio_ok_def)+
  have st: "th_state (k_thread k' s) = (if s = n then THREAD_RUNNING else th_state (k_thread k s))" for s
    using new others [of s] by (cases "s = n") (auto simp: same_view_def)
  have nn: "\<not> blocked (k_thread k n)" "th_blocking_wait_queue (k_thread k n) = None"
  proof -
    show b: "\<not> blocked (k_thread k n)" using n(1) by (simp add: blocked_def)
    show "th_blocking_wait_queue (k_thread k n) = None" using tinvD(6,7) [OF I(1) [of n]] n(2) b by blast
  qed
  have nq: "n \<notin> set (rq k c p)" for c p
    using tinvD(2) [OF I(1) [of n]] n(2) cinvD(3) [OF I(2) cpu] by (auto simp: on_queue_def idle_ok_def)
  have X: "X \<subseteq> {n}" using n(2) by auto
  show "tinv C {} {} k' s" for s
  proof (cases "s = n")
    case True
    have "n \<in> k_current k' ` (C - {})" using cpu rest(2) by force
    then show ?thesis unfolding True
      using tinvD(1) [OF I(1) [of n]] nq nn tinvD(5) [OF I(1) [of n]]
      by (intro tinvI) (simp_all add: flags st cpus rest on_queue_def blocked_def)
  next
    case False
    note T = tinvD [OF I(1) [of s]]
    have sX: "s \<notin> X" using False X by auto
    have curr: "th_curr_cpu (k_thread k' s) = th_curr_cpu (k_thread k s)" if "th_state (k_thread k s) = THREAD_READY"
      using others [OF False] that by (auto simp: same_view_def)
    have onq: "on_queue (k_thread k' s) c p = on_queue (k_thread k s) c p" for c p
      using False curr by (auto simp: on_queue_def st flags)
    have run: "s \<in> k_current k' ` (C - {})" if "th_state (k_thread k' s) = THREAD_RUNNING"
    proof -
      from T(4) that False obtain c where "c \<in> C - {cpu}" "s = k_current k c" by (auto simp: st)
      then show ?thesis using rest(2) by force
    qed
    show ?thesis
    proof (rule tinvI)
      show "prio_ok (k_thread k' s)" using T(1) by (simp add: flags)
      show "s \<in> set (rq k' c p) \<longleftrightarrow> s \<notin> {} \<and> on_queue (k_thread k' s) c p" for c p using T(2) sX onq by (simp add: cpus)
      show "th_curr_cpu (k_thread k' s) \<in> Some ` C" if "th_state (k_thread k' s) = THREAD_READY" "\<not> thread_is_idle (k_thread k' s)"
        using T(3) [OF sX] that False curr by (simp add: st flags)
      show "s \<in> set (wq k' q) \<longleftrightarrow> th_blocking_wait_queue (k_thread k' s) = Some q" for q using T(5) by (simp add: flags rest)
      show "blocked (k_thread k' s) \<longleftrightarrow> th_blocking_wait_queue (k_thread k' s) \<noteq> None"
        using T(7) [OF sX] False by (simp add: flags st blocked_def)
    qed (use run in simp_all)
  qed
  show "cinv C {} k' c" for c
  proof (rule cinvI)
    show "percpu_ok (k_cpu k' c)" using cinvD(1) [OF I(2) [of c]] by (simp add: percpu_ok_def cpus)
    show "running_on (k_thread k' (k_current k' c)) c" if "c \<in> C - {}"
    proof (cases "c = cpu")
      case True
      with new show ?thesis by (simp add: rest running_on_def same_view_def)
    next
      case False
      then have r: "running_on (k_thread k (k_current k c)) c" using cinvD(2) [OF I(2), of c] that by simp
      then have "k_current k c \<noteq> n" using n(1) by (auto simp: running_on_def)
      moreover have "same_view (k_thread k' (k_current k c)) (k_thread k (k_current k c))"
        using others [OF calculation] r old by (auto simp: running_on_def)
      ultimately show ?thesis using r False by (simp add: rest running_on_def same_view_def)
    qed
    show "idle_ok (k_thread k' (idle_of k' c))" if "c \<in> C"
      using cinvD(3) [OF I(2) that] by (auto simp: cpus idle_ok_def flags st)
    show "k_current k' c = idle_of k' c" if "c \<in> C" "thread_is_idle (k_thread k' (k_current k' c))"
      using cinvD(4) [OF I(2) that(1)] that(2) n(2) by (auto simp: cpus rest flags split: if_splits)
  qed
  show "wq_ok (effec k') (k_wq k' q)" for q unfolding rest by (rule wq_ok_cong [OF I(3)]) (simp add: flags)
  show "inj_on (idle_of k') C" "C \<subseteq> {..<32}" using I(4,5) by (simp_all add: cpus)
  show "c \<in> C" if "bit (k_active_cpus k') c" for c using I(6) that by (simp add: rest)
qed

text \<open>The highest queue that is not empty.\<close>

lemma highest_run_queue_ok:
  assumes "percpu_ok p" "pc_run_queue_bitmap p \<noteq> 0"
  shows "pc_run_queue p (highest_run_queue p) \<noteq> []" "\<And>i. i > highest_run_queue p \<Longrightarrow> pc_run_queue p i = []"
proof -
  have "highest_run_queue p = highest_cpu_set (pc_run_queue_bitmap p)"
    using assms(2) by (simp add: highest_run_queue_def highest_cpu_set_def del: count_leading.simps)
  then show "pc_run_queue p (highest_run_queue p) \<noteq> []" "\<And>i. i > highest_run_queue p \<Longrightarrow> pc_run_queue p i = []"
    using highest_cpu_set_bit [OF assms(2)] assms(1) by (auto simp: percpu_ok_def)
qed

lemma sinv_get_top:
  assumes inv: "sinv C {} {cpu} k" and cpu: "cpu \<in> C" and top: "sched_get_top_thread cpu k = (n, k1)"
  obtains X where "sinv C X {cpu} k1" "th_state (k_thread k1 n) = THREAD_READY"
    "X = {n} \<and> \<not> thread_is_idle (k_thread k1 n) \<or> X = {} \<and> n = idle_of k1 cpu"
    "k_thread k1 = k_thread k" "k_current k1 = k_current k" "n \<in> X \<Longrightarrow> th_curr_cpu (k_thread k n) = Some cpu"
proof (cases "pc_run_queue_bitmap (k_cpu k cpu) = 0")
  case True
  then have n: "n = idle_of k cpu" "k1 = k" using top by (auto simp: sched_get_top_thread_def)
  have idle: "idle_ok (k_thread k n)" using cinvD(3) [OF sinvD(2) [OF inv] cpu] n by simp
  have "th_state (k_thread k n) \<noteq> THREAD_RUNNING"
  proof
    assume "th_state (k_thread k n) = THREAD_RUNNING"
    then obtain c where c: "c \<in> C - {cpu}" "n = k_current k c" using tinvD(4) [OF sinvD(1) [OF inv, of n]] by auto
    then have "n = idle_of k c" using cinvD(4) [OF sinvD(2) [OF inv], of c] idle by (auto simp: idle_ok_def)
    then have "cpu = c" using inj_onD [OF sinvD(4) [OF inv], of cpu c] n cpu c by auto
    with c show False by simp
  qed
  with idle have "th_state (k_thread k n) = THREAD_READY" by (auto simp: idle_ok_def)
  then show thesis using that [of "{}"] inv n by simp
next
  case False
  let ?h = "highest_run_queue (k_cpu k cpu)"
  have n: "n = hd (rq k cpu ?h)" and k1: "k1 = upd_cpu cpu (shrink_queue ?h (tl (rq k cpu ?h))) k"
    using top False by (auto simp: sched_get_top_thread_def Let_def)
  have ne: "rq k cpu ?h \<noteq> []" by (rule highest_run_queue_ok [OF cinvD(1) [OF sinvD(2) [OF inv]] False])
  then have mem: "n \<in> set (rq k cpu ?h)" by (simp add: n)
  have tl: "tl (rq k cpu ?h) = remove1 n (rq k cpu ?h)" using ne n by (cases "rq k cpu ?h") auto
  have q: "on_queue (k_thread k n) cpu ?h" using tinvD(2) [OF sinvD(1) [OF inv]] mem by blast
  show thesis
    using sinv_dequeue [OF inv mem] q by (intro that [of "{n}"]) (simp_all add: k1 tl on_queue_def)
qed

lemma switch_cpu_state_sel [simp]:
  "k_thread (switch_cpu_state cpu now a b k) = k_thread k" "k_wq (switch_cpu_state cpu now a b k) = k_wq k"
  "k_current (switch_cpu_state cpu now a b k) = k_current k" "k_active_cpus (switch_cpu_state cpu now a b k) = k_active_cpus k"
  "pc_run_queue (k_cpu (switch_cpu_state cpu now a b k) c) = pc_run_queue (k_cpu k c)"
  "pc_run_queue_bitmap (k_cpu (switch_cpu_state cpu now a b k) c) = pc_run_queue_bitmap (k_cpu k c)"
  "pc_idle_thread (k_cpu (switch_cpu_state cpu now a b k) c) = pc_idle_thread (k_cpu k c)"
  by (simp_all add: switch_cpu_state_def timer_preempt_reset_def mp_set_cpu_idle_def mp_set_cpu_realtime_def
        mp_set_cpu_non_realtime_def Let_def)

text \<open>The switch leaves the processor to a thread of the highest priority among those ready to run on it.\<close>

definition top_running :: "cpu_num \<Rightarrow> kernel \<Rightarrow> bool" where
  "top_running cpu k \<longleftrightarrow>
     (\<forall>t. th_state (k_thread k t) = THREAD_READY \<and> \<not> thread_is_idle (k_thread k t) \<and> th_curr_cpu (k_thread k t) = Some cpu \<longrightarrow>
        \<not> thread_is_idle (k_thread k (k_current k cpu)) \<and> effec k t \<le> effec k (k_current k cpu))"

lemma sinv_resched:
  assumes inv: "sinv C {} {cpu} k" and cpu: "cpu \<in> C" and old: "th_state (k_thread k (k_current k cpu)) \<noteq> THREAD_RUNNING"
    "thread_is_idle (k_thread k (k_current k cpu)) \<Longrightarrow> th_curr_cpu (k_thread k (k_current k cpu)) = Some cpu"
  shows "sinv C {} {} (sched_resched_internal cpu now k)"
proof -
  let ?old = "k_current k cpu"
  obtain n k1 where top: "sched_get_top_thread cpu k = (n, k1)" by force
  from sinv_get_top [OF inv cpu top] obtain X where X: "sinv C X {cpu} k1" "th_state (k_thread k1 n) = THREAD_READY"
    "X = {n} \<and> \<not> thread_is_idle (k_thread k1 n) \<or> X = {} \<and> n = idle_of k1 cpu"
    and same: "k_thread k1 = k_thread k" "k_current k1 = k_current k" and curr: "n \<in> X \<Longrightarrow> th_curr_cpu (k_thread k n) = Some cpu"
    by blast
  have old1: "th_state (k_thread k1 (k_current k1 cpu)) \<noteq> THREAD_RUNNING" using old(1) same by simp
  show ?thesis
  proof (cases "n = ?old")
    case True
    have "th_curr_cpu (k_thread k n) = Some cpu"
      using X(3) curr old(2) cinvD(3) [OF sinvD(2) [OF X(1)] cpu] True by (auto simp: same idle_ok_def)
    then show ?thesis
      unfolding sched_resched_internal_def top Let_def case_prod_conv using True
      by (simp, intro sinv_switch [OF X(1) cpu old1 X(2,3)]) (simp_all add: same same_view_def)
  next
    case False
    then show ?thesis
      unfolding sched_resched_internal_def top Let_def case_prod_conv
      by (simp, intro sinv_switch [OF X(1) cpu old1 X(2,3)])
         (auto simp: same same_view_def account_new_def account_old_def Let_def)
  qed
qed

lemma resched_threads:
  assumes top: "sched_get_top_thread cpu k = (n, k1)"
  shows "k_current (sched_resched_internal cpu now k) cpu = n"
    "th_state (k_thread (sched_resched_internal cpu now k) n) = THREAD_RUNNING"
    "th_flags (k_thread (sched_resched_internal cpu now k) t) = th_flags (k_thread k t)"
    "effec (sched_resched_internal cpu now k) t = effec k t"
    "t \<noteq> n \<Longrightarrow> th_state (k_thread (sched_resched_internal cpu now k) t) = th_state (k_thread k t)"
    "t \<noteq> n \<Longrightarrow> th_state (k_thread k t) = THREAD_READY \<Longrightarrow>
     th_curr_cpu (k_thread (sched_resched_internal cpu now k) t) = th_curr_cpu (k_thread k t)"
proof -
  have k1: "k_thread k1 = k_thread k" "k_current k1 = k_current k"
    using top by (auto simp: sched_get_top_thread_def Let_def split: if_splits)
  show "k_current (sched_resched_internal cpu now k) cpu = n"
    "th_state (k_thread (sched_resched_internal cpu now k) n) = THREAD_RUNNING"
    "th_flags (k_thread (sched_resched_internal cpu now k) t) = th_flags (k_thread k t)"
    "effec (sched_resched_internal cpu now k) t = effec k t"
    "t \<noteq> n \<Longrightarrow> th_state (k_thread (sched_resched_internal cpu now k) t) = th_state (k_thread k t)"
    "t \<noteq> n \<Longrightarrow> th_state (k_thread k t) = THREAD_READY \<Longrightarrow>
     th_curr_cpu (k_thread (sched_resched_internal cpu now k) t) = th_curr_cpu (k_thread k t)"
    by (auto simp: sched_resched_internal_def top k1 Let_def account_new_def account_old_def)
qed

lemma resched_top:
  assumes inv: "sinv C {} {cpu} k" and cpu: "cpu \<in> C"
  shows "top_running cpu (sched_resched_internal cpu now k)"
proof -
  obtain n k1 where top: "sched_get_top_thread cpu k = (n, k1)" by force
  note R = resched_threads [OF top, where now = now]
  let ?k = "sched_resched_internal cpu now k" and ?h = "highest_run_queue (k_cpu k cpu)"
  have idles: "thread_is_idle (k_thread ?k s) = thread_is_idle (k_thread k s)" for s by (simp add: thread_is_idle_def R(3))
  show ?thesis
    unfolding top_running_def
  proof (intro allI impI, elim conjE)
    fix t assume t: "th_state (k_thread ?k t) = THREAD_READY" "\<not> thread_is_idle (k_thread ?k t)" "th_curr_cpu (k_thread ?k t) = Some cpu"
    then have tn: "t \<noteq> n" using R(2) by auto
    let ?p = "nat (effec k t)"
    have p: "effec k t = int ?p" using effec_nat [OF tinvD(1) [OF sinvD(1) [OF inv, of t]]] by simp
    have "on_queue (k_thread k t) cpu ?p"
      using t R(5,6) [OF tn] p idles [of t] by (auto simp: on_queue_def)
    then have mem: "t \<in> set (rq k cpu ?p)" using tinvD(2) [OF sinvD(1) [OF inv]] by blast
    have ok: "percpu_ok (k_cpu k cpu)" by (rule cinvD(1) [OF sinvD(2) [OF inv]])
    then have "bit (pc_run_queue_bitmap (k_cpu k cpu)) ?p" using mem by (auto simp: percpu_ok_def)
    then have bm: "pc_run_queue_bitmap (k_cpu k cpu) \<noteq> 0" by auto
    note H = highest_run_queue_ok [OF ok bm]
    have "?p \<le> ?h" using H(2) [of ?p] mem by (cases "?p \<le> ?h") auto
    moreover have "n \<in> set (rq k cpu ?h)" using top bm H(1) by (auto simp: sched_get_top_thread_def Let_def)
    then have "on_queue (k_thread k n) cpu ?h" using tinvD(2) [OF sinvD(1) [OF inv]] by blast
    ultimately show "\<not> thread_is_idle (k_thread ?k (k_current ?k cpu)) \<and> effec ?k t \<le> effec ?k (k_current ?k cpu)"
      using p by (simp add: R(1,4) idles on_queue_def)
  qed
qed

section \<open>Priorities\<close>

lemma compute_effec_eq:
  "compute_effec_priority t k =
     upd_thread t (\<lambda>th. th\<lparr>th_effec_priority := max (th_base_priority th + th_priority_boost th) (th_inherited_priority th)\<rparr>) k"
  by (auto simp: compute_effec_priority_def upd_thread_def Let_def max_def intro!: kernel.equality)

lemma upd_thread_twice: "upd_thread t g (upd_thread t f k) = upd_thread t (g \<circ> f) k"
  by (simp add: upd_thread_def)

text \<open>Changing the boost of a thread that is not on a wait queue.\<close>

definition set_boost :: "int \<Rightarrow> thread \<Rightarrow> thread" where
  "set_boost b th = th\<lparr>th_priority_boost := b, th_effec_priority := max (th_base_priority th + b) (th_inherited_priority th)\<rparr>"

lemma set_boost_sel [simp]:
  "th_state (set_boost b th) = th_state th" "th_flags (set_boost b th) = th_flags th"
  "th_blocking_wait_queue (set_boost b th) = th_blocking_wait_queue th" "th_curr_cpu (set_boost b th) = th_curr_cpu th"
  "thread_is_idle (set_boost b th) = thread_is_idle th"
  by (simp_all add: set_boost_def thread_is_idle_def)

definition boost_of :: "thread \<Rightarrow> int" where
  "boost_of th =
     (if \<not> thread_cannot_boost th \<and> th_priority_boost th < 4 \<and> th_base_priority th + th_priority_boost th < 31
      then th_priority_boost th + 1 else th_priority_boost th)"

definition deboost_of :: "bool \<Rightarrow> thread \<Rightarrow> int" where
  "deboost_of quantum th =
     (if \<not> thread_cannot_boost th \<and> boost_floor quantum (th_base_priority th) < th_priority_boost th
      then th_priority_boost th - 1 else th_priority_boost th)"

lemma set_boost_same: "prio_ok th \<Longrightarrow> set_boost (th_priority_boost th) th = th"
  by (simp add: set_boost_def prio_ok_def)

lemma post_boost_eq:
  assumes "th_blocking_wait_queue (k_thread k t) = None"
  shows "post_boost_bookkeeping t (upd_thread t (\<lambda>th. th\<lparr>th_priority_boost := b\<rparr>) k) = upd_thread t (set_boost b) k"
proof -
  have "compute_effec_priority t (upd_thread t (\<lambda>th. th\<lparr>th_priority_boost := b\<rparr>) k) = upd_thread t (set_boost b) k"
    by (simp add: compute_effec_eq upd_thread_def set_boost_def)
  with assms show ?thesis by (simp add: post_boost_bookkeeping_def Let_def)
qed

lemma upd_thread_const: "upd_thread t f k = upd_thread t (\<lambda>_. f (k_thread k t)) k"
  by (simp add: upd_thread_def)

lemma upd_thread_id: "f (k_thread k t) = k_thread k t \<Longrightarrow> upd_thread t f k = k"
  by (simp add: upd_thread_def)

lemma boost_thread_eq:
  assumes "th_blocking_wait_queue (k_thread k t) = None" "prio_ok (k_thread k t)"
  shows "boost_thread t k = upd_thread t (set_boost (boost_of (k_thread k t))) k"
proof (cases "\<not> thread_cannot_boost (k_thread k t) \<and> th_priority_boost (k_thread k t) < 4 \<and>
    th_base_priority (k_thread k t) + th_priority_boost (k_thread k t) < 31")
  case True
  have "upd_thread t (\<lambda>th. th\<lparr>th_priority_boost := th_priority_boost th + 1\<rparr>) k =
      upd_thread t (\<lambda>th. th\<lparr>th_priority_boost := th_priority_boost (k_thread k t) + 1\<rparr>) k"
    by (simp add: upd_thread_def)
  with True post_boost_eq [OF assms(1)] show ?thesis by (simp add: boost_thread_def boost_of_def)
next
  case False
  then have "boost_thread t k = k" "boost_of (k_thread k t) = th_priority_boost (k_thread k t)"
    by (auto simp: boost_thread_def boost_of_def Let_def)
  then show ?thesis using assms(2) by (simp add: upd_thread_id set_boost_same)
qed

lemma deboost_thread_eq:
  assumes "th_blocking_wait_queue (k_thread k t) = None" "prio_ok (k_thread k t)"
  shows "deboost_thread t quantum k = upd_thread t (set_boost (deboost_of quantum (k_thread k t))) k"
proof (cases "\<not> thread_cannot_boost (k_thread k t) \<and>
    boost_floor quantum (th_base_priority (k_thread k t)) < th_priority_boost (k_thread k t)")
  case True
  have "upd_thread t (\<lambda>th. th\<lparr>th_priority_boost := th_priority_boost th - 1\<rparr>) k =
      upd_thread t (\<lambda>th. th\<lparr>th_priority_boost := th_priority_boost (k_thread k t) - 1\<rparr>) k"
    by (simp add: upd_thread_def)
  with True post_boost_eq [OF assms(1)] show ?thesis by (simp add: deboost_thread_def deboost_of_def)
next
  case False
  then have "deboost_thread t quantum k = k" "deboost_of quantum (k_thread k t) = th_priority_boost (k_thread k t)"
    by (auto simp: deboost_thread_def deboost_of_def Let_def)
  then show ?thesis using assms(2) by (simp add: upd_thread_id set_boost_same)
qed

lemma prio_ok_boost: "prio_ok th \<Longrightarrow> prio_ok (set_boost (boost_of th) th)"
  by (auto simp: prio_ok_def set_boost_def boost_of_def)

lemma prio_ok_deboost: "prio_ok th \<Longrightarrow> prio_ok (set_boost (deboost_of quantum th) th)"
  by (auto simp: prio_ok_def set_boost_def deboost_of_def boost_floor_def split: if_splits)

section \<open>Choosing a processor\<close>

lemma rand_loop_up:
  assumes "bit m h" "rot < h" "h - rot \<le> fuel"
  shows "\<exists>r. rand_loop fuel h m rot = Some r \<and> bit m r"
  using assms
proof (induction fuel arbitrary: rot)
  case (Suc fuel)
  show ?case
  proof (cases "bit m (rot + 1)")
    case True
    with Suc.prems show ?thesis by simp
  next
    case False
    with Suc.prems have "rot + 1 < h" by (metis Suc_eq_plus1 Suc_lessI)
    with Suc.IH [of "rot + 1"] Suc.prems False show ?thesis by simp
  qed
qed simp

text \<open>The bound on the rounds of the loop is enough.\<close>

lemma rand_loop_returns:
  assumes "bit m h" "h + 1 < fuel"
  shows "\<exists>r. rand_loop fuel h m rot = Some r \<and> bit m r"
proof (cases "rot < h")
  case True
  with rand_loop_up [OF assms(1) True, of fuel] assms(2) show ?thesis by simp
next
  case False
  obtain f where f: "fuel = Suc f" using assms(2) by (cases fuel) auto
  show ?thesis
  proof (cases "bit m 0")
    case True
    with False f show ?thesis by simp
  next
    case z: False
    then have "0 < h" using assms(1) by (cases h) auto
    with rand_loop_up [OF assms(1) this, of f] assms(2) f False z show ?thesis by simp
  qed
qed

lemma rand_cpu_ok:
  assumes "m AND k_active_cpus k \<noteq> 0"
  obtains r where "rand_cpu m k = (push_bit r 1, k\<lparr>k_rot := r\<rparr>)" "bit m r" "bit (k_active_cpus k) r"
proof -
  let ?m = "m AND k_active_cpus k"
  note H = highest_cpu_set_bit [OF assms]
  from rand_loop_returns [of ?m "highest_cpu_set ?m" 33 "k_rot k"] H
  obtain r where r: "rand_loop 33 (highest_cpu_set ?m) ?m (k_rot k) = Some r" "bit ?m r" by auto
  show thesis
    by (rule that [of r]) (use assms r in \<open>simp_all add: rand_cpu_def bit_simps del: rand_loop.simps push_bit_of_1\<close>)
qed

lemma rand_cpu_none: "m AND k_active_cpus k = 0 \<Longrightarrow> rand_cpu m k = (0, k)"
  by (simp add: rand_cpu_def)

lemma lowest_push: "r < 32 \<Longrightarrow> lowest_cpu_set (push_bit r 1) = r"
proof -
  assume r: "r < 32"
  then have "bit (push_bit r (1 :: u32)) i \<longleftrightarrow> i = r" for i by (auto simp: bit_simps)
  moreover from this have "push_bit r (1 :: u32) \<noteq> 0" by (metis bit_0_eq bot_apply bot_bool_def)
  ultimately show ?thesis using lowest_cpu_set_bit by blast
qed

lemma mask_meets: "cpu_num_to_mask c AND m \<noteq> 0 \<Longrightarrow> \<exists>n < 32. c = Some n \<and> bit m n"
  by (auto simp: u32_nonzero_bit bit_simps bit_cpu_num_to_mask)

lemma mask_push: "n < 32 \<Longrightarrow> cpu_num_to_mask (Some n) = push_bit n 1"
  by (simp add: cpu_num_to_mask_def)

lemma find_cpu_mask_ok:
  assumes cpu: "cpu \<in> C" and C: "C \<subseteq> {..<32}" "\<And>c. bit (k_active_cpus k) c \<Longrightarrow> c \<in> C"
    and f: "find_cpu_mask cpu t k = (m, k1)"
  shows "lowest_cpu_set m \<in> C" "\<exists>r. k1 = k \<or> k1 = k\<lparr>k_rot := r\<rparr>"
proof -
  have c32: "cpu < 32" using cpu C by auto
  have here: "lowest_cpu_set (cpu_num_to_mask (Some cpu)) \<in> C" using cpu c32 by (simp only: mask_push lowest_push)
  have lst: "lowest_cpu_set (cpu_num_to_mask l) \<in> C"
    if "cpu_num_to_mask l AND a \<noteq> 0" "\<And>n. bit a n \<Longrightarrow> bit (k_active_cpus k) n" for l a
  proof -
    from mask_meets [OF that(1)] obtain n where "n < 32" "l = Some n" "bit a n" by blast
    then show ?thesis using C(2) that(2) by (simp only: mask_push lowest_push)
  qed
  have rnd: "(fst (rand_cpu a k) = 0 \<or> lowest_cpu_set (fst (rand_cpu a k)) \<in> C) \<and> (\<exists>r. snd (rand_cpu a k) = k \<or> snd (rand_cpu a k) = k\<lparr>k_rot := r\<rparr>)" for a
  proof (cases "a AND k_active_cpus k = 0")
    case True
    then show ?thesis by (simp add: rand_cpu_none)
  next
    case False
    then obtain r where r: "rand_cpu a k = (push_bit r 1, k\<lparr>k_rot := r\<rparr>)" "bit (k_active_cpus k) r" by (rule rand_cpu_ok)
    then have "r \<in> C" "r < 32" using C by auto
    then show ?thesis unfolding r fst_conv snd_conv by (auto simp only: lowest_push)
  qed
  have cand: "fst (rand_cpu a k) \<noteq> 0" if "a AND k_active_cpus k \<noteq> 0" for a
  proof -
    from that obtain r where r: "rand_cpu a k = (push_bit r 1, k\<lparr>k_rot := r\<rparr>)" "bit (k_active_cpus k) r" by (rule rand_cpu_ok)
    then have "r < 32" using C by auto
    then have "bit (push_bit r (1 :: u32)) r" by (simp add: bit_simps del: push_bit_of_1)
    then show ?thesis unfolding r fst_conv by (metis bit_0_eq bot_apply bot_bool_def)
  qed
  let ?curr = "cpu_num_to_mask (Some cpu)" and ?prev = "cpu_num_to_mask (th_last_cpu (k_thread k t))"
    and ?aff = "th_cpu_affinity (k_thread k t)" and ?act = "k_active_cpus k"
  let ?cand = "k_idle_cpus k AND (?aff AND ?act)"
  have act: "?cand AND ?act = ?cand" by (simp add: and.assoc)
  have "lowest_cpu_set m \<in> C \<and> (\<exists>r. k1 = k \<or> k1 = k\<lparr>k_rot := r\<rparr>)"
  proof (cases "?cand = 0")
    case False
    consider "?cand AND ?curr \<noteq> 0" | "?cand AND ?curr = 0" "?prev AND ?cand \<noteq> 0" | "?cand AND ?curr = 0" "?prev AND ?cand = 0"
      by blast
    then show ?thesis
    proof cases
      case 1
      with False f here show ?thesis by (auto simp: find_cpu_mask_def)
    next
      case 2
      with False f have "m = ?prev" "k1 = k" by (auto simp: find_cpu_mask_def)
      with lst [OF 2(2)] show ?thesis by (simp add: bit_simps)
    next
      case 3
      with False f have "(m, k1) = rand_cpu ?cand k" by (auto simp: find_cpu_mask_def)
      with rnd [of ?cand] cand [of ?cand] False show ?thesis unfolding act by (auto simp: prod_eq_iff)
    qed
  next
    case True
    consider "?prev AND ?aff AND ?act \<noteq> 0 \<and> ?prev \<noteq> ?curr" | "\<not> (?prev AND ?aff AND ?act \<noteq> 0 \<and> ?prev \<noteq> ?curr)" by blast
    then show ?thesis
    proof cases
      case 1
      with True f have "m = ?prev" "k1 = k" by (auto simp: find_cpu_mask_def)
      with 1 lst [of "th_last_cpu (k_thread k t)" "?aff AND ?act"] show ?thesis by (simp add: and.assoc bit_simps)
    next
      case 2
      let ?m = "?aff AND NOT ?curr"
      have "(m, k1) = (if ?m = 0 then (?curr, k) else let (m, k1) = rand_cpu ?m k in if m = 0 then (?curr, k1) else (m, k1))"
        using f unfolding find_cpu_mask_def Let_def by (simp only: True 2 simp_thms if_False)
      with rnd [of ?m] here show ?thesis by (auto simp: prod_eq_iff Let_def case_prod_unfold split: if_splits)
    qed
  qed
  then show "lowest_cpu_set m \<in> C" "\<exists>r. k1 = k \<or> k1 = k\<lparr>k_rot := r\<rparr>" by blast+
qed

end
