(* ===== verification/Zx_Sched_Ops.thy ===== *)
theory Zx_Sched_Ops
  imports Zx_Sched_Inv
begin

unbundle bit_operations_syntax

text \<open>
  The operations of the scheduler preserve its invariant, and an operation that reschedules leaves the processor
  to a thread of the highest priority.
\<close>

section \<open>Threads in transit\<close>

lemma running_current:
  assumes "sinv C X D k" "c \<in> C - D"
  shows "th_state (k_thread k (k_current k c)) = THREAD_RUNNING" "th_curr_cpu (k_thread k (k_current k c)) = Some c"
  using cinvD(2) [OF sinvD(2) [OF assms(1)] assms(2)] by (simp_all add: running_on_def)

lemma not_idle_of:
  assumes "sinv C X D k" "\<not> thread_is_idle (k_thread k t)" "c \<in> C"
  shows "t \<noteq> idle_of k c"
  using cinvD(3) [OF sinvD(2) [OF assms(1)] assms(3)] assms(2) by (auto simp: idle_ok_def)

lemma running_free:
  assumes "sinv C X D k" "th_state (k_thread k t) = THREAD_RUNNING"
  shows "th_blocking_wait_queue (k_thread k t) = None"
  using tinvD(6,7) [OF sinvD(1) [OF assms(1), of t]] assms(2) by (cases "t \<in> X") (auto simp: blocked_def)

text \<open>The current thread leaves its processor.\<close>

lemma sinv_leave:
  assumes inv: "sinv C {} {} k" and cpu: "cpu \<in> C" and t: "t = k_current k cpu" "\<not> thread_is_idle (k_thread k t)"
    and f: "prio_ok (f (k_thread k t))" "th_state (f (k_thread k t)) \<noteq> THREAD_RUNNING"
      "thread_is_idle (f (k_thread k t)) = thread_is_idle (k_thread k t)" "th_blocking_wait_queue (f (k_thread k t)) = None"
  shows "sinv C {t} {cpu} (upd_thread t f k)"
proof -
  have run: "th_state (k_thread k t) = THREAD_RUNNING" using running_current [OF inv, of cpu] cpu t by simp
  have other: "k_current k c \<noteq> t" if "c \<in> C - {cpu}" for c using current_inj [OF inv, of c cpu] that cpu t by auto
  show ?thesis
    by (rule sinv_transit [OF inv, where D' = "{cpu}"])
       (use run running_free [OF inv run] other t f not_idle_of [OF inv t(2)] in simp_all)
qed

lemma sinv_stay:
  assumes inv: "sinv C X D k" and t: "t \<in> X" "\<not> thread_is_idle (k_thread k t)" "th_state (k_thread k t) \<noteq> THREAD_RUNNING"
    and f: "prio_ok (f (k_thread k t))" "th_state (f (k_thread k t)) \<noteq> THREAD_RUNNING"
      "thread_is_idle (f (k_thread k t)) = thread_is_idle (k_thread k t)" "th_blocking_wait_queue (f (k_thread k t)) = None"
  shows "sinv C X D (upd_thread t f k)"
proof -
  have "k_current k c \<noteq> t" if "c \<in> C - D" for c using running_current [OF inv that] t(3) by auto
  then have "sinv C (insert t X) D (upd_thread t f k)"
    by (intro sinv_transit [OF inv, where D' = D])
       (use t f not_idle_of [OF inv t(2)] tinvD(6) [OF sinvD(1) [OF inv, of t] t(1)] in simp_all)
  then show ?thesis using t(1) by (simp add: insert_absorb)
qed

section \<open>Making threads runnable\<close>

text \<open>What an insertion keeps.\<close>

definition keeps :: "kernel \<Rightarrow> kernel \<Rightarrow> bool" where
  "keeps k k' \<longleftrightarrow> k_current k' = k_current k \<and>
     (\<forall>s. th_state (k_thread k' s) = th_state (k_thread k s) \<and> th_flags (k_thread k' s) = th_flags (k_thread k s))"

lemma keeps_idle: "keeps k k' \<Longrightarrow> thread_is_idle (k_thread k' s) = thread_is_idle (k_thread k s)"
  by (simp add: keeps_def thread_is_idle_def)

lemma insert_sel [simp]:
  "k_thread (insert_in_run_queue_head c t k) = k_thread k" "k_current (insert_in_run_queue_head c t k) = k_current k"
  "k_thread (insert_in_run_queue_tail c t k) = k_thread k" "k_current (insert_in_run_queue_tail c t k) = k_current k"
  by (simp_all add: insert_in_run_queue_head_def insert_in_run_queue_tail_def mp_set_cpu_busy_def Let_def)

lemma ipis_sel [simp]: "k_thread (send_ipis c m k) = k_thread k" "k_current (send_ipis c m k) = k_current k"
  by (simp_all add: send_ipis_def mp_reschedule_def Let_def)

lemma find_insert_ok:
  assumes inv: "sinv C X D k" and cpu: "cpu \<in> C" and t: "t \<in> X" "th_state (k_thread k t) = THREAD_READY" "\<not> thread_is_idle (k_thread k t)"
    and f: "find_cpu_and_insert cpu t (lr, acc, k) = (lr', acc', k')"
  shows "sinv C (X - {t}) D k'" "keeps k k'"
proof -
  obtain m k1 where m: "find_cpu_mask cpu t k = (m, k1)" by force
  note M = find_cpu_mask_ok [OF cpu sinvD(5) [OF inv] sinvD(6) [OF inv] m]
  let ?n = "lowest_cpu_set m"
  let ?k2 = "upd_thread t (\<lambda>th. th\<lparr>th_curr_cpu := Some ?n\<rparr>) k1"
  have k1: "sinv C X D k1" "k_thread k1 = k_thread k" "k_current k1 = k_current k" using M(2) inv sinv_masks(7) by auto
  have k2: "sinv C X D ?k2"
    by (rule sinv_stay [OF k1(1) t(1)])
       (use t k1 tinvD(1,6) [OF sinvD(1) [OF k1(1), of t]] in \<open>simp_all add: prio_ok_def thread_is_idle_def\<close>)
  have "k' = insert_in_run_queue_head ?n t ?k2 \<or> k' = insert_in_run_queue_tail ?n t ?k2"
    using f by (auto simp: find_cpu_and_insert_def m Let_def split: if_splits)
  moreover have "sinv C (X - {t}) D (insert_in_run_queue_head ?n t ?k2)" "sinv C (X - {t}) D (insert_in_run_queue_tail ?n t ?k2)"
    using sinv_insert [OF k2 t(1)] t k1(2) M(1) by (simp_all add: thread_is_idle_def)
  ultimately show "sinv C (X - {t}) D k'" "keeps k k'" using k1 by (auto simp: keeps_def)
qed

text \<open>A thread that was blocked, in transit, is boosted and put on a run queue.\<close>

lemma unblock_one:
  assumes inv: "sinv C X D k" and cpu: "cpu \<in> C" and t: "t \<in> X" "th_state (k_thread k t) \<noteq> THREAD_RUNNING" "\<not> thread_is_idle (k_thread k t)"
    and f: "find_cpu_and_insert cpu t (lr, acc, make_ready t (boost_thread t k)) = (lr', acc', k')"
  shows "sinv C (X - {t}) D k'" "keeps (make_ready t k) k'"
proof -
  note T = tinvD [OF sinvD(1) [OF inv, of t]]
  have eq: "make_ready t (boost_thread t k) =
      upd_thread t (\<lambda>th. (set_boost (boost_of (k_thread k t)) th)\<lparr>th_state := THREAD_READY\<rparr>) k"
    using boost_thread_eq [OF T(6) [OF t(1)] T(1)] by (simp add: make_ready_def upd_thread_def)
  have "prio_ok ((set_boost (boost_of (k_thread k t)) (k_thread k t))\<lparr>th_state := THREAD_READY\<rparr>)"
    using prio_ok_boost [OF T(1)] by (simp add: prio_ok_def)
  then have "sinv C X D (make_ready t (boost_thread t k))"
    unfolding eq by (intro sinv_stay [OF inv t(1,3,2)]) (use T(6) [OF t(1)] in \<open>simp_all add: thread_is_idle_def\<close>)
  note F = find_insert_ok [OF this cpu t(1) _ _ f]
  have st: "th_state (k_thread (make_ready t (boost_thread t k)) t) = THREAD_READY"
    "\<not> thread_is_idle (k_thread (make_ready t (boost_thread t k)) t)"
    unfolding eq using t(3) by (simp_all add: thread_is_idle_def)
  show "sinv C (X - {t}) D k'" by (rule F(1) [OF st])
  show "keeps (make_ready t k) k'" using F(2) [OF st] unfolding eq by (auto simp: keeps_def make_ready_def)
qed

lemma sched_unblock_ok:
  assumes inv: "sinv C X D k" and cpu: "cpu \<in> C" and t: "t \<in> X" "th_state (k_thread k t) \<noteq> THREAD_RUNNING" "\<not> thread_is_idle (k_thread k t)"
    and u: "sched_unblock cpu t k = (lr, k')"
  shows "sinv C (X - {t}) D k'" "keeps (make_ready t k) k'"
proof -
  obtain lr1 m k1 where f: "find_cpu_and_insert cpu t (False, 0, make_ready t (boost_thread t k)) = (lr1, m, k1)"
    by (rule prod_cases3)
  have k': "k' = send_ipis cpu m k1" using u f by (simp add: sched_unblock_def)
  note U = unblock_one [OF inv cpu t f]
  show "sinv C (X - {t}) D k'" unfolding k' by (rule sinv_masks(6) [OF U(1)])
  show "keeps (make_ready t k) k'" using U(2) by (simp add: k' keeps_def)
qed

lemma unblock_fold_ok:
  assumes "sinv C X D k" "cpu \<in> C" "distinct ts" "set ts \<subseteq> X"
    "\<forall>t \<in> set ts. th_state (k_thread k t) \<noteq> THREAD_RUNNING \<and> \<not> thread_is_idle (k_thread k t)"
    "fold (\<lambda>t (lr, acc, k). find_cpu_and_insert cpu t (lr, acc, make_ready t (boost_thread t k))) ts (lr, acc, k) = (lr', acc', k')"
  shows "sinv C (X - set ts) D k' \<and> k_current k' = k_current k \<and>
    (\<forall>s. th_state (k_thread k' s) = (if s \<in> set ts then THREAD_READY else th_state (k_thread k s)) \<and>
         th_flags (k_thread k' s) = th_flags (k_thread k s))"
  using assms
proof (induction ts arbitrary: X k lr acc)
  case (Cons t ts)
  obtain lr1 m k1 where f: "find_cpu_and_insert cpu t (lr, acc, make_ready t (boost_thread t k)) = (lr1, m, k1)"
    by (rule prod_cases3)
  have t: "t \<in> X" "th_state (k_thread k t) \<noteq> THREAD_RUNNING" "\<not> thread_is_idle (k_thread k t)" using Cons.prems by auto
  note U = unblock_one [OF Cons.prems(1,2) t f]
  have keep: "k_current k1 = k_current k" "th_flags (k_thread k1 s) = th_flags (k_thread k s)"
    "th_state (k_thread k1 s) = (if s = t then THREAD_READY else th_state (k_thread k s))" for s
    using U(2) by (simp_all add: keeps_def make_ready_def)
  have "sinv C (X - {t} - set ts) D k' \<and> k_current k' = k_current k1 \<and>
    (\<forall>s. th_state (k_thread k' s) = (if s \<in> set ts then THREAD_READY else th_state (k_thread k1 s)) \<and>
         th_flags (k_thread k' s) = th_flags (k_thread k1 s))"
    by (rule Cons.IH [OF U(1)]) (use Cons.prems f keep in \<open>auto simp: thread_is_idle_def\<close>)
  moreover have "X - {t} - set ts = X - set (t # ts)" by auto
  ultimately show ?case by (auto simp: keep)
qed simp

lemma sched_unblock_list_ok:
  assumes "sinv C X D k" "cpu \<in> C" "distinct ts" "set ts \<subseteq> X"
    "\<forall>t \<in> set ts. th_state (k_thread k t) \<noteq> THREAD_RUNNING \<and> \<not> thread_is_idle (k_thread k t)"
    "sched_unblock_list cpu ts k = (lr, k')"
  shows "sinv C (X - set ts) D k' \<and> k_current k' = k_current k \<and>
    (\<forall>s. th_state (k_thread k' s) = (if s \<in> set ts then THREAD_READY else th_state (k_thread k s)) \<and>
         th_flags (k_thread k' s) = th_flags (k_thread k s))"
proof -
  obtain lr1 m k1 where f: "fold (\<lambda>t (lr, acc, k). find_cpu_and_insert cpu t (lr, acc, make_ready t (boost_thread t k)))
      (rev ts) (False, 0, k) = (lr1, m, k1)" by (rule prod_cases3)
  have k': "k' = send_ipis cpu m k1" using assms(6) unfolding sched_unblock_list_def f by simp
  have "sinv C (X - set (rev ts)) D k1 \<and> k_current k1 = k_current k \<and>
    (\<forall>s. th_state (k_thread k1 s) = (if s \<in> set (rev ts) then THREAD_READY else th_state (k_thread k s)) \<and>
         th_flags (k_thread k1 s) = th_flags (k_thread k s))"
    by (rule unblock_fold_ok [OF assms(1,2) _ _ _ f]) (use assms(3-5) in simp_all)
  then show ?thesis unfolding k' by (simp add: sinv_masks(6))
qed

section \<open>Giving up the processor\<close>

lemma sinv_ready_stay:
  assumes inv: "sinv C X D k" and t: "t \<in> X" "th_state (k_thread k t) \<noteq> THREAD_RUNNING" "\<not> thread_is_idle (k_thread k t)"
  shows "sinv C X D (make_ready t k)"
  unfolding make_ready_def
  by (rule sinv_stay [OF inv t(1,3,2)])
     (use tinvD(1,6) [OF sinvD(1) [OF inv, of t]] t(1) in \<open>simp_all add: prio_ok_def thread_is_idle_def\<close>)

lemma migrate_ok:
  assumes inv: "sinv C {t} {cpu} (make_ready t k)" and cpu: "cpu \<in> C" and t: "t = k_current k cpu" "\<not> thread_is_idle (k_thread k t)"
  shows "sinv C {} {} (migrate_current_thread cpu now t k) \<and> top_running cpu (migrate_current_thread cpu now t k)"
proof -
  obtain lr m k1 where f: "find_cpu_and_insert cpu t (False, 0, make_ready t k) = (lr, m, k1)" by (rule prod_cases3)
  have r: "th_state (k_thread (make_ready t k) t) = THREAD_READY" "\<not> thread_is_idle (k_thread (make_ready t k) t)"
    using t(2) by (simp_all add: make_ready_def thread_is_idle_def)
  note F = find_insert_ok [OF inv cpu _ r f]
  have k1: "sinv C {} {cpu} (send_ipis cpu m k1)" using sinv_masks(6) [OF F(1)] by simp
  have keep: "k_current k1 = k_current k" "th_state (k_thread k1 t) = THREAD_READY" "\<not> thread_is_idle (k_thread k1 t)"
    using F(2) r by (simp_all add: keeps_def make_ready_def thread_is_idle_def)
  have "migrate_current_thread cpu now t k = sched_resched_internal cpu now (send_ipis cpu m k1)"
    by (simp add: migrate_current_thread_def f)
  with sinv_resched [OF k1 cpu] resched_top [OF k1 cpu] keep t(1) show ?thesis by simp
qed

lemma requeue_ok:
  assumes inv: "sinv C {t} {cpu} k" and cpu: "cpu \<in> C"
    and t: "t = k_current k cpu" "th_state (k_thread k t) = THREAD_READY" "\<not> thread_is_idle (k_thread k t)" "th_curr_cpu (k_thread k t) = Some cpu"
    and ins: "k' = insert_in_run_queue_head cpu t k \<or> k' = insert_in_run_queue_tail cpu t k"
  shows "sinv C {} {} (sched_resched_internal cpu now k') \<and> top_running cpu (sched_resched_internal cpu now k')"
proof -
  have "sinv C ({t} - {t}) {cpu} k'" using sinv_insert [OF inv _ t(2-4) cpu] ins by auto
  then have k': "sinv C {} {cpu} k'" by simp
  have "th_state (k_thread k' (k_current k' cpu)) = THREAD_READY" "\<not> thread_is_idle (k_thread k' (k_current k' cpu))"
    using ins t by auto
  with sinv_resched [OF k' cpu] resched_top [OF k' cpu] show ?thesis by simp
qed

lemma local_migrate_ok:
  assumes inv: "sinv C {t} {cpu} k" and cpu: "cpu \<in> C"
    and t: "t = k_current k cpu" "th_state (k_thread k t) = THREAD_READY" "\<not> thread_is_idle (k_thread k t)"
    and l: "local_migrate_if_needed cpu now t k = (b, k')"
  shows "if b then sinv C {} {} k' \<and> top_running cpu k' else k' = k"
proof -
  have "sinv C {t} {cpu} (make_ready t k)" by (rule sinv_ready_stay [OF inv]) (use t in simp_all)
  from migrate_ok [OF this cpu t(1,3)] l show ?thesis
    by (auto simp: local_migrate_if_needed_def Let_def split: if_splits)
qed

lemma requeue_current_ok:
  assumes inv: "sinv C {t} {cpu} k" and cpu: "cpu \<in> C"
    and t: "t = k_current k cpu" "th_state (k_thread k t) = THREAD_READY" "\<not> thread_is_idle (k_thread k t)" "th_curr_cpu (k_thread k t) = Some cpu"
  shows "sinv C {} {} (requeue_current cpu now t k) \<and> top_running cpu (requeue_current cpu now t k)"
proof -
  obtain b k1 where l: "local_migrate_if_needed cpu now t k = (b, k1)" by force
  from local_migrate_ok [OF inv cpu t(1-3) l] requeue_ok [OF inv cpu t] show ?thesis
    by (cases b) (simp_all add: requeue_current_def l)
qed

text \<open>The current thread becomes ready with a new boost.\<close>

lemma leave_ready:
  assumes inv: "sinv C {} {} k" and cpu: "cpu \<in> C" and t: "t = k_current k cpu" "\<not> thread_is_idle (k_thread k t)"
    and f: "prio_ok (f (k_thread k t))" "th_state (f (k_thread k t)) = THREAD_READY" "th_flags (f (k_thread k t)) = th_flags (k_thread k t)"
      "th_blocking_wait_queue (f (k_thread k t)) = None" "th_curr_cpu (f (k_thread k t)) = th_curr_cpu (k_thread k t)"
    and k': "k' = upd_thread t f k"
  shows "sinv C {t} {cpu} k'" "t = k_current k' cpu" "th_state (k_thread k' t) = THREAD_READY"
    "\<not> thread_is_idle (k_thread k' t)" "th_curr_cpu (k_thread k' t) = Some cpu"
proof -
  have idle: "thread_is_idle (f (k_thread k t)) = thread_is_idle (k_thread k t)" using f(3) by (simp add: thread_is_idle_def)
  show "sinv C {t} {cpu} k'" unfolding k' by (rule sinv_leave [OF inv cpu t]) (use f idle in simp_all)
  show "t = k_current k' cpu" "th_state (k_thread k' t) = THREAD_READY" "\<not> thread_is_idle (k_thread k' t)"
    "th_curr_cpu (k_thread k' t) = Some cpu"
    using t f idle running_current(2) [OF inv, of cpu] cpu by (simp_all add: k')
qed

lemma current_free:
  assumes inv: "sinv C {} {} k" and cpu: "cpu \<in> C"
  shows "th_blocking_wait_queue (k_thread k (k_current k cpu)) = None" "prio_ok (k_thread k (k_current k cpu))"
  using running_free [OF inv running_current(1) [OF inv]] cpu tinvD(1) [OF sinvD(1) [OF inv]] by simp_all

lemma sched_yield_ok:
  assumes inv: "sinv C {} {} k" and cpu: "cpu \<in> C" and idle: "\<not> thread_is_idle (k_thread k (k_current k cpu))"
  shows "sinv C {} {} (sched_yield cpu now k) \<and> top_running cpu (sched_yield cpu now k)"
proof -
  define t where "t = k_current k cpu"
  note free = current_free [OF inv cpu, folded t_def]
  let ?k0 = "upd_thread t (\<lambda>th. th\<lparr>th_remaining_time_slice := 0\<rparr>) k"
  define k1 where "k1 = make_ready t (deboost_thread t False ?k0)"
  have p0: "prio_ok (k_thread ?k0 t)" using free(2) by (simp add: prio_ok_def)
  define b where "b = deboost_of False (k_thread ?k0 t)"
  have k1: "k1 = upd_thread t (\<lambda>th. (set_boost b (th\<lparr>th_remaining_time_slice := 0\<rparr>))\<lparr>th_state := THREAD_READY\<rparr>) k"
    using deboost_thread_eq [of ?k0 t False] free p0 by (simp add: k1_def b_def make_ready_def upd_thread_def)
  have p1: "prio_ok ((set_boost b ((k_thread k t)\<lparr>th_remaining_time_slice := 0\<rparr>))\<lparr>th_state := THREAD_READY\<rparr>)"
    using prio_ok_deboost [OF p0, of False] by (simp add: prio_ok_def b_def)
  note L = leave_ready [OF inv cpu t_def idle [folded t_def] _ _ _ _ _ k1]
  have l: "sinv C {t} {cpu} k1" "t = k_current k1 cpu" "th_state (k_thread k1 t) = THREAD_READY"
    "\<not> thread_is_idle (k_thread k1 t)" "th_curr_cpu (k_thread k1 t) = Some cpu"
    by (rule L; use p1 free(1) in simp)+
  obtain m k2 where mk: "local_migrate_if_needed cpu now t k1 = (m, k2)" by force
  have "sched_yield cpu now k = (if m then k2 else sched_resched_internal cpu now (insert_in_run_queue_tail cpu t k2))"
    by (simp add: sched_yield_def t_def [symmetric] k1_def [symmetric] mk)
  with local_migrate_ok [OF l(1) cpu l(2-4) mk] requeue_ok [OF l(1) cpu l(2-5)] show ?thesis by (cases m) simp_all
qed

lemma make_ready_ok:
  assumes inv: "sinv C {} {} k" and cpu: "cpu \<in> C" and t: "t = k_current k cpu" "\<not> thread_is_idle (k_thread k t)"
  shows "sinv C {t} {cpu} (make_ready t k)" "th_state (k_thread (make_ready t k) t) = THREAD_READY"
    "\<not> thread_is_idle (k_thread (make_ready t k) t)" "th_curr_cpu (k_thread (make_ready t k) t) = Some cpu"
    "t = k_current (make_ready t k) cpu"
proof -
  note free = current_free [OF inv cpu, folded t(1)]
  note L = leave_ready [OF inv cpu t, of "\<lambda>th. th\<lparr>th_state := THREAD_READY\<rparr>" "make_ready t k"]
  have p: "prio_ok ((k_thread k t)\<lparr>th_state := THREAD_READY\<rparr>)" using free(2) by (simp add: prio_ok_def)
  show "sinv C {t} {cpu} (make_ready t k)" "th_state (k_thread (make_ready t k) t) = THREAD_READY"
    "\<not> thread_is_idle (k_thread (make_ready t k) t)" "th_curr_cpu (k_thread (make_ready t k) t) = Some cpu"
    "t = k_current (make_ready t k) cpu"
    by (rule L; use p free(1) in \<open>simp add: make_ready_def\<close>)+
qed

lemma deboost_ready_ok:
  assumes inv: "sinv C {} {} k" and cpu: "cpu \<in> C" and t: "t = k_current k cpu" "\<not> thread_is_idle (k_thread k t)"
    and k': "k' = deboost_thread t quantum (make_ready t k)"
  shows "sinv C {t} {cpu} k'" "t = k_current k' cpu" "th_state (k_thread k' t) = THREAD_READY"
    "\<not> thread_is_idle (k_thread k' t)" "th_curr_cpu (k_thread k' t) = Some cpu"
proof -
  note R = make_ready_ok [OF inv cpu t]
  note T = tinvD [OF sinvD(1) [OF R(1), of t]]
  have b: "th_blocking_wait_queue (k_thread (make_ready t k) t) = None" using T(6) by simp
  have k'': "k' = upd_thread t (set_boost (deboost_of quantum (k_thread (make_ready t k) t))) (make_ready t k)"
    using deboost_thread_eq [OF b T(1)] k' by simp
  show "sinv C {t} {cpu} k'" unfolding k''
    by (rule sinv_stay [OF R(1) _ R(3)]) (use R b prio_ok_deboost [OF T(1)] in simp_all)
  show "t = k_current k' cpu" "th_state (k_thread k' t) = THREAD_READY"
    "\<not> thread_is_idle (k_thread k' t)" "th_curr_cpu (k_thread k' t) = Some cpu"
    using R unfolding k'' by simp_all
qed

lemma idle_resched_ok:
  assumes inv: "sinv C {} {} k" and cpu: "cpu \<in> C" and idle: "thread_is_idle (k_thread k (k_current k cpu))"
  shows "sinv C {} {} (sched_resched_internal cpu now (make_ready (k_current k cpu) k)) \<and>
    top_running cpu (sched_resched_internal cpu now (make_ready (k_current k cpu) k))"
proof -
  note R = sinv_idle_ready [OF inv cpu idle]
  have "th_state (k_thread (make_ready (k_current k cpu) k) (k_current (make_ready (k_current k cpu) k) cpu)) \<noteq> THREAD_RUNNING"
    "th_curr_cpu (k_thread (make_ready (k_current k cpu) k) (k_current (make_ready (k_current k cpu) k) cpu)) = Some cpu"
    using running_current(2) [OF inv, of cpu] cpu by (simp_all add: make_ready_def)
  with sinv_resched [OF R cpu] resched_top [OF R cpu] show ?thesis by simp
qed

lemma sched_preempt_ok:
  assumes inv: "sinv C {} {} k" and cpu: "cpu \<in> C"
  shows "sinv C {} {} (sched_preempt cpu now k) \<and> top_running cpu (sched_preempt cpu now k)"
proof -
  define t where "t = k_current k cpu"
  have idle: "thread_is_idle (k_thread (make_ready t k) t) = thread_is_idle (k_thread k t)"
    by (simp add: make_ready_def thread_is_idle_def)
  show ?thesis
  proof (cases "thread_is_idle (k_thread k t)")
    case True
    with idle_resched_ok [OF inv cpu] idle show ?thesis by (simp add: sched_preempt_def t_def [symmetric] Let_def)
  next
    case False
    note R = make_ready_ok [OF inv cpu t_def False] and Q = deboost_ready_ok [OF inv cpu t_def False refl, of True]
    show ?thesis
      using requeue_current_ok [OF R(1) cpu R(5,2,3,4)] requeue_current_ok [OF Q(1) cpu Q(2-5)] False idle
      by (simp add: sched_preempt_def t_def [symmetric] Let_def)
  qed
qed

lemma sched_reschedule_ok:
  assumes inv: "sinv C {} {} k" and cpu: "cpu \<in> C"
  shows "sinv C {} {} (sched_reschedule cpu now k) \<and>
    (th_disable_counts (k_thread k (k_current k cpu)) = 0 \<longrightarrow> top_running cpu (sched_reschedule cpu now k))"
proof -
  define t where "t = k_current k cpu"
  have idle: "thread_is_idle (k_thread (make_ready t k) t) = thread_is_idle (k_thread k t)"
    by (simp add: make_ready_def thread_is_idle_def)
  show ?thesis
  proof (cases "th_disable_counts (k_thread k t) = 0")
    case False
    then show ?thesis
      by (simp add: sched_reschedule_def t_def [symmetric] Let_def) (rule sinv_same [OF inv], simp add: same_view_def)
  next
    case en: True
    show ?thesis
    proof (cases "thread_is_idle (k_thread k t)")
      case True
      with idle_resched_ok [OF inv cpu] idle en show ?thesis by (simp add: sched_reschedule_def t_def [symmetric] Let_def)
    next
      case False
      note Q = deboost_ready_ok [OF inv cpu t_def False refl, of False]
      show ?thesis using requeue_current_ok [OF Q(1) cpu Q(2-5)] False idle en
        by (simp add: sched_reschedule_def t_def [symmetric] Let_def)
    qed
  qed
qed

section \<open>Changing priorities\<close>

definition prio_only :: "thread \<Rightarrow> thread \<Rightarrow> bool" where
  "prio_only th th' \<longleftrightarrow> prio_ok th' \<and> th_state th' = th_state th \<and> th_flags th' = th_flags th \<and>
     th_curr_cpu th' = th_curr_cpu th \<and> th_blocking_wait_queue th' = th_blocking_wait_queue th"

lemma prio_onlyD:
  assumes "prio_only th th'"
  shows "prio_ok th'" "th_state th' = th_state th" "th_curr_cpu th' = th_curr_cpu th"
    "th_blocking_wait_queue th' = th_blocking_wait_queue th" "thread_is_idle th' = thread_is_idle th"
    "blocked th' = blocked th" "running_on th' c = running_on th c" "idle_ok th' = idle_ok th"
  using assms by (simp_all add: prio_only_def thread_is_idle_def blocked_def running_on_def idle_ok_def)

text \<open>A step that changes the priority of a thread and the order, but not the members, of the wait queues.\<close>

lemma sinv_prio:
  assumes inv: "sinv C X D k" and f: "prio_only (k_thread k t) (f (k_thread k t))"
    and rq: "th_effec_priority (f (k_thread k t)) = effec k t \<or>
      t \<in> X \<or> th_state (k_thread k t) \<noteq> THREAD_READY \<or> thread_is_idle (k_thread k t)"
    and k': "k_thread k' = (k_thread k)(t := f (k_thread k t))" "k_cpu k' = k_cpu k" "k_current k' = k_current k"
      "k_active_cpus k' = k_active_cpus k"
    and wq: "\<And>q. wq_ok (effec k') (k_wq k' q)" "\<And>q. set (wq k' q) = set (wq k q)"
  shows "sinv C X D k'"
proof (rule sinvI)
  note I = sinvD [OF inv] and F = prio_onlyD [OF f]
  show "tinv C X D k' s" for s
  proof (cases "s = t")
    case True
    note T = tinvD [OF I(1) [of t]]
    have "t \<notin> X \<and> on_queue (f (k_thread k t)) c p \<longleftrightarrow> t \<notin> X \<and> on_queue (k_thread k t) c p" for c p
      using rq by (auto simp: on_queue_def F)
    then show ?thesis unfolding True using T by (intro tinvI) (simp_all add: k' wq F)
  next
    case False
    then show ?thesis by (intro tinv_cong [OF I(1)]) (simp_all add: k' wq)
  qed
  show "cinv C D k' c" for c
    using cinvD [OF I(2) [of c]] by (intro cinvI) (auto simp: k' F split: if_splits)
  show "wq_ok (effec k') (k_wq k' q)" for q by (rule wq)
  show "inj_on (idle_of k') C" "C \<subseteq> {..<32}" using I(4,5) by (simp_all add: k')
  show "c \<in> C" if "bit (k_active_cpus k') c" for c using I(6) that by (simp add: k')
qed

lemma sinv_prio_same:
  assumes inv: "sinv C X D k" and f: "prio_only (k_thread k t) (f (k_thread k t))" "th_effec_priority (f (k_thread k t)) = effec k t"
  shows "sinv C X D (upd_thread t f k)"
  by (rule sinv_prio [where t = t, OF inv]; use f in simp)
     (rule wq_ok_cong [OF sinvD(3) [OF inv]]; simp)

lemma sinv_prio_free:
  assumes inv: "sinv C X D k" and f: "prio_only (k_thread k t) (f (k_thread k t))"
    and t: "t \<in> X \<or> th_state (k_thread k t) \<noteq> THREAD_READY \<or> thread_is_idle (k_thread k t)" "th_blocking_wait_queue (k_thread k t) = None"
  shows "sinv C X D (upd_thread t f k)"
proof -
  have "t \<notin> set (wq k q)" for q using tinvD(5) [OF sinvD(1) [OF inv, of t]] t(2) by simp
  then have "wq_ok (effec (upd_thread t f k)) (k_wq (upd_thread t f k) q)" for q using wq_ok_upd [OF sinvD(3) [OF inv]] by simp
  then show ?thesis using f t by (intro sinv_prio [where t = t, OF inv]) simp_all
qed

lemma sinv_prio_blocked:
  assumes inv: "sinv C X D k" and f: "prio_only (k_thread k t) (f (k_thread k t))" and b: "th_blocking_wait_queue (k_thread k t) = Some q"
  shows "sinv C X D (wait_queue_priority_changed t (upd_thread t f k))"
proof -
  note T = tinvD [OF sinvD(1) [OF inv, of t]]
  let ?k1 = "upd_thread t f k" and ?k' = "wait_queue_priority_changed t (upd_thread t f k)" and ?w = "k_wq k q"
  let ?w' = "?w\<lparr>wq_heads := heads_insert (effec ?k1) t (heads_remove_thread t (wq_heads ?w))\<rparr>"
  have k': "k_thread ?k' = k_thread ?k1" "k_wq ?k' = (k_wq k)(q := ?w')" "k_cpu ?k' = k_cpu k" "k_current ?k' = k_current k"
    "k_active_cpus ?k' = k_active_cpus k"
    using b prio_onlyD(4) [OF f]
    by (simp_all add: wait_queue_priority_changed_def wait_queue_insert_def wait_queue_remove_thread_def)
  have in_q: "t \<in> set (wq k q)" using T(5) b by simp
  have notX: "t \<notin> X" using T(6) b by auto
  have nr: "th_state (k_thread k t) \<noteq> THREAD_READY" using T(7) [OF notX] b by (auto simp: blocked_def)
  have "\<forall>s. s \<noteq> t \<longrightarrow> effec ?k1 s = effec k s" by simp
  note R = wq_remove_ok [OF sinvD(3) [OF inv] in_q this]
  have out: "t \<notin> set (remove1 t (wq k q))" using sinvD(3) [OF inv, of q] by (simp add: wq_ok_def)
  have th: "wq_threads (?w\<lparr>wq_count := wq_count ?w - 1, wq_heads := heads_remove_thread t (wq_heads ?w)\<rparr>) = remove1 t (wq k q)"
    using R(2) by (simp add: wq_threads_def)
  note J = wq_insert_ok [OF R(1), of t, unfolded th, OF out]
  have okw: "wq_ok (effec ?k1) ?w'" using J(1) by simp
  have "wq_threads ?w' = insert_stable (effec ?k1) t (remove1 t (wq k q))" using J(2) by (simp add: wq_threads_def)
  then have setw: "set (wq_threads ?w') = set (wq k q)" using in_q sinvD(3) [OF inv, of q] by (auto simp: wq_ok_def)
  have wqs: "wq_ok (effec ?k') (k_wq ?k' r)" for r
  proof (cases "r = q")
    case True
    with okw show ?thesis by (simp only: k' fun_upd_same)
  next
    case False
    have "t \<notin> set (wq k r)" using T(5) [of r] b False by simp
    from wq_ok_upd [OF sinvD(3) [OF inv] this] False show ?thesis by (simp only: k' fun_upd_other not_False_eq_True)
  qed
  show ?thesis
    by (rule sinv_prio [where t = t and f = f, OF inv f]) (use nr wqs setw in \<open>simp_all add: k'\<close>)
qed

lemma remove_from_run_queue_ok:
  assumes inv: "sinv C X D k" and t: "t \<notin> X" "th_state (k_thread k t) = THREAD_READY" "\<not> thread_is_idle (k_thread k t)"
  obtains c where "th_curr_cpu (k_thread k t) = Some c" "c \<in> C" "sinv C (insert t X) D (remove_from_run_queue t (effec k t) k)"
proof -
  note T = tinvD [OF sinvD(1) [OF inv, of t]]
  from T(3) [OF t] obtain c where c: "th_curr_cpu (k_thread k t) = Some c" "c \<in> C" by auto
  let ?p = "nat (effec k t)"
  have "on_queue (k_thread k t) c ?p" using t c effec_nat [OF T(1)] by (simp add: on_queue_def)
  then have mem: "t \<in> set (rq k c ?p)" using T(2) t(1) by blast
  have "remove_from_run_queue t (effec k t) k = upd_cpu c (shrink_queue ?p (remove1 t (rq k c ?p))) k"
    by (simp add: remove_from_run_queue_def c upd_cpu_def)
  with sinv_dequeue [OF inv mem] c that show thesis by simp
qed

lemma remove_commute:
  assumes "th_curr_cpu (f (k_thread k t)) = th_curr_cpu (k_thread k t)"
  shows "remove_from_run_queue t p (upd_thread t f k) = upd_thread t f (remove_from_run_queue t p k)"
  using assms by (simp add: remove_from_run_queue_def upd_thread_def upd_cpu_def split: option.split)

lemma remove_sel [simp]:
  "k_thread (remove_from_run_queue t p k) = k_thread k" "k_current (remove_from_run_queue t p k) = k_current k"
  by (auto simp: remove_from_run_queue_def split: option.splits)

lemma priority_changed_ok:
  assumes inv: "sinv C {} {} k" and idle: "\<not> thread_is_idle (k_thread k t)" and f: "prio_only (k_thread k t) (f (k_thread k t))"
    and p: "sched_priority_changed cpu t (effec k t) (lr, acc, upd_thread t f k) = (lr', acc', k')"
  shows "sinv C {} {} k'"
proof -
  note F = prio_onlyD [OF f] and T = tinvD [OF sinvD(1) [OF inv, of t]]
  let ?k = "upd_thread t f k"
  consider (ready) "th_state (k_thread k t) = THREAD_READY" | (blocked) "blocked (k_thread k t)"
    | (other) "th_state (k_thread k t) \<noteq> THREAD_READY" "\<not> blocked (k_thread k t)" by (auto simp: blocked_def)
  then show ?thesis
  proof cases
    case ready
    obtain c where c: "th_curr_cpu (k_thread k t) = Some c" "c \<in> C" "sinv C {t} {} (remove_from_run_queue t (effec k t) k)"
      using remove_from_run_queue_ok [OF inv _ ready idle] by auto
    have r: "sinv C {t} {} (remove_from_run_queue t (effec k t) ?k)"
      unfolding remove_commute [of f, OF F(3)]
      by (rule sinv_prio_free [OF c(3)]) (use f T(7) ready in \<open>auto simp: blocked_def\<close>)
    have "k' = insert_in_run_queue_head c t (remove_from_run_queue t (effec k t) ?k) \<or>
          k' = insert_in_run_queue_tail c t (remove_from_run_queue t (effec k t) ?k)"
      using p ready c(1) by (auto simp: sched_priority_changed_def F Let_def split: if_splits)
    moreover note sinv_insert [OF r, of t c]
    ultimately show ?thesis using ready idle c by (auto simp: F)
  next
    case blocked
    then obtain q where q: "th_blocking_wait_queue (k_thread k t) = Some q" using T(7) by auto
    have "k' = wait_queue_priority_changed t ?k"
      using p blocked q by (auto simp: sched_priority_changed_def F Let_def blocked_def)
    with sinv_prio_blocked [where f = f, OF inv f q] show ?thesis by simp
  next
    case other
    have "k' = ?k" using p other idle by (auto simp: sched_priority_changed_def F Let_def blocked_def split: thread_state.splits if_splits)
    moreover have "sinv C {} {} ?k" by (rule sinv_prio_free [where f = f, OF inv f]) (use other T(7) in auto)
    ultimately show ?thesis by simp
  qed
qed

lemma sched_change_priority_ok:
  assumes inv: "sinv C {} {} k" and cpu: "cpu \<in> C" and t: "\<not> thread_is_idle (k_thread k t)" and pri: "0 \<le> pri"
  shows "sinv C {} {} (sched_change_priority cpu now t pri k)"
proof (cases "th_state (k_thread k t) = THREAD_DEATH")
  case False
  define pri' where "pri' = (if pri > 31 then 31 else pri)"
  define f where "f th = th\<lparr>th_base_priority := pri', th_priority_boost := 0, th_effec_priority := max pri' (th_inherited_priority th)\<rparr>" for th :: thread
  have eq: "compute_effec_priority t (upd_thread t (\<lambda>th. th\<lparr>th_base_priority := pri', th_priority_boost := 0\<rparr>) k) = upd_thread t f k"
    by (simp add: compute_effec_eq upd_thread_def f_def)
  have f: "prio_only (k_thread k t) (f (k_thread k t))"
    using tinvD(1) [OF sinvD(1) [OF inv, of t]] pri by (auto simp: prio_only_def prio_ok_def f_def pri'_def)
  show ?thesis
  proof (cases "effec k t = effec (upd_thread t f k) t")
    case True
    then have "sched_change_priority cpu now t pri k = upd_thread t f k"
      using False by (simp add: sched_change_priority_def pri'_def [symmetric] eq)
    with sinv_prio_same [where f = f, OF inv f] True show ?thesis by simp
  next
    case ne: False
    obtain lr m k2 where p: "sched_priority_changed cpu t (effec k t) (False, 0, upd_thread t f k) = (lr, m, k2)" by (rule prod_cases3)
    note K = sinv_masks(6) [OF priority_changed_ok [where f = f, OF inv t f p], of cpu m]
    have "sched_change_priority cpu now t pri k = (if lr then sched_reschedule cpu now (send_ipis cpu m k2) else send_ipis cpu m k2)"
      using False ne by (simp add: sched_change_priority_def pri'_def [symmetric] eq p)
    with K sched_reschedule_ok [OF K cpu] show ?thesis by simp
  qed
qed (use inv in \<open>simp add: sched_change_priority_def\<close>)

lemma sched_inherit_priority_ok:
  assumes inv: "sinv C {} {} k" and t: "\<not> thread_is_idle (k_thread k t)"
    and i: "sched_inherit_priority cpu t pri (lr, acc, k) = (lr', acc', k')"
  shows "sinv C {} {} k'"
proof -
  define pri' where "pri' = (if pri > 31 then 31 else pri)"
  define f where "f th = th\<lparr>th_inherited_priority := pri', th_effec_priority := max (th_base_priority th + th_priority_boost th) pri'\<rparr>" for th :: thread
  have eq: "compute_effec_priority t (upd_thread t (\<lambda>th. th\<lparr>th_inherited_priority := pri'\<rparr>) k) = upd_thread t f k"
    by (simp add: compute_effec_eq upd_thread_def f_def)
  have f: "prio_only (k_thread k t) (f (k_thread k t))"
    using tinvD(1) [OF sinvD(1) [OF inv, of t]] by (auto simp: prio_only_def prio_ok_def f_def pri'_def)
  show ?thesis
  proof (cases "effec k t = effec (upd_thread t f k) t")
    case True
    then have "k' = upd_thread t f k" using i by (simp add: sched_inherit_priority_def pri'_def [symmetric] eq)
    with sinv_prio_same [where f = f, OF inv f] True show ?thesis by simp
  next
    case False
    then have "sched_priority_changed cpu t (effec k t) (lr, acc, upd_thread t f k) = (lr', acc', k')"
      using i by (simp add: sched_inherit_priority_def pri'_def [symmetric] eq)
    then show ?thesis by (rule priority_changed_ok [where f = f, OF inv t f])
  qed
qed

section \<open>Moving threads, timer ticks\<close>

lemma sched_migrate_ok:
  assumes inv: "sinv C {} {} k" and cpu: "cpu \<in> C" and t: "\<not> thread_is_idle (k_thread k t)"
  shows "sinv C {} {} (sched_migrate cpu now t k)"
proof -
  let ?th = "k_thread k t"
  let ?here = "th_cpu_affinity ?th AND cpu_num_to_mask (th_curr_cpu ?th) \<noteq> 0"
  consider (run) "th_state ?th = THREAD_RUNNING" | (ready) "th_state ?th = THREAD_READY" "\<not> ?here"
    | (none) "sched_migrate cpu now t k = k"
    by (cases "th_state ?th"; cases ?here) (auto simp: sched_migrate_def Let_def)
  then show ?thesis
  proof cases
    case run
    have "sinv C {} {} (migrate_current_thread cpu now t k)" if c: "t = k_current k cpu"
      using migrate_ok [OF make_ready_ok(1) [OF inv cpu c t] cpu c t] by simp
    then show ?thesis using run inv by (simp add: sched_migrate_def sinv_masks(6) Let_def)
  next
    case ready
    from remove_from_run_queue_ok [OF inv _ ready(1) t]
    have r: "sinv C {t} {} (remove_from_run_queue t (effec k t) k)" by auto
    obtain lr m k1 where f: "find_cpu_and_insert cpu t (False, 0, remove_from_run_queue t (effec k t) k) = (lr, m, k1)"
      by (rule prod_cases3)
    have "sinv C ({t} - {t}) {} k1" by (rule find_insert_ok(1) [OF r cpu _ _ _ f]) (use ready t in simp_all)
    then have K: "sinv C {} {} (send_ipis cpu m k1)" by (simp add: sinv_masks(6))
    have "sched_migrate cpu now t k = (if lr then sched_reschedule cpu now (send_ipis cpu m k1) else send_ipis cpu m k1)"
      using ready f by (simp add: sched_migrate_def Let_def)
    with K sched_reschedule_ok [OF K cpu] show ?thesis by simp
  qed (use inv in simp)
qed

lemma timer_reset_sel [simp]:
  "k_thread (timer_preempt_reset c d k) = k_thread k" "k_current (timer_preempt_reset c d k) = k_current k"
  by (simp_all add: timer_preempt_reset_def)

lemma sinv_timer_reset: "sinv C X D k \<Longrightarrow> sinv C X D (timer_preempt_reset c d k)"
  by (erule sinv_cong) (simp_all add: timer_preempt_reset_def same_view_def)

lemma sched_preempt_timer_tick_ok:
  assumes inv: "sinv C {} {} k"
  shows "sinv C {} {} (sched_preempt_timer_tick cpu now k)"
proof -
  have "sinv C {} {} (upd_thread t (\<lambda>th. th\<lparr>th_preempt_pending := True\<rparr>)
      (timer_preempt_reset cpu d (upd_thread t (\<lambda>th. th\<lparr>th_remaining_time_slice := 0\<rparr>) k)))" for t d
    by (intro sinv_same sinv_timer_reset inv) (simp_all add: same_view_def)
  with inv show ?thesis by (simp add: sched_preempt_timer_tick_def Let_def sinv_timer_reset)
qed

lemma sched_init_thread_ok:
  assumes inv: "sinv C {} {} k" and t: "th_state (k_thread k t) = THREAD_INITIAL" and pri: "0 \<le> pri" "pri \<le> 31"
  shows "sinv C {} {} (sched_init_thread t pri k)"
proof -
  let ?f = "\<lambda>th :: thread. th\<lparr>th_base_priority := pri, th_priority_boost := 0, th_inherited_priority := - 1, th_effec_priority := max pri (- 1)\<rparr>"
  have "sched_init_thread t pri k = upd_thread t ?f k"
    by (simp add: sched_init_thread_def compute_effec_eq upd_thread_def)
  moreover have "sinv C {} {} (upd_thread t ?f k)"
    by (rule sinv_prio_free [OF inv])
       (use t pri tinvD(7) [OF sinvD(1) [OF inv, of t]] in \<open>auto simp: prio_only_def prio_ok_def blocked_def\<close>)
  ultimately show ?thesis by simp
qed

text \<open>A new or suspended thread is made runnable: it is in transit as it is in no queue.\<close>

lemma sched_unblock_new_ok:
  assumes inv: "sinv C {} {} k" and cpu: "cpu \<in> C" and t: "\<not> thread_is_idle (k_thread k t)"
    "th_state (k_thread k t) \<in> {THREAD_INITIAL, THREAD_SLEEPING, THREAD_SUSPENDED}"
    and u: "sched_unblock cpu t k = (lr, k')"
  shows "sinv C {} {} k'" "keeps (make_ready t k) k'"
proof -
  have nr: "th_state (k_thread k t) \<noteq> THREAD_RUNNING" "th_state (k_thread k t) \<noteq> THREAD_READY" "\<not> blocked (k_thread k t)"
    using t(2) by (auto simp: blocked_def)
  have "k_current k c \<noteq> t" if "c \<in> C" for c using running_current [OF inv, of c] that nr by auto
  then have "sinv C {t} {} (upd_thread t (\<lambda>th. th) k)"
    by (intro sinv_transit [OF inv])
       (use nr tinvD(1,7) [OF sinvD(1) [OF inv, of t]] not_idle_of [OF inv t(1)] in auto)
  then have X: "sinv C {t} {} k" by (simp add: upd_thread_id)
  from sched_unblock_ok [OF X cpu _ nr(1) t(1) u] show "sinv C {} {} k'" "keeps (make_ready t k) k'" by simp_all
qed

end
