(* ===== verification/Zx_Wait.thy ===== *)
theory Zx_Wait
  imports Zx_Sched_Ops
begin

unbundle bit_operations_syntax

text \<open>
  Blocking and waking: the rest of \<^verbatim>\<open>kernel/kernel/wait.cpp\<close> and
  \<^verbatim>\<open>kernel/include/kernel/wait_queue_internal.h\<close>, and the kernel's events
  (\<^verbatim>\<open>kernel/kernel/event.cpp\<close>), on top of the scheduler.

  A call that blocks returns no status: its thread is switched out, and when the thread is current again the
  call returns the blocked status stored in the thread. The timer of a deadline is a later call of its handler.
\<close>

section \<open>Wait queues\<close>

definition wait_queue_block_etc ::
  "cpu_num \<Rightarrow> zx_time \<Rightarrow> wqid \<Rightarrow> zx_time \<Rightarrow> u32 \<Rightarrow> resource_ownership \<Rightarrow> kernel \<Rightarrow> zx_status option \<times> kernel" where
  "wait_queue_block_etc cpu now wait deadline signal_mask reason k =
     (let (res, k1) = wait_queue_block_etc_pre now (k_current k cpu) wait deadline signal_mask reason k in
      if res \<noteq> ZX_OK then (Some res, k1) else (None, sched_block cpu now k1))"

text \<open>What a blocked call returns when its thread runs again.\<close>

definition wait_queue_block_etc_return :: "cpu_num \<Rightarrow> kernel \<Rightarrow> zx_status" where
  "wait_queue_block_etc_return cpu k = th_blocked_status (k_thread k (k_current k cpu))"

definition wait_queue_block :: "cpu_num \<Rightarrow> zx_time \<Rightarrow> wqid \<Rightarrow> zx_time \<Rightarrow> kernel \<Rightarrow> zx_status option \<times> kernel" where
  "wait_queue_block cpu now wait deadline k = wait_queue_block_etc cpu now wait deadline 0 Normal k"

definition wait_queue_wake_one :: "cpu_num \<Rightarrow> zx_time \<Rightarrow> wqid \<Rightarrow> bool \<Rightarrow> zx_status \<Rightarrow> kernel \<Rightarrow> nat \<times> kernel" where
  "wait_queue_wake_one cpu now wait reschedule wait_queue_error k =
     (case wait_queue_peek (k_wq k wait) of
        None \<Rightarrow> (0, k)
      | Some t \<Rightarrow>
          let (local_resched, k1) = sched_unblock cpu t (wait_queue_dequeue_thread_internal wait t wait_queue_error k) in
          (1, if reschedule \<and> local_resched then sched_reschedule cpu now k1 else k1))"

lemma wait_queue_dequeue_wq [simp]:
  "wq_heads (k_wq (wait_queue_dequeue_thread_internal wait t e k) wait) = heads_remove_thread t (wq_heads (k_wq k wait))"
  by (simp add: wait_queue_dequeue_thread_internal_def wait_queue_remove_thread_def)

text \<open>The loop that takes every thread off the queue.\<close>

function wake_all_loop :: "wqid \<Rightarrow> zx_status \<Rightarrow> tid list \<Rightarrow> kernel \<Rightarrow> tid list \<times> kernel" where
  "wake_all_loop wait wait_queue_error list k =
     (case wait_queue_peek (k_wq k wait) of
        None \<Rightarrow> (list, k)
      | Some t \<Rightarrow> wake_all_loop wait wait_queue_error (list @ [t]) (wait_queue_dequeue_thread_internal wait t wait_queue_error k))"
  by pat_completeness auto
termination
  by (relation "measure (\<lambda>(wait, e, list, k). length (heads_threads (wq_heads (k_wq k wait))))")
     (auto simp: wait_queue_peek_def heads_remove_thread_def split: list.splits)

declare wake_all_loop.simps [simp del]

definition wait_queue_wake_all :: "cpu_num \<Rightarrow> zx_time \<Rightarrow> wqid \<Rightarrow> bool \<Rightarrow> zx_status \<Rightarrow> kernel \<Rightarrow> nat \<times> kernel" where
  "wait_queue_wake_all cpu now wait reschedule wait_queue_error k =
     (if wq_count (k_wq k wait) = 0 then (0, k)
      else
        let (list, k1) = wake_all_loop wait wait_queue_error [] k;
            (local_resched, k2) = sched_unblock_list cpu list k1 in
        (length list, if reschedule \<and> local_resched then sched_reschedule cpu now k2 else k2))"

definition wait_queue_unblock_thread :: "cpu_num \<Rightarrow> zx_time \<Rightarrow> tid \<Rightarrow> zx_status \<Rightarrow> kernel \<Rightarrow> zx_status \<times> kernel" where
  "wait_queue_unblock_thread cpu now t wait_queue_error k =
     (let th = k_thread k t in
      if th_state th \<noteq> THREAD_BLOCKED \<and> th_state th \<noteq> THREAD_BLOCKED_READ_LOCK then (ZX_ERR_BAD_STATE, k)
      else
        let (local_resched, k1) =
              sched_unblock cpu t (wait_queue_dequeue_thread_internal (the (th_blocking_wait_queue th)) t wait_queue_error k) in
        (ZX_OK, if local_resched then sched_reschedule cpu now k1 else k1))"

definition wait_queue_timeout_handler :: "cpu_num \<Rightarrow> zx_time \<Rightarrow> tid \<Rightarrow> kernel \<Rightarrow> kernel" where
  "wait_queue_timeout_handler cpu now thread k = snd (wait_queue_unblock_thread cpu now thread ZX_ERR_TIMED_OUT k)"

section \<open>Events\<close>

text \<open>The magic number of an event tells whether it is initialised.\<close>

record event =
  ev_magic :: bool
  ev_signaled :: bool
  ev_flags :: u32
  ev_wait :: wqid

definition EVENT_FLAG_AUTOUNSIGNAL :: u32 where "EVENT_FLAG_AUTOUNSIGNAL = 1"

definition event_init :: "wqid \<Rightarrow> bool \<Rightarrow> u32 \<Rightarrow> event" where
  "event_init wait initial flags = \<lparr>ev_magic = True, ev_signaled = initial, ev_flags = flags, ev_wait = wait\<rparr>"

definition event_initialized :: "event \<Rightarrow> bool" where
  "event_initialized e = ev_magic e"

definition event_destroy :: "event \<Rightarrow> kernel \<Rightarrow> (event \<times> kernel) option" where
  "event_destroy e k = map_option (\<lambda>k. (e\<lparr>ev_magic := False, ev_signaled := False, ev_flags := 0\<rparr>, k)) (wait_queue_destroy (ev_wait e) k)"

text \<open>When the call blocks, the thread stays interruptable until it is woken.\<close>

definition event_wait_worker ::
  "cpu_num \<Rightarrow> zx_time \<Rightarrow> zx_time \<Rightarrow> bool \<Rightarrow> u32 \<Rightarrow> event \<Rightarrow> kernel \<Rightarrow> zx_status option \<times> event \<times> kernel" where
  "event_wait_worker cpu now deadline interruptable signal_mask e k =
     (let current_thread = k_current k cpu;
          k1 = upd_thread current_thread (\<lambda>th. th\<lparr>th_interruptable := interruptable\<rparr>) k;
          uninterruptable = upd_thread current_thread (\<lambda>th. th\<lparr>th_interruptable := False\<rparr>) in
      if ev_signaled e then
        (Some ZX_OK,
         if has_signal (ev_flags e) EVENT_FLAG_AUTOUNSIGNAL then e\<lparr>ev_signaled := False\<rparr> else e,
         uninterruptable k1)
      else
        let (ret, k2) = wait_queue_block_etc cpu now (ev_wait e) deadline signal_mask Normal k1 in
        (ret, e, if ret = None then k2 else uninterruptable k2))"

definition event_wait_worker_return :: "cpu_num \<Rightarrow> kernel \<Rightarrow> zx_status \<times> kernel" where
  "event_wait_worker_return cpu k =
     (wait_queue_block_etc_return cpu k, upd_thread (k_current k cpu) (\<lambda>th. th\<lparr>th_interruptable := False\<rparr>) k)"

definition event_wait_deadline ::
  "cpu_num \<Rightarrow> zx_time \<Rightarrow> zx_time \<Rightarrow> bool \<Rightarrow> event \<Rightarrow> kernel \<Rightarrow> zx_status option \<times> event \<times> kernel" where
  "event_wait_deadline cpu now deadline interruptable e k = event_wait_worker cpu now deadline interruptable 0 e k"

definition event_wait_interruptable ::
  "cpu_num \<Rightarrow> zx_time \<Rightarrow> zx_time \<Rightarrow> event \<Rightarrow> kernel \<Rightarrow> zx_status option \<times> event \<times> kernel" where
  "event_wait_interruptable cpu now deadline e k = event_wait_worker cpu now deadline True 0 e k"

definition event_wait_with_mask ::
  "cpu_num \<Rightarrow> zx_time \<Rightarrow> u32 \<Rightarrow> event \<Rightarrow> kernel \<Rightarrow> zx_status option \<times> event \<times> kernel" where
  "event_wait_with_mask cpu now signal_mask e k = event_wait_worker cpu now ZX_TIME_INFINITE True signal_mask e k"

definition event_wait :: "cpu_num \<Rightarrow> zx_time \<Rightarrow> event \<Rightarrow> kernel \<Rightarrow> zx_status option \<times> event \<times> kernel" where
  "event_wait cpu now e k = event_wait_deadline cpu now ZX_TIME_INFINITE False e k"

definition event_signal_internal ::
  "cpu_num \<Rightarrow> zx_time \<Rightarrow> bool \<Rightarrow> zx_status \<Rightarrow> event \<Rightarrow> kernel \<Rightarrow> nat \<times> event \<times> kernel" where
  "event_signal_internal cpu now reschedule wait_result e k =
     (if ev_signaled e then (0, e, k)
      else if has_signal (ev_flags e) EVENT_FLAG_AUTOUNSIGNAL then
        let (wake_count, k1) = wait_queue_wake_one cpu now (ev_wait e) reschedule wait_result k in
        (wake_count, if wake_count \<le> 0 then e\<lparr>ev_signaled := True\<rparr> else e, k1)
      else
        let (wake_count, k1) = wait_queue_wake_all cpu now (ev_wait e) reschedule wait_result k in
        (wake_count, e\<lparr>ev_signaled := True\<rparr>, k1))"

definition event_signal :: "cpu_num \<Rightarrow> zx_time \<Rightarrow> bool \<Rightarrow> event \<Rightarrow> kernel \<Rightarrow> nat \<times> event \<times> kernel" where
  "event_signal cpu now reschedule e k = event_signal_internal cpu now reschedule ZX_OK e k"

definition event_signal_etc ::
  "cpu_num \<Rightarrow> zx_time \<Rightarrow> bool \<Rightarrow> zx_status \<Rightarrow> event \<Rightarrow> kernel \<Rightarrow> nat \<times> event \<times> kernel" where
  "event_signal_etc cpu now reschedule wait_result e k = event_signal_internal cpu now reschedule wait_result e k"

definition event_signal_thread_locked :: "cpu_num \<Rightarrow> zx_time \<Rightarrow> event \<Rightarrow> kernel \<Rightarrow> nat \<times> event \<times> kernel" where
  "event_signal_thread_locked cpu now e k = event_signal_internal cpu now False ZX_OK e k"

definition event_unsignal :: "event \<Rightarrow> zx_status \<times> event" where
  "event_unsignal e = (ZX_OK, e\<lparr>ev_signaled := False\<rparr>)"

section \<open>The invariant of the scheduler\<close>

text \<open>A thread enters or leaves a wait queue.\<close>

lemma sinv_wq_change:
  assumes inv: "sinv C X D k"
    and k': "k_thread k' = (k_thread k)(t := th)" "k_wq k' = (k_wq k)(q := w)" "k_cpu k' = k_cpu k" "k_current k' = k_current k"
      "k_active_cpus k' = k_active_cpus k"
    and th: "prio_ok th" "th_state th = th_state (k_thread k t)" "th_state th \<notin> {THREAD_READY, THREAD_RUNNING}"
      "thread_is_idle th = thread_is_idle (k_thread k t)" "th_effec_priority th = effec k t"
    and w: "wq_ok (effec k) w" "\<And>s. s \<noteq> t \<Longrightarrow> s \<in> set (wq_threads w) \<longleftrightarrow> s \<in> set (wq k q)"
      "t \<in> set (wq_threads w) \<longleftrightarrow> th_blocking_wait_queue th = Some q"
    and other: "\<And>r. r \<noteq> q \<Longrightarrow> t \<notin> set (wq k r)" "\<And>r. th_blocking_wait_queue th = Some r \<Longrightarrow> r = q"
    and X': "\<And>s. s \<noteq> t \<Longrightarrow> s \<in> X' \<longleftrightarrow> s \<in> X" "if t \<in> X' then th_blocking_wait_queue th = None else blocked th \<and> th_blocking_wait_queue th = Some q"
  shows "sinv C X' D k'"
proof (rule sinvI)
  note I = sinvD [OF inv]
  note T = tinvD [OF I(1) [of t]]
  have nq: "\<not> on_queue (k_thread k t) c p" "\<not> on_queue th c p" for c p using th(2,3) by (auto simp: on_queue_def)
  have rq_t: "t \<notin> set (rq k c p)" for c p using T(2) nq by blast
  have run: "k_current k c \<noteq> t" if "c \<in> C - D" for c
    using cinvD(2) [OF I(2) that] th(2,3) by (auto simp: running_on_def)
  fix s
  show "tinv C X' D k' s"
  proof (cases "s = t")
    case True
    have wq_t: "t \<in> set (wq k' r) \<longleftrightarrow> th_blocking_wait_queue th = Some r" for r
      using w(3) other by (cases "r = q") (auto simp: k')
    show ?thesis unfolding True using th nq rq_t wq_t X'(2) by (intro tinvI) (auto simp: k' split: if_splits)
  next
    case False
    then show ?thesis using w(2) X'(1) by (intro tinv_cong [OF I(1)]) (simp_all add: k')
  qed
  show "cinv C D k' c" for c
  proof (rule cinvI)
    show "percpu_ok (k_cpu k' c)" using cinvD(1) [OF I(2)] by (simp add: k')
    show "running_on (k_thread k' (k_current k' c)) c" if "c \<in> C - D"
      using cinvD(2) [OF I(2) that] run [OF that] by (simp add: k')
    show "idle_ok (k_thread k' (idle_of k' c))" if "c \<in> C"
      using cinvD(3) [OF I(2) that] th(2-4) by (auto simp: k' idle_ok_def)
    show "k_current k' c = idle_of k' c" if "c \<in> C" "thread_is_idle (k_thread k' (k_current k' c))"
      using cinvD(4) [OF I(2) that(1)] that(2) th(4) by (auto simp: k' split: if_splits)
  qed
  have effec: "effec k' = effec k" using th(5) by (auto simp: k')
  show "wq_ok (effec k') (k_wq k' r)" for r
    unfolding effec using w(1) I(3) by (simp add: k'(2))
  show "inj_on (idle_of k') C" "C \<subseteq> {..<32}" using I(4,5) by (simp_all add: k')
  show "c \<in> C" if "bit (k_active_cpus k') c" for c using I(6) that by (simp add: k')
qed

lemma wq_upd_swap: "w\<lparr>wq_heads := h, wq_count := n\<rparr> = w\<lparr>wq_count := n, wq_heads := h\<rparr>"
  by (rule wait_queue.equality) simp_all

lemma dequeue_sel [simp]:
  "k_current (wait_queue_dequeue_thread_internal q t e k) = k_current k"
  "k_cpu (wait_queue_dequeue_thread_internal q t e k) = k_cpu k"
  "k_active_cpus (wait_queue_dequeue_thread_internal q t e k) = k_active_cpus k"
  "k_thread (wait_queue_dequeue_thread_internal q t e k) =
     (k_thread k)(t := (k_thread k t)\<lparr>th_blocked_status := e, th_blocking_wait_queue := None\<rparr>)"
  "k_wq (wait_queue_dequeue_thread_internal q t e k) = (k_wq k)
     (q := (k_wq k q)\<lparr>wq_count := wq_count (k_wq k q) - 1, wq_heads := heads_remove_thread t (wq_heads (k_wq k q))\<rparr>)"
  by (simp_all add: wait_queue_dequeue_thread_internal_def wait_queue_remove_thread_def wq_upd_swap)

lemma wq_thread_facts:
  assumes inv: "sinv C X D k" and t: "t \<in> set (wq k q)"
  shows "t \<notin> X" "blocked (k_thread k t)" "th_blocking_wait_queue (k_thread k t) = Some q" "\<not> thread_is_idle (k_thread k t)"
    "th_state (k_thread k t) \<notin> {THREAD_READY, THREAD_RUNNING}"
proof -
  note T = tinvD [OF sinvD(1) [OF inv, of t]]
  show q: "th_blocking_wait_queue (k_thread k t) = Some q" using T(5) t by simp
  then show X: "t \<notin> X" using T(6) by auto
  show "blocked (k_thread k t)" using T(7) [OF X] q by simp
  then show "\<not> thread_is_idle (k_thread k t)" "th_state (k_thread k t) \<notin> {THREAD_READY, THREAD_RUNNING}" by (auto simp: blocked_def)
qed

lemma sinv_dequeue_wq:
  assumes inv: "sinv C X D k" and t: "t \<in> set (wq k q)"
  shows "sinv C (insert t X) D (wait_queue_dequeue_thread_internal q t e k)"
    "wq (wait_queue_dequeue_thread_internal q t e k) q = remove1 t (wq k q)"
proof -
  note I = sinvD [OF inv] and F = wq_thread_facts [OF inv t]
  have q: "t \<notin> set (wq k r)" if "r \<noteq> q" for r using wq_thread_facts(3) [OF inv, of t r] F(3) that by auto
  have "\<forall>s. s \<noteq> t \<longrightarrow> effec k s = effec k s" by simp
  note R = wq_remove_ok [OF I(3) t this]
  have w: "wq_threads ((k_wq k q)\<lparr>wq_count := c, wq_heads := heads_remove_thread t (wq_heads (k_wq k q))\<rparr>) = remove1 t (wq k q)" for c
    using R(2) by (simp add: wq_threads_def)
  have d: "distinct (wq k q)" using I(3) by (simp add: wq_ok_def)
  have p: "prio_ok ((k_thread k t)\<lparr>th_blocked_status := e, th_blocking_wait_queue := None\<rparr>)"
    using tinvD(1) [OF I(1), of t] by (simp add: prio_ok_def)
  show "sinv C (insert t X) D (wait_queue_dequeue_thread_internal q t e k)"
    by (rule sinv_wq_change [OF inv dequeue_sel(4,5,2,1,3)])
       (use F(5) q R(1) d p in \<open>simp_all add: w thread_is_idle_def\<close>)
  show "wq (wait_queue_dequeue_thread_internal q t e k) q = remove1 t (wq k q)" by (simp add: w)
qed

lemma block_pre_ok:
  assumes inv: "sinv C {} {} k" and cpu: "cpu \<in> C" and idle: "\<not> thread_is_idle (k_thread k (k_current k cpu))"
    and pre: "wait_queue_block_etc_pre now (k_current k cpu) q deadline signal_mask reason k = (res, k')"
  shows "if res = ZX_OK then sinv C {} {cpu} k' \<and> k_current k' = k_current k \<and> k_cpu k' = k_cpu k \<and>
      blocked (k_thread k' (k_current k cpu)) \<and> wq k' q = insert_stable (effec k) (k_current k cpu) (wq k q)
    else k' = k"
proof (cases "res = ZX_OK")
  case False
  then show ?thesis using pre by (auto simp: wait_queue_block_etc_pre_def Let_def split: if_splits)
next
  case True
  let ?t = "k_current k cpu"
  let ?st = "case reason of Normal \<Rightarrow> THREAD_BLOCKED | Reader \<Rightarrow> THREAD_BLOCKED_READ_LOCK"
  let ?f = "\<lambda>th. th\<lparr>th_state := ?st\<rparr>" and ?th = "(k_thread k ?t)\<lparr>th_state := ?st, th_blocking_wait_queue := Some q, th_blocked_status := ZX_OK\<rparr>"
  let ?w = "(k_wq k q)\<lparr>wq_count := wq_count (k_wq k q) + 1, wq_heads := heads_insert (effec k) ?t (wq_heads (k_wq k q))\<rparr>"
  note free = current_free [OF inv cpu]
  have st: "?st \<notin> {THREAD_READY, THREAD_RUNNING}" "?st = THREAD_BLOCKED \<or> ?st = THREAD_BLOCKED_READ_LOCK"
    by (auto split: resource_ownership.splits)
  have p: "prio_ok (?f (k_thread k ?t))" "prio_ok ?th" using free(2) by (auto simp: prio_ok_def)
  have k1: "sinv C {?t} {cpu} (upd_thread ?t ?f k)"
    by (rule sinv_leave [OF inv cpu refl idle]) (use p st free in \<open>auto simp: thread_is_idle_def\<close>)
  have k': "k' = upd_thread ?t (\<lambda>_. ?th) (upd_wq q (\<lambda>_. ?w) k)"
    using pre True by (auto simp: wait_queue_block_etc_pre_def wait_queue_insert_def upd_thread_def upd_wq_def wq_upd_swap Let_def split: if_splits)
  have out: "?t \<notin> set (wq k r)" for r using tinvD(5) [OF sinvD(1) [OF inv], of ?t] free(1) by simp
  note J = wq_insert_ok [OF sinvD(3) [OF inv] out]
  have w: "wq_threads ?w = insert_stable (effec k) ?t (wq k q)" using J(2) by (simp add: wq_threads_def)
  have eff: "effec (upd_thread ?t ?f k) = effec k" by auto
  have "sinv C {} {cpu} k'"
    by (rule sinv_wq_change [OF k1, where t = ?t and q = q and w = ?w and th = ?th])
       (use p st J(1) out idle in \<open>simp_all only: eff\<close>,
        use p st J(1) out idle in \<open>simp_all add: k' w blocked_def thread_is_idle_def\<close>)
  with True idle st show ?thesis by (simp add: k' w blocked_def thread_is_idle_def)
qed

lemma sched_block_ok:
  assumes inv: "sinv C {} {cpu} k" and cpu: "cpu \<in> C" and old: "th_state (k_thread k (k_current k cpu)) \<noteq> THREAD_RUNNING"
    "\<not> thread_is_idle (k_thread k (k_current k cpu))"
  shows "sinv C {} {} (sched_block cpu now k)" "top_running cpu (sched_block cpu now k)"
  unfolding sched_block_def using sinv_resched [OF inv cpu old(1)] old(2) resched_top [OF inv cpu] by auto

lemma wait_queue_block_etc_ok:
  assumes inv: "sinv C {} {} k" and cpu: "cpu \<in> C" and idle: "\<not> thread_is_idle (k_thread k (k_current k cpu))"
    and b: "wait_queue_block_etc cpu now q deadline signal_mask reason k = (ret, k')"
  shows "sinv C {} {} k'" "ret \<noteq> None \<Longrightarrow> k' = k" "ret = None \<Longrightarrow> top_running cpu k'"
proof -
  obtain res k1 where pre: "wait_queue_block_etc_pre now (k_current k cpu) q deadline signal_mask reason k = (res, k1)" by force
  note P = block_pre_ok [OF inv cpu idle pre]
  have "sinv C {} {} k' \<and> (ret \<noteq> None \<longrightarrow> k' = k) \<and> (ret = None \<longrightarrow> top_running cpu k')"
  proof (cases "res = ZX_OK")
    case True
    with P have k1: "sinv C {} {cpu} k1" "k_current k1 = k_current k" "blocked (k_thread k1 (k_current k1 cpu))" by simp_all
    from k1(3) have "th_state (k_thread k1 (k_current k1 cpu)) \<noteq> THREAD_RUNNING" "\<not> thread_is_idle (k_thread k1 (k_current k1 cpu))"
      by (auto simp: blocked_def)
    from sched_block_ok [OF k1(1) cpu this] b pre True show ?thesis by (auto simp: wait_queue_block_etc_def)
  next
    case False
    with P b pre inv show ?thesis by (auto simp: wait_queue_block_etc_def)
  qed
  then show "sinv C {} {} k'" "ret \<noteq> None \<Longrightarrow> k' = k" "ret = None \<Longrightarrow> top_running cpu k'" by simp_all
qed

text \<open>Taking a thread off its queue and making it runnable.\<close>

lemma unblock_waiter:
  assumes inv: "sinv C X D k" and cpu: "cpu \<in> C" and t: "t \<in> set (wq k q)"
    and u: "sched_unblock cpu t (wait_queue_dequeue_thread_internal q t e k) = (lr, k')"
  shows "sinv C X D k'" "keeps (make_ready t k) k'"
proof -
  note F = wq_thread_facts [OF inv t]
  let ?k = "wait_queue_dequeue_thread_internal q t e k"
  have st: "th_state (k_thread ?k t) \<noteq> THREAD_RUNNING" "\<not> thread_is_idle (k_thread ?k t)"
    using F by (simp_all add: thread_is_idle_def)
  note U = sched_unblock_ok [OF sinv_dequeue_wq(1) [OF inv t] cpu insertI1 st u]
  show "sinv C X D k'" using U(1) F(1) by simp
  show "keeps (make_ready t k) k'" using U(2) by (simp add: keeps_def make_ready_def)
qed

lemma maybe_reschedule_ok: "sinv C {} {} k \<Longrightarrow> cpu \<in> C \<Longrightarrow> sinv C {} {} (if b then sched_reschedule cpu now k else k)"
  using sched_reschedule_ok by simp

lemma wait_queue_wake_one_ok:
  assumes inv: "sinv C {} {} k" and cpu: "cpu \<in> C" and w: "wait_queue_wake_one cpu now q reschedule e k = (n, k')"
  shows "sinv C {} {} k'" "n = (if wq k q = [] then 0 else 1)"
proof -
  have "sinv C {} {} k' \<and> n = (if wq k q = [] then 0 else 1)"
  proof (cases "wq k q")
    case Nil
    then show ?thesis using w inv by (simp add: wait_queue_wake_one_def peek_threads)
  next
    case (Cons t ts)
    obtain lr k1 where u: "sched_unblock cpu t (wait_queue_dequeue_thread_internal q t e k) = (lr, k1)" by force
    have k1: "sinv C {} {} k1" by (rule unblock_waiter(1) [OF inv cpu _ u]) (simp add: Cons)
    show ?thesis using w Cons u maybe_reschedule_ok [OF k1 cpu] k1 by (auto simp: wait_queue_wake_one_def peek_threads)
  qed
  then show "sinv C {} {} k'" "n = (if wq k q = [] then 0 else 1)" by simp_all
qed

lemma wake_all_loop_ok:
  assumes "sinv C X D k" "wake_all_loop q e list k = (list', k')"
  shows "list' = list @ wq k q \<and> sinv C (X \<union> set (wq k q)) D k' \<and> wq k' q = [] \<and> keeps k k'"
  using assms
proof (induction q e list k arbitrary: X rule: wake_all_loop.induct)
  case (1 q e list k)
  show ?case
  proof (cases "wq k q")
    case Nil
    then show ?thesis using "1.prems" by (simp add: wake_all_loop.simps [of q e list k] peek_threads keeps_def)
  next
    case (Cons t ts)
    let ?k = "wait_queue_dequeue_thread_internal q t e k"
    have t: "wait_queue_peek (k_wq k q) = Some t" "t \<in> set (wq k q)" using Cons by (simp_all add: peek_threads)
    note d = sinv_dequeue_wq [OF "1.prems"(1) t(2), of e]
    have ts: "wq ?k q = ts" using d(2) Cons by simp
    have "wake_all_loop q e (list @ [t]) ?k = (list', k')"
      using "1.prems"(2) t(1) by (simp add: wake_all_loop.simps [of q e list k])
    from "1.IH" [OF t(1) d(1) this] have IH: "list' = (list @ [t]) @ ts" "sinv C (insert t X \<union> set ts) D k'" "wq k' q = []" "keeps ?k k'"
      unfolding ts by blast+
    have "X \<union> set (wq k q) = insert t X \<union> set ts" by (auto simp: Cons)
    with IH show ?thesis by (simp add: Cons keeps_def)
  qed
qed

lemma wait_queue_wake_all_any:
  assumes inv: "sinv C {} D k" and cpu: "cpu \<in> C" and w: "wait_queue_wake_all cpu now q False e k = (n, k')"
  shows "sinv C {} D k' \<and> n = length (wq k q) \<and> k_current k' = k_current k \<and>
    (\<forall>s. th_state (k_thread k' s) = (if s \<in> set (wq k q) then THREAD_READY else th_state (k_thread k s)) \<and>
         th_flags (k_thread k' s) = th_flags (k_thread k s))"
proof (cases "wq_count (k_wq k q) = 0")
  case True
  with sinvD(3) [OF inv, of q] have "wq k q = []" by (simp add: wq_ok_def)
  with True w inv show ?thesis by (simp add: wait_queue_wake_all_def)
next
  case False
  obtain list k1 where l: "wake_all_loop q e [] k = (list, k1)" by force
  obtain lr k2 where u: "sched_unblock_list cpu list k1 = (lr, k2)" by force
  note L = wake_all_loop_ok [OF inv l]
  have list: "list = wq k q" "sinv C (set list) D k1" "keeps k k1" using L by simp_all
  have d: "distinct list" using sinvD(3) [OF inv, of q] by (simp add: list(1) wq_ok_def)
  have st: "th_state (k_thread k1 t) \<noteq> THREAD_RUNNING \<and> \<not> thread_is_idle (k_thread k1 t)" if "t \<in> set list" for t
    using wq_thread_facts [OF inv, of t q] that list(1,3) keeps_idle [OF list(3)] by (auto simp: keeps_def)
  have "\<forall>t \<in> set list. th_state (k_thread k1 t) \<noteq> THREAD_RUNNING \<and> \<not> thread_is_idle (k_thread k1 t)" using st by blast
  from sched_unblock_list_ok [OF list(2) cpu d order_refl this u] list(3) w False l u list(1)
  show ?thesis by (auto simp: wait_queue_wake_all_def keeps_def)
qed

lemma wait_queue_wake_all_split:
  "wait_queue_wake_all cpu now q r e k = (n, k') \<Longrightarrow>
   \<exists>k1. wait_queue_wake_all cpu now q False e k = (n, k1) \<and> (k' = k1 \<or> k' = sched_reschedule cpu now k1)"
  by (auto simp: wait_queue_wake_all_def Let_def split: if_splits prod.splits)

lemma wait_queue_wake_all_ok:
  assumes inv: "sinv C {} {} k" and cpu: "cpu \<in> C" and w: "wait_queue_wake_all cpu now q reschedule e k = (n, k')"
  shows "sinv C {} {} k'" "n = length (wq k q)"
proof -
  obtain k1 where k1: "wait_queue_wake_all cpu now q False e k = (n, k1)" "k' = k1 \<or> k' = sched_reschedule cpu now k1"
    using wait_queue_wake_all_split [OF w] by blast
  note A = wait_queue_wake_all_any [OF inv cpu k1(1)]
  show "sinv C {} {} k'" "n = length (wq k q)" using A k1(2) sched_reschedule_ok [OF _ cpu] by auto
qed

lemma wait_queue_unblock_thread_ok:
  assumes inv: "sinv C {} {} k" and cpu: "cpu \<in> C" and idle: "\<not> thread_is_idle (k_thread k t)"
    and u: "wait_queue_unblock_thread cpu now t e k = (st, k')"
  shows "sinv C {} {} k'" "st = (if blocked (k_thread k t) then ZX_OK else ZX_ERR_BAD_STATE)"
proof -
  note T = tinvD [OF sinvD(1) [OF inv, of t]]
  have "sinv C {} {} k' \<and> st = (if blocked (k_thread k t) then ZX_OK else ZX_ERR_BAD_STATE)"
  proof (cases "blocked (k_thread k t)")
    case True
    then obtain q where q: "th_blocking_wait_queue (k_thread k t) = Some q" using T(7) by auto
    then have mem: "t \<in> set (wq k q)" using T(5) by simp
    obtain lr k1 where s: "sched_unblock cpu t (wait_queue_dequeue_thread_internal q t e k) = (lr, k1)" by force
    note k1 = unblock_waiter(1) [OF inv cpu mem s]
    show ?thesis using u True q s maybe_reschedule_ok [OF k1 cpu] k1
      by (auto simp: wait_queue_unblock_thread_def blocked_def Let_def)
  next
    case False
    then show ?thesis using u idle inv by (auto simp: wait_queue_unblock_thread_def blocked_def)
  qed
  then show "sinv C {} {} k'" "st = (if blocked (k_thread k t) then ZX_OK else ZX_ERR_BAD_STATE)" by simp_all
qed

section \<open>Events keep the invariant\<close>

lemma sinv_interruptable: "sinv C X D k \<Longrightarrow> sinv C X D (upd_thread t (\<lambda>th. th\<lparr>th_interruptable := b\<rparr>) k)"
  by (rule sinv_same) (simp_all add: same_view_def)

lemma event_wait_worker_ok:
  assumes inv: "sinv C {} {} k" and cpu: "cpu \<in> C" and idle: "\<not> thread_is_idle (k_thread k (k_current k cpu))"
    and w: "event_wait_worker cpu now deadline interruptable signal_mask e k = (ret, e', k')"
  shows "sinv C {} {} k'"
proof -
  let ?k = "upd_thread (k_current k cpu) (\<lambda>th. th\<lparr>th_interruptable := interruptable\<rparr>) k"
  have k1: "sinv C {} {} ?k" using inv by (rule sinv_interruptable)
  have idle1: "\<not> thread_is_idle (k_thread ?k (k_current ?k cpu))" using idle by (simp add: thread_is_idle_def)
  obtain r k2 where b: "wait_queue_block_etc cpu now (ev_wait e) deadline signal_mask Normal ?k = (r, k2)" by force
  from wait_queue_block_etc_ok(1) [OF k1 cpu idle1 b] w b k1 show ?thesis
    by (auto simp: event_wait_worker_def Let_def sinv_interruptable split: if_splits)
qed

lemma event_signal_internal_ok:
  assumes inv: "sinv C {} {} k" and cpu: "cpu \<in> C" and s: "event_signal_internal cpu now reschedule st e k = (n, e', k')"
  shows "sinv C {} {} k'"
proof -
  obtain n1 k1 where w1: "wait_queue_wake_one cpu now (ev_wait e) reschedule st k = (n1, k1)" by force
  obtain n2 k2 where w2: "wait_queue_wake_all cpu now (ev_wait e) reschedule st k = (n2, k2)" by force
  show ?thesis using s w1 w2 inv wait_queue_wake_one_ok(1) [OF inv cpu w1] wait_queue_wake_all_ok(1) [OF inv cpu w2]
    by (auto simp: event_signal_internal_def split: if_splits)
qed

end
