(* ===== verification/Zx_Wake.thy ===== *)
theory Zx_Wake
  imports Zx_Wait
begin

unbundle bit_operations_syntax

text \<open>
  What the scheduler does not touch, and what waking a wait queue and signalling an event therefore do: the
  functional behaviour of the operations of \<^verbatim>\<open>Zx_Wait\<close>.
\<close>

section \<open>The scheduler leaves the waits alone\<close>

text \<open>The wait queues, and the parts of the threads that say what they wait for and how the wait ended.\<close>

definition same_wait :: "kernel \<Rightarrow> kernel \<Rightarrow> bool" where
  "same_wait k k' \<longleftrightarrow> k_wq k' = k_wq k \<and>
     (\<forall>s. th_blocked_status (k_thread k' s) = th_blocked_status (k_thread k s) \<and>
          th_blocking_wait_queue (k_thread k' s) = th_blocking_wait_queue (k_thread k s) \<and>
          th_signals (k_thread k' s) = th_signals (k_thread k s) \<and>
          th_interruptable (k_thread k' s) = th_interruptable (k_thread k s) \<and>
          th_retcode (k_thread k' s) = th_retcode (k_thread k s))"

lemma same_wait_refl [simp]: "same_wait k k"
  by (simp add: same_wait_def)

lemma same_wait_trans: "same_wait k1 k2 \<Longrightarrow> same_wait k2 k3 \<Longrightarrow> same_wait k1 k3"
  by (simp add: same_wait_def)

lemma same_wait_insert [simp]:
  "same_wait k (insert_in_run_queue_head c t k)" "same_wait k (insert_in_run_queue_tail c t k)"
  by (simp_all add: same_wait_def insert_in_run_queue_head_def insert_in_run_queue_tail_def mp_set_cpu_busy_def Let_def)

lemma same_wait_ipis [simp]: "same_wait k (send_ipis c m k)" "same_wait k (mp_reschedule c m k)"
  by (simp_all add: same_wait_def send_ipis_def mp_reschedule_def Let_def)

lemma same_wait_ready [simp]: "same_wait k (make_ready t k)"
  by (simp add: same_wait_def make_ready_def)

lemma same_wait_find: "find_cpu_mask cpu t k = (m, k1) \<Longrightarrow> same_wait k k1"
  by (auto simp: same_wait_def find_cpu_mask_def rand_cpu_def Let_def split: if_splits option.splits prod.splits)

lemma same_wait_find_insert:
  assumes "find_cpu_and_insert cpu t (lr, acc, k) = (lr', acc', k')"
  shows "same_wait k k'"
proof -
  obtain m k1 where f: "find_cpu_mask cpu t k = (m, k1)" by force
  let ?k2 = "upd_thread t (\<lambda>th. th\<lparr>th_curr_cpu := Some (lowest_cpu_set m)\<rparr>) k1"
  have "same_wait k1 ?k2" by (simp add: same_wait_def)
  from same_wait_trans [OF same_wait_find [OF f] this] have k2: "same_wait k ?k2" .
  have "k' = insert_in_run_queue_head (lowest_cpu_set m) t ?k2 \<or> k' = insert_in_run_queue_tail (lowest_cpu_set m) t ?k2"
    using assms by (auto simp: find_cpu_and_insert_def f Let_def split: if_splits)
  with k2 show ?thesis by (auto intro: same_wait_trans)
qed

lemma same_wait_resched [simp]: "same_wait k (sched_resched_internal cpu now k)"
  by (auto simp: same_wait_def sched_resched_internal_def sched_get_top_thread_def account_new_def account_old_def Let_def)

lemma set_boost_wait [simp]:
  "th_blocked_status (set_boost b th) = th_blocked_status th" "th_signals (set_boost b th) = th_signals th"
  "th_interruptable (set_boost b th) = th_interruptable th" "th_retcode (set_boost b th) = th_retcode th"
  by (simp_all add: set_boost_def)

lemma same_wait_boost:
  assumes "th_blocking_wait_queue (k_thread k t) = None" "prio_ok (k_thread k t)"
  shows "same_wait k (boost_thread t k)" "same_wait k (deboost_thread t quantum k)"
  using boost_thread_eq [OF assms] deboost_thread_eq [OF assms, of quantum] by (simp_all add: same_wait_def)

lemma same_wait_migrate: "same_wait k (migrate_current_thread cpu now t k)"
proof -
  obtain lr m k1 where f: "find_cpu_and_insert cpu t (False, 0, make_ready t k) = (lr, m, k1)" by (rule prod_cases3)
  have "same_wait k k1" using same_wait_trans [OF same_wait_ready same_wait_find_insert [OF f]] .
  with f show ?thesis by (simp add: migrate_current_thread_def)
     (rule same_wait_trans, assumption, rule same_wait_trans [OF same_wait_ipis(1) same_wait_resched])
qed

lemma same_wait_requeue: "same_wait k (requeue_current cpu now t k)"
  by (auto simp: requeue_current_def local_migrate_if_needed_def Let_def same_wait_migrate
      intro: same_wait_trans [OF same_wait_insert(1) same_wait_resched] same_wait_trans [OF same_wait_insert(2) same_wait_resched])

lemma same_wait_reschedule:
  assumes inv: "sinv C {} {} k" and cpu: "cpu \<in> C"
  shows "same_wait k (sched_reschedule cpu now k)"
proof -
  let ?t = "k_current k cpu" and ?k = "make_ready (k_current k cpu) k"
  have free: "th_blocking_wait_queue (k_thread ?k ?t) = None" "prio_ok (k_thread ?k ?t)"
    using current_free [OF inv cpu] by (simp_all add: make_ready_def prio_ok_def)
  have d: "same_wait k (deboost_thread ?t False ?k)" using same_wait_trans [OF same_wait_ready same_wait_boost(2) [OF free]] .
  have p: "same_wait k (upd_thread ?t (\<lambda>th. th\<lparr>th_preempt_pending := True\<rparr>) k)" by (simp add: same_wait_def)
  show ?thesis
    using p same_wait_trans [OF d same_wait_requeue] same_wait_trans [OF same_wait_ready same_wait_resched]
    by (simp add: sched_reschedule_def Let_def)
qed

lemma same_wait_unblock:
  assumes "sinv C X D k" "t \<in> X" "sched_unblock cpu t k = (lr, k')"
  shows "same_wait k k'"
proof -
  note T = tinvD [OF sinvD(1) [OF assms(1), of t]]
  obtain l m k1 where f: "find_cpu_and_insert cpu t (False, 0, make_ready t (boost_thread t k)) = (l, m, k1)" by (rule prod_cases3)
  have "same_wait k k1"
    using same_wait_trans [OF same_wait_trans [OF same_wait_boost(1) [OF T(6) [OF assms(2)] T(1)] same_wait_ready] same_wait_find_insert [OF f]] .
  moreover have "k' = send_ipis cpu m k1" using assms(3) f by (simp add: sched_unblock_def)
  ultimately show ?thesis using same_wait_trans [OF _ same_wait_ipis(1)] by blast
qed

lemma same_wait_unblock_fold:
  assumes "sinv C X D k" "cpu \<in> C" "distinct ts" "set ts \<subseteq> X"
    "\<forall>t \<in> set ts. th_state (k_thread k t) \<noteq> THREAD_RUNNING \<and> \<not> thread_is_idle (k_thread k t)"
    "fold (\<lambda>t (lr, acc, k). find_cpu_and_insert cpu t (lr, acc, make_ready t (boost_thread t k))) ts (lr, acc, k) = (lr', acc', k')"
  shows "same_wait k k'"
  using assms
proof (induction ts arbitrary: X k lr acc)
  case (Cons t ts)
  note T = tinvD [OF sinvD(1) [OF Cons.prems(1), of t]]
  obtain l a k1 where f: "find_cpu_and_insert cpu t (lr, acc, make_ready t (boost_thread t k)) = (l, a, k1)" by (rule prod_cases3)
  have t: "t \<in> X" "th_state (k_thread k t) \<noteq> THREAD_RUNNING" "\<not> thread_is_idle (k_thread k t)" using Cons.prems(4,5) by auto
  note one = unblock_one [OF Cons.prems(1,2) t f]
  have k1: "same_wait k k1"
    using same_wait_trans [OF same_wait_trans [OF same_wait_boost(1) [OF T(6) [OF t(1)] T(1)] same_wait_ready] same_wait_find_insert [OF f]] .
  have st: "\<forall>s \<in> set ts. th_state (k_thread k1 s) \<noteq> THREAD_RUNNING \<and> \<not> thread_is_idle (k_thread k1 s)"
    using Cons.prems(3,5) one(2) by (auto simp: keeps_def make_ready_def thread_is_idle_def)
  have "same_wait k1 k'"
    by (rule Cons.IH [OF one(1) Cons.prems(2) _ _ st]) (use Cons.prems(3,4,6) f in auto)
  with k1 show ?case by (rule same_wait_trans)
qed simp

lemma same_wait_unblock_list:
  assumes "sinv C X D k" "cpu \<in> C" "distinct ts" "set ts \<subseteq> X"
    "\<forall>t \<in> set ts. th_state (k_thread k t) \<noteq> THREAD_RUNNING \<and> \<not> thread_is_idle (k_thread k t)"
    "sched_unblock_list cpu ts k = (lr, k')"
  shows "same_wait k k'"
proof -
  obtain l m k1 where f: "fold (\<lambda>t (lr, acc, k). find_cpu_and_insert cpu t (lr, acc, make_ready t (boost_thread t k)))
      (rev ts) (False, 0, k) = (l, m, k1)" by (rule prod_cases3)
  have "same_wait k k1" by (rule same_wait_unblock_fold [OF assms(1,2) _ _ _ f]) (use assms in auto)
  moreover have "k' = send_ipis cpu m k1" using assms(6) f by (simp add: sched_unblock_list_def)
  ultimately show ?thesis using same_wait_trans [OF _ same_wait_ipis(1)] by blast
qed

section \<open>What waking does\<close>

text \<open>Thread t has left queue q with status e, and no other wait has changed.\<close>

definition woken :: "tid set \<Rightarrow> wqid \<Rightarrow> zx_status \<Rightarrow> kernel \<Rightarrow> kernel \<Rightarrow> bool" where
  "woken T q e k k' \<longleftrightarrow> wq k' q = filter (\<lambda>s. s \<notin> T) (wq k q) \<and> (\<forall>r. r \<noteq> q \<longrightarrow> k_wq k' r = k_wq k r) \<and>
     (\<forall>s. th_blocked_status (k_thread k' s) = (if s \<in> T then e else th_blocked_status (k_thread k s)) \<and>
          th_blocking_wait_queue (k_thread k' s) = (if s \<in> T then None else th_blocking_wait_queue (k_thread k s)) \<and>
          th_signals (k_thread k' s) = th_signals (k_thread k s) \<and>
          th_interruptable (k_thread k' s) = th_interruptable (k_thread k s) \<and>
          th_retcode (k_thread k' s) = th_retcode (k_thread k s))"

lemma woken_same: "woken T q e k k1 \<Longrightarrow> same_wait k1 k2 \<Longrightarrow> woken T q e k k2"
  by (simp add: woken_def same_wait_def)

lemma remove1_filter: "distinct xs \<Longrightarrow> remove1 t xs = filter (\<lambda>s. s \<noteq> t) xs"
  by (auto simp: distinct_remove1_removeAll removeAll_filter_not_eq intro!: filter_cong)

lemma dequeue_woken:
  assumes "sinv C X D k" "t \<in> set (wq k q)"
  shows "woken {t} q e k (wait_queue_dequeue_thread_internal q t e k)"
proof -
  have "distinct (wq k q)" using sinvD(3) [OF assms(1), of q] by (simp add: wq_ok_def)
  from sinv_dequeue_wq(2) [OF assms, of e] remove1_filter [OF this]
  have "wq (wait_queue_dequeue_thread_internal q t e k) q = filter (\<lambda>s. s \<notin> {t}) (wq k q)" by simp
  then show ?thesis by (simp add: woken_def)
qed

lemma unblock_waiter_woken:
  assumes inv: "sinv C {} {} k" and cpu: "cpu \<in> C" and t: "t \<in> set (wq k q)"
    and u: "sched_unblock cpu t (wait_queue_dequeue_thread_internal q t e k) = (lr, k1)"
    and k': "k' = (if b then sched_reschedule cpu now k1 else k1)"
  shows "woken {t} q e k k'" "\<not> b \<Longrightarrow> th_state (k_thread k' t) = THREAD_READY"
proof -
  note U = unblock_waiter [OF inv cpu t u]
  have "woken {t} q e k k1"
    by (rule woken_same [OF dequeue_woken [OF inv t] same_wait_unblock [OF sinv_dequeue_wq(1) [OF inv t] insertI1 u]])
  then show "woken {t} q e k k'" unfolding k' using woken_same same_wait_reschedule [OF U(1) cpu] by auto
  show "th_state (k_thread k' t) = THREAD_READY" if "\<not> b" using U(2) that by (simp add: k' keeps_def make_ready_def)
qed

lemma wake_one_woken:
  assumes inv: "sinv C {} {} k" and cpu: "cpu \<in> C" and q: "wq k q = t # ts"
    and w: "wait_queue_wake_one cpu now q reschedule e k = (n, k')"
  shows "n = 1" "woken {t} q e k k'" "wq k' q = ts" "\<not> reschedule \<Longrightarrow> th_state (k_thread k' t) = THREAD_READY"
    "\<And>s. s \<in> set ts \<Longrightarrow> effec k s \<le> effec k t"
proof -
  obtain lr k1 where u: "sched_unblock cpu t (wait_queue_dequeue_thread_internal q t e k) = (lr, k1)" by force
  have mem: "t \<in> set (wq k q)" by (simp add: q)
  have r: "n = 1 \<and> k' = (if reschedule \<and> lr then sched_reschedule cpu now k1 else k1)"
    using w u by (auto simp: wait_queue_wake_one_def peek_threads q)
  then show "n = 1" by simp
  note U = unblock_waiter_woken [OF inv cpu mem u conjunct2 [OF r]]
  show "woken {t} q e k k'" by (rule U(1))
  show "th_state (k_thread k' t) = THREAD_READY" if "\<not> reschedule" using U(2) that by simp
  have ok: "wq_ok (effec k) (k_wq k q)" using sinvD(3) [OF inv] .
  have "t \<notin> set ts" using ok by (simp add: wq_ok_def q)
  then have "filter (\<lambda>s. s \<notin> {t}) (wq k q) = ts" by (simp add: q filter_id_conv) metis
  with U(1) show "wq k' q = ts" by (simp add: woken_def)
  show "effec k s \<le> effec k t" if "s \<in> set ts" for s
    by (rule wqq.front_highest [OF ok]) (use that in \<open>simp_all add: peek_threads q\<close>)
qed

lemma wake_all_loop_woken:
  assumes "sinv C X D k" "wake_all_loop q e list k = (list', k')"
  shows "woken (set (wq k q)) q e k k'"
  using assms
proof (induction q e list k arbitrary: X rule: wake_all_loop.induct)
  case (1 q e list k)
  show ?case
  proof (cases "wq k q")
    case Nil
    then show ?thesis using "1.prems" by (simp add: wake_all_loop.simps [of q e list k] peek_threads woken_def)
  next
    case (Cons t ts)
    let ?k = "wait_queue_dequeue_thread_internal q t e k"
    have t: "wait_queue_peek (k_wq k q) = Some t" "t \<in> set (wq k q)" using Cons by (simp_all add: peek_threads)
    note d = sinv_dequeue_wq [OF "1.prems"(1) t(2), of e]
    have ts: "wq ?k q = ts" using d(2) Cons by simp
    have l: "wake_all_loop q e (list @ [t]) ?k = (list', k')"
      using "1.prems"(2) t(1) by (simp add: wake_all_loop.simps [of q e list k])
    have "woken (set ts) q e ?k k'" using "1.IH" [OF t(1) d(1) l] unfolding ts .
    with dequeue_woken [OF "1.prems"(1) t(2), of e] show ?thesis by (auto simp: woken_def ts Cons)
  qed
qed

lemma wake_all_woken_any:
  assumes inv: "sinv C {} D k" and cpu: "cpu \<in> C" and w: "wait_queue_wake_all cpu now q False e k = (n, k')"
  shows "woken (set (wq k q)) q e k k'"
proof (cases "wq_count (k_wq k q) = 0")
  case True
  with sinvD(3) [OF inv, of q] have "wq k q = []" by (simp add: wq_ok_def)
  with True w show ?thesis by (simp add: wait_queue_wake_all_def woken_def)
next
  case False
  obtain list k2 where l: "wake_all_loop q e [] k = (list, k2)" by force
  obtain lr k3 where u: "sched_unblock_list cpu list k2 = (lr, k3)" by force
  note L = wake_all_loop_ok [OF inv l]
  have list: "list = wq k q" "sinv C (set list) D k2" "keeps k k2" using L by simp_all
  have d: "distinct list" using sinvD(3) [OF inv, of q] by (simp add: list(1) wq_ok_def)
  have "\<forall>t \<in> set list. th_state (k_thread k2 t) \<noteq> THREAD_RUNNING \<and> \<not> thread_is_idle (k_thread k2 t)"
    using wq_thread_facts [OF inv, of _ q] list(1,3) keeps_idle [OF list(3)] by (auto simp: keeps_def)
  from same_wait_unblock_list [OF list(2) cpu d order_refl this u] wake_all_loop_woken [OF inv l]
  have "woken (set (wq k q)) q e k k3" using woken_same by blast
  moreover have "k' = k3" using w False l u by (simp add: wait_queue_wake_all_def)
  ultimately show ?thesis by simp
qed

lemma wake_all_woken:
  assumes inv: "sinv C {} {} k" and cpu: "cpu \<in> C" and w: "wait_queue_wake_all cpu now q reschedule e k = (n, k')"
  shows "woken (set (wq k q)) q e k k'" "wq k' q = []"
proof -
  obtain k1 where k1: "wait_queue_wake_all cpu now q False e k = (n, k1)" "k' = k1 \<or> k' = sched_reschedule cpu now k1"
    using wait_queue_wake_all_split [OF w] by blast
  have i: "sinv C {} {} k1" using wait_queue_wake_all_any [OF inv cpu k1(1)] by simp
  show r: "woken (set (wq k q)) q e k k'"
    using wake_all_woken_any [OF inv cpu k1(1)] k1(2) woken_same same_wait_reschedule [OF i cpu] by blast
  then show "wq k' q = []" by (simp add: woken_def)
qed

lemma unblock_thread_woken:
  assumes inv: "sinv C {} {} k" and cpu: "cpu \<in> C" and t: "th_blocking_wait_queue (k_thread k t) = Some q"
    and u: "wait_queue_unblock_thread cpu now t e k = (st, k')"
  shows "st = ZX_OK" "woken {t} q e k k'"
proof -
  have mem: "t \<in> set (wq k q)" using tinvD(5) [OF sinvD(1) [OF inv]] t by simp
  note F = wq_thread_facts [OF inv mem]
  obtain lr k1 where s: "sched_unblock cpu t (wait_queue_dequeue_thread_internal q t e k) = (lr, k1)" by force
  have r: "st = ZX_OK \<and> k' = (if lr then sched_reschedule cpu now k1 else k1)"
    using u F(2) t s by (auto simp: wait_queue_unblock_thread_def blocked_def Let_def)
  then show "st = ZX_OK" by simp
  show "woken {t} q e k k'" by (rule unblock_waiter_woken(1) [OF inv cpu mem s conjunct2 [OF r]])
qed

section \<open>What events do\<close>

text \<open>No thread waits for an event that is signaled.\<close>

definition event_ok :: "event \<Rightarrow> kernel \<Rightarrow> bool" where
  "event_ok e k \<longleftrightarrow> (ev_signaled e \<longrightarrow> wq k (ev_wait e) = [])"

lemma event_signal_result:
  assumes inv: "sinv C {} {} k" and cpu: "cpu \<in> C" and ok: "event_ok e k"
    and s: "event_signal_internal cpu now reschedule st e k = (n, e', k')"
  shows "event_ok e' k'" "ev_wait e' = ev_wait e" "ev_flags e' = ev_flags e"
    "ev_signaled e \<Longrightarrow> e' = e \<and> k' = k \<and> n = 0"
    "\<not> ev_signaled e \<Longrightarrow> \<not> has_signal (ev_flags e) EVENT_FLAG_AUTOUNSIGNAL \<Longrightarrow>
     ev_signaled e' \<and> n = length (wq k (ev_wait e)) \<and> woken (set (wq k (ev_wait e))) (ev_wait e) st k k'"
    "\<not> ev_signaled e \<Longrightarrow> has_signal (ev_flags e) EVENT_FLAG_AUTOUNSIGNAL \<Longrightarrow> wq k (ev_wait e) = [] \<Longrightarrow>
     ev_signaled e' \<and> n = 0 \<and> k' = k"
    "\<not> ev_signaled e \<Longrightarrow> has_signal (ev_flags e) EVENT_FLAG_AUTOUNSIGNAL \<Longrightarrow> wq k (ev_wait e) = t # ts \<Longrightarrow>
     e' = e \<and> n = 1 \<and> woken {t} (ev_wait e) st k k'"
proof -
  obtain n1 k1 where w1: "wait_queue_wake_one cpu now (ev_wait e) reschedule st k = (n1, k1)" by force
  obtain n2 k2 where w2: "wait_queue_wake_all cpu now (ev_wait e) reschedule st k = (n2, k2)" by force
  note W = wait_queue_wake_one_ok [OF inv cpu w1] wait_queue_wake_all_ok [OF inv cpu w2] wake_all_woken [OF inv cpu w2]
  have one: "n1 = 1 \<and> woken {t} (ev_wait e) st k k1 \<and> wq k1 (ev_wait e) = ts" if "wq k (ev_wait e) = t # ts" for t ts
    using wake_one_woken(1-3) [OF inv cpu that w1] by simp
  have none: "k1 = k" if "wq k (ev_wait e) = []" using w1 that by (simp add: wait_queue_wake_one_def peek_threads)
  show "ev_wait e' = ev_wait e" "ev_flags e' = ev_flags e"
    using s w1 w2 by (auto simp: event_signal_internal_def split: if_splits)
  show "event_ok e' k'"
    using s w1 w2 W ok none by (auto simp: event_signal_internal_def event_ok_def split: if_splits)
  show "e' = e \<and> k' = k \<and> n = 0" if "ev_signaled e" using s that by (simp add: event_signal_internal_def)
  assume u: "\<not> ev_signaled e"
  show "ev_signaled e' \<and> n = length (wq k (ev_wait e)) \<and> woken (set (wq k (ev_wait e))) (ev_wait e) st k k'"
    if "\<not> has_signal (ev_flags e) EVENT_FLAG_AUTOUNSIGNAL"
    using s u that w2 W by (auto simp: event_signal_internal_def)
  assume a: "has_signal (ev_flags e) EVENT_FLAG_AUTOUNSIGNAL"
  show "ev_signaled e' \<and> n = 0 \<and> k' = k" if "wq k (ev_wait e) = []"
    using s u a that w1 W(2) none by (auto simp: event_signal_internal_def)
  show "e' = e \<and> n = 1 \<and> woken {t} (ev_wait e) st k k'" if "wq k (ev_wait e) = t # ts"
    using s u a w1 one [OF that] by (auto simp: event_signal_internal_def)
qed

lemma block_etc_wq:
  assumes inv: "sinv C {} {} k" and cpu: "cpu \<in> C" and idle: "\<not> thread_is_idle (k_thread k (k_current k cpu))"
    and b: "wait_queue_block_etc cpu now q deadline signal_mask reason k = (ret, k')"
  shows "wq k' q = (if ret = None then insert_stable (effec k) (k_current k cpu) (wq k q) else wq k q)"
proof -
  obtain res k1 where pre: "wait_queue_block_etc_pre now (k_current k cpu) q deadline signal_mask reason k = (res, k1)" by force
  have "k_wq (sched_block cpu now k1) = k_wq k1"
    using same_wait_resched [of k1 cpu now] by (simp add: same_wait_def sched_block_def)
  with block_pre_ok [OF inv cpu idle pre] b pre show ?thesis by (auto simp: wait_queue_block_etc_def split: if_splits)
qed

lemma event_wait_result:
  assumes inv: "sinv C {} {} k" and cpu: "cpu \<in> C" and idle: "\<not> thread_is_idle (k_thread k (k_current k cpu))" and ok: "event_ok e k"
    and w: "event_wait_worker cpu now deadline interruptable signal_mask e k = (ret, e', k')"
  shows "event_ok e' k'" "ev_wait e' = ev_wait e" "ev_flags e' = ev_flags e"
    "ev_signaled e \<Longrightarrow> ret = Some ZX_OK \<and> ev_signaled e' = (\<not> has_signal (ev_flags e) EVENT_FLAG_AUTOUNSIGNAL)"
    "\<not> ev_signaled e \<Longrightarrow> ret \<noteq> Some ZX_OK \<and> e' = e"
    "ret = None \<Longrightarrow> wq k' (ev_wait e) = insert_stable (effec k) (k_current k cpu) (wq k (ev_wait e))"
proof -
  let ?k = "upd_thread (k_current k cpu) (\<lambda>th. th\<lparr>th_interruptable := interruptable\<rparr>) k"
  have k1: "sinv C {} {} ?k" using inv by (rule sinv_interruptable)
  have idle1: "\<not> thread_is_idle (k_thread ?k (k_current ?k cpu))" using idle by (simp add: thread_is_idle_def)
  obtain r k2 where b: "wait_queue_block_etc cpu now (ev_wait e) deadline signal_mask Normal ?k = (r, k2)" by force
  have r: "r \<noteq> Some ZX_OK" using b by (auto simp: wait_queue_block_etc_def split: if_splits prod.splits)
  have eff: "effec ?k = effec k" by auto
  note W = block_etc_wq [OF k1 cpu idle1 b, unfolded eff]
  show "event_ok e' k'" "ev_wait e' = ev_wait e" "ev_flags e' = ev_flags e"
    using w b ok by (auto simp: event_wait_worker_def event_ok_def Let_def split: if_splits)
  show "ev_signaled e \<Longrightarrow> ret = Some ZX_OK \<and> ev_signaled e' = (\<not> has_signal (ev_flags e) EVENT_FLAG_AUTOUNSIGNAL)"
    using w by (auto simp: event_wait_worker_def Let_def)
  show "\<not> ev_signaled e \<Longrightarrow> ret \<noteq> Some ZX_OK \<and> e' = e"
    using w b r by (auto simp: event_wait_worker_def Let_def)
  show "ret = None \<Longrightarrow> wq k' (ev_wait e) = insert_stable (effec k) (k_current k cpu) (wq k (ev_wait e))"
    using w b W by (auto simp: event_wait_worker_def Let_def split: if_splits)
qed

end
