(* ===== verification/Zx_Dpc.thy ===== *)
theory Zx_Dpc
  imports Zx_Wake
begin

unbundle bit_operations_syntax

text \<open>
  Deferred procedure calls: \<^verbatim>\<open>kernel/kernel/dpc.cpp\<close>. Each processor has a list of queued calls, an
  event that wakes its worker thread and a flag that stops the worker.

  Queueing a call adds it under the lock of the lists and signals the event after releasing that lock, so
  other steps may come in between; the two halves are separate definitions.
\<close>

section \<open>Data and operations\<close>

type_synonym dpc = nat

record percpu_dpc =
  dpc_list :: "dpc list"
  dpc_event :: event
  dpc_stop :: bool
  dpc_worker :: "tid option"

type_synonym dpcs = "cpu_num \<Rightarrow> percpu_dpc"

definition dpc_in_list :: "dpc \<Rightarrow> dpcs \<Rightarrow> bool" where
  "dpc_in_list d s = list_ex (\<lambda>c. d \<in> set (dpc_list (s c))) [0 ..< SMP_MAX_CPUS]"

definition dpc_queue_add :: "cpu_num \<Rightarrow> dpc \<Rightarrow> dpcs \<Rightarrow> zx_status \<times> dpcs" where
  "dpc_queue_add cpu d s =
     (if dpc_in_list d s then (ZX_ERR_ALREADY_EXISTS, s)
      else (ZX_OK, s(cpu := (s cpu)\<lparr>dpc_list := dpc_list (s cpu) @ [d]\<rparr>)))"

definition dpc_queue_signal :: "cpu_num \<Rightarrow> zx_time \<Rightarrow> bool \<Rightarrow> cpu_num \<Rightarrow> dpcs \<times> kernel \<Rightarrow> dpcs \<times> kernel" where
  "dpc_queue_signal cpu now reschedule c = (\<lambda>(s, k).
     let (_, e, k1) = event_signal cpu now reschedule (dpc_event (s c)) k in (s(c := (s c)\<lparr>dpc_event := e\<rparr>), k1))"

definition dpc_queue :: "cpu_num \<Rightarrow> zx_time \<Rightarrow> dpc \<Rightarrow> bool \<Rightarrow> dpcs \<times> kernel \<Rightarrow> zx_status \<times> dpcs \<times> kernel" where
  "dpc_queue cpu now d reschedule = (\<lambda>(s, k).
     let (st, s1) = dpc_queue_add cpu d s in
     if st \<noteq> ZX_OK then (st, s1, k) else (ZX_OK, dpc_queue_signal cpu now reschedule cpu (s1, k)))"

definition dpc_queue_thread_locked :: "cpu_num \<Rightarrow> zx_time \<Rightarrow> dpc \<Rightarrow> dpcs \<times> kernel \<Rightarrow> zx_status \<times> dpcs \<times> kernel" where
  "dpc_queue_thread_locked cpu now d = (\<lambda>(s, k).
     if dpc_in_list d s then (ZX_ERR_ALREADY_EXISTS, s, k)
     else
       let p = (s cpu)\<lparr>dpc_list := dpc_list (s cpu) @ [d]\<rparr>;
           (_, e, k1) = event_signal_thread_locked cpu now (dpc_event p) k in
       (ZX_OK, s(cpu := p\<lparr>dpc_event := e\<rparr>), k1))"

text \<open>Asking the worker to stop, up to the join.\<close>

definition dpc_shutdown :: "cpu_num \<Rightarrow> zx_time \<Rightarrow> cpu_num \<Rightarrow> dpcs \<times> kernel \<Rightarrow> tid option \<times> dpcs \<times> kernel" where
  "dpc_shutdown cpu now cpu_id = (\<lambda>(s, k).
     let t = dpc_worker (s cpu_id); s1 = s(cpu_id := (s cpu_id)\<lparr>dpc_stop := True, dpc_worker := None\<rparr>) in
     (t, dpc_queue_signal cpu now False cpu_id (s1, k)))"

definition dpc_shutdown_transition_off_cpu :: "cpu_num \<Rightarrow> cpu_num \<Rightarrow> dpcs \<times> kernel \<Rightarrow> (dpcs \<times> kernel) option" where
  "dpc_shutdown_transition_off_cpu cur_cpu cpu_id = (\<lambda>(s, k).
     let moved = dpc_list (s cpu_id);
         s1 = s(cur_cpu := (s cur_cpu)\<lparr>dpc_list := dpc_list (s cur_cpu) @ moved\<rparr>);
         s2 = s1(cpu_id := (s1 cpu_id)\<lparr>dpc_list := [], dpc_stop := False\<rparr>) in
     map_option (\<lambda>(e, k1). (s2(cpu_id := (s2 cpu_id)\<lparr>dpc_event := e\<rparr>), k1)) (event_destroy (dpc_event (s2 cpu_id)) k))"

text \<open>Starting a processor, again or for the first time. Creating and resuming the worker thread are operations
  of \<^verbatim>\<open>Zx_Threads\<close>; the thread is an argument.\<close>

definition dpc_init_for_cpu :: "tid \<Rightarrow> percpu_dpc \<Rightarrow> percpu_dpc" where
  "dpc_init_for_cpu t p =
     (if event_initialized (dpc_event p) then p
      else \<lparr>dpc_list = [], dpc_event = event_init (ev_wait (dpc_event p)) False 0, dpc_stop = False, dpc_worker = Some t\<rparr>)"

text \<open>One round of the worker after its wait: it ends, calls nothing, or calls a queued call.\<close>

datatype dpc_action = Dpc_Exit | Dpc_Nothing | Dpc_Call dpc

definition dpc_thread_round :: "percpu_dpc \<Rightarrow> dpc_action \<times> percpu_dpc" where
  "dpc_thread_round p =
     (if dpc_stop p then (Dpc_Exit, p)
      else case dpc_list p of
             [] \<Rightarrow> (Dpc_Nothing, p\<lparr>dpc_event := snd (event_unsignal (dpc_event p))\<rparr>)
           | d # ds \<Rightarrow> (Dpc_Call d, p\<lparr>dpc_list := ds\<rparr>))"

definition dpc_thread_wait :: "cpu_num \<Rightarrow> zx_time \<Rightarrow> cpu_num \<Rightarrow> dpcs \<times> kernel \<Rightarrow> zx_status option \<times> dpcs \<times> kernel" where
  "dpc_thread_wait cpu now c = (\<lambda>(s, k).
     let (ret, e, k1) = event_wait cpu now (dpc_event (s c)) k in (ret, s(c := (s c)\<lparr>dpc_event := e\<rparr>), k1))"

lemma event_wait_other:
  assumes inv: "sinv C {} {} k" and cpu: "cpu \<in> C" and idle: "\<not> thread_is_idle (k_thread k (k_current k cpu))"
    and w: "event_wait_worker cpu now deadline interruptable signal_mask e k = (ret, e', k')" and q: "q \<noteq> ev_wait e"
  shows "k_wq k' q = k_wq k q"
proof -
  let ?k = "upd_thread (k_current k cpu) (\<lambda>th. th\<lparr>th_interruptable := interruptable\<rparr>) k"
  obtain res k1 where pre: "wait_queue_block_etc_pre now (k_current k cpu) (ev_wait e) deadline signal_mask Normal ?k = (res, k1)" by force
  have "k_wq k1 q = k_wq k q"
    using pre q by (auto simp: wait_queue_block_etc_pre_def wait_queue_insert_def Let_def split: if_splits)
  moreover have "k_wq (sched_block cpu now k1) = k_wq k1"
    using same_wait_resched [of k1 cpu now] by (simp add: same_wait_def sched_block_def)
  ultimately show ?thesis using w pre
    by (auto simp: event_wait_worker_def wait_queue_block_etc_def Let_def split: if_splits)
qed

section \<open>Interleavings\<close>

text \<open>
  The steps of the threads that use the lists of the processors in C. For each processor, \<open>pend\<close> counts the
  callers of \<open>dpc_queue\<close> that have added their call and not yet signaled the event. The auxiliary flag \<open>moved\<close>
  of a processor is set when calls of a processor that was taken away are moved to its list, and reset when its
  event is signaled or its list runs empty. Calls are queued only on a processor that has been started: one that
  was taken away runs nothing until it is started again. Everything else in the kernel may change the
  scheduler's state in any way that keeps its invariant and puts no thread on the wait queues of these events.
\<close>

record dpc_conf =
  dc_dpcs :: dpcs
  dc_kernel :: kernel
  dc_pend :: "cpu_num \<Rightarrow> nat"
  dc_moved :: "cpu_num \<Rightarrow> bool"

abbreviation conf :: "dpcs \<Rightarrow> kernel \<Rightarrow> (cpu_num \<Rightarrow> nat) \<Rightarrow> (cpu_num \<Rightarrow> bool) \<Rightarrow> dpc_conf" where
  "conf s k pend moved \<equiv> \<lparr>dc_dpcs = s, dc_kernel = k, dc_pend = pend, dc_moved = moved\<rparr>"

inductive dpc_step :: "cpu_num set \<Rightarrow> dpc_conf \<Rightarrow> dpc_conf \<Rightarrow> bool" for C where
  add: "dpc_queue_add c d s = (ZX_OK, s') \<Longrightarrow> c \<in> C \<Longrightarrow> event_initialized (dpc_event (s c)) \<Longrightarrow>
    dpc_step C (conf s k pend moved) (conf s' k (pend(c := Suc (pend c))) moved)"
| add_refused: "dpc_queue_add c d s = (st, s') \<Longrightarrow> st \<noteq> ZX_OK \<Longrightarrow> c \<in> C \<Longrightarrow>
    dpc_step C (conf s k pend moved) (conf s' k pend moved)"
| signal: "pend c = Suc n \<Longrightarrow> cpu \<in> C \<Longrightarrow> dpc_queue_signal cpu now reschedule c (s, k) = (s', k') \<Longrightarrow>
    dpc_step C (conf s k pend moved) (conf s' k' (pend(c := n)) (moved(c := False)))"
| queue_locked: "cpu \<in> C \<Longrightarrow> event_initialized (dpc_event (s cpu)) \<Longrightarrow> dpc_queue_thread_locked cpu now d (s, k) = (ZX_OK, s', k') \<Longrightarrow>
    dpc_step C (conf s k pend moved) (conf s' k' pend (moved(cpu := False)))"
| queue_locked_refused: "cpu \<in> C \<Longrightarrow> dpc_queue_thread_locked cpu now d (s, k) = (st, s', k') \<Longrightarrow> st \<noteq> ZX_OK \<Longrightarrow>
    dpc_step C (conf s k pend moved) (conf s' k' pend moved)"
| worker_wait: "cpu \<in> C \<Longrightarrow> \<not> thread_is_idle (k_thread k (k_current k cpu)) \<Longrightarrow> dpc_thread_wait cpu now c (s, k) = (ret, s', k') \<Longrightarrow>
    dpc_step C (conf s k pend moved) (conf s' k' pend moved)"
| worker_round: "dpc_thread_round (s c) = (act, p) \<Longrightarrow>
    dpc_step C (conf s k pend moved) (conf (s(c := p)) k pend (moved(c := moved c \<and> dpc_list p \<noteq> [])))"
| shutdown: "cpu \<in> C \<Longrightarrow> dpc_shutdown cpu now c (s, k) = (t, s', k') \<Longrightarrow>
    dpc_step C (conf s k pend moved) (conf s' k' pend (moved(c := False)))"
| transition: "cur \<in> C \<Longrightarrow> cur \<noteq> c \<Longrightarrow> event_initialized (dpc_event (s cur)) \<Longrightarrow> dpc_stop (s c) \<Longrightarrow> dpc_worker (s c) = None \<Longrightarrow>
    dpc_shutdown_transition_off_cpu cur c (s, k) = Some (s', k') \<Longrightarrow>
    dpc_step C (conf s k pend moved) (conf s' k' pend (moved(cur := moved cur \<or> dpc_list (s c) \<noteq> [], c := False)))"
| restart: "dpc_step C (conf s k pend moved) (conf (s(c := dpc_init_for_cpu t (s c))) k pend moved)"
| other: "sinv C {} {} k' \<Longrightarrow> (\<And>c. set (wq k' (ev_wait (dpc_event (s c)))) \<subseteq> set (wq k (ev_wait (dpc_event (s c))))) \<Longrightarrow>
    dpc_step C (conf s k pend moved) (conf s k' pend moved)"

definition dpc_init_state :: "(cpu_num \<Rightarrow> wqid) \<Rightarrow> dpcs" where
  "dpc_init_state q = (\<lambda>c. \<lparr>dpc_list = [], dpc_event = event_init (q c) False 0, dpc_stop = False, dpc_worker = None\<rparr>)"

inductive dpc_reach :: "cpu_num set \<Rightarrow> dpc_conf \<Rightarrow> bool" for C where
  init: "sinv C {} {} k \<Longrightarrow> inj q \<Longrightarrow> dpc_reach C (conf (dpc_init_state q) k (\<lambda>_. 0) (\<lambda>_. False))"
| step: "dpc_reach C cf \<Longrightarrow> dpc_step C cf cf' \<Longrightarrow> dpc_reach C cf'"

definition dpc_ok :: "kernel \<Rightarrow> nat \<Rightarrow> bool \<Rightarrow> percpu_dpc \<Rightarrow> bool" where
  "dpc_ok k n m p \<longleftrightarrow> event_ok (dpc_event p) k \<and> ev_flags (dpc_event p) = 0 \<and>
     (dpc_list p \<noteq> [] \<longrightarrow> ev_signaled (dpc_event p) \<or> n > 0 \<or> m) \<and>
     (\<not> event_initialized (dpc_event p) \<longrightarrow> dpc_list p = [])"

definition dpc_inv :: "cpu_num set \<Rightarrow> dpc_conf \<Rightarrow> bool" where
  "dpc_inv C cf \<longleftrightarrow> sinv C {} {} (dc_kernel cf) \<and> inj (\<lambda>c. ev_wait (dpc_event (dc_dpcs cf c))) \<and>
     (\<forall>c. dpc_ok (dc_kernel cf) (dc_pend cf c) (dc_moved cf c) (dc_dpcs cf c))"

lemma no_autounsignal: "\<not> has_signal 0 EVENT_FLAG_AUTOUNSIGNAL"
  by (simp add: has_signal_def)

lemma event_signal_magic: "event_signal_internal cpu now reschedule st e k = (m, e', k') \<Longrightarrow> event_initialized e' = event_initialized e"
  by (auto simp: event_signal_internal_def event_initialized_def split: if_splits prod.splits)

lemma event_wait_magic: "event_wait_worker cpu now deadline i signal_mask e k = (ret, e', k') \<Longrightarrow> event_initialized e' = event_initialized e"
  by (auto simp: event_wait_worker_def event_initialized_def Let_def split: if_splits prod.splits)

lemma dpc_invD:
  assumes "dpc_inv C (conf s k pend moved)"
  shows "sinv C {} {} k" "inj (\<lambda>c. ev_wait (dpc_event (s c)))" "dpc_ok k (pend c) (moved c) (s c)"
    "event_ok (dpc_event (s c)) k" "ev_flags (dpc_event (s c)) = 0"
  using assms by (simp_all add: dpc_inv_def dpc_ok_def)

text \<open>An event that changes keeps its queue, and the queues of the other events are not touched.\<close>

lemma dpc_inv_upd:
  assumes inv: "dpc_inv C (conf s k pend moved)" and k': "sinv C {} {} k'" and w: "ev_wait (dpc_event p) = ev_wait (dpc_event (s c))"
    and other: "\<And>c'. c' \<noteq> c \<Longrightarrow> wq k' (ev_wait (dpc_event (s c'))) = wq k (ev_wait (dpc_event (s c')))" and p: "dpc_ok k' n m p"
  shows "dpc_inv C (conf (s(c := p)) k' (pend(c := n)) (moved(c := m)))"
proof -
  have "(\<lambda>c'. ev_wait (dpc_event ((s(c := p)) c'))) = (\<lambda>c'. ev_wait (dpc_event (s c')))" using w by auto
  with inv k' p other show ?thesis by (auto simp: dpc_inv_def dpc_ok_def event_ok_def)
qed

lemma dpc_other_wq:
  assumes "dpc_inv C (conf s k pend moved)" "c' \<noteq> c" "woken T (ev_wait (dpc_event (s c))) e k k' \<or> k' = k"
  shows "wq k' (ev_wait (dpc_event (s c'))) = wq k (ev_wait (dpc_event (s c')))"
proof -
  have "ev_wait (dpc_event (s c')) \<noteq> ev_wait (dpc_event (s c))" using dpc_invD(2) [OF assms(1)] assms(2) by (auto simp: inj_def)
  with assms(3) show ?thesis by (auto simp: woken_def)
qed

lemma dpc_signal_ok:
  assumes inv: "dpc_inv C (conf s k pend moved)" and cpu: "cpu \<in> C"
    and e: "event_signal_internal cpu now reschedule st (dpc_event (s c)) k = (m, e, k')"
    and l: "\<not> event_initialized (dpc_event (s c)) \<longrightarrow> l = []"
    and p: "p = (s c)\<lparr>dpc_event := e, dpc_list := l, dpc_stop := b, dpc_worker := t\<rparr>"
  shows "dpc_inv C (conf (s(c := p)) k' (pend(c := n)) (moved(c := False)))"
proof -
  note si = dpc_invD(1) [OF inv] and ok = dpc_invD(4,5) [OF inv, of c]
  note R = event_signal_result [OF si cpu ok(1) e]
  have fl: "\<not> has_signal (ev_flags (dpc_event (s c))) EVENT_FLAG_AUTOUNSIGNAL" using ok no_autounsignal by simp
  have sg: "ev_signaled e" using R(4) R(5) [OF _ fl] by (cases "ev_signaled (dpc_event (s c))") auto
  have wk: "woken (set (wq k (ev_wait (dpc_event (s c))))) (ev_wait (dpc_event (s c))) st k k' \<or> k' = k"
    using R(4) R(5) [OF _ fl] by (cases "ev_signaled (dpc_event (s c))") auto
  show ?thesis
    by (rule dpc_inv_upd [OF inv event_signal_internal_ok [OF si cpu e] _ dpc_other_wq [OF inv _ wk]])
       (use R(1-3) ok sg l event_signal_magic [OF e] in \<open>simp_all add: p dpc_ok_def\<close>)
qed

lemma dpc_list_off: "dpc_inv C (conf s k pend moved) \<Longrightarrow> \<not> event_initialized (dpc_event (s c)) \<longrightarrow> dpc_list (s c) = []"
  using dpc_invD(3) [of C s k pend moved c] by (simp add: dpc_ok_def)

text \<open>The moved calls may leave the current processor with an event that is not signaled.\<close>

lemma dpc_transition_ok:
  assumes inv: "dpc_inv C (conf s k pend moved)" and c: "cur \<noteq> c" "event_initialized (dpc_event (s cur)) \<or> dpc_list (s c) = []"
    and t: "dpc_shutdown_transition_off_cpu cur c (s, k) = Some (s', k')"
  shows "dpc_inv C (conf s' k' pend (moved(cur := moved cur \<or> dpc_list (s c) \<noteq> [], c := False)))"
proof -
  let ?cur = "(s cur)\<lparr>dpc_list := dpc_list (s cur) @ dpc_list (s c)\<rparr>"
    and ?c = "(s c)\<lparr>dpc_list := [], dpc_stop := False, dpc_event := (dpc_event (s c))\<lparr>ev_magic := False, ev_signaled := False, ev_flags := 0\<rparr>\<rparr>"
    and ?m = "moved cur \<or> dpc_list (s c) \<noteq> []"
  have e: "s' = s(cur := ?cur, c := ?c)" "k' = k"
    using t c(1) by (auto simp: dpc_shutdown_transition_off_cpu_def event_destroy_def wait_queue_destroy_def Let_def split: if_splits)
  have k: "sinv C {} {} k" by (rule dpc_invD(1) [OF inv])
  have "dpc_ok k (pend cur) ?m ?cur" using dpc_invD(3) [OF inv, of cur] c(2) by (auto simp: dpc_ok_def)
  then have 1: "dpc_inv C (conf (s(cur := ?cur)) k (pend(cur := pend cur)) (moved(cur := ?m)))"
    by (intro dpc_inv_upd [OF inv k]) simp_all
  have "dpc_ok k (pend c) False ?c" by (simp add: dpc_ok_def event_ok_def)
  then have "dpc_inv C (conf (s(cur := ?cur, c := ?c)) k (pend(cur := pend cur, c := pend c)) (moved(cur := ?m, c := False)))"
    using c(1) by (intro dpc_inv_upd [OF 1 k]) simp_all
  then show ?thesis by (simp add: e)
qed

lemma dpc_step_inv:
  assumes "dpc_step C cf cf'" "dpc_inv C cf"
  shows "dpc_inv C cf'"
  using assms
proof (induction rule: dpc_step.induct)
  case (add c d s s' k pend moved)
  have s': "s' = s(c := (s c)\<lparr>dpc_list := dpc_list (s c) @ [d]\<rparr>)" using add(1) by (auto simp: dpc_queue_add_def split: if_splits)
  have "dpc_inv C (conf s' k (pend(c := Suc (pend c))) (moved(c := moved c)))" unfolding s'
    by (rule dpc_inv_upd [OF add(4) dpc_invD(1) [OF add(4)]]) (use add(3) dpc_invD(4,5) [OF add(4), of c] in \<open>simp_all add: dpc_ok_def\<close>)
  then show ?case by simp
next
  case (add_refused c d s st s' k pend moved)
  then show ?case by (auto simp: dpc_queue_add_def split: if_splits)
next
  case (signal pend c n cpu now reschedule s k s' k' moved)
  obtain m e k1 where e: "event_signal_internal cpu now reschedule ZX_OK (dpc_event (s c)) k = (m, e, k1)" by (rule prod_cases3)
  have "s' = s(c := (s c)\<lparr>dpc_event := e\<rparr>) \<and> k' = k1" using signal(3) e by (simp add: dpc_queue_signal_def event_signal_def)
  with dpc_signal_ok [OF signal(4,2) e dpc_list_off [OF signal(4), of c], where b = "dpc_stop (s c)" and t = "dpc_worker (s c)" and n = n]
  show ?case by simp
next
  case (queue_locked cpu s now d k s' k' pend moved)
  obtain m e k1 where e: "event_signal_internal cpu now False ZX_OK (dpc_event (s cpu)) k = (m, e, k1)" by (rule prod_cases3)
  note S = dpc_signal_ok [OF queue_locked(4,1) e, where l = "dpc_list (s cpu) @ [d]" and b = "dpc_stop (s cpu)" and t = "dpc_worker (s cpu)"
      and n = "pend cpu"]
  have sw: "p\<lparr>dpc_list := l, dpc_event := e\<rparr> = p\<lparr>dpc_event := e, dpc_list := l\<rparr>" for p :: percpu_dpc and l
    by (rule percpu_dpc.equality) simp_all
  show ?case using queue_locked(2,3) e S
    by (auto simp: dpc_queue_thread_locked_def event_signal_thread_locked_def Let_def sw split: if_splits)
next
  case (queue_locked_refused cpu now d s k st s' k' pend moved)
  then show ?case by (auto simp: dpc_queue_thread_locked_def Let_def split: if_splits prod.splits)
next
  case (worker_wait cpu k now c s ret s' k' pend moved)
  note inv = worker_wait(4) and si = dpc_invD(1) [OF worker_wait(4)]
  obtain r e k1 where w: "event_wait_worker cpu now ZX_TIME_INFINITE False 0 (dpc_event (s c)) k = (r, e, k1)" by (rule prod_cases3)
  note ok = dpc_invD(3-5) [OF inv, of c]
  note R = event_wait_result [OF si worker_wait(1,2) ok(2) w]
  have s': "s' = s(c := (s c)\<lparr>dpc_event := e\<rparr>) \<and> k' = k1"
    using worker_wait(3) w by (simp add: dpc_thread_wait_def event_wait_def event_wait_deadline_def)
  have other: "wq k1 (ev_wait (dpc_event (s c'))) = wq k (ev_wait (dpc_event (s c')))" if "c' \<noteq> c" for c'
  proof -
    have "ev_wait (dpc_event (s c')) \<noteq> ev_wait (dpc_event (s c))" using dpc_invD(2) [OF inv] that by (auto simp: inj_def)
    then show ?thesis using event_wait_other [OF si worker_wait(1,2) w] by simp
  qed
  have sg: "ev_signaled e = ev_signaled (dpc_event (s c))" using R(4,5) ok(3) no_autounsignal by (cases "ev_signaled (dpc_event (s c))") auto
  have "dpc_inv C (conf (s(c := (s c)\<lparr>dpc_event := e\<rparr>)) k1 (pend(c := pend c)) (moved(c := moved c)))"
    by (rule dpc_inv_upd [OF inv event_wait_worker_ok [OF si worker_wait(1,2) w] _ other])
       (use R(1-3) ok sg event_wait_magic [OF w] in \<open>auto simp: dpc_ok_def\<close>)
  then show ?case by (simp add: s')
next
  case (worker_round s c act p k pend moved)
  note inv = dpc_invD(1) [OF worker_round(2)] dpc_invD(3) [OF worker_round(2), of c]
  have p: "dpc_ok k (pend c) (moved c \<and> dpc_list p \<noteq> []) p" "ev_wait (dpc_event p) = ev_wait (dpc_event (s c))"
    using worker_round(1) inv(2)
    by (auto simp: dpc_ok_def dpc_thread_round_def event_unsignal_def event_ok_def event_initialized_def split: if_splits list.splits)
  have "dpc_inv C (conf (s(c := p)) k (pend(c := pend c)) (moved(c := moved c \<and> dpc_list p \<noteq> [])))"
    by (rule dpc_inv_upd [OF worker_round(2) inv(1) p(2) refl p(1)])
  then show ?case by simp
next
  case (shutdown cpu now c s k t s' k' pend moved)
  obtain m e k1 where e: "event_signal_internal cpu now False ZX_OK (dpc_event (s c)) k = (m, e, k1)" by (rule prod_cases3)
  note S = dpc_signal_ok [OF shutdown(3,1) e dpc_list_off [OF shutdown(3), of c], where b = True and t = None and n = "pend c"]
  have sw: "p\<lparr>dpc_stop := b, dpc_worker := t, dpc_event := e\<rparr> = p\<lparr>dpc_event := e, dpc_stop := b, dpc_worker := t\<rparr>" for p :: percpu_dpc and b t
    by (rule percpu_dpc.equality) simp_all
  show ?case using shutdown(2) e S
    by (auto simp: dpc_shutdown_def dpc_queue_signal_def event_signal_def Let_def sw)
next
  case (transition cur c s k s' k' pend moved)
  then show ?case by (intro dpc_transition_ok) simp_all
next
  case (restart s k pend moved c t)
  have "dpc_ok k (pend c) (moved c) (dpc_init_for_cpu t (s c))"
    using dpc_invD(3) [OF restart, of c] by (auto simp: dpc_init_for_cpu_def dpc_ok_def event_init_def event_ok_def)
  moreover have "ev_wait (dpc_event (dpc_init_for_cpu t (s c))) = ev_wait (dpc_event (s c))"
    by (simp add: dpc_init_for_cpu_def event_init_def)
  ultimately have "dpc_inv C (conf (s(c := dpc_init_for_cpu t (s c))) k (pend(c := pend c)) (moved(c := moved c)))"
    by (intro dpc_inv_upd [OF restart dpc_invD(1) [OF restart]]) simp_all
  then show ?case by simp
next
  case (other k' s k pend moved)
  have "wq k' (ev_wait (dpc_event (s c))) = []" if "wq k (ev_wait (dpc_event (s c))) = []" for c using other(2) [of c] that by simp
  with other(1,3) show ?case by (auto simp: dpc_inv_def dpc_ok_def event_ok_def)
qed

lemma dpc_reach_inv: "dpc_reach C cf \<Longrightarrow> dpc_inv C cf"
proof (induction rule: dpc_reach.induct)
  case (init k q)
  then show ?case by (simp add: dpc_inv_def dpc_ok_def dpc_init_state_def event_init_def event_ok_def event_initialized_def)
qed (rule dpc_step_inv)

end
