(* ===== verification/Zx_Threads.thy ===== *)
theory Zx_Threads
  imports Zx_Dpc
begin

unbundle bit_operations_syntax

text \<open>
  The life of a thread: \<^verbatim>\<open>kernel/kernel/thread.cpp\<close> and the counters against preemption in
  \<^verbatim>\<open>kernel/include/kernel/thread.h\<close>.

  Creating, resuming, suspending, killing, detaching and joining a thread, sleeping, exiting and the handling of
  pending signals, with the proof that each operation keeps the invariant of the scheduler. The global list of
  threads, stacks, user callbacks and the release of memory are left out; the result of allocating a stack is
  an argument.
\<close>

section \<open>Creation\<close>

text \<open>The structure after \<open>init_thread_struct\<close> and the assignments that follow it.\<close>

definition initial_thread :: "wqid \<Rightarrow> thread" where
  "initial_thread rwq =
     \<lparr>th_state = THREAD_INITIAL, th_last_started_running = 0, th_remaining_time_slice = 0, th_flags = 0, th_signals = 0,
      th_runtime_ns = 0, th_effec_priority = 0, th_base_priority = 0, th_priority_boost = 0, th_inherited_priority = 0,
      th_curr_cpu = None, th_last_cpu = None, th_cpu_affinity = NOT 0, th_blocking_wait_queue = None,
      th_blocked_status = ZX_OK, th_interruptable = False, th_stack_base = 0, th_retcode = 0,
      th_retcode_wait_queue = rwq, th_disable_counts = 0, th_preempt_pending = False\<rparr>"

definition thread_create_etc :: "tid \<Rightarrow> wqid \<Rightarrow> u32 \<Rightarrow> int \<Rightarrow> u64 option \<Rightarrow> kernel \<Rightarrow> tid option \<times> kernel" where
  "thread_create_etc t rwq flags priority kstack k =
     (let k1 = sched_init_thread t priority
                 (upd_thread t (\<lambda>_. initial_thread rwq) (upd_wq rwq (\<lambda>_. wait_queue_init) k)) in
      case kstack of
        None \<Rightarrow> (None, k1)
      | Some base \<Rightarrow> (Some t, upd_thread t (\<lambda>th. th\<lparr>th_stack_base := base, th_flags := flags\<rparr>) k1))"

definition thread_set_real_time :: "cpu_num \<Rightarrow> tid \<Rightarrow> kernel \<Rightarrow> kernel" where
  "thread_set_real_time cpu t k =
     (let k1 = (if t = k_current k cpu then timer_preempt_reset cpu ZX_TIME_INFINITE k else k) in
      upd_thread t (\<lambda>th. th\<lparr>th_flags := th_flags th OR THREAD_FLAG_REAL_TIME\<rparr>) k1)"

definition thread_set_priority :: "cpu_num \<Rightarrow> zx_time \<Rightarrow> tid \<Rightarrow> int \<Rightarrow> kernel \<Rightarrow> kernel" where
  "thread_set_priority cpu now t priority k =
     (let priority = (if priority \<le> 0 then 0 + 1 else priority);
          priority = (if priority > HIGHEST_PRIORITY then HIGHEST_PRIORITY else priority) in
      sched_change_priority cpu now t priority k)"

section \<open>Resuming, suspending and killing\<close>


definition reschedule_if :: "bool \<Rightarrow> cpu_num \<Rightarrow> zx_time \<Rightarrow> kernel \<Rightarrow> kernel" where
  "reschedule_if local_resched cpu now k = (if local_resched then sched_reschedule cpu now k else k)"

definition thread_resume :: "cpu_num \<Rightarrow> zx_time \<Rightarrow> bool \<Rightarrow> tid \<Rightarrow> kernel \<Rightarrow> kernel" where
  "thread_resume cpu now resched t k =
     (if th_state (k_thread k t) = THREAD_DEATH then k
      else
        let k1 = upd_thread t (\<lambda>th. th\<lparr>th_signals := th_signals th AND NOT THREAD_SIGNAL_SUSPEND\<rparr>) k in
        if th_state (k_thread k1 t) = THREAD_INITIAL \<or> th_state (k_thread k1 t) = THREAD_SUSPENDED then
          let (local_resched, k2) = sched_unblock cpu t k1 in reschedule_if (resched \<and> local_resched) cpu now k2
        else k1)"

text \<open>Delivering a signal to a thread that sleeps or blocks and may be interrupted.\<close>

definition interrupt_sleeper :: "cpu_num \<Rightarrow> zx_time \<Rightarrow> tid \<Rightarrow> zx_status \<Rightarrow> kernel \<Rightarrow> kernel" where
  "interrupt_sleeper cpu now t status k =
     (if th_interruptable (k_thread k t) then
        let (local_resched, k1) = sched_unblock cpu t (upd_thread t (\<lambda>th. th\<lparr>th_blocked_status := status\<rparr>) k) in
        reschedule_if local_resched cpu now k1
      else k)"

definition interrupt_blocked :: "cpu_num \<Rightarrow> zx_time \<Rightarrow> tid \<Rightarrow> zx_status \<Rightarrow> kernel \<Rightarrow> kernel" where
  "interrupt_blocked cpu now t status k =
     (if th_interruptable (k_thread k t) then snd (wait_queue_unblock_thread cpu now t status k) else k)"

definition thread_suspend :: "cpu_num \<Rightarrow> zx_time \<Rightarrow> tid \<Rightarrow> kernel \<Rightarrow> zx_status \<times> kernel" where
  "thread_suspend cpu now t k =
     (if th_state (k_thread k t) = THREAD_DEATH then (ZX_ERR_BAD_STATE, k)
      else
        let k1 = upd_thread t (\<lambda>th. th\<lparr>th_signals := th_signals th OR THREAD_SIGNAL_SUSPEND\<rparr>) k in
        (ZX_OK,
         case th_state (k_thread k1 t) of
           THREAD_INITIAL \<Rightarrow> let (local_resched, k2) = sched_unblock cpu t k1 in reschedule_if local_resched cpu now k2
         | THREAD_RUNNING \<Rightarrow> mp_reschedule cpu (cpu_num_to_mask (th_curr_cpu (k_thread k1 t))) k1
         | THREAD_BLOCKED \<Rightarrow> interrupt_blocked cpu now t ZX_ERR_INTERNAL_INTR_RETRY k1
         | THREAD_BLOCKED_READ_LOCK \<Rightarrow> interrupt_blocked cpu now t ZX_ERR_INTERNAL_INTR_RETRY k1
         | THREAD_SLEEPING \<Rightarrow> interrupt_sleeper cpu now t ZX_ERR_INTERNAL_INTR_RETRY k1
         | _ \<Rightarrow> k1))"

definition thread_kill :: "cpu_num \<Rightarrow> zx_time \<Rightarrow> tid \<Rightarrow> kernel \<Rightarrow> kernel" where
  "thread_kill cpu now t k =
     (let k1 = upd_thread t (\<lambda>th. th\<lparr>th_signals := th_signals th OR THREAD_SIGNAL_KILL\<rparr>) k in
      if t = k_current k1 cpu then k1
      else
        case th_state (k_thread k1 t) of
          THREAD_RUNNING \<Rightarrow> mp_reschedule cpu (cpu_num_to_mask (th_curr_cpu (k_thread k1 t))) k1
        | THREAD_SUSPENDED \<Rightarrow> let (local_resched, k2) = sched_unblock cpu t k1 in reschedule_if local_resched cpu now k2
        | THREAD_BLOCKED \<Rightarrow> interrupt_blocked cpu now t ZX_ERR_INTERNAL_INTR_KILLED k1
        | THREAD_BLOCKED_READ_LOCK \<Rightarrow> interrupt_blocked cpu now t ZX_ERR_INTERNAL_INTR_KILLED k1
        | THREAD_SLEEPING \<Rightarrow> interrupt_sleeper cpu now t ZX_ERR_INTERNAL_INTR_KILLED k1
        | _ \<Rightarrow> k1)"

definition thread_set_cpu_affinity :: "cpu_num \<Rightarrow> zx_time \<Rightarrow> tid \<Rightarrow> cpu_mask \<Rightarrow> kernel \<Rightarrow> kernel" where
  "thread_set_cpu_affinity cpu now t affinity k =
     (if affinity AND k_active_cpus k \<noteq> 0
      then sched_migrate cpu now t (upd_thread t (\<lambda>th. th\<lparr>th_cpu_affinity := affinity\<rparr>) k) else k)"

definition thread_sleep_handler :: "cpu_num \<Rightarrow> zx_time \<Rightarrow> tid \<Rightarrow> kernel \<Rightarrow> kernel" where
  "thread_sleep_handler cpu now t k =
     (if th_state (k_thread k t) \<noteq> THREAD_SLEEPING then k
      else
        let (local_resched, k1) = sched_unblock cpu t (upd_thread t (\<lambda>th. th\<lparr>th_blocked_status := ZX_OK\<rparr>) k) in
        reschedule_if local_resched cpu now k1)"

definition thread_sleep_etc :: "cpu_num \<Rightarrow> zx_time \<Rightarrow> zx_time \<Rightarrow> bool \<Rightarrow> kernel \<Rightarrow> zx_status option \<times> kernel" where
  "thread_sleep_etc cpu now deadline interruptable k =
     (let current_thread = k_current k cpu; th = k_thread k current_thread in
      if deadline \<le> now then (Some ZX_OK, k)
      else if interruptable \<and> th_signals th \<noteq> 0
      then (Some (if has_signal (th_signals th) THREAD_SIGNAL_KILL then ZX_ERR_INTERNAL_INTR_KILLED
                  else ZX_ERR_INTERNAL_INTR_RETRY), k)
      else
        (None, sched_block cpu now
                 (upd_thread current_thread
                    (\<lambda>th. th\<lparr>th_state := THREAD_SLEEPING, th_blocked_status := ZX_OK, th_interruptable := interruptable\<rparr>) k)))"

definition thread_sleep_etc_return :: "cpu_num \<Rightarrow> kernel \<Rightarrow> zx_status \<times> kernel" where
  "thread_sleep_etc_return cpu k =
     (th_blocked_status (k_thread k (k_current k cpu)), upd_thread (k_current k cpu) (\<lambda>th. th\<lparr>th_interruptable := False\<rparr>) k)"

definition thread_check_preempt_pending :: "cpu_num \<Rightarrow> zx_time \<Rightarrow> kernel \<Rightarrow> kernel" where
  "thread_check_preempt_pending cpu now k =
     (if th_preempt_pending (k_thread k (k_current k cpu)) then sched_reschedule cpu now k else k)"

section \<open>Joining and exiting\<close>

text \<open>The locked part of a join. A call that blocks returns through \<open>thread_join_return\<close>.\<close>

definition thread_join :: "cpu_num \<Rightarrow> zx_time \<Rightarrow> tid \<Rightarrow> zx_time \<Rightarrow> kernel \<Rightarrow> zx_status option \<times> int option \<times> kernel" where
  "thread_join cpu now t deadline k =
     (let th = k_thread k t in
      if has_signal (th_flags th) THREAD_FLAG_DETACHED then (Some ZX_ERR_BAD_STATE, None, k)
      else if th_state th \<noteq> THREAD_DEATH then
        let (status, k1) = wait_queue_block cpu now (th_retcode_wait_queue th) deadline k in (status, None, k1)
      else (Some ZX_OK, Some (th_retcode th), k))"

definition thread_join_return :: "cpu_num \<Rightarrow> tid \<Rightarrow> kernel \<Rightarrow> zx_status \<times> int option" where
  "thread_join_return cpu t k =
     (let status = wait_queue_block_etc_return cpu k in
      if status \<noteq> ZX_OK then (status, None) else (ZX_OK, Some (th_retcode (k_thread k t))))"

definition thread_detach :: "cpu_num \<Rightarrow> zx_time \<Rightarrow> tid \<Rightarrow> kernel \<Rightarrow> zx_status option \<times> kernel" where
  "thread_detach cpu now t k =
     (let k1 = snd (wait_queue_wake_all cpu now (th_retcode_wait_queue (k_thread k t)) False ZX_ERR_BAD_STATE k) in
      if th_state (k_thread k1 t) = THREAD_DEATH then
        let (status, _, k2) =
              thread_join cpu now t 0 (upd_thread t (\<lambda>th. th\<lparr>th_flags := th_flags th AND NOT THREAD_FLAG_DETACHED\<rparr>) k1) in
        (status, k2)
      else (Some ZX_OK, upd_thread t (\<lambda>th. th\<lparr>th_flags := th_flags th OR THREAD_FLAG_DETACHED\<rparr>) k1))"

definition thread_detach_and_resume :: "cpu_num \<Rightarrow> zx_time \<Rightarrow> bool \<Rightarrow> tid \<Rightarrow> kernel \<Rightarrow> zx_status option \<times> kernel" where
  "thread_detach_and_resume cpu now resched t k =
     (let (status, k1) = thread_detach cpu now t k in
      if status \<noteq> Some ZX_OK then (status, k1) else (Some ZX_OK, thread_resume cpu now resched t k1))"

definition thread_exit_locked :: "cpu_num \<Rightarrow> zx_time \<Rightarrow> int \<Rightarrow> dpc \<Rightarrow> dpcs \<times> kernel \<Rightarrow> dpcs \<times> kernel" where
  "thread_exit_locked cpu now retcode free_dpc = (\<lambda>(s, k).
     let current_thread = k_current k cpu;
         k1 = upd_thread current_thread (\<lambda>th. th\<lparr>th_state := THREAD_DEATH, th_retcode := retcode\<rparr>) k;
         th = k_thread k1 current_thread;
         (s2, k2) =
           (if has_signal (th_flags th) THREAD_FLAG_DETACHED
            then if th_stack_base th \<noteq> 0 \<or> has_signal (th_flags th) THREAD_FLAG_FREE_STRUCT
                 then snd (dpc_queue_thread_locked cpu now free_dpc (s, k1)) else (s, k1)
            else (s, snd (wait_queue_wake_all cpu now (th_retcode_wait_queue th) False ZX_OK k1))) in
     (s2, sched_resched_internal cpu now k2))"

definition thread_exit :: "cpu_num \<Rightarrow> zx_time \<Rightarrow> int \<Rightarrow> dpc \<Rightarrow> dpcs \<times> kernel \<Rightarrow> dpcs \<times> kernel" where
  "thread_exit cpu now retcode free_dpc sk = thread_exit_locked cpu now retcode free_dpc sk"

section \<open>Pending signals\<close>

definition check_kill_signal :: "tid \<Rightarrow> kernel \<Rightarrow> bool" where
  "check_kill_signal current_thread k = has_signal (th_signals (k_thread k current_thread)) THREAD_SIGNAL_KILL"

text \<open>Up to the switch; \<open>thread_do_suspend_return\<close> is the rest, when the thread runs again.\<close>

definition thread_do_suspend :: "cpu_num \<Rightarrow> zx_time \<Rightarrow> dpc \<Rightarrow> dpcs \<times> kernel \<Rightarrow> dpcs \<times> kernel" where
  "thread_do_suspend cpu now free_dpc = (\<lambda>(s, k).
     let current_thread = k_current k cpu in
     if check_kill_signal current_thread k then thread_exit cpu now 0 free_dpc (s, k)
     else if has_signal (th_signals (k_thread k current_thread)) THREAD_SIGNAL_SUSPEND
     then (s, sched_resched_internal cpu now
                (upd_thread current_thread
                   (\<lambda>th. th\<lparr>th_state := THREAD_SUSPENDED, th_signals := th_signals th AND NOT THREAD_SIGNAL_SUSPEND\<rparr>) k))
     else (s, k))"

definition thread_do_suspend_return :: "cpu_num \<Rightarrow> zx_time \<Rightarrow> dpc \<Rightarrow> dpcs \<times> kernel \<Rightarrow> dpcs \<times> kernel" where
  "thread_do_suspend_return cpu now free_dpc = (\<lambda>(s, k).
     if check_kill_signal (k_current k cpu) k then thread_exit cpu now 0 free_dpc (s, k) else (s, k))"

definition thread_signal_policy_exception :: "cpu_num \<Rightarrow> kernel \<Rightarrow> kernel" where
  "thread_signal_policy_exception cpu k =
     upd_thread (k_current k cpu) (\<lambda>th. th\<lparr>th_signals := th_signals th OR THREAD_SIGNAL_POLICY_EXCEPTION\<rparr>) k"

text \<open>The report of a policy exception, which is the architecture's, changes nothing of this state.\<close>

definition thread_process_pending_signals :: "cpu_num \<Rightarrow> zx_time \<Rightarrow> dpc \<Rightarrow> dpcs \<times> kernel \<Rightarrow> dpcs \<times> kernel" where
  "thread_process_pending_signals cpu now free_dpc = (\<lambda>(s, k).
     let current_thread = k_current k cpu; signals = th_signals (k_thread k current_thread) in
     if signals = 0 then (s, k)
     else if check_kill_signal current_thread k then thread_exit cpu now 0 free_dpc (s, k)
     else if has_signal signals THREAD_SIGNAL_POLICY_EXCEPTION
     then (s, upd_thread current_thread (\<lambda>th. th\<lparr>th_signals := th_signals th AND NOT THREAD_SIGNAL_POLICY_EXCEPTION\<rparr>) k)
     else if has_signal signals THREAD_SIGNAL_SUSPEND then thread_do_suspend cpu now free_dpc (s, k)
     else (s, k))"

section \<open>Yielding and preemption\<close>

definition thread_yield :: "cpu_num \<Rightarrow> zx_time \<Rightarrow> kernel \<Rightarrow> kernel" where
  "thread_yield cpu now k = sched_yield cpu now k"

definition thread_preempt :: "cpu_num \<Rightarrow> zx_time \<Rightarrow> kernel \<Rightarrow> kernel" where
  "thread_preempt cpu now k = sched_preempt cpu now k"

definition thread_reschedule :: "cpu_num \<Rightarrow> zx_time \<Rightarrow> kernel \<Rightarrow> kernel" where
  "thread_reschedule cpu now k = sched_reschedule cpu now k"

definition thread_preempt_disable :: "cpu_num \<Rightarrow> kernel \<Rightarrow> kernel" where
  "thread_preempt_disable cpu k = upd_thread (k_current k cpu) (\<lambda>th. th\<lparr>th_disable_counts := th_disable_counts th + 1\<rparr>) k"

definition thread_preempt_reenable :: "cpu_num \<Rightarrow> zx_time \<Rightarrow> kernel \<Rightarrow> kernel" where
  "thread_preempt_reenable cpu now k =
     (let new_count = th_disable_counts (k_thread k (k_current k cpu)) - 1;
          k1 = upd_thread (k_current k cpu) (\<lambda>th. th\<lparr>th_disable_counts := new_count\<rparr>) k in
      if new_count = 0 then thread_check_preempt_pending cpu now k1 else k1)"

definition thread_resched_disable :: "cpu_num \<Rightarrow> kernel \<Rightarrow> kernel" where
  "thread_resched_disable cpu k =
     upd_thread (k_current k cpu) (\<lambda>th. th\<lparr>th_disable_counts := th_disable_counts th + push_bit 16 1\<rparr>) k"

definition thread_resched_reenable :: "cpu_num \<Rightarrow> zx_time \<Rightarrow> kernel \<Rightarrow> kernel" where
  "thread_resched_reenable cpu now k =
     (let new_count = th_disable_counts (k_thread k (k_current k cpu)) - push_bit 16 1;
          k1 = upd_thread (k_current k cpu) (\<lambda>th. th\<lparr>th_disable_counts := new_count\<rparr>) k in
      if new_count = 0 then thread_check_preempt_pending cpu now k1 else k1)"

definition thread_preempt_set_pending :: "cpu_num \<Rightarrow> kernel \<Rightarrow> kernel" where
  "thread_preempt_set_pending cpu k = upd_thread (k_current k cpu) (\<lambda>th. th\<lparr>th_preempt_pending := True\<rparr>) k"

definition thread_runtime :: "zx_time \<Rightarrow> thread \<Rightarrow> zx_duration" where
  "thread_runtime now t =
     (if th_state t = THREAD_RUNNING
      then zx_duration_add_duration (th_runtime_ns t) (zx_time_sub_time now (th_last_started_running t))
      else th_runtime_ns t)"

section \<open>Threads at rest\<close>

text \<open>A thread in transit that is neither runnable nor blocked comes to rest where it is.\<close>

lemma sinv_land:
  assumes inv: "sinv C X D k" and t: "th_state (k_thread k t) \<in> {THREAD_INITIAL, THREAD_SLEEPING, THREAD_SUSPENDED, THREAD_DEATH}"
  shows "sinv C (X - {t}) D k"
proof (rule sinvI)
  note I = sinvD [OF inv]
  note T = tinvD [OF I(1) [of t]]
  fix s
  show "tinv C (X - {t}) D k s"
  proof (cases "s = t")
    case True
    have b: "\<not> blocked (k_thread k t)" "\<not> on_queue (k_thread k t) c p" for c p using t by (auto simp: blocked_def on_queue_def)
    have "th_blocking_wait_queue (k_thread k t) = None" using T(6,7) b(1) by (cases "t \<in> X") auto
    then show ?thesis unfolding True using T(1,2,5) b t by (intro tinvI) auto
  next
    case False
    then show ?thesis by (intro tinv_cong [OF I(1)]) auto
  qed
qed (use sinvD [OF inv] in blast)+

lemma sinv_rest:
  assumes inv: "sinv C {} {} k" and cpu: "cpu \<in> C" and t: "t = k_current k cpu" "\<not> thread_is_idle (k_thread k t)"
    and f: "prio_ok (f (k_thread k t))" "th_state (f (k_thread k t)) \<in> {THREAD_SLEEPING, THREAD_SUSPENDED, THREAD_DEATH}"
      "thread_is_idle (f (k_thread k t)) = thread_is_idle (k_thread k t)" "th_blocking_wait_queue (f (k_thread k t)) = None"
  shows "sinv C {} {cpu} (upd_thread t f k)"
proof -
  have "sinv C {t} {cpu} (upd_thread t f k)" by (rule sinv_leave [where f = f, OF inv cpu t f(1) _ f(3,4)]) (use f(2) in auto)
  from sinv_land [OF this, of t] f(2) show ?thesis by auto
qed

lemma sinv_quiet:
  assumes inv: "sinv C {} {} k" and t: "th_state (k_thread k t) \<in> {THREAD_INITIAL, THREAD_SLEEPING, THREAD_SUSPENDED, THREAD_DEATH}"
    and f: "prio_ok (f (k_thread k t))" "th_state (f (k_thread k t)) \<in> {THREAD_INITIAL, THREAD_SLEEPING, THREAD_SUSPENDED, THREAD_DEATH}"
      "thread_is_idle (f (k_thread k t)) = thread_is_idle (k_thread k t)" "th_blocking_wait_queue (f (k_thread k t)) = None"
  shows "sinv C {} {} (upd_thread t f k)"
proof -
  note I = sinvD [OF inv]
  have free: "th_blocking_wait_queue (k_thread k t) = None" using tinvD(7) [OF I(1), of t] t by (auto simp: blocked_def)
  have cur: "k_current k c \<noteq> t" if "c \<in> C - {}" for c using running_current(1) [OF inv that] t by auto
  have idle: "t \<noteq> idle_of k c" if "c \<in> C" for c using cinvD(3) [OF I(2) that] t by (auto simp: idle_ok_def)
  have "sinv C (insert t {}) {} (upd_thread t f k)"
    by (rule sinv_transit [where f = f and t = t, OF inv _ free cur _ _ f(1) _ f(3,4) idle]) (use t f(2) in auto)
  from sinv_land [OF this, of t] f(2) show ?thesis by auto
qed

lemma sinv_flags:
  assumes inv: "sinv C X D k" and f: "thread_is_idle ((k_thread k t)\<lparr>th_flags := f (k_thread k t)\<rparr>) = thread_is_idle (k_thread k t)"
  shows "sinv C X D (upd_thread t (\<lambda>th. th\<lparr>th_flags := f th\<rparr>) k)"
proof (rule sinvI)
  note I = sinvD [OF inv]
  let ?k = "upd_thread t (\<lambda>th. th\<lparr>th_flags := f th\<rparr>) k"
  have view: "prio_ok (k_thread ?k s) = prio_ok (k_thread k s)" "on_queue (k_thread ?k s) c p = on_queue (k_thread k s) c p"
    "blocked (k_thread ?k s) = blocked (k_thread k s)" "idle_ok (k_thread ?k s) = idle_ok (k_thread k s)"
    "running_on (k_thread ?k s) c = running_on (k_thread k s) c" "thread_is_idle (k_thread ?k s) = thread_is_idle (k_thread k s)"
    "th_state (k_thread ?k s) = th_state (k_thread k s)" "th_curr_cpu (k_thread ?k s) = th_curr_cpu (k_thread k s)"
    "th_blocking_wait_queue (k_thread ?k s) = th_blocking_wait_queue (k_thread k s)" "effec ?k s = effec k s" for s c p
    using f by (simp_all add: prio_ok_def on_queue_def blocked_def idle_ok_def running_on_def)
  have same: "k_wq ?k = k_wq k" "k_cpu ?k = k_cpu k" "k_current ?k = k_current k" "k_active_cpus ?k = k_active_cpus k" by simp_all
  show "tinv C X D ?k s" for s using I(1) [of s] unfolding tinv_def view same .
  show "cinv C D ?k c" for c using I(2) [of c] unfolding cinv_def view same .
  show "wq_ok (effec ?k) (k_wq ?k q)" for q using I(3) [of q] unfolding view same .
  show "inj_on (idle_of ?k) C" "C \<subseteq> {..<32}" using I(4,5) by simp_all
  show "c \<in> C" if "bit (k_active_cpus ?k) c" for c using I(6) that by simp
qed

lemma has_signal_keep:
  "has_signal (x OR push_bit i 1) (push_bit j 1) = has_signal x (push_bit j 1)"
  "has_signal (x AND NOT (push_bit i 1)) (push_bit j 1) = has_signal x (push_bit j (1 :: u32))" if "i \<noteq> j" "j < 32"
  unfolding has_signal_bit [OF that(2)] using that by (auto simp: bit_simps)

lemma idle_flag_keep:
  "thread_is_idle (th\<lparr>th_flags := th_flags th OR THREAD_FLAG_DETACHED\<rparr>) = thread_is_idle th"
  "thread_is_idle (th\<lparr>th_flags := th_flags th AND NOT THREAD_FLAG_DETACHED\<rparr>) = thread_is_idle th"
  "thread_is_idle (th\<lparr>th_flags := th_flags th OR THREAD_FLAG_REAL_TIME\<rparr>) = thread_is_idle th"
  unfolding thread_is_idle_def THREAD_FLAG_IDLE_def THREAD_FLAG_DETACHED_def THREAD_FLAG_REAL_TIME_def
  using has_signal_keep [of 0 3] has_signal_keep [of 2 3] by (simp_all del: push_bit_of_1)

section \<open>The operations keep the invariant\<close>

lemma sinv_signals: "sinv C X D k \<Longrightarrow> sinv C X D (upd_thread t (\<lambda>th. th\<lparr>th_signals := f th\<rparr>) k)"
  by (rule sinv_same) (simp_all add: same_view_def)

lemma sinv_status: "sinv C X D k \<Longrightarrow> sinv C X D (upd_thread t (\<lambda>th. th\<lparr>th_blocked_status := e\<rparr>) k)"
  by (rule sinv_same) (simp_all add: same_view_def)

lemma sinv_counts: "sinv C X D k \<Longrightarrow> sinv C X D (upd_thread t (\<lambda>th. th\<lparr>th_disable_counts := f th\<rparr>) k)"
  by (rule sinv_same) (simp_all add: same_view_def)

lemma sinv_pending: "sinv C X D k \<Longrightarrow> sinv C X D (upd_thread t (\<lambda>th. th\<lparr>th_preempt_pending := b\<rparr>) k)"
  by (rule sinv_same) (simp_all add: same_view_def)

lemma reschedule_if_ok: "sinv C {} {} k \<Longrightarrow> cpu \<in> C \<Longrightarrow> sinv C {} {} (reschedule_if b cpu now k)"
  unfolding reschedule_if_def by (rule maybe_reschedule_ok)

lemma unblock_resched_ok:
  assumes inv: "sinv C {} {} k" and cpu: "cpu \<in> C" and t: "\<not> thread_is_idle (k_thread k t)"
    "th_state (k_thread k t) \<in> {THREAD_INITIAL, THREAD_SLEEPING, THREAD_SUSPENDED}"
  shows "sinv C {} {} (let (lr, k1) = sched_unblock cpu t k in reschedule_if (b \<and> lr) cpu now k1)"
    "sinv C {} {} (let (lr, k1) = sched_unblock cpu t k in reschedule_if lr cpu now k1)"
proof -
  obtain lr k1 where u: "sched_unblock cpu t k = (lr, k1)" by force
  note k1 = sched_unblock_new_ok(1) [OF inv cpu t u]
  show "sinv C {} {} (let (lr, k1) = sched_unblock cpu t k in reschedule_if (b \<and> lr) cpu now k1)"
    "sinv C {} {} (let (lr, k1) = sched_unblock cpu t k in reschedule_if lr cpu now k1)"
    using reschedule_if_ok [OF k1 cpu] by (simp_all add: u)
qed

lemma thread_resume_ok:
  assumes inv: "sinv C {} {} k" and cpu: "cpu \<in> C" and t: "\<not> thread_is_idle (k_thread k t)"
  shows "sinv C {} {} (thread_resume cpu now resched t k)"
proof -
  let ?k = "upd_thread t (\<lambda>th. th\<lparr>th_signals := th_signals th AND NOT THREAD_SIGNAL_SUSPEND\<rparr>) k"
  have k1: "sinv C {} {} ?k" by (rule sinv_signals [OF inv])
  have idle: "\<not> thread_is_idle (k_thread ?k t)" using t by (simp add: thread_is_idle_def)
  show ?thesis using inv k1 unblock_resched_ok(1) [OF k1 cpu idle] by (auto simp: thread_resume_def Let_def)
qed

lemma interrupt_sleeper_ok:
  assumes inv: "sinv C {} {} k" and cpu: "cpu \<in> C" and t: "\<not> thread_is_idle (k_thread k t)" "th_state (k_thread k t) = THREAD_SLEEPING"
  shows "sinv C {} {} (interrupt_sleeper cpu now t status k)"
proof -
  let ?k = "upd_thread t (\<lambda>th. th\<lparr>th_blocked_status := status\<rparr>) k"
  have k1: "sinv C {} {} ?k" by (rule sinv_status [OF inv])
  have "\<not> thread_is_idle (k_thread ?k t)" "th_state (k_thread ?k t) \<in> {THREAD_INITIAL, THREAD_SLEEPING, THREAD_SUSPENDED}"
    using t by (simp_all add: thread_is_idle_def)
  from inv unblock_resched_ok(2) [OF k1 cpu this] show ?thesis by (simp add: interrupt_sleeper_def)
qed

lemma interrupt_blocked_ok:
  assumes inv: "sinv C {} {} k" and cpu: "cpu \<in> C" and t: "\<not> thread_is_idle (k_thread k t)"
  shows "sinv C {} {} (interrupt_blocked cpu now t status k)"
proof -
  obtain st k1 where u: "wait_queue_unblock_thread cpu now t status k = (st, k1)" by force
  show ?thesis using inv wait_queue_unblock_thread_ok(1) [OF inv cpu t u] by (simp add: interrupt_blocked_def u)
qed

lemma thread_suspend_ok:
  assumes inv: "sinv C {} {} k" and cpu: "cpu \<in> C" and t: "\<not> thread_is_idle (k_thread k t)"
  shows "sinv C {} {} (snd (thread_suspend cpu now t k))"
proof -
  let ?k = "upd_thread t (\<lambda>th. th\<lparr>th_signals := th_signals th OR THREAD_SIGNAL_SUSPEND\<rparr>) k"
  have k1: "sinv C {} {} ?k" by (rule sinv_signals [OF inv])
  have idle: "\<not> thread_is_idle (k_thread ?k t)" using t by (simp add: thread_is_idle_def)
  have st: "th_state (k_thread ?k t) = th_state (k_thread k t)" by simp
  show ?thesis
  proof (cases "th_state (k_thread k t)")
    case THREAD_INITIAL
    then show ?thesis using unblock_resched_ok(2) [OF k1 cpu idle] by (simp add: thread_suspend_def)
  next
    case THREAD_SLEEPING
    then show ?thesis using interrupt_sleeper_ok [OF k1 cpu idle] by (simp add: thread_suspend_def)
  qed (use inv k1 interrupt_blocked_ok [OF k1 cpu idle] sinv_masks(5) [OF k1] in \<open>simp_all add: thread_suspend_def Let_def\<close>)
qed

lemma thread_kill_ok:
  assumes inv: "sinv C {} {} k" and cpu: "cpu \<in> C" and t: "\<not> thread_is_idle (k_thread k t)"
  shows "sinv C {} {} (thread_kill cpu now t k)"
proof -
  let ?k = "upd_thread t (\<lambda>th. th\<lparr>th_signals := th_signals th OR THREAD_SIGNAL_KILL\<rparr>) k"
  have k1: "sinv C {} {} ?k" by (rule sinv_signals [OF inv])
  have idle: "\<not> thread_is_idle (k_thread ?k t)" using t by (simp add: thread_is_idle_def)
  show ?thesis
  proof (cases "t = k_current k cpu")
    case True
    with k1 show ?thesis by (simp add: thread_kill_def Let_def)
  next
    case other: False
    show ?thesis
    proof (cases "th_state (k_thread k t)")
      case THREAD_SUSPENDED
      then show ?thesis using other unblock_resched_ok(2) [OF k1 cpu idle] by (simp add: thread_kill_def Let_def)
    next
      case THREAD_SLEEPING
      then show ?thesis using other interrupt_sleeper_ok [OF k1 cpu idle] by (simp add: thread_kill_def Let_def)
    qed (use other k1 interrupt_blocked_ok [OF k1 cpu idle] sinv_masks(5) [OF k1] in \<open>simp_all add: thread_kill_def Let_def\<close>)
  qed
qed

lemma thread_set_cpu_affinity_ok:
  assumes inv: "sinv C {} {} k" and cpu: "cpu \<in> C" and t: "\<not> thread_is_idle (k_thread k t)"
  shows "sinv C {} {} (thread_set_cpu_affinity cpu now t affinity k)"
proof -
  let ?k = "upd_thread t (\<lambda>th. th\<lparr>th_cpu_affinity := affinity\<rparr>) k"
  have k1: "sinv C {} {} ?k" by (rule sinv_same [OF inv]) (simp add: same_view_def)
  have "\<not> thread_is_idle (k_thread ?k t)" using t by (simp add: thread_is_idle_def)
  from inv sched_migrate_ok [OF k1 cpu this] show ?thesis by (simp add: thread_set_cpu_affinity_def)
qed

lemma thread_sleep_handler_ok:
  assumes inv: "sinv C {} {} k" and cpu: "cpu \<in> C" and t: "\<not> thread_is_idle (k_thread k t)"
  shows "sinv C {} {} (thread_sleep_handler cpu now t k)"
proof -
  let ?k = "upd_thread t (\<lambda>th. th\<lparr>th_blocked_status := ZX_OK\<rparr>) k"
  have k1: "sinv C {} {} ?k" by (rule sinv_status [OF inv])
  have "\<not> thread_is_idle (k_thread ?k t)" using t by (simp add: thread_is_idle_def)
  from inv unblock_resched_ok(2) [OF k1 cpu this] show ?thesis by (simp add: thread_sleep_handler_def)
qed

text \<open>The current thread comes to rest and its processor picks another one.\<close>

lemma rest_resched_ok:
  assumes inv: "sinv C {} {} k" and cpu: "cpu \<in> C" and t: "t = k_current k cpu" "\<not> thread_is_idle (k_thread k t)"
    and f: "prio_ok (f (k_thread k t))" "th_state (f (k_thread k t)) \<in> {THREAD_SLEEPING, THREAD_SUSPENDED, THREAD_DEATH}"
      "thread_is_idle (f (k_thread k t)) = thread_is_idle (k_thread k t)" "th_blocking_wait_queue (f (k_thread k t)) = None"
  shows "sinv C {} {} (sched_resched_internal cpu now (upd_thread t f k))"
proof -
  have k1: "sinv C {} {cpu} (upd_thread t f k)" by (rule sinv_rest [where f = f, OF inv cpu t f])
  show ?thesis by (rule sinv_resched [OF k1 cpu]) (use t f in auto)
qed

lemma thread_sleep_etc_ok:
  assumes inv: "sinv C {} {} k" and cpu: "cpu \<in> C" and t: "\<not> thread_is_idle (k_thread k (k_current k cpu))"
  shows "sinv C {} {} (snd (thread_sleep_etc cpu now deadline interruptable k))"
proof -
  let ?f = "\<lambda>th. th\<lparr>th_state := THREAD_SLEEPING, th_blocked_status := ZX_OK, th_interruptable := interruptable\<rparr>"
  have "sinv C {} {} (sched_resched_internal cpu now (upd_thread (k_current k cpu) ?f k))"
    by (rule rest_resched_ok [OF inv cpu refl t])
       (use current_free [OF inv cpu] in \<open>simp_all add: prio_ok_def thread_is_idle_def\<close>)
  with inv show ?thesis by (simp add: thread_sleep_etc_def sched_block_def Let_def)
qed

lemma thread_sleep_etc_top:
  assumes inv: "sinv C {} {} k" and cpu: "cpu \<in> C" and t: "\<not> thread_is_idle (k_thread k (k_current k cpu))"
    and s: "thread_sleep_etc cpu now deadline interruptable k = (None, k')"
  shows "top_running cpu k'"
proof -
  let ?f = "\<lambda>th. th\<lparr>th_state := THREAD_SLEEPING, th_blocked_status := ZX_OK, th_interruptable := interruptable\<rparr>"
  have k1: "sinv C {} {cpu} (upd_thread (k_current k cpu) ?f k)"
    by (rule sinv_rest [OF inv cpu refl t]) (use current_free [OF inv cpu] in \<open>simp_all add: prio_ok_def thread_is_idle_def\<close>)
  have "k' = sched_resched_internal cpu now (upd_thread (k_current k cpu) ?f k)"
    using s by (auto simp: thread_sleep_etc_def sched_block_def Let_def split: if_splits)
  then show ?thesis using resched_top [OF k1 cpu] by simp
qed

lemma thread_check_preempt_pending_ok:
  "sinv C {} {} k \<Longrightarrow> cpu \<in> C \<Longrightarrow> sinv C {} {} (thread_check_preempt_pending cpu now k)"
  unfolding thread_check_preempt_pending_def by (rule maybe_reschedule_ok)

lemma preempt_counts_ok:
  assumes "sinv C {} {} k" "cpu \<in> C"
  shows "sinv C {} {} (thread_preempt_disable cpu k)" "sinv C {} {} (thread_preempt_reenable cpu now k)"
    "sinv C {} {} (thread_resched_disable cpu k)" "sinv C {} {} (thread_resched_reenable cpu now k)"
    "sinv C {} {} (thread_preempt_set_pending cpu k)"
  using assms
  by (simp_all add: thread_preempt_disable_def thread_preempt_reenable_def thread_resched_disable_def thread_resched_reenable_def
      thread_preempt_set_pending_def Let_def sinv_counts sinv_pending thread_check_preempt_pending_ok del: push_bit_of_1)

lemma thread_set_priority_ok:
  assumes "sinv C {} {} k" "cpu \<in> C" "\<not> thread_is_idle (k_thread k t)"
  shows "sinv C {} {} (thread_set_priority cpu now t priority k)"
  unfolding thread_set_priority_def Let_def by (rule sched_change_priority_ok [OF assms]) simp

lemma thread_set_real_time_ok: "sinv C {} {} k \<Longrightarrow> sinv C {} {} (thread_set_real_time cpu t k)"
  unfolding thread_set_real_time_def Let_def by (rule sinv_flags) (simp_all add: sinv_timer_reset idle_flag_keep)

lemma thread_join_ok:
  assumes inv: "sinv C {} {} k" and cpu: "cpu \<in> C" and idle: "\<not> thread_is_idle (k_thread k (k_current k cpu))"
    and j: "thread_join cpu now t deadline k = (st, rc, k')"
  shows "sinv C {} {} k'"
proof -
  obtain r k1 where b: "wait_queue_block_etc cpu now (th_retcode_wait_queue (k_thread k t)) deadline 0 Normal k = (r, k1)" by force
  show ?thesis using j b inv wait_queue_block_etc_ok(1) [OF inv cpu idle b]
    by (auto simp: thread_join_def wait_queue_block_def Let_def split: if_splits)
qed

lemma detached_cleared: "\<not> has_signal (x AND NOT THREAD_FLAG_DETACHED) THREAD_FLAG_DETACHED"
  by (simp add: has_signal_def and.assoc)

lemma thread_detach_ok:
  assumes inv: "sinv C {} {} k" and cpu: "cpu \<in> C"
  shows "sinv C {} {} (snd (thread_detach cpu now t k))"
proof -
  obtain n k1 where w: "wait_queue_wake_all cpu now (th_retcode_wait_queue (k_thread k t)) False ZX_ERR_BAD_STATE k = (n, k1)" by force
  have k1: "sinv C {} {} k1" by (rule wait_queue_wake_all_ok(1) [OF inv cpu w])
  have "sinv C {} {} (upd_thread t (\<lambda>th. th\<lparr>th_flags := th_flags th OR THREAD_FLAG_DETACHED\<rparr>) k1)"
    "sinv C {} {} (upd_thread t (\<lambda>th. th\<lparr>th_flags := th_flags th AND NOT THREAD_FLAG_DETACHED\<rparr>) k1)"
    by (rule sinv_flags [OF k1], rule idle_flag_keep)+
  then show ?thesis
    by (auto simp: thread_detach_def thread_join_def w detached_cleared Let_def)
qed

lemma thread_detach_idle:
  assumes inv: "sinv C {} {} k" and cpu: "cpu \<in> C" and d: "thread_detach cpu now t k = (st, k')"
  shows "thread_is_idle (k_thread k' u) = thread_is_idle (k_thread k u)"
proof -
  obtain n k1 where w: "wait_queue_wake_all cpu now (th_retcode_wait_queue (k_thread k t)) False ZX_ERR_BAD_STATE k = (n, k1)" by force
  have k1: "thread_is_idle (k_thread k1 s) = thread_is_idle (k_thread k s)" for s
    using wait_queue_wake_all_any [OF inv cpu w] by (simp add: thread_is_idle_def)
  have "k' = upd_thread t (\<lambda>th. th\<lparr>th_flags := th_flags th OR THREAD_FLAG_DETACHED\<rparr>) k1 \<or>
    k' = upd_thread t (\<lambda>th. th\<lparr>th_flags := th_flags th AND NOT THREAD_FLAG_DETACHED\<rparr>) k1"
    using d by (auto simp: thread_detach_def thread_join_def w detached_cleared Let_def split: if_splits)
  then show ?thesis using k1 by (elim disjE) (simp_all add: idle_flag_keep)
qed

text \<open>Detaching wakes every thread that waits to join, whichever thread is detached.\<close>

lemma thread_detach_joiners:
  assumes inv: "sinv C {} {} k" and cpu: "cpu \<in> C" and d: "thread_detach cpu now t k = (st, k')" and q: "q = th_retcode_wait_queue (k_thread k t)"
  shows "st = Some ZX_OK" "wq k' q = []"
    "u \<in> set (wq k q) \<Longrightarrow> th_blocked_status (k_thread k' u) = ZX_ERR_BAD_STATE \<and> th_blocking_wait_queue (k_thread k' u) = None"
    "th_state (k_thread k t) \<noteq> THREAD_DEATH \<Longrightarrow> has_signal (th_flags (k_thread k' t)) THREAD_FLAG_DETACHED"
proof -
  obtain n k1 where w: "wait_queue_wake_all cpu now q False ZX_ERR_BAD_STATE k = (n, k1)" by force
  note W = wake_all_woken [OF inv cpu w] and S = wait_queue_wake_all_any [OF inv cpu w]
  have "(x OR THREAD_FLAG_DETACHED) AND THREAD_FLAG_DETACHED = THREAD_FLAG_DETACHED" for x
    by (rule bit_eqI) (auto simp: bit_simps)
  then have "has_signal (x OR THREAD_FLAG_DETACHED) THREAD_FLAG_DETACHED" for x
    by (simp add: has_signal_def THREAD_FLAG_DETACHED_def)
  with d w q W S show "st = Some ZX_OK" "wq k' q = []"
    "u \<in> set (wq k q) \<Longrightarrow> th_blocked_status (k_thread k' u) = ZX_ERR_BAD_STATE \<and> th_blocking_wait_queue (k_thread k' u) = None"
    "th_state (k_thread k t) \<noteq> THREAD_DEATH \<Longrightarrow> has_signal (th_flags (k_thread k' t)) THREAD_FLAG_DETACHED"
    by (auto simp: thread_detach_def thread_join_def detached_cleared woken_def Let_def split: if_splits)
qed

text \<open>A dead thread frees its resources or wakes the threads that join it, and is switched out for good.\<close>

lemma wake_one_any:
  assumes inv: "sinv C {} D k" and cpu: "cpu \<in> C" and w: "wait_queue_wake_one cpu now q False e k = (n, k')"
  shows "sinv C {} D k' \<and> k_current k' = k_current k \<and>
    (\<forall>s. s \<notin> set (wq k q) \<longrightarrow> th_state (k_thread k' s) = th_state (k_thread k s)) \<and>
    (\<forall>s. th_flags (k_thread k' s) = th_flags (k_thread k s))"
proof (cases "wq k q")
  case Nil
  then show ?thesis using w inv by (simp add: wait_queue_wake_one_def peek_threads)
next
  case (Cons t ts)
  obtain lr k1 where u: "sched_unblock cpu t (wait_queue_dequeue_thread_internal q t e k) = (lr, k1)" by force
  have mem: "t \<in> set (wq k q)" by (simp add: Cons)
  have "k' = k1" using w u by (simp add: wait_queue_wake_one_def peek_threads Cons)
  with unblock_waiter [OF inv cpu mem u] mem show ?thesis by (auto simp: keeps_def make_ready_def Cons)
qed

lemma event_signal_locked_any:
  assumes inv: "sinv C {} D k" and cpu: "cpu \<in> C" and s: "event_signal_internal cpu now False st e k = (n, e', k')"
  shows "sinv C {} D k' \<and> k_current k' = k_current k \<and>
    (\<forall>s. s \<notin> set (wq k (ev_wait e)) \<longrightarrow> th_state (k_thread k' s) = th_state (k_thread k s)) \<and>
    (\<forall>s. th_flags (k_thread k' s) = th_flags (k_thread k s))"
proof -
  obtain n1 k1 where w1: "wait_queue_wake_one cpu now (ev_wait e) False st k = (n1, k1)" by force
  obtain n2 k2 where w2: "wait_queue_wake_all cpu now (ev_wait e) False st k = (n2, k2)" by force
  show ?thesis using s w1 w2 inv wake_one_any [OF inv cpu w1] wait_queue_wake_all_any [OF inv cpu w2]
    by (auto simp: event_signal_internal_def split: if_splits)
qed

lemma dead_not_waiting:
  assumes "sinv C X D k" "th_state (k_thread k t) = THREAD_DEATH"
  shows "t \<notin> set (wq k q)"
  using wq_thread_facts(2) [OF assms(1), of t q] assms(2) by (auto simp: blocked_def)

lemma thread_exit_ok:
  assumes inv: "sinv C {} {} k" and cpu: "cpu \<in> C" and idle: "\<not> thread_is_idle (k_thread k (k_current k cpu))"
    and e: "thread_exit_locked cpu now retcode free_dpc (s, k) = (s', k')"
  shows "sinv C {} {} k'" "th_state (k_thread k' (k_current k cpu)) = THREAD_DEATH" "top_running cpu k'"
    "k_current k' cpu \<noteq> k_current k cpu"
proof -
  let ?t = "k_current k cpu" and ?f = "\<lambda>th. th\<lparr>th_state := THREAD_DEATH, th_retcode := retcode\<rparr>"
  let ?k = "upd_thread ?t ?f k" and ?q = "th_retcode_wait_queue (k_thread k ?t)"
  have k1: "sinv C {} {cpu} ?k"
    by (rule sinv_rest [OF inv cpu refl idle]) (use current_free [OF inv cpu] in \<open>simp_all add: prio_ok_def thread_is_idle_def\<close>)
  have dead: "th_state (k_thread ?k ?t) = THREAD_DEATH" by simp
  have out: "?t \<notin> set (wq ?k q)" for q by (rule dead_not_waiting [OF k1 dead])
  obtain n k2 where w: "wait_queue_wake_all cpu now ?q False ZX_OK ?k = (n, k2)" by force
  obtain m ev k3 where d: "event_signal_internal cpu now False ZX_OK (dpc_event (s cpu)) ?k = (m, ev, k3)" by (rule prod_cases3)
  note W = wait_queue_wake_all_any [OF k1 cpu w] and E = event_signal_locked_any [OF k1 cpu d]
  obtain kr where kr: "k' = sched_resched_internal cpu now kr" "kr = ?k \<or> kr = k2 \<or> kr = k3"
    using e w d by (auto simp: thread_exit_locked_def dpc_queue_thread_locked_def event_signal_thread_locked_def Let_def split: if_splits)
  have r: "sinv C {} {cpu} kr" "k_current kr = k_current k" "th_state (k_thread kr ?t) = THREAD_DEATH"
    "th_flags (k_thread kr ?t) = th_flags (k_thread k ?t)"
    using kr(2) W E k1 out by auto
  have ni: "\<not> thread_is_idle (k_thread kr (k_current kr cpu))" using idle r(2,4) by (simp add: thread_is_idle_def)
  show "sinv C {} {} k'" unfolding kr(1) by (rule sinv_resched [OF r(1) cpu]) (use r ni in auto)
  show "top_running cpu k'" unfolding kr(1) by (rule resched_top [OF r(1) cpu])
  obtain nt kt where top: "sched_get_top_thread cpu kr = (nt, kt)" by force
  have "nt \<noteq> ?t" using sinv_get_top [OF r(1) cpu top] r(3) by (metis thread_state.distinct(25))
  from resched_threads(5) [OF top this [symmetric]] r(3) show "th_state (k_thread k' ?t) = THREAD_DEATH" unfolding kr(1) by simp
  show "k_current k' cpu \<noteq> ?t" using resched_threads(1) [OF top] \<open>nt \<noteq> ?t\<close> unfolding kr(1) by simp
qed

lemma thread_exit_joiners:
  assumes inv: "sinv C {} {} k" and cpu: "cpu \<in> C" and idle: "\<not> thread_is_idle (k_thread k (k_current k cpu))"
    and j: "\<not> has_signal (th_flags (k_thread k (k_current k cpu))) THREAD_FLAG_DETACHED"
    and e: "thread_exit_locked cpu now retcode free_dpc (s, k) = (s', k')" and q: "q = th_retcode_wait_queue (k_thread k (k_current k cpu))"
  shows "s' = s" "wq k' q = []" "t \<in> set (wq k q) \<Longrightarrow> th_blocked_status (k_thread k' t) = ZX_OK \<and> th_blocking_wait_queue (k_thread k' t) = None"
    "th_retcode (k_thread k' (k_current k cpu)) = retcode"
proof -
  let ?t = "k_current k cpu" and ?f = "\<lambda>th. th\<lparr>th_state := THREAD_DEATH, th_retcode := retcode\<rparr>"
  let ?k = "upd_thread ?t ?f k"
  have k1: "sinv C {} {cpu} ?k"
    by (rule sinv_rest [OF inv cpu refl idle]) (use current_free [OF inv cpu] in \<open>simp_all add: prio_ok_def thread_is_idle_def\<close>)
  obtain n k2 where w: "wait_queue_wake_all cpu now q False ZX_OK ?k = (n, k2)" by force
  have r: "s' = s" "k' = sched_resched_internal cpu now k2"
    using e j w by (auto simp: thread_exit_locked_def Let_def q)
  show "s' = s" by (rule r)
  have "woken (set (wq ?k q)) q ZX_OK ?k k'" unfolding r(2)
    by (rule woken_same [OF wake_all_woken_any [OF k1 cpu w] same_wait_resched])
  then show "wq k' q = []" "th_retcode (k_thread k' ?t) = retcode"
    "t \<in> set (wq k q) \<Longrightarrow> th_blocked_status (k_thread k' t) = ZX_OK \<and> th_blocking_wait_queue (k_thread k' t) = None"
    by (simp_all add: woken_def)
qed

lemma thread_exit_detached:
  assumes "has_signal (th_flags (k_thread k (k_current k cpu))) THREAD_FLAG_DETACHED"
    and "th_stack_base (k_thread k (k_current k cpu)) \<noteq> 0 \<or> has_signal (th_flags (k_thread k (k_current k cpu))) THREAD_FLAG_FREE_STRUCT"
    and "\<not> dpc_in_list free_dpc s" "thread_exit_locked cpu now retcode free_dpc (s, k) = (s', k')"
  shows "dpc_list (s' cpu) = dpc_list (s cpu) @ [free_dpc]"
  using assms by (auto simp: thread_exit_locked_def dpc_queue_thread_locked_def Let_def split: if_splits prod.splits)

lemma thread_do_suspend_ok:
  assumes inv: "sinv C {} {} k" and cpu: "cpu \<in> C" and idle: "\<not> thread_is_idle (k_thread k (k_current k cpu))"
    and e: "thread_do_suspend cpu now free_dpc (s, k) = (s', k')"
  shows "sinv C {} {} k'"
proof -
  let ?f = "\<lambda>th. th\<lparr>th_state := THREAD_SUSPENDED, th_signals := th_signals th AND NOT THREAD_SIGNAL_SUSPEND\<rparr>"
  have r: "sinv C {} {} (sched_resched_internal cpu now (upd_thread (k_current k cpu) ?f k))"
    by (rule rest_resched_ok [OF inv cpu refl idle])
       (use current_free [OF inv cpu] in \<open>simp_all add: prio_ok_def thread_is_idle_def\<close>)
  obtain s1 k1 where x: "thread_exit_locked cpu now 0 free_dpc (s, k) = (s1, k1)" by force
  show ?thesis using e r x thread_exit_ok(1) [OF inv cpu idle x] inv
    by (auto simp: thread_do_suspend_def thread_exit_def Let_def split: if_splits)
qed

lemma thread_process_pending_signals_ok:
  assumes inv: "sinv C {} {} k" and cpu: "cpu \<in> C" and idle: "\<not> thread_is_idle (k_thread k (k_current k cpu))"
    and e: "thread_process_pending_signals cpu now free_dpc (s, k) = (s', k')"
  shows "sinv C {} {} k'"
proof -
  obtain s1 k1 where x: "thread_exit_locked cpu now 0 free_dpc (s, k) = (s1, k1)" by force
  obtain s2 k2 where d: "thread_do_suspend cpu now free_dpc (s, k) = (s2, k2)" by force
  show ?thesis using e x d thread_exit_ok(1) [OF inv cpu idle x] thread_do_suspend_ok [OF inv cpu idle d] inv sinv_signals [OF inv]
    by (auto simp: thread_process_pending_signals_def thread_exit_def Let_def split: if_splits)
qed

lemma wq_empty_init: "wq_ok pri w \<Longrightarrow> wq_threads w = [] \<Longrightarrow> w = wait_queue_init"
  by (cases w; cases "wq_heads w") (auto simp: wq_ok_def wait_queue_init_def wq_threads_def)

lemma thread_create_etc_ok:
  assumes inv: "sinv C {} {} k" and t: "th_state (k_thread k t) = THREAD_INITIAL \<or> th_state (k_thread k t) = THREAD_DEATH"
      "\<not> thread_is_idle (k_thread k t)"
    and q: "wq k rwq = []" and pri: "0 \<le> priority" "priority \<le> 31" and flags: "flags \<in> {0, THREAD_FLAG_FREE_STRUCT}"
    and c: "thread_create_etc t rwq flags priority kstack k = (r, k')"
  shows "sinv C {} {} k'"
proof -
  have "k_wq k rwq = wait_queue_init" by (rule wq_empty_init [OF sinvD(3) [OF inv] q])
  then have k0: "upd_wq rwq (\<lambda>_. wait_queue_init) k = k" by (simp add: upd_wq_def fun_upd_idem)
  have ni: "\<not> thread_is_idle (initial_thread rwq)" by (simp add: thread_is_idle_def initial_thread_def has_signal_def)
  have k1: "sinv C {} {} (upd_thread t (\<lambda>_. initial_thread rwq) k)"
    by (rule sinv_quiet [OF inv]) (use t ni in \<open>auto simp: initial_thread_def prio_ok_def\<close>)
  let ?k = "sched_init_thread t priority (upd_thread t (\<lambda>_. initial_thread rwq) k)"
  have k2: "sinv C {} {} ?k" by (rule sched_init_thread_ok [OF k1 _ pri]) (simp add: initial_thread_def)
  have k3: "sinv C {} {} (upd_thread t (\<lambda>th. th\<lparr>th_stack_base := base\<rparr>) ?k)" for base
    by (rule sinv_same [OF k2]) (simp add: same_view_def)
  have "sinv C {} {} (upd_thread t (\<lambda>th. th\<lparr>th_flags := flags\<rparr>) (upd_thread t (\<lambda>th. th\<lparr>th_stack_base := base\<rparr>) ?k))" for base
    by (rule sinv_flags [OF k3])
       (use flags in \<open>auto simp: thread_is_idle_def sched_init_thread_def compute_effec_eq initial_thread_def has_signal_def
          THREAD_FLAG_FREE_STRUCT_def THREAD_FLAG_IDLE_def\<close>)
  then have "sinv C {} {} (upd_thread t (\<lambda>th. th\<lparr>th_stack_base := base, th_flags := flags\<rparr>) ?k)" for base
    by (simp add: upd_thread_twice comp_def)
  with k2 c show ?thesis by (auto simp: thread_create_etc_def k0 Let_def split: option.splits)
qed

section \<open>What signals do\<close>

text \<open>A thread that waits interruptably is taken off its queue with the status of the signal.\<close>

lemma interrupt_blocked_woken:
  assumes inv: "sinv C {} {} k" and cpu: "cpu \<in> C" and q: "th_blocking_wait_queue (k_thread k t) = Some q" and i: "th_interruptable (k_thread k t)"
  shows "woken {t} q status k (interrupt_blocked cpu now t status k)"
proof -
  obtain st k1 where u: "wait_queue_unblock_thread cpu now t status k = (st, k1)" by force
  from unblock_thread_woken(2) [OF inv cpu q u] i u show ?thesis by (simp add: interrupt_blocked_def)
qed

lemma blocked_state:
  assumes "sinv C {} {} k" "th_blocking_wait_queue (k_thread k t) = Some q"
  shows "th_state (k_thread k t) = THREAD_BLOCKED \<or> th_state (k_thread k t) = THREAD_BLOCKED_READ_LOCK"
    "cpu \<in> C \<Longrightarrow> t \<noteq> k_current k cpu"
  using tinvD(7) [OF sinvD(1) [OF assms(1)], of t] assms(2) running_current(1) [OF assms(1), of cpu]
  by (auto simp: blocked_def)

lemma thread_kill_blocked:
  assumes inv: "sinv C {} {} k" and cpu: "cpu \<in> C" and q: "th_blocking_wait_queue (k_thread k t) = Some q"
    and i: "th_interruptable (k_thread k t)"
  shows "woken {t} q ZX_ERR_INTERNAL_INTR_KILLED (upd_thread t (\<lambda>th. th\<lparr>th_signals := th_signals th OR THREAD_SIGNAL_KILL\<rparr>) k)
    (thread_kill cpu now t k)"
proof -
  let ?k = "upd_thread t (\<lambda>th. th\<lparr>th_signals := th_signals th OR THREAD_SIGNAL_KILL\<rparr>) k"
  have k1: "sinv C {} {} ?k" by (rule sinv_signals [OF inv])
  have "thread_kill cpu now t k = interrupt_blocked cpu now t ZX_ERR_INTERNAL_INTR_KILLED ?k"
    using blocked_state(1) [OF inv q] blocked_state(2) [OF inv q cpu] by (auto simp: thread_kill_def Let_def)
  with interrupt_blocked_woken [OF k1 cpu, of t q] q i show ?thesis by simp
qed

lemma thread_suspend_blocked:
  assumes inv: "sinv C {} {} k" and cpu: "cpu \<in> C" and q: "th_blocking_wait_queue (k_thread k t) = Some q"
    and i: "th_interruptable (k_thread k t)"
  shows "fst (thread_suspend cpu now t k) = ZX_OK"
    "woken {t} q ZX_ERR_INTERNAL_INTR_RETRY (upd_thread t (\<lambda>th. th\<lparr>th_signals := th_signals th OR THREAD_SIGNAL_SUSPEND\<rparr>) k)
    (snd (thread_suspend cpu now t k))"
proof -
  let ?k = "upd_thread t (\<lambda>th. th\<lparr>th_signals := th_signals th OR THREAD_SIGNAL_SUSPEND\<rparr>) k"
  have k1: "sinv C {} {} ?k" by (rule sinv_signals [OF inv])
  have s: "thread_suspend cpu now t k = (ZX_OK, interrupt_blocked cpu now t ZX_ERR_INTERNAL_INTR_RETRY ?k)"
    using blocked_state(1) [OF inv q] by (auto simp: thread_suspend_def Let_def)
  show "fst (thread_suspend cpu now t k) = ZX_OK" by (simp add: s)
  show "woken {t} q ZX_ERR_INTERNAL_INTR_RETRY ?k (snd (thread_suspend cpu now t k))"
    using interrupt_blocked_woken [OF k1 cpu, of t q] q i by (simp add: s)
qed

end
