(* ===== verification/Zx_Transition.thy ===== *)
theory Zx_Transition
  imports Zx_Wake
begin

unbundle bit_operations_syntax

text \<open>
  Taking a processor away: \<open>sched_transition_off_cpu\<close> of \<^verbatim>\<open>kernel/kernel/sched.cpp\<close>. The loop that
  empties the run queues of the processor returns exactly when every thread in them that is not pinned to the
  processor may run on another active one.
\<close>

section \<open>One round of the loop\<close>

definition queued_on :: "kernel \<Rightarrow> cpu_num \<Rightarrow> tid \<Rightarrow> bool" where
  "queued_on k c t \<longleftrightarrow> (\<exists>p. t \<in> set (rq k c p))"

definition load :: "kernel \<Rightarrow> cpu_num \<Rightarrow> nat" where
  "load k c = (\<Sum>p < 32. length (rq k c p))"

text \<open>A thread that is pinned to the processor, or has somewhere to go.\<close>

definition pinned :: "cpu_num \<Rightarrow> kernel \<Rightarrow> tid \<Rightarrow> bool" where
  "pinned c k t \<longleftrightarrow> th_cpu_affinity (k_thread k t) = cpu_num_to_mask (Some c)"

definition movable :: "cpu_num \<Rightarrow> kernel \<Rightarrow> tid \<Rightarrow> bool" where
  "movable c k t \<longleftrightarrow> th_cpu_affinity (k_thread k t) AND k_active_cpus k AND NOT (cpu_num_to_mask (Some c)) \<noteq> 0"

lemma top_idle:
  assumes inv: "sinv C X D k" and c: "c \<in> C" and b: "pc_run_queue_bitmap (k_cpu k c) = 0"
  shows "sched_get_top_thread c k = (idle_of k c, k)" "thread_is_idle (k_thread k (idle_of k c))" "\<not> queued_on k c t"
proof -
  show "sched_get_top_thread c k = (idle_of k c, k)" by (simp add: sched_get_top_thread_def b)
  show "thread_is_idle (k_thread k (idle_of k c))" using cinvD(3) [OF sinvD(2) [OF inv] c] by (simp add: idle_ok_def)
  show "\<not> queued_on k c t" using cinvD(1) [OF sinvD(2) [OF inv], of c] b by (auto simp: percpu_ok_def queued_on_def)
qed

lemma top_thread:
  assumes inv: "sinv C X D k" and b: "pc_run_queue_bitmap (k_cpu k c) \<noteq> 0" and top: "sched_get_top_thread c k = (t, k1)"
  shows "sinv C (insert t X) D k1" "t \<notin> X" "th_state (k_thread k t) = THREAD_READY" "\<not> thread_is_idle (k_thread k t)"
    "th_curr_cpu (k_thread k t) = Some c" "k_thread k1 = k_thread k" "k_active_cpus k1 = k_active_cpus k"
    "queued_on k c t" "queued_on k1 c u \<longleftrightarrow> queued_on k c u \<and> u \<noteq> t" "Suc (load k1 c) = load k c"
proof -
  let ?p = "highest_run_queue (k_cpu k c)"
  have ok: "percpu_ok (k_cpu k c)" using cinvD(1) [OF sinvD(2) [OF inv]] .
  obtain ts where q: "rq k c ?p = t # ts" and k1: "k1 = upd_cpu c (shrink_queue ?p ts) k"
    using top b highest_run_queue_ok(1) [OF ok b] by (cases "rq k c ?p") (auto simp: sched_get_top_thread_def Let_def)
  have mem: "t \<in> set (rq k c ?p)" by (simp add: q)
  note T = tinvD [OF sinvD(1) [OF inv, of t]]
  have on: "t \<notin> X" "on_queue (k_thread k t) c ?p" using T(2) mem by blast+
  then show "t \<notin> X" "th_state (k_thread k t) = THREAD_READY" "\<not> thread_is_idle (k_thread k t)" "th_curr_cpu (k_thread k t) = Some c"
    by (simp_all add: on_queue_def)
  show "sinv C (insert t X) D k1" using sinv_dequeue [OF inv mem] q by (simp add: k1)
  show "k_thread k1 = k_thread k" "k_active_cpus k1 = k_active_cpus k" by (simp_all add: k1)
  show "queued_on k c t" using mem by (auto simp: queued_on_def)
  have rq1: "rq k1 c p = (if p = ?p then ts else rq k c p)" for p by (simp add: k1 shrink_queue_def)
  have "distinct (rq k c ?p)" using ok by (simp add: percpu_ok_def)
  then have nt: "t \<notin> set ts" by (simp add: q)
  have only: "t \<notin> set (rq k c p)" if "p \<noteq> ?p" for p using T(2) [of c p] on that by (auto simp: on_queue_def)
  show "queued_on k1 c u \<longleftrightarrow> queued_on k c u \<and> u \<noteq> t"
  proof
    assume "queued_on k1 c u"
    then obtain p where "u \<in> set (rq k1 c p)" by (auto simp: queued_on_def)
    then have "u \<in> set (rq k c p)" "u \<noteq> t" unfolding rq1 using q nt only by (cases "p = ?p"; auto)+
    then show "queued_on k c u \<and> u \<noteq> t" by (auto simp: queued_on_def)
  next
    assume u: "queued_on k c u \<and> u \<noteq> t"
    then obtain p where "u \<in> set (rq k c p)" by (auto simp: queued_on_def)
    with u q have "u \<in> set (rq k1 c p)" unfolding rq1 by (cases "p = ?p") auto
    then show "queued_on k1 c u" by (auto simp: queued_on_def)
  qed
  have p32: "?p < 32" by (simp add: highest_run_queue_def)
  have "load k1 c + 1 = load k c"
    unfolding load_def rq1 using p32 by (simp add: sum.remove [of "{..<32}" ?p] q)
  then show "Suc (load k1 c) = load k c" by simp
qed

lemma find_cpu_elsewhere:
  assumes off: "\<not> bit (k_active_cpus k) c" and m: "movable c k t" and f: "find_cpu_mask c t k = (m, k1)"
  shows "lowest_cpu_set m \<noteq> c"
proof -
  let ?aff = "th_cpu_affinity (k_thread k t)" and ?act = "k_active_cpus k" and ?last = "cpu_num_to_mask (th_last_cpu (k_thread k t))"
  have away: "lowest_cpu_set (push_bit r 1) \<noteq> c" if "bit ?act r" for r
    using that off lowest_push [of r] bit_imp_le_length [OF that] by auto
  have last: "lowest_cpu_set ?last \<noteq> c" if nz: "?last AND x \<noteq> 0" and sub: "\<And>n. bit x n \<Longrightarrow> bit ?act n" for x
  proof -
    obtain n where n: "n < 32" "th_last_cpu (k_thread k t) = Some n" "bit x n" using mask_meets [OF nz] by blast
    from away [OF sub [OF n(3)]] show ?thesis by (simp only: n(2) mask_push [OF n(1)] not_False_eq_True)
  qed
  have rand: "lowest_cpu_set m' \<noteq> c" if "rand_cpu x k = (m', k')" "x AND ?act \<noteq> 0" for x m' k'
    using rand_cpu_ok [OF that(2)] that(1) away by (metis prod.inject)
  have cur: "x AND cpu_num_to_mask (Some c) = 0" if "\<And>n. bit x n \<Longrightarrow> bit ?act n" for x
    using that off by (intro bit_eqI) (auto simp: bit_and_iff bit_cpu_num_to_mask)
  have ne: "(?aff AND NOT (cpu_num_to_mask (Some c))) AND ?act \<noteq> 0" using m by (simp add: movable_def ac_simps)
  then have ne0: "?aff AND NOT (cpu_num_to_mask (Some c)) \<noteq> 0" by auto
  obtain r where r2: "rand_cpu (?aff AND NOT (cpu_num_to_mask (Some c))) k = (push_bit r 1, k\<lparr>k_rot := r\<rparr>)" "bit ?act r"
    by (rule rand_cpu_ok [OF ne])
  have "bit (push_bit r (1 :: u32)) r" using bit_imp_le_length [OF r2(2)] by (simp add: bit_simps)
  then have r32: "push_bit r (1 :: u32) \<noteq> 0" by (metis bit_0_eq bot_apply bot_bool_def)
  let ?cand = "k_idle_cpus k AND (?aff AND ?act)"
  have cand: "bit ?act n" if "bit ?cand n" for n using that by (simp add: bit_simps)
  consider (a) "?cand \<noteq> 0" | (b) "?cand = 0" "?last AND (?aff AND ?act) \<noteq> 0" | (c) "?cand = 0" "?last AND (?aff AND ?act) = 0" by blast
  then show ?thesis
  proof cases
    case a
    then show ?thesis
    proof (cases "?last AND ?cand \<noteq> 0")
      case True
      then have "m = ?last" using f a cur [of ?cand] cand by (auto simp: find_cpu_mask_def Let_def)
      with last [OF True] cand show ?thesis by blast
    next
      case False
      then have "rand_cpu ?cand k = (m, k1)" using f a cur [of ?cand] cand by (auto simp: find_cpu_mask_def Let_def)
      moreover have "?cand AND ?act \<noteq> 0" using a by (simp add: ac_simps)
      ultimately show ?thesis by (rule rand)
    qed
  next
    case b
    have lc: "lowest_cpu_set ?last \<noteq> c" using last [OF b(2)] by (simp add: bit_simps)
    show ?thesis
    proof (cases "?last = cpu_num_to_mask (Some c)")
      case True
      have "cpu_num_to_mask (Some c) AND (?aff AND ?act) = 0" using cur [of "?aff AND ?act"] by (simp add: bit_simps ac_simps)
      with b(2) True show ?thesis by simp
    next
      case False
      then have "m = ?last" using f b by (auto simp: find_cpu_mask_def Let_def ac_simps)
      with lc show ?thesis by simp
    qed
  next
    case c
    then have "m = push_bit r 1" using f ne0 r2(1) r32 by (auto simp: find_cpu_mask_def Let_def ac_simps simp del: push_bit_of_1)
    with away [OF r2(2)] show ?thesis by simp
  qed
qed

lemma find_cpu_here:
  assumes off: "\<not> bit (k_active_cpus k) c" and m: "\<not> movable c k t" and c: "c < 32"
  shows "find_cpu_mask c t k = (cpu_num_to_mask (Some c), k)" "lowest_cpu_set (cpu_num_to_mask (Some c)) = c"
proof -
  let ?aff = "th_cpu_affinity (k_thread k t)" and ?act = "k_active_cpus k"
  have "bit (?aff AND ?act AND NOT (cpu_num_to_mask (Some c))) n = bit 0 n" for n using m by (simp add: movable_def)
  then have "\<not> (bit ?aff n \<and> bit ?act n)" for n
    using off bit_imp_le_length [of ?act n] by (auto simp: bit_simps bit_cpu_num_to_mask)
  then have z: "?aff AND ?act = 0" "x AND (?aff AND ?act) = 0" "x AND (?act AND ?aff) = 0" for x by (auto simp: bit_simps intro!: bit_eqI)
  have "(?aff AND NOT (cpu_num_to_mask (Some c))) AND ?act = 0" using m by (simp add: movable_def ac_simps)
  from rand_cpu_none [OF this] show "find_cpu_mask c t k = (cpu_num_to_mask (Some c), k)"
    by (simp add: find_cpu_mask_def Let_def z)
  show "lowest_cpu_set (cpu_num_to_mask (Some c)) = c" using c lowest_push by (simp add: mask_push)
qed

lemma find_insert_shape:
  assumes "find_cpu_and_insert c t (lr, acc, k) = (lr', acc', k')" "find_cpu_mask c t k = (m, k1)"
  shows "k' = insert_in_run_queue_head (lowest_cpu_set m) t (upd_thread t (\<lambda>th. th\<lparr>th_curr_cpu := Some (lowest_cpu_set m)\<rparr>) k1) \<or>
    k' = insert_in_run_queue_tail (lowest_cpu_set m) t (upd_thread t (\<lambda>th. th\<lparr>th_curr_cpu := Some (lowest_cpu_set m)\<rparr>) k1)"
  using assms by (auto simp: find_cpu_and_insert_def Let_def split: if_splits)

lemma find_insert_frame:
  assumes f: "find_cpu_and_insert c t (lr, acc, k) = (lr', acc', k')" and cpu: "c \<in> C" and inv: "sinv C X D k"
  shows "k_active_cpus k' = k_active_cpus k" "th_cpu_affinity (k_thread k' u) = th_cpu_affinity (k_thread k u)"
    "u \<noteq> t \<Longrightarrow> k_thread k' u = k_thread k u"
proof -
  obtain m k1 where m: "find_cpu_mask c t k = (m, k1)" by force
  have "k_thread k1 = k_thread k \<and> k_active_cpus k1 = k_active_cpus k"
    using find_cpu_mask_ok(2) [OF cpu sinvD(5) [OF inv] sinvD(6) [OF inv] m] by auto
  with find_insert_shape [OF f m]
  show "k_active_cpus k' = k_active_cpus k" "th_cpu_affinity (k_thread k' u) = th_cpu_affinity (k_thread k u)"
    "u \<noteq> t \<Longrightarrow> k_thread k' u = k_thread k u"
    by (auto simp: insert_in_run_queue_head_def insert_in_run_queue_tail_def mp_set_cpu_busy_def Let_def)
qed

lemma insert_run_queue_cpu:
  "rq (insert_in_run_queue_head n t k) c p = (if c = n \<and> p = nat (effec k t) then t # rq k c p else rq k c p)"
  "rq (insert_in_run_queue_tail n t k) c p = (if c = n \<and> p = nat (effec k t) then rq k c p @ [t] else rq k c p)"
  by (simp_all add: insert_in_run_queue_head_def insert_in_run_queue_tail_def mp_set_cpu_busy_def Let_def)

lemma find_insert_queues:
  assumes f: "find_cpu_and_insert c t (lr, acc, k) = (lr', acc', k')" and cpu: "c \<in> C" and inv: "sinv C X D k"
    and off: "\<not> bit (k_active_cpus k) c"
  shows "movable c k t \<Longrightarrow> queued_on k' c u = queued_on k c u" "movable c k t \<Longrightarrow> load k' c = load k c"
    "queued_on k c u \<Longrightarrow> queued_on k' c u" "\<not> movable c k t \<Longrightarrow> queued_on k' c t"
proof -
  obtain m k1 where m: "find_cpu_mask c t k = (m, k1)" by force
  have k1: "k_cpu k1 = k_cpu k"
    using find_cpu_mask_ok(2) [OF cpu sinvD(5) [OF inv] sinvD(6) [OF inv] m] by auto
  have c: "c < 32" using sinvD(5) [OF inv] cpu by auto
  note S = find_insert_shape [OF f m]
  have r: "rq k' c p = rq k c p" if "lowest_cpu_set m \<noteq> c" for p using S that k1 by (auto simp: insert_run_queue_cpu)
  show "queued_on k' c u = queued_on k c u" "load k' c = load k c" if "movable c k t"
    using r [OF find_cpu_elsewhere [OF off that m]] by (simp_all add: queued_on_def load_def)
  have "set (rq k c p) \<subseteq> set (rq k' c p)" for p using S k1 by (auto simp: insert_run_queue_cpu)
  then show "queued_on k' c u" if "queued_on k c u" using that unfolding queued_on_def by blast
  show "queued_on k' c t" if "\<not> movable c k t"
  proof -
    have "lowest_cpu_set m = c" using find_cpu_here [OF off that c] m by simp
    with S show ?thesis unfolding queued_on_def
      by (intro exI [of _ "nat (effec (upd_thread t (\<lambda>th. th\<lparr>th_curr_cpu := Some (lowest_cpu_set m)\<rparr>) k1) t)"])
         (auto simp: insert_run_queue_cpu)
  qed
qed

section \<open>The loop\<close>

definition loop_ok :: "cpu_num set \<Rightarrow> cpu_num \<Rightarrow> tid list \<Rightarrow> kernel \<Rightarrow> bool" where
  "loop_ok C c ps k \<longleftrightarrow> sinv C (set ps) {} k \<and> distinct ps \<and> c \<in> C \<and> \<not> bit (k_active_cpus k) c \<and>
     (\<forall>t \<in> set ps. pinned c k t \<and> th_state (k_thread k t) = THREAD_READY \<and> \<not> thread_is_idle (k_thread k t) \<and>
        th_curr_cpu (k_thread k t) = Some c)"

text \<open>The thread is set aside, or it goes back to a queue.\<close>

lemma loop_ok_pin:
  assumes ok: "loop_ok C c ps k" and b: "pc_run_queue_bitmap (k_cpu k c) \<noteq> 0" and top: "sched_get_top_thread c k = (t, k1)"
    and p: "pinned c k t"
  shows "loop_ok C c (t # ps) k1"
proof -
  have inv: "sinv C (set ps) {} k" using ok by (simp add: loop_ok_def)
  note T = top_thread [OF inv b top]
  show ?thesis using ok T(1-7) p by (simp add: loop_ok_def pinned_def)
qed

lemma loop_ok_move:
  assumes ok: "loop_ok C c ps k" and b: "pc_run_queue_bitmap (k_cpu k c) \<noteq> 0" and top: "sched_get_top_thread c k = (t, k1)"
    and f: "find_cpu_and_insert c t (lr, acc, k1) = (lr', acc', k')"
  shows "loop_ok C c ps k'"
proof -
  have inv: "sinv C (set ps) {} k" and c: "c \<in> C" using ok by (simp_all add: loop_ok_def)
  note T = top_thread [OF inv b top]
  note F = find_insert_ok [OF T(1) c insertI1, unfolded T(6), OF T(3,4) f]
  have "insert t (set ps) - {t} = set ps" using T(2) by simp
  then have s: "sinv C (set ps) {} k'" using F(1) by simp
  have th: "k_thread k' u = k_thread k u" if "u \<in> set ps" for u
    using find_insert_frame(3) [OF f c T(1), of u] T(2,6) that by auto
  show ?thesis using ok s th find_insert_frame(1) [OF f c T(1)] T(7) by (simp add: loop_ok_def pinned_def)
qed

lemma transition_loop_returns:
  assumes "loop_ok C c ps k" "\<And>t. queued_on k c t \<Longrightarrow> pinned c k t \<or> movable c k t"
  shows "\<exists>ps' lr' acc' k'. transition_loop c ps (lr, acc, k) = Some (ps', lr', acc', k') \<and> loop_ok C c ps' k' \<and>
    (\<forall>t. \<not> queued_on k' c t)"
  using assms
proof (induction "load k c" arbitrary: k ps lr acc rule: less_induct)
  case (less k)
  have inv: "sinv C (set ps) {} k" and c: "c \<in> C" using less.prems(1) by (simp_all add: loop_ok_def)
  obtain t k1 where top: "sched_get_top_thread c k = (t, k1)" by force
  show ?case
  proof (cases "pc_run_queue_bitmap (k_cpu k c) = 0")
    case True
    note I = top_idle [OF inv c True]
    show ?thesis using I less.prems(1) by (subst transition_loop.simps) simp
  next
    case b: False
    note T = top_thread [OF inv b top]
    have ld: "load k1 c < load k c" using T(10) by simp
    have q1: "pinned c k1 u \<or> movable c k1 u" if "queued_on k1 c u" for u
      using less.prems(2) [of u] T(6,7,9) that by (auto simp: pinned_def movable_def)
    show ?thesis
    proof (cases "pinned c k t")
      case True
      from less.hyps [OF ld loop_ok_pin [OF less.prems(1) b top True] q1, of lr acc] True T(4,6)
      show ?thesis by (subst transition_loop.simps) (simp add: top pinned_def)
    next
      case False
      have mv: "movable c k1 t" using less.prems(2) [OF T(8)] False T(6,7) by (simp add: movable_def)
      have off: "\<not> bit (k_active_cpus k1) c" using less.prems(1) T(7) by (simp add: loop_ok_def)
      obtain lr' acc' k' where f: "find_cpu_and_insert c t (lr, acc, k1) = (lr', acc', k')" by (rule prod_cases3)
      note Q = find_insert_queues [OF f c T(1) off] and R = find_insert_frame [OF f c T(1)]
      have ld': "load k' c < load k c" using ld Q(2) [OF mv] by simp
      have q': "pinned c k' u \<or> movable c k' u" if "queued_on k' c u" for u
        using q1 [of u] Q(1) [OF mv, of u] that R(1,2) by (simp add: pinned_def movable_def)
      from less.hyps [OF ld' loop_ok_move [OF less.prems(1) b top f] q', of lr' acc'] False T(4,6)
      show ?thesis by (subst transition_loop.simps) (simp add: top pinned_def f)
    qed
  qed
qed

lemma transition_loop_stuck:
  assumes "transition_loop c ps a = Some r"
  shows "\<forall>lr acc k. a = (lr, acc, k) \<longrightarrow> loop_ok C c ps k \<longrightarrow> queued_on k c t \<longrightarrow> pinned c k t \<or> movable c k t"
proof (rule transition_loop.raw_induct [where P = "\<lambda>c ps a r. \<forall>lr acc k. a = (lr, acc, k) \<longrightarrow> loop_ok C c ps k \<longrightarrow>
      queued_on k c t \<longrightarrow> pinned c k t \<or> movable c k t", OF _ assms], intro allI impI)
  fix tl c ps a r lr acc k
  assume IH: "\<And>c ps a r. tl c ps a = Some r \<Longrightarrow> \<forall>lr acc k. a = (lr, acc, k) \<longrightarrow> loop_ok C c ps k \<longrightarrow>
    queued_on k c t \<longrightarrow> pinned c k t \<or> movable c k t"
    and st: "(case a of (local_resched, accum_cpu_mask, k) \<Rightarrow>
      let (t, k1) = sched_get_top_thread c k in
      if thread_is_idle (k_thread k1 t) then Some (ps, local_resched, accum_cpu_mask, k1)
      else if th_cpu_affinity (k_thread k1 t) \<noteq> cpu_num_to_mask (Some c)
      then tl c ps (find_cpu_and_insert c t (local_resched, accum_cpu_mask, k1))
      else tl c (t # ps) (local_resched, accum_cpu_mask, k1)) = Some r"
  assume a: "a = (lr, acc, k)" and ok: "loop_ok C c ps k" and q: "queued_on k c t"
  have inv: "sinv C (set ps) {} k" and c: "c \<in> C" using ok by (simp_all add: loop_ok_def)
  obtain u k1 where top: "sched_get_top_thread c k = (u, k1)" by force
  have b: "pc_run_queue_bitmap (k_cpu k c) \<noteq> 0" using top_idle(3) [OF inv c, of t] q by blast
  note T = top_thread [OF inv b top]
  have off: "\<not> bit (k_active_cpus k1) c" using ok T(7) by (simp add: loop_ok_def)
  show "pinned c k t \<or> movable c k t"
  proof (rule ccontr)
    assume n: "\<not> (pinned c k t \<or> movable c k t)"
    then have n1: "\<not> pinned c k1 t" "\<not> movable c k1 t" using T(6,7) by (simp_all add: pinned_def movable_def)
    show False
    proof (cases "pinned c k u")
      case True
      with st T(4,6) have "tl c (u # ps) (lr, acc, k1) = Some r" by (simp add: a top pinned_def)
      from IH [OF this] loop_ok_pin [OF ok b top True] T(9) [of t] q True n n1 show False by auto
    next
      case False
      obtain lr' acc' k' where f: "find_cpu_and_insert c u (lr, acc, k1) = (lr', acc', k')" by (rule prod_cases3)
      note Q = find_insert_queues [OF f c T(1) off] and R = find_insert_frame [OF f c T(1)]
      from st T(4,6) False have "tl c ps (lr', acc', k') = Some r" by (simp add: a top pinned_def f)
      from IH [OF this] loop_ok_move [OF ok b top f] have "queued_on k' c t \<Longrightarrow> pinned c k' t \<or> movable c k' t" by blast
      moreover have "queued_on k' c t" using Q(3) [of t] Q(4) n1(2) T(9) [of t] q by (cases "t = u") auto
      ultimately show False using n1 R(1,2) by (simp add: pinned_def movable_def)
    qed
  qed
qed

section \<open>The operation\<close>

lemma sinv_inactive:
  assumes "sinv C X D k"
  shows "sinv C X D (mp_set_curr_cpu_active c False k)"
proof -
  let ?k = "mp_set_curr_cpu_active c False k"
  have k: "k_thread ?k = k_thread k" "k_wq ?k = k_wq k" "k_cpu ?k = k_cpu k" "k_current ?k = k_current k"
    by (simp_all add: mp_set_curr_cpu_active_def)
  have "bit (k_active_cpus k) n" if "bit (k_active_cpus ?k) n" for n using that by (simp add: mp_set_curr_cpu_active_def bit_simps)
  then show ?thesis using assms unfolding sinv_def tinv_def cinv_def k by blast
qed

lemma fold_insert_ok:
  assumes "sinv C (set ps) {} k" "distinct ps" "c \<in> C"
    "\<forall>t \<in> set ps. th_state (k_thread k t) = THREAD_READY \<and> \<not> thread_is_idle (k_thread k t) \<and> th_curr_cpu (k_thread k t) = Some c"
  shows "sinv C {} {} (fold (insert_in_run_queue_head c) ps k) \<and> k_thread (fold (insert_in_run_queue_head c) ps k) = k_thread k \<and>
    (\<forall>t. queued_on (fold (insert_in_run_queue_head c) ps k) c t \<longrightarrow> queued_on k c t \<or> t \<in> set ps)"
  using assms
proof (induction ps arbitrary: k)
  case (Cons t ps)
  let ?k = "insert_in_run_queue_head c t k"
  have t: "th_state (k_thread k t) = THREAD_READY" "\<not> thread_is_idle (k_thread k t)" "th_curr_cpu (k_thread k t) = Some c"
    using Cons.prems(4) by auto
  have "sinv C (set (t # ps) - {t}) {} ?k" by (rule sinv_insert(1) [OF Cons.prems(1) _ t Cons.prems(3)]) simp
  moreover have "set (t # ps) - {t} = set ps" using Cons.prems(2) by auto
  ultimately have "sinv C (set ps) {} ?k" by simp
  from Cons.IH [OF this _ Cons.prems(3)] Cons.prems(2,4)
  have IH: "sinv C {} {} (fold (insert_in_run_queue_head c) ps ?k)" "k_thread (fold (insert_in_run_queue_head c) ps ?k) = k_thread k"
    "\<And>u. queued_on (fold (insert_in_run_queue_head c) ps ?k) c u \<Longrightarrow> queued_on ?k c u \<or> u \<in> set ps" by simp_all
  have "queued_on ?k c u \<Longrightarrow> queued_on k c u \<or> u = t" for u by (auto simp: queued_on_def insert_run_queue_cpu split: if_splits)
  with IH show ?case by fastforce
qed simp

lemma transition_start:
  assumes inv: "sinv C {} {} k" and c: "c \<in> C" and k1: "k1 = mp_set_curr_cpu_active c False k"
  shows "loop_ok C c [] k1" "queued_on k1 c t = queued_on k c t" "pinned c k1 t = pinned c k t" "movable c k1 t = movable c k t"
proof -
  have c32: "c < 32" using sinvD(5) [OF inv] c by auto
  show "loop_ok C c [] k1" using sinv_inactive [OF inv, of c] c c32
    by (simp add: loop_ok_def k1 mp_set_curr_cpu_active_def bit_simps bit_cpu_num_to_mask)
  show "queued_on k1 c t = queued_on k c t" "pinned c k1 t = pinned c k t"
    by (simp_all add: k1 mp_set_curr_cpu_active_def queued_on_def pinned_def)
  show "movable c k1 t = movable c k t" by (simp add: k1 mp_set_curr_cpu_active_def movable_def ac_simps)
qed

lemma ipis_cpu [simp]: "k_cpu (send_ipis c m k) = k_cpu k"
  by (simp add: send_ipis_def mp_reschedule_def Let_def)

lemma transition_returns:
  assumes inv: "sinv C {} {} k" and c: "c \<in> C" and q: "\<And>t. queued_on k c t \<Longrightarrow> pinned c k t \<or> movable c k t"
  shows "\<exists>k'. sched_transition_off_cpu c k = Some k' \<and> sinv C {} {} k' \<and> (\<forall>t. queued_on k' c t \<longrightarrow> pinned c k' t)"
proof -
  note S = transition_start [OF inv c refl]
  have "queued_on (mp_set_curr_cpu_active c False k) c t \<Longrightarrow>
      pinned c (mp_set_curr_cpu_active c False k) t \<or> movable c (mp_set_curr_cpu_active c False k) t" for t using q [of t] S(2-4) by simp
  from transition_loop_returns [OF S(1) this, of False 0]
  obtain ps lr acc k1 where l: "transition_loop c [] (False, 0, mp_set_curr_cpu_active c False k) = Some (ps, lr, acc, k1)"
    and ok: "loop_ok C c ps k1" and e: "\<And>t. \<not> queued_on k1 c t" by blast
  let ?k = "fold (insert_in_run_queue_head c) ps k1"
  have F: "sinv C {} {} ?k" "k_thread ?k = k_thread k1" "\<And>t. queued_on ?k c t \<Longrightarrow> t \<in> set ps"
    using fold_insert_ok [of C ps k1 c] ok e by (auto simp: loop_ok_def)
  have "pinned c (send_ipis c acc ?k) t" if "queued_on (send_ipis c acc ?k) c t" for t
    using F(2) F(3) [of t] ok that by (simp add: queued_on_def loop_ok_def pinned_def)
  then show ?thesis using l sinv_masks(6) [OF F(1)] by (auto simp: sched_transition_off_cpu_def)
qed

lemma transition_only_if:
  assumes inv: "sinv C {} {} k" and c: "c \<in> C" and r: "sched_transition_off_cpu c k = Some k'" and q: "queued_on k c t"
  shows "pinned c k t \<or> movable c k t"
proof -
  note S = transition_start [OF inv c refl]
  obtain x where "transition_loop c [] (False, 0, mp_set_curr_cpu_active c False k) = Some x"
    using r by (auto simp: sched_transition_off_cpu_def split: option.splits)
  from transition_loop_stuck [OF this, of C t] S(1) S(2) [of t] q
  have "pinned c (mp_set_curr_cpu_active c False k) t \<or> movable c (mp_set_curr_cpu_active c False k) t" by auto
  then show ?thesis by (simp add: S(3,4))
qed

end
