(* ===== verification/Zx_Sched_History.thy ===== *)
theory Zx_Sched_History
  imports Zx_Threads Zx_Transition
begin

unbundle bit_operations_syntax

text \<open>
  Histories of the scheduler: a machine with n processors, each running its idle thread, and any sequence of
  the operations of \<^verbatim>\<open>thread.cpp\<close>, \<^verbatim>\<open>wait.cpp\<close>, \<^verbatim>\<open>event.cpp\<close> and
  \<^verbatim>\<open>dpc.cpp\<close>, on any processor, at any time. Each operation runs under the lock of the
  threads, so a sequence of operations is an interleaving of the processors.

  The theory shows that in every history each thread is in exactly the place its state says, that a processor
  that picks a thread picks one of the highest priority, that waiting threads are woken in the order of
  priority and then of arrival, and what signals, exits and events do to waiting threads.
\<close>

section \<open>Start\<close>

definition idle_thread :: "cpu_num \<Rightarrow> thread" where
  "idle_thread c = (initial_thread c)
     \<lparr>th_state := THREAD_RUNNING, th_flags := THREAD_FLAG_IDLE, th_inherited_priority := - 1, th_curr_cpu := Some c,
      th_last_cpu := Some c, th_cpu_affinity := cpu_num_to_mask (Some c)\<rparr>"

definition idle_percpu :: "cpu_num \<Rightarrow> percpu" where
  "idle_percpu c = \<lparr>pc_run_queue = (\<lambda>_. []), pc_run_queue_bitmap = 0, pc_preempt_timer_deadline = ZX_TIME_INFINITE,
     pc_idle_time = 0, pc_idle_thread = c\<rparr>"

definition boot_kernel :: "nat \<Rightarrow> kernel" where
  "boot_kernel n =
     \<lparr>k_thread = (\<lambda>t. if t < n then idle_thread t else initial_thread t), k_wq = (\<lambda>_. wait_queue_init), k_cpu = idle_percpu,
      k_current = (\<lambda>c. c), k_active_cpus = Bit_Operations.mask n, k_idle_cpus = Bit_Operations.mask n, k_realtime_cpus = 0, k_rot = 0, k_ipi = 0\<rparr>"

definition boot_dpcs :: dpcs where
  "boot_dpcs = dpc_init_state (\<lambda>c. 1000 + c)"

section \<open>Operations\<close>

datatype sched_op =
    Op_create tid wqid u32 int "u64 option"
  | Op_resume bool tid
  | Op_suspend tid
  | Op_kill tid
  | Op_set_affinity tid cpu_mask
  | Op_set_priority tid int
  | Op_set_real_time tid
  | Op_detach tid
  | Op_detach_and_resume bool tid
  | Op_join tid zx_time
  | Op_exit int dpc
  | Op_process_pending_signals dpc
  | Op_do_suspend_return dpc
  | Op_signal_policy_exception
  | Op_yield
  | Op_preempt
  | Op_reschedule
  | Op_preempt_timer_tick
  | Op_preempt_disable
  | Op_preempt_reenable
  | Op_resched_disable
  | Op_resched_reenable
  | Op_preempt_set_pending
  | Op_sleep zx_time bool
  | Op_sleep_return
  | Op_sleep_handler tid
  | Op_block wqid zx_time u32 resource_ownership
  | Op_wake_one wqid bool zx_status
  | Op_wake_all wqid bool zx_status
  | Op_unblock_thread tid zx_status
  | Op_timeout tid
  | Op_event_wait event zx_time bool u32
  | Op_event_wait_return
  | Op_event_signal event bool zx_status
  | Op_dpc_queue dpc bool

text \<open>What the callers guarantee: the idle threads are never blocked, suspended, killed or moved, and a structure
  that becomes a new thread belongs to no thread that still runs.\<close>

fun op_allowed :: "cpu_num \<Rightarrow> sched_op \<Rightarrow> kernel \<Rightarrow> bool" where
  "op_allowed cpu (Op_create t rwq flags priority kstack) k \<longleftrightarrow>
     (th_state (k_thread k t) = THREAD_INITIAL \<or> th_state (k_thread k t) = THREAD_DEATH) \<and> \<not> thread_is_idle (k_thread k t) \<and>
     wq_threads (k_wq k rwq) = [] \<and> 0 \<le> priority \<and> priority \<le> HIGHEST_PRIORITY \<and> (flags = 0 \<or> flags = THREAD_FLAG_FREE_STRUCT)"
| "op_allowed cpu (Op_resume _ t) k \<longleftrightarrow> \<not> thread_is_idle (k_thread k t)"
| "op_allowed cpu (Op_suspend t) k \<longleftrightarrow> \<not> thread_is_idle (k_thread k t)"
| "op_allowed cpu (Op_kill t) k \<longleftrightarrow> \<not> thread_is_idle (k_thread k t)"
| "op_allowed cpu (Op_set_affinity t _) k \<longleftrightarrow> \<not> thread_is_idle (k_thread k t)"
| "op_allowed cpu (Op_set_priority t _) k \<longleftrightarrow> \<not> thread_is_idle (k_thread k t)"
| "op_allowed cpu (Op_detach_and_resume _ t) k \<longleftrightarrow> \<not> thread_is_idle (k_thread k t)"
| "op_allowed cpu (Op_sleep_handler t) k \<longleftrightarrow> \<not> thread_is_idle (k_thread k t)"
| "op_allowed cpu (Op_unblock_thread t _) k \<longleftrightarrow> \<not> thread_is_idle (k_thread k t)"
| "op_allowed cpu (Op_timeout t) k \<longleftrightarrow> \<not> thread_is_idle (k_thread k t)"
| "op_allowed cpu (Op_join _ _) k \<longleftrightarrow> \<not> thread_is_idle (k_thread k (k_current k cpu))"
| "op_allowed cpu (Op_exit _ _) k \<longleftrightarrow> \<not> thread_is_idle (k_thread k (k_current k cpu))"
| "op_allowed cpu (Op_process_pending_signals _) k \<longleftrightarrow> \<not> thread_is_idle (k_thread k (k_current k cpu))"
| "op_allowed cpu (Op_do_suspend_return _) k \<longleftrightarrow> \<not> thread_is_idle (k_thread k (k_current k cpu))"
| "op_allowed cpu Op_yield k \<longleftrightarrow> \<not> thread_is_idle (k_thread k (k_current k cpu))"
| "op_allowed cpu (Op_sleep _ _) k \<longleftrightarrow> \<not> thread_is_idle (k_thread k (k_current k cpu))"
| "op_allowed cpu (Op_block _ _ _ _) k \<longleftrightarrow> \<not> thread_is_idle (k_thread k (k_current k cpu))"
| "op_allowed cpu (Op_event_wait _ _ _ _) k \<longleftrightarrow> \<not> thread_is_idle (k_thread k (k_current k cpu))"
| "op_allowed cpu _ k \<longleftrightarrow> True"

fun sched_apply :: "cpu_num \<Rightarrow> zx_time \<Rightarrow> sched_op \<Rightarrow> dpcs \<times> kernel \<Rightarrow> dpcs \<times> kernel" where
  "sched_apply cpu now (Op_create t rwq flags priority kstack) (s, k) = (s, snd (thread_create_etc t rwq flags priority kstack k))"
| "sched_apply cpu now (Op_resume resched t) (s, k) = (s, thread_resume cpu now resched t k)"
| "sched_apply cpu now (Op_suspend t) (s, k) = (s, snd (thread_suspend cpu now t k))"
| "sched_apply cpu now (Op_kill t) (s, k) = (s, thread_kill cpu now t k)"
| "sched_apply cpu now (Op_set_affinity t affinity) (s, k) = (s, thread_set_cpu_affinity cpu now t affinity k)"
| "sched_apply cpu now (Op_set_priority t priority) (s, k) = (s, thread_set_priority cpu now t priority k)"
| "sched_apply cpu now (Op_set_real_time t) (s, k) = (s, thread_set_real_time cpu t k)"
| "sched_apply cpu now (Op_detach t) (s, k) = (s, snd (thread_detach cpu now t k))"
| "sched_apply cpu now (Op_detach_and_resume resched t) (s, k) = (s, snd (thread_detach_and_resume cpu now resched t k))"
| "sched_apply cpu now (Op_join t deadline) (s, k) = (s, snd (snd (thread_join cpu now t deadline k)))"
| "sched_apply cpu now (Op_exit retcode d) (s, k) = thread_exit cpu now retcode d (s, k)"
| "sched_apply cpu now (Op_process_pending_signals d) (s, k) = thread_process_pending_signals cpu now d (s, k)"
| "sched_apply cpu now (Op_do_suspend_return d) (s, k) = thread_do_suspend_return cpu now d (s, k)"
| "sched_apply cpu now Op_signal_policy_exception (s, k) = (s, thread_signal_policy_exception cpu k)"
| "sched_apply cpu now Op_yield (s, k) = (s, thread_yield cpu now k)"
| "sched_apply cpu now Op_preempt (s, k) = (s, thread_preempt cpu now k)"
| "sched_apply cpu now Op_reschedule (s, k) = (s, thread_reschedule cpu now k)"
| "sched_apply cpu now Op_preempt_timer_tick (s, k) = (s, sched_preempt_timer_tick cpu now k)"
| "sched_apply cpu now Op_preempt_disable (s, k) = (s, thread_preempt_disable cpu k)"
| "sched_apply cpu now Op_preempt_reenable (s, k) = (s, thread_preempt_reenable cpu now k)"
| "sched_apply cpu now Op_resched_disable (s, k) = (s, thread_resched_disable cpu k)"
| "sched_apply cpu now Op_resched_reenable (s, k) = (s, thread_resched_reenable cpu now k)"
| "sched_apply cpu now Op_preempt_set_pending (s, k) = (s, thread_preempt_set_pending cpu k)"
| "sched_apply cpu now (Op_sleep deadline interruptable) (s, k) = (s, snd (thread_sleep_etc cpu now deadline interruptable k))"
| "sched_apply cpu now Op_sleep_return (s, k) = (s, snd (thread_sleep_etc_return cpu k))"
| "sched_apply cpu now (Op_sleep_handler t) (s, k) = (s, thread_sleep_handler cpu now t k)"
| "sched_apply cpu now (Op_block wait deadline signal_mask reason) (s, k) = (s, snd (wait_queue_block_etc cpu now wait deadline signal_mask reason k))"
| "sched_apply cpu now (Op_wake_one wait resched e) (s, k) = (s, snd (wait_queue_wake_one cpu now wait resched e k))"
| "sched_apply cpu now (Op_wake_all wait resched e) (s, k) = (s, snd (wait_queue_wake_all cpu now wait resched e k))"
| "sched_apply cpu now (Op_unblock_thread t e) (s, k) = (s, snd (wait_queue_unblock_thread cpu now t e k))"
| "sched_apply cpu now (Op_timeout t) (s, k) = (s, wait_queue_timeout_handler cpu now t k)"
| "sched_apply cpu now (Op_event_wait e deadline interruptable signal_mask) (s, k) =
     (s, snd (snd (event_wait_worker cpu now deadline interruptable signal_mask e k)))"
| "sched_apply cpu now Op_event_wait_return (s, k) = (s, snd (event_wait_worker_return cpu k))"
| "sched_apply cpu now (Op_event_signal e resched st) (s, k) = (s, snd (snd (event_signal_etc cpu now resched st e k)))"
| "sched_apply cpu now (Op_dpc_queue d resched) (s, k) = snd (dpc_queue cpu now d resched (s, k))"

inductive sched_reach :: "nat \<Rightarrow> dpcs \<times> kernel \<Rightarrow> bool" for n where
  boot: "0 < n \<Longrightarrow> n \<le> SMP_MAX_CPUS \<Longrightarrow> sched_reach n (boot_dpcs, boot_kernel n)"
| step: "sched_reach n (s, k) \<Longrightarrow> cpu < n \<Longrightarrow> op_allowed cpu op k \<Longrightarrow> sched_reach n (sched_apply cpu now op (s, k))"

section \<open>The invariant in every history\<close>

lemma boot_sinv:
  assumes n: "n \<le> 32"
  shows "sinv {..<n} {} {} (boot_kernel n)"
proof (rule sinvI)
  let ?k = "boot_kernel n"
  have th: "k_thread ?k t = (if t < n then idle_thread t else initial_thread t)" for t by (simp add: boot_kernel_def)
  have i: "thread_is_idle (idle_thread t)" "\<not> thread_is_idle (initial_thread t)" for t
    by (simp_all add: thread_is_idle_def idle_thread_def initial_thread_def has_signal_def THREAD_FLAG_IDLE_def)
  have sel: "rq ?k c p = []" "wq ?k q = []" "k_current ?k = (\<lambda>c. c)" "idle_of ?k c = c" "k_wq ?k q = wait_queue_init"
    "wq_threads wait_queue_init = []" for c p q
    by (simp_all add: boot_kernel_def idle_percpu_def wait_queue_init_def wq_threads_def)
  show "tinv {..<n} {} {} ?k t" for t
    by (rule tinvI; cases "t < n")
       (auto simp: th sel i prio_ok_def on_queue_def blocked_def idle_thread_def initial_thread_def
          thread_is_idle_def has_signal_def THREAD_FLAG_IDLE_def)
  show "cinv {..<n} {} ?k c" for c
    by (rule cinvI) (auto simp: th sel i running_on_def idle_ok_def, simp_all add: boot_kernel_def percpu_ok_def idle_percpu_def
        idle_thread_def initial_thread_def)
  show "wq_ok (effec ?k) (k_wq ?k q)" for q unfolding sel by (rule wq_ok_init)
  show "inj_on (idle_of ?k) {..<n}" "{..<n} \<subseteq> {..<32}" using n by (auto simp: sel inj_on_def)
  show "c \<in> {..<n}" if "bit (k_active_cpus ?k) c" for c using that by (simp add: boot_kernel_def bit_mask_iff)
qed

lemma sched_apply_sinv:
  assumes inv: "sinv C {} {} k" and cpu: "cpu \<in> C" and op: "op_allowed cpu op k" and a: "sched_apply cpu now op (s, k) = (s', k')"
  shows "sinv C {} {} k'"
proof (cases op)
  case (Op_create t rwq flags priority kstack)
  obtain r k1 where "thread_create_etc t rwq flags priority kstack k = (r, k1)" by force
  with Op_create a op thread_create_etc_ok [OF inv, of t rwq priority flags kstack] show ?thesis by auto
next
  case (Op_detach_and_resume b t)
  obtain st k1 where d: "thread_detach cpu now t k = (st, k1)" by force
  have k1: "sinv C {} {} k1" using thread_detach_ok [OF inv cpu, of now t] d by simp
  have "\<not> thread_is_idle (k_thread k1 t)" using thread_detach_idle [OF inv cpu d] op Op_detach_and_resume by simp
  from thread_resume_ok [OF k1 cpu this] k1 show ?thesis using a Op_detach_and_resume d
    by (auto simp: thread_detach_and_resume_def split: if_splits)
next
  case (Op_join t deadline)
  obtain st rc k1 where "thread_join cpu now t deadline k = (st, rc, k1)" by (rule prod_cases3)
  with Op_join a op thread_join_ok [OF inv cpu] show ?thesis by auto
next
  case (Op_do_suspend_return d)
  then show ?thesis using a op inv thread_exit_ok(1) [OF inv cpu, of now 0 d s s' k']
    by (auto simp: thread_do_suspend_return_def thread_exit_def split: if_splits)
next
  case (Op_block q dl sm re)
  obtain r k1 where "wait_queue_block_etc cpu now q dl sm re k = (r, k1)" by force
  with Op_block a op wait_queue_block_etc_ok(1) [OF inv cpu] show ?thesis by auto
next
  case (Op_wake_one q b e)
  obtain r k1 where "wait_queue_wake_one cpu now q b e k = (r, k1)" by force
  with Op_wake_one a wait_queue_wake_one_ok(1) [OF inv cpu] show ?thesis by auto
next
  case (Op_wake_all q b e)
  obtain r k1 where "wait_queue_wake_all cpu now q b e k = (r, k1)" by force
  with Op_wake_all a wait_queue_wake_all_ok(1) [OF inv cpu] show ?thesis by auto
next
  case (Op_unblock_thread t e)
  obtain r k1 where "wait_queue_unblock_thread cpu now t e k = (r, k1)" by force
  with Op_unblock_thread a op wait_queue_unblock_thread_ok(1) [OF inv cpu] show ?thesis by auto
next
  case (Op_timeout t)
  obtain r k1 where "wait_queue_unblock_thread cpu now t ZX_ERR_TIMED_OUT k = (r, k1)" by force
  with Op_timeout a op wait_queue_unblock_thread_ok(1) [OF inv cpu] show ?thesis by (auto simp: wait_queue_timeout_handler_def)
next
  case (Op_event_wait e dl i sm)
  obtain r e' k1 where "event_wait_worker cpu now dl i sm e k = (r, e', k1)" by (rule prod_cases3)
  with Op_event_wait a op event_wait_worker_ok [OF inv cpu] show ?thesis by auto
next
  case (Op_event_signal e b st)
  obtain r e' k1 where "event_signal_internal cpu now b st e k = (r, e', k1)" by (rule prod_cases3)
  with Op_event_signal a event_signal_internal_ok [OF inv cpu] show ?thesis by (auto simp: event_signal_etc_def)
next
  case (Op_dpc_queue d b)
  obtain st s1 where q: "dpc_queue_add cpu d s = (st, s1)" by force
  obtain r e' k1 where e: "event_signal_internal cpu now b ZX_OK (dpc_event (s1 cpu)) k = (r, e', k1)" by (rule prod_cases3)
  show ?thesis using Op_dpc_queue a q e inv event_signal_internal_ok [OF inv cpu e]
    by (auto simp: dpc_queue_def dpc_queue_signal_def event_signal_def split: if_splits)
qed (use a op inv cpu in \<open>auto simp: thread_yield_def thread_preempt_def thread_reschedule_def thread_exit_def
    thread_sleep_etc_return_def event_wait_worker_return_def thread_signal_policy_exception_def
    intro: thread_resume_ok thread_suspend_ok thread_kill_ok thread_set_cpu_affinity_ok thread_set_priority_ok
      thread_set_real_time_ok thread_detach_ok sinv_interruptable sinv_signals thread_exit_ok(1)
      thread_process_pending_signals_ok sched_preempt_timer_tick_ok preempt_counts_ok thread_sleep_etc_ok thread_sleep_handler_ok
      conjunct1 [OF sched_yield_ok] conjunct1 [OF sched_preempt_ok] conjunct1 [OF sched_reschedule_ok]\<close>)

lemma sched_reach_inv: "sched_reach n sk \<Longrightarrow> sinv {..<n} {} {} (snd sk)"
proof (induction rule: sched_reach.induct)
  case boot
  then show ?case using boot_sinv by simp
next
  case (step s k cpu op now)
  obtain s' k' where "sched_apply cpu now op (s, k) = (s', k')" by force
  with sched_apply_sinv [of "{..<n}" k cpu op now s s' k'] step show ?case by simp
qed

lemma sched_reach_sinv: "sched_reach n (s, k) \<Longrightarrow> sinv {..<n} {} {} k"
  using sched_reach_inv by fastforce

section \<open>A consistent state\<close>

text \<open>
  One processor. Thread 42 runs on it and thread 43 waits for it, threads 41 and 40 wait on queue 7, and
  thread 44 waits to join thread 42.
\<close>

definition demo_thread :: "wqid \<Rightarrow> thread_state \<Rightarrow> int \<Rightarrow> wqid option \<Rightarrow> cpu_num option \<Rightarrow> thread" where
  "demo_thread rwq st p q c = (initial_thread rwq)
     \<lparr>th_state := st, th_effec_priority := p, th_base_priority := p, th_inherited_priority := - 1, th_curr_cpu := c,
      th_blocking_wait_queue := q, th_interruptable := True\<rparr>"

definition demo_threads :: "tid \<Rightarrow> thread" where
  "demo_threads t =
     (if t = 0 then (idle_thread 0)\<lparr>th_state := THREAD_READY\<rparr>
      else if t = 40 then demo_thread 40 THREAD_BLOCKED 16 (Some 7) None
      else if t = 41 then demo_thread 41 THREAD_BLOCKED 20 (Some 7) None
      else if t = 42 then demo_thread 42 THREAD_RUNNING 10 None (Some 0)
      else if t = 43 then demo_thread 43 THREAD_READY 12 None (Some 0)
      else if t = 44 then demo_thread 44 THREAD_BLOCKED 8 (Some 42) None
      else initial_thread t)"

definition demo_kernel :: kernel where
  "demo_kernel = (boot_kernel 1)
     \<lparr>k_thread := demo_threads,
      k_wq := (\<lambda>_. wait_queue_init)(7 := \<lparr>wq_count = 2, wq_heads = [(41, []), (40, [])]\<rparr>,
                                     42 := \<lparr>wq_count = 1, wq_heads = [(44, [])]\<rparr>),
      k_cpu := idle_percpu(0 := (idle_percpu 0)\<lparr>pc_run_queue := (\<lambda>_. [])(12 := [43]), pc_run_queue_bitmap := push_bit 12 1\<rparr>),
      k_current := (\<lambda>c. c)(0 := 42), k_idle_cpus := 0\<rparr>"

lemma demo_sel:
  "k_thread demo_kernel = demo_threads" "k_current demo_kernel 0 = 42"
  "rq demo_kernel c p = (if c = 0 \<and> p = 12 then [43] else [])" "idle_of demo_kernel c = c"
  "wq demo_kernel q = (if q = 7 then [41, 40] else if q = 42 then [44] else [])"
  by (simp_all add: demo_kernel_def idle_percpu_def wq_threads_def wait_queue_init_def)

lemma demo_idle: "thread_is_idle (demo_threads t) \<longleftrightarrow> t = 0"
  by (auto simp: demo_threads_def demo_thread_def idle_thread_def initial_thread_def thread_is_idle_def has_signal_def THREAD_FLAG_IDLE_def)

lemma demo_tinv: "tinv {..<1} {} {} demo_kernel t"
proof -
  have t: "t = 0 \<or> t = 40 \<or> t = 41 \<or> t = 42 \<or> t = 43 \<or> t = 44 \<or> demo_threads t = initial_thread t \<and> t \<notin> {0, 40, 41, 42, 43, 44}"
    by (auto simp: demo_threads_def)
  have cur: "k_current demo_kernel ` ({..<1} - {}) = {42}" by (auto simp: demo_sel)
  show ?thesis
    by (rule tinvI) (use t in \<open>auto simp: demo_sel demo_idle cur prio_ok_def on_queue_def blocked_def split: if_splits,
      auto simp: demo_threads_def demo_thread_def idle_thread_def initial_thread_def\<close>)
qed

lemma demo_sinv: "sinv {..<1} {} {} demo_kernel"
proof (rule sinvI)
  show "tinv {..<1} {} {} demo_kernel t" for t by (rule demo_tinv)
  show "cinv {..<1} {} demo_kernel c" for c
  proof (rule cinvI)
    have "bit (push_bit 12 1 :: u32) i \<longleftrightarrow> i = 12" for i using bit_set_queue [of 12 0 i] by simp
    then show "percpu_ok (k_cpu demo_kernel c)" by (auto simp: percpu_ok_def demo_kernel_def idle_percpu_def)
    show "running_on (k_thread demo_kernel (k_current demo_kernel c)) c" if "c \<in> {..<1} - {}"
      using that by (simp add: demo_sel running_on_def demo_threads_def demo_thread_def)
    show "idle_ok (k_thread demo_kernel (idle_of demo_kernel c))" if "c \<in> {..<1}"
      using that by (simp add: demo_sel demo_idle idle_ok_def) (simp add: demo_threads_def)
    show "k_current demo_kernel c = idle_of demo_kernel c" if "c \<in> {..<1}" "thread_is_idle (k_thread demo_kernel (k_current demo_kernel c))"
      using that by (simp add: demo_sel demo_idle)
  qed
  show "wq_ok (effec demo_kernel) (k_wq demo_kernel q)" for q
    by (simp add: wq_ok_def demo_sel) (simp add: demo_kernel_def demo_threads_def demo_thread_def wait_queue_init_def)
  show "inj_on (idle_of demo_kernel) {..<1}" "{..<1 :: nat} \<subseteq> {..<32}" by (simp_all add: demo_sel)
  show "c \<in> {..<1}" if "bit (k_active_cpus demo_kernel) c" for c
    using that by (simp add: demo_kernel_def boot_kernel_def bit_mask_iff bit_1_iff)
qed

section \<open>What histories guarantee\<close>

lemma wq_validate: "sinv C X D k \<Longrightarrow> wait_queue_validate_queue q k"
  using sinvD(3) [of C X D k q] by (simp add: wq_ok_def wait_queue_validate_queue_def)

lemma running_unique:
  assumes inv: "sinv C {} {} k" and t: "th_state (k_thread k t) = THREAD_RUNNING"
  shows "\<exists>!c. c \<in> C \<and> k_current k c = t"
  using tinvD(4) [OF sinvD(1) [OF inv] t] current_inj [OF inv] by auto

text \<open>C3. In every history of the scheduler each thread is where its state says: a ready thread is in exactly the run
  queue of its processor and priority, a blocked one in exactly the wait queue it points to, a running one is
  current on exactly one processor, and every started processor runs a thread. Every wait queue passes the
  kernel's own validation and counts its threads, the bitmap of every processor marks exactly its nonempty
  queues, and priorities and boosts stay in their ranges.\<close>

theorem sched_history_ok:
  assumes "sched_reach n (s, k)"
  shows "(\<forall>t c p. t \<in> set (pc_run_queue (k_cpu k c) p) \<longleftrightarrow>
      th_state (k_thread k t) = THREAD_READY \<and> \<not> thread_is_idle (k_thread k t) \<and>
      th_curr_cpu (k_thread k t) = Some c \<and> th_effec_priority (k_thread k t) = int p) \<and>
    (\<forall>t. th_state (k_thread k t) = THREAD_READY \<and> \<not> thread_is_idle (k_thread k t) \<longrightarrow> (\<exists>c < n. th_curr_cpu (k_thread k t) = Some c)) \<and>
    (\<forall>t q. t \<in> set (wq_threads (k_wq k q)) \<longleftrightarrow> th_blocking_wait_queue (k_thread k t) = Some q) \<and>
    (\<forall>t. th_blocking_wait_queue (k_thread k t) \<noteq> None \<longleftrightarrow>
      (th_state (k_thread k t) = THREAD_BLOCKED \<or> th_state (k_thread k t) = THREAD_BLOCKED_READ_LOCK) \<and> \<not> thread_is_idle (k_thread k t)) \<and>
    (\<forall>c < n. th_state (k_thread k (k_current k c)) = THREAD_RUNNING \<and> th_curr_cpu (k_thread k (k_current k c)) = Some c) \<and>
    (\<forall>t. th_state (k_thread k t) = THREAD_RUNNING \<longrightarrow> (\<exists>!c. c < n \<and> k_current k c = t)) \<and>
    (\<forall>c i. (bit (pc_run_queue_bitmap (k_cpu k c)) i \<longleftrightarrow> pc_run_queue (k_cpu k c) i \<noteq> []) \<and> distinct (pc_run_queue (k_cpu k c) i)) \<and>
    (\<forall>q. wait_queue_validate_queue q k \<and> distinct (wq_threads (k_wq k q)) \<and>
      wq_count (k_wq k q) = int (length (wq_threads (k_wq k q)))) \<and>
    (\<forall>t. 0 \<le> th_effec_priority (k_thread k t) \<and> th_effec_priority (k_thread k t) \<le> 31 \<and>
      - 4 \<le> th_priority_boost (k_thread k t) \<and> th_priority_boost (k_thread k t) \<le> 4)"
proof -
  note inv = sched_reach_sinv [OF assms]
  note T = tinvD [OF sinvD(1) [OF inv]] and K = cinvD [OF sinvD(2) [OF inv]] and W = sinvD(3) [OF inv]
  have run: "\<exists>!c. c < n \<and> k_current k c = t" if "th_state (k_thread k t) = THREAD_RUNNING" for t
    using running_unique [OF inv that] by simp
  have prio: "0 \<le> th_effec_priority (k_thread k t) \<and> th_effec_priority (k_thread k t) \<le> 31 \<and>
      - 4 \<le> th_priority_boost (k_thread k t) \<and> th_priority_boost (k_thread k t) \<le> 4" for t
    using effec_range [OF T(1), of t] T(1) [of t] by (simp add: prio_ok_def)
  have ready: "\<exists>c < n. th_curr_cpu (k_thread k t) = Some c"
    if "th_state (k_thread k t) = THREAD_READY \<and> \<not> thread_is_idle (k_thread k t)" for t
    using T(3) [of t] that by auto
  have blk: "th_blocking_wait_queue (k_thread k t) \<noteq> None \<longleftrightarrow>
      (th_state (k_thread k t) = THREAD_BLOCKED \<or> th_state (k_thread k t) = THREAD_BLOCKED_READ_LOCK) \<and> \<not> thread_is_idle (k_thread k t)" for t
    using T(7) [of t] by (simp add: blocked_def)
  have cur: "th_state (k_thread k (k_current k c)) = THREAD_RUNNING \<and> th_curr_cpu (k_thread k (k_current k c)) = Some c" if "c < n" for c
    using K(2) [of c] that by (simp add: running_on_def)
  have rqs: "t \<in> set (pc_run_queue (k_cpu k c) p) \<longleftrightarrow> th_state (k_thread k t) = THREAD_READY \<and> \<not> thread_is_idle (k_thread k t) \<and>
      th_curr_cpu (k_thread k t) = Some c \<and> th_effec_priority (k_thread k t) = int p" for t c p
    using T(2) [of t c p] by (simp add: on_queue_def)
  have bm: "(bit (pc_run_queue_bitmap (k_cpu k c)) i \<longleftrightarrow> pc_run_queue (k_cpu k c) i \<noteq> []) \<and> distinct (pc_run_queue (k_cpu k c) i)" for c i
    using K(1) [of c] by (simp add: percpu_ok_def)
  have ws: "wait_queue_validate_queue q k \<and> distinct (wq_threads (k_wq k q)) \<and> wq_count (k_wq k q) = int (length (wq_threads (k_wq k q)))" for q
    using W [of q] wq_validate [OF inv] by (simp add: wq_ok_def)
  show ?thesis using T(5) run prio ready blk cur rqs bm ws by blast
qed

text \<open>A thread is created on a machine with one processor.\<close>

theorem sched_history_ok_witness:
  "\<exists>s k. sched_reach 1 (s, k) \<and> th_state (k_thread k 40) = THREAD_INITIAL \<and> th_effec_priority (k_thread k 40) = 16 \<and>
     th_state (k_thread k (k_current k 0)) = THREAD_RUNNING \<and> wait_queue_validate_queue 40 k"
proof -
  let ?op = "Op_create 40 40 0 16 (Some 4096)"
  obtain s k where a: "sched_apply 0 10 ?op (boot_dpcs, boot_kernel 1) = (s, k)" by force
  have b: "sched_reach 1 (boot_dpcs, boot_kernel 1)" by (rule sched_reach.boot) simp_all
  have "op_allowed 0 ?op (boot_kernel 1)"
    by (simp add: boot_kernel_def initial_thread_def thread_is_idle_def has_signal_def wq_threads_def wait_queue_init_def)
  from sched_reach.step [OF b _ this, of 10] a have r: "sched_reach 1 (s, k)" by simp
  have t: "th_state (k_thread k 40) = THREAD_INITIAL" "th_effec_priority (k_thread k 40) = 16"
    using a by (auto simp: thread_create_etc_def sched_init_thread_def compute_effec_eq initial_thread_def)
  have "th_state (k_thread k (k_current k 0)) = THREAD_RUNNING" "wait_queue_validate_queue 40 k"
    using sched_history_ok [OF r] by simp_all
  with r t show ?thesis by blast
qed

text \<open>C5. Whenever a processor of a machine in a consistent state picks a thread to run - at a preemption, a yield, a
  reschedule that is not postponed, a block, a sleep or an exit - no thread that is ready on that processor has
  a higher priority than the one that runs, and the idle thread runs only when no other thread is ready.\<close>

theorem sched_picks_highest:
  assumes inv: "sinv {..<n} {} {} k" and cpu: "cpu < n"
  shows "top_running cpu (sched_preempt cpu now k) \<and>
    (th_disable_counts (k_thread k (k_current k cpu)) = 0 \<longrightarrow> top_running cpu (sched_reschedule cpu now k)) \<and>
    (\<not> thread_is_idle (k_thread k (k_current k cpu)) \<longrightarrow>
       top_running cpu (sched_yield cpu now k) \<and>
       (\<forall>q deadline signal_mask reason k'. wait_queue_block_etc cpu now q deadline signal_mask reason k = (None, k') \<longrightarrow> top_running cpu k') \<and>
       (\<forall>deadline interruptable k'. thread_sleep_etc cpu now deadline interruptable k = (None, k') \<longrightarrow> top_running cpu k') \<and>
       (\<forall>retcode d s s' k'. thread_exit cpu now retcode d (s, k) = (s', k') \<longrightarrow> top_running cpu k'))"
proof -
  have c: "cpu \<in> {..<n}" using cpu by simp
  show ?thesis
    using sched_preempt_ok [OF inv c] sched_reschedule_ok [OF inv c] sched_yield_ok [OF inv c]
      wait_queue_block_etc_ok(3) [OF inv c] thread_sleep_etc_top [OF inv c] thread_exit_ok(3) [OF inv c]
    by (simp add: thread_exit_def)
qed

theorem sched_picks_highest_witness:
  "\<not> thread_is_idle (k_thread demo_kernel (k_current demo_kernel 0)) \<and>
   top_running 0 (sched_preempt 0 100 demo_kernel) \<and> top_running 0 (sched_yield 0 100 demo_kernel) \<and>
   top_running 0 (snd (thread_exit 0 100 0 5 (boot_dpcs, demo_kernel)))"
proof -
  have "\<not> thread_is_idle (k_thread demo_kernel (k_current demo_kernel 0))" by (simp add: demo_sel demo_idle)
  with sched_picks_highest [OF demo_sinv, of 0 100] show ?thesis
    by (cases "thread_exit 0 100 0 5 (boot_dpcs, demo_kernel)") auto
qed

text \<open>C4. A thread that blocks enters its wait queue behind every waiting thread of its own or a higher priority and
  before all others, and waking one takes the first thread: no other waiting thread has a higher priority. The
  woken thread leaves with the status of the waker and the others keep their places; an empty queue is left
  as it is. Waking all empties the queue and counts the threads.\<close>

theorem wait_queue_wake_order:
  assumes inv: "sinv {..<n} {} {} k" and cpu: "cpu < n"
  shows "(\<forall>deadline signal_mask reason k'. \<not> thread_is_idle (k_thread k (k_current k cpu)) \<and>
        wait_queue_block_etc cpu now q deadline signal_mask reason k = (None, k') \<longrightarrow>
        wq_threads (k_wq k' q) = insert_stable (effec k) (k_current k cpu) (wq_threads (k_wq k q))) \<and>
    (wq_threads (k_wq k q) = [] \<longrightarrow> wait_queue_wake_one cpu now q reschedule e k = (0, k)) \<and>
    (\<forall>t ts m k'. wq_threads (k_wq k q) = t # ts \<and> wait_queue_wake_one cpu now q reschedule e k = (m, k') \<longrightarrow>
        m = 1 \<and> wq_threads (k_wq k' q) = ts \<and> th_blocked_status (k_thread k' t) = e \<and> th_blocking_wait_queue (k_thread k' t) = None \<and>
        (\<forall>u \<in> set ts. effec k u \<le> effec k t) \<and> (\<not> reschedule \<longrightarrow> th_state (k_thread k' t) = THREAD_READY)) \<and>
    (\<forall>m k'. wait_queue_wake_all cpu now q reschedule e k = (m, k') \<longrightarrow>
        m = length (wq_threads (k_wq k q)) \<and> wq_threads (k_wq k' q) = [] \<and>
        (\<forall>t \<in> set (wq_threads (k_wq k q)). th_blocked_status (k_thread k' t) = e \<and> th_blocking_wait_queue (k_thread k' t) = None))"
proof -
  have c: "cpu \<in> {..<n}" using cpu by simp
  have one: "m = 1 \<and> wq k' q = ts \<and> th_blocked_status (k_thread k' t) = e \<and> th_blocking_wait_queue (k_thread k' t) = None \<and>
      (\<forall>u \<in> set ts. effec k u \<le> effec k t) \<and> (\<not> reschedule \<longrightarrow> th_state (k_thread k' t) = THREAD_READY)"
    if "wq k q = t # ts" "wait_queue_wake_one cpu now q reschedule e k = (m, k')" for t ts m k'
    using wake_one_woken [OF inv c that] by (simp add: woken_def)
  have every: "m = length (wq k q) \<and> wq k' q = [] \<and>
      (\<forall>t \<in> set (wq k q). th_blocked_status (k_thread k' t) = e \<and> th_blocking_wait_queue (k_thread k' t) = None)"
    if "wait_queue_wake_all cpu now q reschedule e k = (m, k')" for m k'
    using wait_queue_wake_all_ok(2) [OF inv c that] wake_all_woken [OF inv c that] by (simp add: woken_def)
  have none: "wait_queue_wake_one cpu now q reschedule e k = (0, k)" if "wq k q = []"
    using that by (simp add: wait_queue_wake_one_def peek_threads)
  have blk: "wq k' q = insert_stable (effec k) (k_current k cpu) (wq k q)"
    if "\<not> thread_is_idle (k_thread k (k_current k cpu))" "wait_queue_block_etc cpu now q deadline signal_mask reason k = (None, k')"
    for deadline signal_mask reason k'
    using block_etc_wq [OF inv c that] by simp
  show ?thesis using one every none blk by blast
qed

theorem wait_queue_wake_order_witness:
  "wq_threads (k_wq demo_kernel 7) = [41, 40] \<and>
   (let (m, k') = wait_queue_wake_one 0 100 7 False ZX_OK demo_kernel in
      m = 1 \<and> wq_threads (k_wq k' 7) = [40] \<and> th_state (k_thread k' 41) = THREAD_READY) \<and>
   fst (wait_queue_wake_all 0 100 7 True ZX_OK demo_kernel) = 2"
proof -
  have q: "wq demo_kernel 7 = [41, 40]" by (simp add: demo_sel)
  obtain m k1 where o: "wait_queue_wake_one 0 100 7 False ZX_OK demo_kernel = (m, k1)" by force
  obtain m2 k2 where a: "wait_queue_wake_all 0 100 7 True ZX_OK demo_kernel = (m2, k2)" by force
  show ?thesis
    using wait_queue_wake_order [OF demo_sinv, of 0 100 7 False ZX_OK] wait_queue_wake_order [OF demo_sinv, of 0 100 7 True ZX_OK] q o a by auto
qed

text \<open>C16. No signal of an event is lost. Signalling an event that is not signaled wakes every waiting thread with the
  given status and leaves the event signaled, or, for an event that unsignals itself, wakes exactly the first
  waiting thread or, when there is none, leaves the event signaled. A wait returns at once exactly when the event
  is signaled, and otherwise the caller waits or an error is returned. No thread ever waits for a signaled event.\<close>

theorem event_signal_not_lost:
  assumes inv: "sinv {..<n} {} {} k" and cpu: "cpu < n" and ok: "ev_signaled e \<Longrightarrow> wq_threads (k_wq k (ev_wait e)) = []"
  shows "(\<forall>m e' k'. event_signal_etc cpu now reschedule st e k = (m, e', k') \<longrightarrow>
      (ev_signaled e' \<longrightarrow> wq_threads (k_wq k' (ev_wait e')) = []) \<and> ev_wait e' = ev_wait e \<and> ev_flags e' = ev_flags e \<and>
      (ev_signaled e \<longrightarrow> e' = e \<and> k' = k \<and> m = 0) \<and>
      (\<not> ev_signaled e \<and> \<not> has_signal (ev_flags e) EVENT_FLAG_AUTOUNSIGNAL \<longrightarrow>
         ev_signaled e' \<and> m = length (wq_threads (k_wq k (ev_wait e))) \<and>
         (\<forall>t \<in> set (wq_threads (k_wq k (ev_wait e))). th_blocked_status (k_thread k' t) = st \<and> th_blocking_wait_queue (k_thread k' t) = None)) \<and>
      (\<not> ev_signaled e \<and> has_signal (ev_flags e) EVENT_FLAG_AUTOUNSIGNAL \<longrightarrow>
         (case wq_threads (k_wq k (ev_wait e)) of
            [] \<Rightarrow> ev_signaled e' \<and> m = 0 \<and> k' = k
          | t # ts \<Rightarrow> e' = e \<and> m = 1 \<and> th_blocked_status (k_thread k' t) = st \<and> th_blocking_wait_queue (k_thread k' t) = None \<and>
              (\<forall>u. u \<noteq> t \<longrightarrow> th_blocking_wait_queue (k_thread k' u) = th_blocking_wait_queue (k_thread k u))))) \<and>
    (\<forall>deadline interruptable signal_mask ret e' k'. \<not> thread_is_idle (k_thread k (k_current k cpu)) \<and>
      event_wait_worker cpu now deadline interruptable signal_mask e k = (ret, e', k') \<longrightarrow>
      (ev_signaled e' \<longrightarrow> wq_threads (k_wq k' (ev_wait e')) = []) \<and> (ret = Some ZX_OK \<longleftrightarrow> ev_signaled e) \<and>
      (ev_signaled e' \<longleftrightarrow> ev_signaled e \<and> \<not> has_signal (ev_flags e) EVENT_FLAG_AUTOUNSIGNAL) \<and>
      (ret = None \<longrightarrow> k_current k cpu \<in> set (wq_threads (k_wq k' (ev_wait e)))))"
proof -
  have c: "cpu \<in> {..<n}" and eo: "event_ok e k" using cpu ok by (auto simp: event_ok_def)
  have sg: "(ev_signaled e' \<longrightarrow> wq k' (ev_wait e') = []) \<and> ev_wait e' = ev_wait e \<and> ev_flags e' = ev_flags e \<and>
      (ev_signaled e \<longrightarrow> e' = e \<and> k' = k \<and> m = 0) \<and>
      (\<not> ev_signaled e \<and> \<not> has_signal (ev_flags e) EVENT_FLAG_AUTOUNSIGNAL \<longrightarrow>
         ev_signaled e' \<and> m = length (wq k (ev_wait e)) \<and>
         (\<forall>t \<in> set (wq k (ev_wait e)). th_blocked_status (k_thread k' t) = st \<and> th_blocking_wait_queue (k_thread k' t) = None)) \<and>
      (\<not> ev_signaled e \<and> has_signal (ev_flags e) EVENT_FLAG_AUTOUNSIGNAL \<longrightarrow>
         (case wq k (ev_wait e) of
            [] \<Rightarrow> ev_signaled e' \<and> m = 0 \<and> k' = k
          | t # ts \<Rightarrow> e' = e \<and> m = 1 \<and> th_blocked_status (k_thread k' t) = st \<and> th_blocking_wait_queue (k_thread k' t) = None \<and>
              (\<forall>u. u \<noteq> t \<longrightarrow> th_blocking_wait_queue (k_thread k' u) = th_blocking_wait_queue (k_thread k u))))"
    if s: "event_signal_etc cpu now reschedule st e k = (m, e', k')" for m e' k'
  proof -
    note R = event_signal_result [OF inv c eo s [unfolded event_signal_etc_def]]
    have auto: "case wq k (ev_wait e) of
        [] \<Rightarrow> ev_signaled e' \<and> m = 0 \<and> k' = k
      | t # ts \<Rightarrow> e' = e \<and> m = 1 \<and> th_blocked_status (k_thread k' t) = st \<and> th_blocking_wait_queue (k_thread k' t) = None \<and>
          (\<forall>u. u \<noteq> t \<longrightarrow> th_blocking_wait_queue (k_thread k' u) = th_blocking_wait_queue (k_thread k u))"
      if "\<not> ev_signaled e" "has_signal (ev_flags e) EVENT_FLAG_AUTOUNSIGNAL"
      using R(6,7) [OF that] by (cases "wq k (ev_wait e)") (simp_all add: woken_def)
    have all: "ev_signaled e' \<and> m = length (wq k (ev_wait e)) \<and>
        (\<forall>t \<in> set (wq k (ev_wait e)). th_blocked_status (k_thread k' t) = st \<and> th_blocking_wait_queue (k_thread k' t) = None)"
      if "\<not> ev_signaled e" "\<not> has_signal (ev_flags e) EVENT_FLAG_AUTOUNSIGNAL"
      using R(5) [OF that] by (simp add: woken_def)
    have ok': "ev_signaled e' \<longrightarrow> wq k' (ev_wait e') = []" using R(1) by (simp add: event_ok_def)
    show ?thesis using ok' R(2-4) auto all by (intro conjI impI) simp_all
  qed
  have wt: "(ev_signaled e' \<longrightarrow> wq k' (ev_wait e') = []) \<and> (ret = Some ZX_OK \<longleftrightarrow> ev_signaled e) \<and>
      (ev_signaled e' \<longleftrightarrow> ev_signaled e \<and> \<not> has_signal (ev_flags e) EVENT_FLAG_AUTOUNSIGNAL) \<and>
      (ret = None \<longrightarrow> k_current k cpu \<in> set (wq k' (ev_wait e)))"
    if w: "\<not> thread_is_idle (k_thread k (k_current k cpu))" "event_wait_worker cpu now deadline interruptable signal_mask e k = (ret, e', k')"
    for deadline interruptable signal_mask ret e' k'
  proof -
    note R = event_wait_result [OF inv c w(1) eo w(2)]
    show ?thesis using R by (cases "ev_signaled e") (auto simp: event_ok_def)
  qed
  show ?thesis by (rule conjI; intro allI impI) (rule sg, assumption, elim conjE, rule wt, assumption+)
qed

theorem event_signal_not_lost_witness:
  "let e = event_init 7 False 0; (m, e', k') = event_signal_etc 0 100 True ZX_OK e demo_kernel in
   m = 2 \<and> ev_signaled e' \<and> wq_threads (k_wq k' 7) = [] \<and> th_blocked_status (k_thread k' 40) = ZX_OK"
proof -
  let ?e = "event_init 7 False 0"
  obtain m e' k' where s: "event_signal_etc 0 100 True ZX_OK ?e demo_kernel = (m, e', k')" by (rule prod_cases3)
  have e: "\<not> ev_signaled ?e" "ev_wait ?e = 7" "ev_flags ?e = 0" by (simp_all add: event_init_def)
  have q: "wq demo_kernel 7 = [41, 40]" by (simp add: demo_sel)
  have "ev_signaled ?e \<Longrightarrow> wq demo_kernel (ev_wait ?e) = []" using e by simp
  note A = conjunct1 [OF event_signal_not_lost [OF demo_sinv zero_less_one this, of 100 True ZX_OK]]
  note L = mp [OF spec [OF spec [OF spec [OF A]]] s]
  have "m = 2 \<and> ev_signaled e' \<and> wq k' 7 = [] \<and> th_blocked_status (k_thread k' 40) = ZX_OK"
    using L e q no_autounsignal by auto
  with s show ?thesis by simp
qed

text \<open>C17. Killing or suspending a thread that waits interruptably takes exactly that thread off its wait queue: its wait
  ends with the status of the signal, which is pending in the thread, and no other wait changes.\<close>

theorem thread_signal_ends_wait:
  assumes inv: "sinv {..<n} {} {} k" and cpu: "cpu < n"
    and q: "th_blocking_wait_queue (k_thread k t) = Some q" and i: "th_interruptable (k_thread k t)"
  shows "(let k' = thread_kill cpu now t k in
      th_blocking_wait_queue (k_thread k' t) = None \<and> th_blocked_status (k_thread k' t) = ZX_ERR_INTERNAL_INTR_KILLED \<and>
      has_signal (th_signals (k_thread k' t)) THREAD_SIGNAL_KILL \<and> wq_threads (k_wq k' q) = filter (\<lambda>u. u \<noteq> t) (wq_threads (k_wq k q)) \<and>
      (\<forall>u. u \<noteq> t \<longrightarrow> th_blocking_wait_queue (k_thread k' u) = th_blocking_wait_queue (k_thread k u))) \<and>
    (let (st, k') = thread_suspend cpu now t k in
      st = ZX_OK \<and> th_blocking_wait_queue (k_thread k' t) = None \<and> th_blocked_status (k_thread k' t) = ZX_ERR_INTERNAL_INTR_RETRY \<and>
      has_signal (th_signals (k_thread k' t)) THREAD_SIGNAL_SUSPEND \<and> wq_threads (k_wq k' q) = filter (\<lambda>u. u \<noteq> t) (wq_threads (k_wq k q)) \<and>
      (\<forall>u. u \<noteq> t \<longrightarrow> th_blocking_wait_queue (k_thread k' u) = th_blocking_wait_queue (k_thread k u)))"
proof -
  have c: "cpu \<in> {..<n}" using cpu by simp
  have set: "has_signal (x OR THREAD_SIGNAL_KILL) THREAD_SIGNAL_KILL" "has_signal (x OR THREAD_SIGNAL_SUSPEND) THREAD_SIGNAL_SUSPEND" for x
    unfolding THREAD_SIGNAL_KILL_def THREAD_SIGNAL_SUSPEND_def by (subst has_signal_bit; simp add: bit_simps)+
  show ?thesis
    using thread_kill_blocked [OF inv c q i] thread_suspend_blocked [OF inv c q i] set
    by (simp add: woken_def case_prod_beta Let_def)
qed

theorem thread_signal_ends_wait_witness:
  "th_blocking_wait_queue (k_thread demo_kernel 41) = Some 7 \<and>
   wq_threads (k_wq (thread_kill 0 100 41 demo_kernel) 7) = [40] \<and>
   th_blocked_status (k_thread (snd (thread_suspend 0 100 41 demo_kernel)) 41) = ZX_ERR_INTERNAL_INTR_RETRY"
proof -
  have t: "th_blocking_wait_queue (k_thread demo_kernel 41) = Some 7" "th_interruptable (k_thread demo_kernel 41)"
    by (simp_all add: demo_sel demo_threads_def demo_thread_def)
  have q: "wq demo_kernel 7 = [41, 40]" by (simp add: demo_sel)
  from thread_signal_ends_wait [OF demo_sinv _ t, of 0 100] t q show ?thesis by (simp add: case_prod_beta Let_def)
qed

text \<open>C18. A thread that exits is dead and no longer current on its processor, which picks another thread. If it is not
  detached it keeps its return code, every thread that waits to join it is woken without an error and none waits
  any more; if it is detached, the call that frees its stack or its structure is queued. Detaching any thread, the
  running one or another, wakes every thread that waits to join it with an error, and a later attempt to join it
  while it lives fails at once.\<close>

theorem thread_exit_wakes_joiners:
  assumes inv: "sinv {..<n} {} {} k" and cpu: "cpu < n" and t: "t = k_current k cpu" "\<not> thread_is_idle (k_thread k t)"
    and e: "thread_exit cpu now retcode d (s, k) = (s', k')"
  shows "th_state (k_thread k' t) = THREAD_DEATH \<and> k_current k' cpu \<noteq> t \<and>
    th_state (k_thread k' (k_current k' cpu)) = THREAD_RUNNING \<and>
    (\<not> has_signal (th_flags (k_thread k t)) THREAD_FLAG_DETACHED \<longrightarrow>
       s' = s \<and> th_retcode (k_thread k' t) = retcode \<and> wq_threads (k_wq k' (th_retcode_wait_queue (k_thread k t))) = [] \<and>
       (\<forall>u \<in> set (wq_threads (k_wq k (th_retcode_wait_queue (k_thread k t)))).
          th_blocked_status (k_thread k' u) = ZX_OK \<and> th_blocking_wait_queue (k_thread k' u) = None)) \<and>
    (has_signal (th_flags (k_thread k t)) THREAD_FLAG_DETACHED \<and> \<not> dpc_in_list d s \<and>
       (th_stack_base (k_thread k t) \<noteq> 0 \<or> has_signal (th_flags (k_thread k t)) THREAD_FLAG_FREE_STRUCT) \<longrightarrow>
       dpc_list (s' cpu) = dpc_list (s cpu) @ [d]) \<and>
    (\<forall>x st kd. thread_detach cpu now x k = (st, kd) \<longrightarrow>
       st = Some ZX_OK \<and> wq_threads (k_wq kd (th_retcode_wait_queue (k_thread k x))) = [] \<and>
       (\<forall>u \<in> set (wq_threads (k_wq k (th_retcode_wait_queue (k_thread k x)))).
          th_blocked_status (k_thread kd u) = ZX_ERR_BAD_STATE \<and> th_blocking_wait_queue (k_thread kd u) = None) \<and>
       (th_state (k_thread k x) \<noteq> THREAD_DEATH \<longrightarrow> thread_join cpu now x deadline kd = (Some ZX_ERR_BAD_STATE, None, kd)))"
proof -
  have c: "cpu \<in> {..<n}" using cpu by simp
  have idle: "\<not> thread_is_idle (k_thread k (k_current k cpu))" using t by simp
  note E = thread_exit_ok [OF inv c idle e [unfolded thread_exit_def]]
  note J = thread_exit_joiners [OF inv c idle _ e [unfolded thread_exit_def] refl] and F = thread_exit_detached [OF _ _ _ e [unfolded thread_exit_def]]
  have run: "th_state (k_thread k' (k_current k' cpu)) = THREAD_RUNNING" using running_current(1) [OF E(1)] c by simp
  have "st = Some ZX_OK \<and> wq kd (th_retcode_wait_queue (k_thread k x)) = [] \<and>
     (\<forall>u \<in> set (wq k (th_retcode_wait_queue (k_thread k x))).
        th_blocked_status (k_thread kd u) = ZX_ERR_BAD_STATE \<and> th_blocking_wait_queue (k_thread kd u) = None) \<and>
     (th_state (k_thread k x) \<noteq> THREAD_DEATH \<longrightarrow> thread_join cpu now x deadline kd = (Some ZX_ERR_BAD_STATE, None, kd))"
    if "thread_detach cpu now x k = (st, kd)" for x st kd
    using thread_detach_joiners [OF inv c that refl] by (auto simp: thread_join_def)
  with E(2,4) J F run show ?thesis unfolding t(1) by blast
qed

theorem thread_exit_wakes_joiners_witness:
  "let (s', k') = thread_exit 0 100 9 5 (boot_dpcs, demo_kernel) in
   th_state (k_thread k' 42) = THREAD_DEATH \<and> th_retcode (k_thread k' 42) = 9 \<and> k_current k' 0 \<noteq> 42 \<and>
   th_blocked_status (k_thread k' 44) = ZX_OK \<and> wq_threads (k_wq k' 42) = []"
proof -
  obtain s' k' where e: "thread_exit 0 100 9 5 (boot_dpcs, demo_kernel) = (s', k')" by force
  have t: "42 = k_current demo_kernel 0" "\<not> thread_is_idle (k_thread demo_kernel 42)" by (simp_all add: demo_sel demo_idle)
  have f: "\<not> has_signal (th_flags (k_thread demo_kernel 42)) THREAD_FLAG_DETACHED" "th_retcode_wait_queue (k_thread demo_kernel 42) = 42"
    by (simp_all add: demo_sel demo_threads_def demo_thread_def initial_thread_def has_signal_def)
  have q: "wq demo_kernel 42 = [44]" by (simp add: demo_sel)
  from thread_exit_wakes_joiners [OF demo_sinv _ t e] f q e show ?thesis by simp
qed

text \<open>C25. Taking a processor away returns exactly when every thread in its run queues is pinned to it or may run on
  another active processor, and then only pinned threads are left in its queues and the state is consistent. A
  thread that may also run elsewhere, but on no active processor, makes the loop put it back for ever.\<close>

theorem sched_transition_off_cpu_returns:
  assumes inv: "sinv {..<n} {} {} k" and cpu: "cpu < n"
  shows "((\<exists>k'. sched_transition_off_cpu cpu k = Some k') \<longleftrightarrow>
      (\<forall>p. \<forall>t \<in> set (pc_run_queue (k_cpu k cpu) p). th_cpu_affinity (k_thread k t) = cpu_num_to_mask (Some cpu) \<or>
         th_cpu_affinity (k_thread k t) AND k_active_cpus k AND NOT (cpu_num_to_mask (Some cpu)) \<noteq> 0)) \<and>
    (\<forall>k'. sched_transition_off_cpu cpu k = Some k' \<longrightarrow> sinv {..<n} {} {} k' \<and>
       (\<forall>p. \<forall>t \<in> set (pc_run_queue (k_cpu k' cpu) p). th_cpu_affinity (k_thread k' t) = cpu_num_to_mask (Some cpu)))"
proof -
  have c: "cpu \<in> {..<n}" using cpu by simp
  let ?q = "\<forall>t. queued_on k cpu t \<longrightarrow> pinned cpu k t \<or> movable cpu k t"
  have q: "?q \<longleftrightarrow> (\<forall>p. \<forall>t \<in> set (rq k cpu p). th_cpu_affinity (k_thread k t) = cpu_num_to_mask (Some cpu) \<or>
         th_cpu_affinity (k_thread k t) AND k_active_cpus k AND NOT (cpu_num_to_mask (Some cpu)) \<noteq> 0)"
    by (auto simp: queued_on_def pinned_def movable_def)
  have only: ?q if "sched_transition_off_cpu cpu k = Some k'" for k' using transition_only_if [OF inv c that] by blast
  have ret: "\<exists>k'. sched_transition_off_cpu cpu k = Some k' \<and> sinv {..<n} {} {} k' \<and> (\<forall>t. queued_on k' cpu t \<longrightarrow> pinned cpu k' t)" if ?q
    using transition_returns [OF inv c] that by blast
  have fin: "sinv {..<n} {} {} k' \<and> (\<forall>p. \<forall>t \<in> set (rq k' cpu p). th_cpu_affinity (k_thread k' t) = cpu_num_to_mask (Some cpu))"
    if "sched_transition_off_cpu cpu k = Some k'" for k'
    using ret [OF only [OF that]] that by (auto simp: queued_on_def pinned_def)
  show ?thesis unfolding q [symmetric] using only ret fin by blast
qed

text \<open>The only processor is taken away while a thread that may run anywhere waits for it.\<close>

theorem sched_transition_off_cpu_returns_witness:
  "sched_transition_off_cpu 0 demo_kernel = None"
proof -
  have a: "th_cpu_affinity (k_thread demo_kernel 43) = NOT 0" "k_active_cpus demo_kernel = 1"
    by (simp_all add: demo_sel demo_threads_def demo_thread_def initial_thread_def) (simp add: demo_kernel_def boot_kernel_def)
  have "43 \<in> set (rq demo_kernel 0 12)" by (simp add: demo_sel)
  moreover have "th_cpu_affinity (k_thread demo_kernel 43) \<noteq> cpu_num_to_mask (Some 0)"
    "th_cpu_affinity (k_thread demo_kernel 43) AND k_active_cpus demo_kernel AND NOT (cpu_num_to_mask (Some 0)) = 0"
    unfolding a by (simp_all add: cpu_num_to_mask_def)
  ultimately show ?thesis using conjunct1 [OF sched_transition_off_cpu_returns [OF demo_sinv zero_less_one]] by fastforce
qed

text \<open>C38. At the end of its quantum a thread of base priority four or more that is not real time loses one step of its
  boost until the boost is minus four. A thread of base priority one to three loses none once its boost is at most
  its base priority: the floor that is to keep its priority from going below the lowest one has the wrong sign.\<close>

theorem deboost_floor_sign:
  assumes p: "prio_ok (k_thread k t)" "th_blocking_wait_queue (k_thread k t) = None" "\<not> thread_cannot_boost (k_thread k t)"
  shows "(4 \<le> th_base_priority (k_thread k t) \<longrightarrow>
      th_priority_boost (k_thread (deboost_thread t True k) t) = max (- 4) (th_priority_boost (k_thread k t) - 1)) \<and>
    (1 \<le> th_base_priority (k_thread k t) \<and> th_base_priority (k_thread k t) \<le> 3 \<and>
     th_priority_boost (k_thread k t) \<le> th_base_priority (k_thread k t) \<longrightarrow> deboost_thread t True k = k)"
proof -
  have d: "th_priority_boost (k_thread (deboost_thread t True k) t) = deboost_of True (k_thread k t)"
    by (simp add: deboost_thread_eq [OF p(2,1)] set_boost_def)
  have "deboost_of True (k_thread k t) = max (- 4) (th_priority_boost (k_thread k t) - 1)" if "4 \<le> th_base_priority (k_thread k t)"
    using that p(1,3) by (auto simp: deboost_of_def boost_floor_def prio_ok_def)
  moreover have "deboost_thread t True k = k"
    if "1 \<le> th_base_priority (k_thread k t)" "th_base_priority (k_thread k t) \<le> 3" "th_priority_boost (k_thread k t) \<le> th_base_priority (k_thread k t)"
    using that by (simp add: deboost_thread_def boost_floor_def Let_def)
  ultimately show ?thesis by (simp add: d)
qed

theorem deboost_floor_sign_witness:
  "let k = upd_thread 42 (\<lambda>th. th\<lparr>th_base_priority := 2, th_priority_boost := 1, th_effec_priority := 3\<rparr>) demo_kernel in
   deboost_thread 42 True k = k \<and> th_priority_boost (k_thread (deboost_thread 42 True demo_kernel) 42) = - 1"
proof -
  let ?k = "upd_thread 42 (\<lambda>th. th\<lparr>th_base_priority := 2, th_priority_boost := 1, th_effec_priority := 3\<rparr>) demo_kernel"
  have t: "k_thread demo_kernel 42 = demo_thread 42 THREAD_RUNNING 10 None (Some 0)" by (simp add: demo_sel demo_threads_def)
  have ok: "prio_ok (k_thread k 42)" "th_blocking_wait_queue (k_thread k 42) = None" "\<not> thread_cannot_boost (k_thread k 42)"
    if "k = ?k \<or> k = demo_kernel" for k
    using that by (auto simp: t demo_thread_def initial_thread_def prio_ok_def thread_cannot_boost_def has_signal_def)
  have b: "th_base_priority (k_thread ?k 42) = 2" "th_priority_boost (k_thread ?k 42) = 1"
    "th_base_priority (k_thread demo_kernel 42) = 10" "th_priority_boost (k_thread demo_kernel 42) = 0"
    by (simp_all add: t demo_thread_def initial_thread_def)
  show ?thesis using deboost_floor_sign [OF ok [of ?k]] deboost_floor_sign [OF ok [of demo_kernel]] b by (simp add: Let_def)
qed

text \<open>C19. In every interleaving of callers that queue calls, the worker threads, the stopping, taking away and
  restarting of processors and the rest of the kernel, a queued deferred call is forgotten in one case only. When calls
  are queued on a processor, no caller is between adding its call and signalling, and no calls that were moved there
  from a processor taken away still wait for a signal, then the event of the worker is signaled and the worker does
  not wait for it.\<close>

theorem dpc_no_lost_work:
  assumes "dpc_reach C \<lparr>dc_dpcs = s, dc_kernel = k, dc_pend = pend, dc_moved = moved\<rparr>"
    and "dpc_list (s c) \<noteq> []" "pend c = 0" "\<not> moved c"
  shows "ev_signaled (dpc_event (s c)) \<and> wq_threads (k_wq k (ev_wait (dpc_event (s c)))) = []"
  using dpc_invD(3) [OF dpc_reach_inv [OF assms(1)], of c] assms(2-4) by (auto simp: dpc_ok_def event_ok_def)

theorem dpc_no_lost_work_witness:
  "\<exists>s k moved. dpc_reach {..<1} \<lparr>dc_dpcs = s, dc_kernel = k, dc_pend = \<lambda>_. 0, dc_moved = moved\<rparr> \<and> dpc_list (s 0) = [5] \<and>
     ev_signaled (dpc_event (s 0)) \<and> wq_threads (k_wq k 7) = []"
proof -
  let ?s = "dpc_init_state (\<lambda>c. 7 + c)" and ?p = "(\<lambda>_. 0) :: cpu_num \<Rightarrow> nat" and ?m = "(\<lambda>_. False) :: cpu_num \<Rightarrow> bool"
  have i: "dpc_reach {..<1} (conf ?s demo_kernel ?p ?m)" by (rule dpc_reach.init [OF demo_sinv]) simp
  obtain st s k where q: "dpc_queue_thread_locked 0 100 5 (?s, demo_kernel) = (st, s, k)" by (rule prod_cases3)
  obtain m e k1 where sg: "event_signal_internal 0 100 False ZX_OK (dpc_event (?s 0)) demo_kernel = (m, e, k1)" by (rule prod_cases3)
  have new: "\<not> dpc_in_list 5 ?s" by (simp add: dpc_in_list_def dpc_init_state_def list_ex_iff)
  have l: "st = ZX_OK" "dpc_list (s 0) = [5]" "ev_wait (dpc_event (s 0)) = ev_wait e"
    using q sg new by (auto simp: dpc_queue_thread_locked_def event_signal_thread_locked_def dpc_init_state_def)
  have r: "dpc_reach {..<1} (conf s k ?p (?m(0 := False)))"
    by (rule dpc_reach.step [OF i dpc_step.queue_locked [OF _ _ q [unfolded l(1)]]])
       (simp_all add: dpc_init_state_def event_init_def event_initialized_def)
  have ok: "event_ok (dpc_event (?s 0)) demo_kernel" by (simp add: dpc_init_state_def event_init_def event_ok_def)
  have "ev_wait e = 7" using event_signal_result(2) [OF demo_sinv _ ok sg] by (simp add: dpc_init_state_def event_init_def)
  with dpc_no_lost_work [OF r, of 0] l r show ?thesis by auto
qed

text \<open>C39. Moving the queued calls of a processor that was taken away to the current one adds them to its list but does not
  signal its event: a worker that waits keeps waiting with calls in its list.\<close>

theorem dpc_transition_not_signaled:
  assumes "cur \<noteq> c" "wq_count (k_wq k (ev_wait (dpc_event (s c)))) = 0"
  shows "\<exists>s'. dpc_shutdown_transition_off_cpu cur c (s, k) = Some (s', k) \<and>
    dpc_list (s' cur) = dpc_list (s cur) @ dpc_list (s c) \<and> dpc_event (s' cur) = dpc_event (s cur) \<and> dpc_list (s' c) = []"
  using assms
  by (auto simp: dpc_shutdown_transition_off_cpu_def event_destroy_def wait_queue_destroy_def Let_def)

theorem dpc_transition_not_signaled_witness:
  "let s = (dpc_init_state (\<lambda>c. 7 + c))(1 := \<lparr>dpc_list = [5], dpc_event = event_init 8 True 0, dpc_stop = True, dpc_worker = None\<rparr>) in
   \<exists>s'. dpc_shutdown_transition_off_cpu 0 1 (s, demo_kernel) = Some (s', demo_kernel) \<and> dpc_list (s' 0) = [5] \<and>
     \<not> ev_signaled (dpc_event (s' 0)) \<and> wq_threads (k_wq demo_kernel (ev_wait (dpc_event (s' 0)))) = [41, 40]"
proof -
  let ?s = "(dpc_init_state (\<lambda>c. 7 + c))(1 := \<lparr>dpc_list = [5], dpc_event = event_init 8 True 0, dpc_stop = True, dpc_worker = None\<rparr>)"
  have "wq_count (k_wq demo_kernel (ev_wait (dpc_event (?s 1)))) = 0"
    by (simp add: demo_kernel_def event_init_def wait_queue_init_def)
  from dpc_transition_not_signaled [of 0 1 demo_kernel ?s, OF _ this]
  obtain s' where s': "dpc_shutdown_transition_off_cpu 0 1 (?s, demo_kernel) = Some (s', demo_kernel)"
      "dpc_list (s' 0) = dpc_list (?s 0) @ dpc_list (?s 1)" "dpc_event (s' 0) = dpc_event (?s 0)" by auto
  have "dpc_list (s' 0) = [5]" "\<not> ev_signaled (dpc_event (s' 0))" "wq demo_kernel (ev_wait (dpc_event (s' 0))) = [41, 40]"
    using s'(2,3) by (simp_all add: dpc_init_state_def event_init_def demo_sel)
  with s'(1) show ?thesis unfolding Let_def by blast
qed

end
