(* ===== verification/Spec2Isabelle.thy ===== *)
theory Spec2Isabelle
  imports Zx_Prelude Zx_Dispatcher Zx_Deleter Zx_Fifo Zx_Mbuf Zx_Socket Zx_Socket_History Zx_Pmm Zx_BootReserve Zx_Message Zx_Channel Zx_Channel_History
    Zx_Pow2 Zx_P2ra Zx_P2ra_History Zx_JobPolicy Zx_Time Zx_Thread Zx_WaitQueue Zx_Sched Zx_Sched_Inv Zx_Sched_Ops
    Zx_Wait Zx_Wake Zx_Dpc Zx_Threads Zx_Transition Zx_Sched_History
begin

text \<open>
  A verification development for the Zircon kernel, \<^verbatim>\<open>src/zircon/kernel\<close>: the objects through which
  processes communicate, the physical memory manager and the range allocator below them, and the
  scheduler with its wait queues, events, threads and deferred calls. Paths below are relative to that
  directory. Every operation of a modelled component is one definition with the name of its C++
  function, prefixed by the class where it is a method.

  \<^bold>\<open>Conventions\<close> (\<^verbatim>\<open>Zx_Prelude\<close>). A class or struct is a record, a subclass an extension of the
  record of its base class, an enumeration a datatype. Machine integers are words, or numbers with the
  wrap-around written out; where sizes are plain natural numbers the invariant of the component bounds
  them. An operation takes the state and returns it updated, together with a status of
  \<^verbatim>\<open>zircon/errors.h\<close>. \<open>None\<close> stands for a call that gives no result: a panic, a null pointer, or a loop that
  does not end. User memory is a partial function whose gaps fault. Failing allocations, the clock and the
  callbacks of observers are arguments. Each operation runs under the lock that the code takes, as one
  step; where the code releases the lock in the middle, there are two definitions and the histories
  interleave them.

  \<^bold>\<open>Kernel objects\<close>

  \<^item> \<^verbatim>\<open>Zx_Dispatcher\<close> (\<^verbatim>\<open>object/dispatcher.cpp\<close>, \<^verbatim>\<open>object/include/object/dispatcher.h\<close>, \<^verbatim>\<open>state_observer.h\<close>):
    object ids, handle counts, signals, observers, and the solo and peered base classes. User calls change
    only the signal bits they may change. The locale \<open>peered_class\<close> states what a subclass with a peer
    provides; FIFOs, sockets and channels interpret it, and inherit that closing unlinks both endpoints.
  \<^item> \<^verbatim>\<open>Zx_Deleter\<close> (\<^verbatim>\<open>SafeDeleter\<close> of \<^verbatim>\<open>object/dispatcher.cpp\<close>): the loop that replaces recursive
    deletion ends and deletes each object once.
  \<^item> \<^verbatim>\<open>Zx_Fifo\<close> (\<^verbatim>\<open>object/fifo_dispatcher.cpp\<close>): the ring buffer with free-running 32-bit counters
    refines a bounded queue of elements; reads and writes that fault are rolled back.
  \<^item> \<^verbatim>\<open>Zx_Mbuf\<close> (\<^verbatim>\<open>object/mbuf.cpp\<close>): chains of buffers refine a byte stream, or a sequence of datagrams as
    long as no recycled buffer has a stale packet length, also when user memory faults; a stale length makes
    a tail of a truncated datagram readable.
  \<^item> \<^verbatim>\<open>Zx_Socket\<close>, \<^verbatim>\<open>Zx_Socket_History\<close> (\<^verbatim>\<open>object/socket_dispatcher.cpp\<close>): in every history of a pair the signals
    report the state, and the bytes accepted are those delivered, in order, followed by those stored; a shutdown lasts.
  \<^item> \<^verbatim>\<open>Zx_Message\<close> (\<^verbatim>\<open>object/message_packet.cpp\<close>, \<^verbatim>\<open>object/buffer_chain.cpp\<close>): packets in chains of
    pages from the physical memory manager; creating a packet and copying it out is the identity on the bytes.
  \<^item> \<^verbatim>\<open>Zx_Channel\<close>, \<^verbatim>\<open>Zx_Channel_History\<close> (\<^verbatim>\<open>object/channel_dispatcher.cpp\<close>): messages are read in the order in which
    they were queued, a reply reaches exactly the call with its transaction id, and closing wakes every
    waiting call. A call is split at its wait. The histories leave out calls that fail with BAD_HANDLE, whose
    effect is shown apart, and calls with \<open>2 ^ 31\<close> threads waiting.
  \<^item> \<^verbatim>\<open>Zx_JobPolicy\<close> (\<^verbatim>\<open>object/job_policy.cpp\<close>): the packed 64-bit policy implements a finite map in which
    explicit entries are never overridden.

  \<^bold>\<open>Memory and ranges\<close>

  \<^item> \<^verbatim>\<open>Zx_Pmm\<close>, \<^verbatim>\<open>Zx_BootReserve\<close> (\<^verbatim>\<open>vm/pmm_node.cpp\<close>, \<^verbatim>\<open>vm/pmm_arena.cpp\<close>, \<^verbatim>\<open>vm/pmm.cpp\<close>,
    \<^verbatim>\<open>vm/bootreserve.cpp\<close>): allocation of pages, ranges and contiguous runs keeps the free list exact and
    fails only when it must; the search between boot reservations ends with the highest placement, or
    without room fails, unless it wraps. Adding page counts to indices is assumed not to overflow.
  \<^item> \<^verbatim>\<open>Zx_Pow2\<close> (\<^verbatim>\<open>include/pow2.h\<close>), \<^verbatim>\<open>Zx_P2ra\<close>, \<^verbatim>\<open>Zx_P2ra_History\<close> (\<^verbatim>\<open>lib/pow2_range_allocator\<close>): the blocks
    held are aligned and disjoint, free blocks are always fully merged, and allocation fails only when no
    aligned region is free, for a maximum size below \<open>2 ^ 31\<close>; with that size adding a range may not end.

  \<^bold>\<open>Threads and the scheduler\<close>

  \<^item> \<^verbatim>\<open>Zx_Time\<close> (\<^verbatim>\<open>system/public/zircon/time.h\<close>): times and durations clamp at 64 bits.
  \<^item> \<^verbatim>\<open>Zx_Thread\<close> (\<^verbatim>\<open>include/kernel/thread.h\<close>, \<^verbatim>\<open>percpu.h\<close>, \<^verbatim>\<open>cpu.h\<close>, \<^verbatim>\<open>mp.h\<close>, \<^verbatim>\<open>wait.h\<close>): threads, processors
    and wait queues as records, and the record \<open>kernel\<close> that maps names to them.
  \<^item> \<^verbatim>\<open>Zx_WaitQueue\<close> (queue operations of \<^verbatim>\<open>kernel/wait.cpp\<close>, \<^verbatim>\<open>include/kernel/wait_queue_internal.h\<close>): the list of heads
    implements a stable priority queue, stated as the locale \<open>priority_queue\<close> and its interpretation.
  \<^item> \<^verbatim>\<open>Zx_Sched\<close> (\<^verbatim>\<open>kernel/sched.cpp\<close>): every function of the file. \<^verbatim>\<open>Zx_Sched_Inv\<close> and \<^verbatim>\<open>Zx_Sched_Ops\<close> state the
    invariant \<open>sinv\<close> of threads, queues and processors and show that every operation keeps it.
  \<^item> \<^verbatim>\<open>Zx_Wait\<close> (blocking and waking of \<^verbatim>\<open>kernel/wait.cpp\<close>, and \<^verbatim>\<open>kernel/event.cpp\<close>), with \<^verbatim>\<open>Zx_Wake\<close> on what waking
    does to the other threads. A call that blocks returns no status; a second definition gives what it
    returns when its thread runs again.
  \<^item> \<^verbatim>\<open>Zx_Dpc\<close> (\<^verbatim>\<open>kernel/dpc.cpp\<close>): queued calls, the rounds of the workers, and the stopping, emptying and
    restarting of processors, as a step relation.
  \<^item> \<^verbatim>\<open>Zx_Threads\<close> (\<^verbatim>\<open>kernel/thread.cpp\<close>): the life of a thread from creation to the join, signals, sleeping and
    the counters against preemption.
  \<^item> \<^verbatim>\<open>Zx_Transition\<close>: when \<^verbatim>\<open>sched_transition_off_cpu\<close> returns.
  \<^item> \<^verbatim>\<open>Zx_Sched_History\<close>: all of these operations in any order on any processor of a machine that has just
    started its idle threads. Each thread is where its state says, processors run a thread of the highest
    priority, waiters are woken by priority and then by arrival, and no signal of an event is lost, nor
    a queued call, except those moved from a processor that was taken away.

  The parts meet as in the code: sockets store bytes in chains of \<^verbatim>\<open>Zx_Mbuf\<close>, channels store packets of
  \<^verbatim>\<open>Zx_Message\<close>, whose pages come from \<^verbatim>\<open>Zx_Pmm\<close>; events and joins use the wait queues, which use the
  scheduler; exiting threads queue deferred calls. Only the wait of a channel call is not connected to the
  scheduler: its result is an argument.

  \<^bold>\<open>Termination\<close>. Loops over a list or a bounded counter are recursive functions with termination proofs.
  Loops that need an invariant to end (ring-buffer copies, buffer chains, the search for a
  transaction id, the splitting and adding of ranges, \<open>transition_loop\<close>) return an option, and the properties
  show that they do return, or exactly when. The loop of \<open>rand_cpu\<close> is given the number of rounds: its counter
  takes every value up to the highest processor in at most 33 rounds, one of which is in the mask.

  \<^bold>\<open>Flaws shown\<close>. A stale packet length in a recycled socket buffer; WRITABLE asserted after a shutdown; a channel
  call that fails with BAD_HANDLE and keeps its waiter marked; range allocator loops and
  assertions that fail for legal ranges; reserved pages freed when a later reservation fails; the
  reservation search below address zero; the wrong sign in the floor of a deboost; a loop that never ends
  when a processor is taken away; moved deferred calls whose worker is not woken.

  \<^bold>\<open>Not modelled\<close>. Owned wait queues, mutexes and the propagation of priorities; the fair scheduler, which
  replaces \<^verbatim>\<open>sched.cpp\<close> in another configuration; the queues of timers, whose handlers may be called at any
  time; hotplug beyond the two transitions above; stacks, thread-local storage, user callbacks and the list
  of all threads; virtual memory; handle tables, processes, ports, futexes and the other objects; system calls,
  which need handle tables; architecture and device code, tracing, statistics and locks; everything
  outside the kernel.
\<close>

end
